(* ===== verification/Prelude.thy ===== *)
theory Prelude
  imports Main "HOL-Library.Word" "HOL-Library.Monad_Syntax"
begin

text \<open>
  Shared vocabulary of the development: the machine integers of the C code, the byte memory the
  kernel works on, little-endian loads and stores of wider integers, page frames, and the generic
  lemmas on counting loops, words and memory regions that the components use.
\<close>

unbundle bit_operations_syntax

section \<open>Machine integers\<close>

text \<open>
  \<^verbatim>\<open>size_t\<close>, \<^verbatim>\<open>uintptr_t\<close> and pointers are 64 bits wide on x86-64. A pointer is its
  address; pointer arithmetic wraps as the machine's does.
\<close>

type_synonym u8 = "8 word"
type_synonym u16 = "16 word"
type_synonym u32 = "32 word"
type_synonym u64 = "64 word"
type_synonym ptr = u64

named_theorems mem_simps \<open>reads of an updated memory\<close>

lemma unat_u64_lt: "unat (a :: u64) < 18446744073709551616"
  using unsigned_less [of a, where 'a = nat] by simp

lemma u64_eq_iff_unat: "(a :: u64) = b \<longleftrightarrow> unat a = unat b"
  by (fact word_unat_eq_iff)

lemma unat_of_nat_u64: "n < 18446744073709551616 \<Longrightarrow> unat (of_nat n :: u64) = n"
  by (simp add: unat_of_nat)

lemma unat_ucast_u32 [simp]: "unat (ucast (x :: u32) :: u64) = unat x"
  using unsigned_less [of x, where 'a = nat] by (simp add: unsigned_ucast_eq take_bit_nat_eq_self)

lemma unat_sub_add_u64: "unat ((a + of_nat k) - a :: u64) = k" if "k < 18446744073709551616"
  using that by (simp add: unat_of_nat)

lemma of_nat_unat_diff: "b + of_nat (unat (a - b)) = (a :: u64)"
  by simp

text \<open>\<^verbatim>\<open>char\<close> is signed: a byte from 128 on is negative.\<close>

lemma uint_u8_bounds: "0 \<le> uint (c :: u8)" "uint c < 256"
  using unsigned_less [of c, where 'a = int] by simp_all

lemma sint_u8: "sint (c :: u8) = (if uint c < 128 then uint c else uint c - 256)"
proof -
  have "sint c = signed_take_bit 7 (uint c)" by (simp add: sint_uint)
  also have "\<dots> = (uint c + 128) mod 256 - 128"
    by (simp add: signed_take_bit_eq_take_bit_shift take_bit_eq_mod)
  finally show ?thesis
    using uint_u8_bounds [of c] mod_pos_pos_trivial [of "uint c + 128" 256]
      mod_pos_pos_trivial [of "uint c - 128" 256] minus_mod_self2 [of "uint c + 128" 256] by auto
qed

lemma char_control_iff: "word_sless (c :: u8) 0x20 \<longleftrightarrow> unat c < 32 \<or> 128 \<le> unat c"
proof -
  have "sint (0x20 :: u8) = 32" by simp
  then show ?thesis
    unfolding word_sless_alt unat_eq_nat_uint [of c] sint_u8 [of c]
    using uint_u8_bounds [of c] by (simp only: split: if_split) arith
qed
section \<open>Counting loops\<close>

text \<open>
  \<^verbatim>\<open>for (size_t i = 0; i < n; i++) body\<close> without an early exit is a fold over \<open>[0..<n]\<close>:
  the counter never exceeds \<open>n\<close>, so it does not wrap. The lemma gives the effect of a loop
  that writes one byte per round to consecutive addresses.
\<close>

lemma fold_upt_Suc: "fold f [0..<Suc n] s = f n (fold f [0..<n] s)"
  by simp

lemma fold_write_range:
  assumes "n \<le> 18446744073709551616"
  shows "fold (\<lambda>i m. m(dst + of_nat i := f i)) [0..<n] m a =
    (if unat (a - dst :: u64) < n then f (unat (a - dst)) else m a)"
  using assms
proof (induction n)
  case 0
  then show ?case by simp
next
  case (Suc n)
  then have n: "n < 18446744073709551616" by simp
  have "a = dst + of_nat n \<longleftrightarrow> unat (a - dst) = n"
    using unat_of_nat_u64 [OF n] by (metis add_diff_cancel_left' of_nat_unat_diff)
  with Suc show ?case by auto
qed

text \<open>
  A loop over a list whose body may fail to return (\<open>None\<close>).
\<close>

fun for_each :: "('a \<Rightarrow> 's \<Rightarrow> 's option) \<Rightarrow> 'a list \<Rightarrow> 's \<Rightarrow> 's option" where
  "for_each f [] s = Some s"
| "for_each f (x # xs) s = Option.bind (f x s) (for_each f xs)"

lemma for_each_append:
  "for_each f (xs @ ys) s = Option.bind (for_each f xs s) (for_each f ys)"
  by (induction xs arbitrary: s) (auto split: Option.bind_split)

lemma for_each_invariant:
  assumes "P 0 s" and "\<And>k t. k < length xs \<Longrightarrow> P k t \<Longrightarrow> \<exists>t'. f (xs ! k) t = Some t' \<and> P (Suc k) t'"
  shows "\<exists>t. for_each f xs s = Some t \<and> P (length xs) t"
  using assms
proof (induction xs arbitrary: s P)
  case (Cons x xs)
  from Cons.prems(2) [of 0 s] Cons.prems(1) obtain t where t: "f x s = Some t" "P 1 t" by auto
  have "\<exists>u. for_each f xs t = Some u \<and> P (Suc (length xs)) u"
  proof (rule Cons.IH [where P = "\<lambda>k. P (Suc k)"])
    show "P (Suc 0) t" using t by simp
    show "\<exists>t'. f (xs ! k) u = Some t' \<and> P (Suc (Suc k)) t'"
      if "k < length xs" "P (Suc k) u" for k u
      using Cons.prems(2) [of "Suc k" u] that by simp
  qed
  with t show ?case by simp
qed simp

section \<open>Byte memory\<close>

text \<open>
  The memory is a function from pointer values to bytes. The kernel reaches physical memory through
  one window (physical address \<open>p\<close> at pointer \<open>p + 0xffff800000000000\<close>) and its heap through
  another; both are ranges of pointer values here.
\<close>

type_synonym mem = "ptr \<Rightarrow> u8"

definition load32 :: "mem \<Rightarrow> ptr \<Rightarrow> u32" where
  "load32 m p =
     ucast (m p) OR push_bit 8 (ucast (m (p + 1))) OR
     push_bit 16 (ucast (m (p + 2))) OR push_bit 24 (ucast (m (p + 3)))"

definition load64 :: "mem \<Rightarrow> ptr \<Rightarrow> u64" where
  "load64 m p =
     ucast (m p) OR push_bit 8 (ucast (m (p + 1))) OR
     push_bit 16 (ucast (m (p + 2))) OR push_bit 24 (ucast (m (p + 3))) OR
     push_bit 32 (ucast (m (p + 4))) OR push_bit 40 (ucast (m (p + 5))) OR
     push_bit 48 (ucast (m (p + 6))) OR push_bit 56 (ucast (m (p + 7)))"

definition store64 :: "mem \<Rightarrow> ptr \<Rightarrow> u64 \<Rightarrow> mem" where
  "store64 m p v = m(
     p := ucast v, p + 1 := ucast (drop_bit 8 v),
     p + 2 := ucast (drop_bit 16 v), p + 3 := ucast (drop_bit 24 v),
     p + 4 := ucast (drop_bit 32 v), p + 5 := ucast (drop_bit 40 v),
     p + 6 := ucast (drop_bit 48 v), p + 7 := ucast (drop_bit 56 v))"

definition store16 :: "mem \<Rightarrow> ptr \<Rightarrow> u16 \<Rightarrow> mem" where
  "store16 m p v = m(p := ucast v, p + 1 := ucast (drop_bit 8 v))"

definition store32 :: "mem \<Rightarrow> ptr \<Rightarrow> u32 \<Rightarrow> mem" where
  "store32 m p v = m(
     p := ucast v, p + 1 := ucast (drop_bit 8 v),
     p + 2 := ucast (drop_bit 16 v), p + 3 := ucast (drop_bit 24 v))"

lemma byte_slice:
  "k + 8 \<le> 64 \<Longrightarrow>
   push_bit k (ucast (ucast (drop_bit k (v :: u64)) :: u8)) = v AND push_bit k (mask 8)"
  by (rule bit_word_eqI) (auto simp: bit_simps)

lemma byte_slice_0: "ucast (ucast (v :: u64) :: u8) = v AND mask 8"
  by (rule bit_word_eqI) (auto simp: bit_simps)

lemma bytes_of_u64:
  "(ucast (ucast v :: u8) :: u64) OR push_bit 8 (ucast (ucast (drop_bit 8 v) :: u8)) OR
   push_bit 16 (ucast (ucast (drop_bit 16 v) :: u8)) OR
   push_bit 24 (ucast (ucast (drop_bit 24 v) :: u8)) OR
   push_bit 32 (ucast (ucast (drop_bit 32 v) :: u8)) OR
   push_bit 40 (ucast (ucast (drop_bit 40 v) :: u8)) OR
   push_bit 48 (ucast (ucast (drop_bit 48 v) :: u8)) OR
   push_bit 56 (ucast (ucast (drop_bit 56 v) :: u8)) = (v :: u64)"
proof -
  have "(mask 8 :: u64) OR push_bit 8 (mask 8) OR push_bit 16 (mask 8) OR push_bit 24 (mask 8) OR
    push_bit 32 (mask 8) OR push_bit 40 (mask 8) OR push_bit 48 (mask 8) OR
    push_bit 56 (mask 8) = - 1"
    by (simp add: mask_eq_exp_minus_1 push_bit_eq_mult)
  then show ?thesis
    by (subst byte_slice_0, (subst byte_slice, simp)+)
      (simp only: bit.conj_disj_distrib [symmetric] bit.conj_one_right)
qed

lemma load64_store64_same [simp]: "load64 (store64 m p v) p = v"
  unfolding load64_def store64_def by (simp only: fun_upd_def) (simp add: bytes_of_u64)

lemma store64_store64_same [simp]: "store64 (store64 m p v) p w = store64 m p w"
  by (rule ext) (simp add: store64_def)

lemma store64_other [mem_simps]:
  assumes "\<not> a - p < 8"
  shows "store64 m p v a = m a"
proof -
  have "a \<noteq> p + k" if "k < 8" for k
    using assms that by auto
  from this [of 0] this show ?thesis by (simp add: store64_def)
qed

lemma load64_cong:
  assumes "\<And>k. k < 8 \<Longrightarrow> m (p + k) = m' (p + k)"
  shows "load64 m p = load64 m' p"
  using assms [of 0] assms [of 1] assms [of 2] assms [of 3] assms [of 4] assms [of 5]
    assms [of 6] assms [of 7]
  by (simp add: load64_def)

lemma load64_store64_other [mem_simps]:
  assumes "8 \<le> q - p" and "8 \<le> p - q"
  shows "load64 (store64 m p v) q = load64 m q"
proof (rule load64_cong, rule store64_other)
  fix k :: u64
  assume "k < 8"
  with assms show "\<not> q + k - p < 8" by unat_arith
qed

lemma load64_zero:
  assumes "\<And>k. k < 8 \<Longrightarrow> m (p + k) = 0"
  shows "load64 m p = 0"
  using assms [of 0] assms [of 1] assms [of 2] assms [of 3] assms [of 4] assms [of 5]
    assms [of 6] assms [of 7]
  by (simp add: load64_def)

lemma store16_other [mem_simps]:
  assumes "\<not> a - p < 2"
  shows "store16 m p v a = m a"
proof -
  have "a \<noteq> p + k" if "k < 2" for k
    using assms that by auto
  from this [of 0] this show ?thesis by (simp add: store16_def)
qed

lemma store32_other [mem_simps]:
  assumes "\<not> a - p < 4"
  shows "store32 m p v a = m a"
proof -
  have "a \<noteq> p + k" if "k < 4" for k
    using assms that by auto
  from this [of 0] this show ?thesis by (simp add: store32_def)
qed

lemma load32_cong:
  assumes "\<And>k. k < 4 \<Longrightarrow> m (p + k) = m' (p + k)"
  shows "load32 m p = load32 m' p"
  using assms [of 0] assms [of 1] assms [of 2] assms [of 3] by (simp add: load32_def)

lemma load32_store32_same [simp]: "load32 (store32 m p v) p = v"
proof -
  have "ucast (ucast v :: u8) OR push_bit 8 (ucast (ucast (drop_bit 8 v) :: u8)) OR
     push_bit 16 (ucast (ucast (drop_bit 16 v) :: u8)) OR
     push_bit 24 (ucast (ucast (drop_bit 24 v) :: u8)) = v"
    (is "?w = v")
  proof (rule bit_word_eqI)
    fix n assume "n < LENGTH(32)"
    then show "bit ?w n = bit v n"
      by (cases "24 \<le> n"; cases "16 \<le> n"; cases "8 \<le> n") (auto simp: bit_simps)
  qed
  then show ?thesis
    unfolding load32_def store32_def by (simp only: fun_upd_def) simp
qed

section \<open>Page frames\<close>

text \<open>
  A frame is 4096 bytes. \<open>frame p\<close> is the set of addresses in the frame of \<open>p\<close>;
  a page table is a frame of 512 entries of eight bytes.
\<close>

definition page_aligned :: "ptr \<Rightarrow> bool" where
  "page_aligned p \<longleftrightarrow> 4096 dvd unat p"

definition frame :: "ptr \<Rightarrow> ptr set" where
  "frame p = {a. unat a div 4096 = unat p div 4096}"

lemma page_alignedE:
  assumes "page_aligned p"
  obtains k where "unat p = 4096 * k" and "k < 4503599627370496"
  using assms unat_u64_lt [of p] unfolding page_aligned_def by (elim dvdE) simp

lemma page_aligned_le: "page_aligned p \<Longrightarrow> unat p \<le> 18446744073709551616 - 4096"
  by (elim page_alignedE) simp

lemma unat_page_offset:
  assumes "page_aligned p" and "k < 4096"
  shows "unat (p + of_nat k) = unat p + k"
  using page_aligned_le [OF assms(1)] assms(2) by (simp add: unat_word_ariths unat_of_nat)

lemma unat_slot:
  assumes "page_aligned p" and "i < 512"
  shows "unat (p + 8 * i) = unat p + 8 * unat i"
proof -
  have "unat i < 512" using assms(2) by (simp add: word_less_nat_alt)
  then show ?thesis using page_aligned_le [OF assms(1)] by (simp add: unat_word_ariths)
qed

lemma unat_slot_byte:
  assumes "page_aligned p" and "i < 512" and "k < 8"
  shows "unat (p + 8 * i + k) = unat p + 8 * unat i + unat k"
proof -
  have "unat i < 512" and "unat k < 8"
    using assms(2,3) by (simp_all add: word_less_nat_alt)
  then show ?thesis
    using page_aligned_le [OF assms(1)] unat_slot [OF assms(1,2)]
    by (subst unat_word_ariths(1)) simp
qed

lemma slot_eq:
  assumes "page_aligned p" and "page_aligned q" and "i < 512" and "j < 512"
  shows "p + 8 * i = q + 8 * j \<longleftrightarrow> p = q \<and> i = j"
proof
  assume "p + 8 * i = q + 8 * j"
  then have eq: "unat p + 8 * unat i = unat q + 8 * unat j"
    using assms by (metis unat_slot)
  have lt: "unat i < 512" "unat j < 512"
    using assms(3,4) by (simp_all add: word_less_nat_alt)
  obtain k l where kl: "unat p = 4096 * k" "unat q = 4096 * l"
    using assms(1,2) by (metis page_alignedE)
  from this eq lt have "k = l" by (cases k l rule: linorder_cases) linarith+
  with kl eq show "p = q \<and> i = j" by (simp add: u64_eq_iff_unat)
qed simp

lemma slot_in_frame:
  assumes "page_aligned p" and "i < 512" and "k < 8"
  shows "p + 8 * i + k \<in> frame p"
proof -
  have "unat i < 512" and "unat k < 8"
    using assms(2,3) by (simp_all add: word_less_nat_alt)
  moreover from page_alignedE [OF assms(1)] obtain q where "unat p = 4096 * q" by blast
  ultimately show ?thesis
    by (simp add: frame_def unat_slot_byte [OF assms])
qed

lemma frame_self [simp]: "p \<in> frame p"
  by (simp add: frame_def)

lemma frame_disjoint:
  assumes "page_aligned p" and "page_aligned q" and "p \<noteq> q"
  shows "frame p \<inter> frame q = {}"
proof -
  from assms obtain k l where "unat p = 4096 * k" "unat q = 4096 * l"
    by (metis page_alignedE)
  with assms(3) show ?thesis by (auto simp: frame_def u64_eq_iff_unat)
qed

lemma in_frame_iff:
  assumes "page_aligned p"
  shows "a \<in> frame p \<longleftrightarrow> unat (a - p) < 4096"
proof -
  from page_alignedE [OF assms] obtain k where k: "unat p = 4096 * k" "k < 4503599627370496"
    by blast
  show ?thesis
  proof
    assume "a \<in> frame p"
    then have "unat a div 4096 = k" by (simp add: frame_def k)
    then have "4096 * k \<le> unat a" and "unat a < 4096 * k + 4096" by linarith+
    with k show "unat (a - p) < 4096"
      by (simp add: unat_sub word_le_nat_alt)
  next
    assume *: "unat (a - p) < 4096"
    have "unat a = unat (p + of_nat (unat (a - p)))" by simp
    also have "\<dots> = 4096 * k + unat (a - p)"
      using unat_page_offset [OF assms *] k by simp
    finally show "a \<in> frame p" using * by (simp add: frame_def k)
  qed
qed

lemma load64_frame_cong:
  assumes "page_aligned p" and "i < 512" and "\<And>a. a \<in> frame p \<Longrightarrow> m a = m' a"
  shows "load64 m (p + 8 * i) = load64 m' (p + 8 * i)"
  by (rule load64_cong) (rule assms(3), rule slot_in_frame, use assms in auto)

lemma store64_slot_other:
  assumes "page_aligned p" and "i < 512" and "a \<notin> frame p"
  shows "store64 m (p + 8 * i) v a = m a"
proof (rule store64_other, rule notI)
  assume "a - (p + 8 * i) < 8"
  then have "p + 8 * i + (a - (p + 8 * i)) \<in> frame p"
    using assms by (intro slot_in_frame) auto
  with assms(3) show False by simp
qed

lemma load64_store64_slot:
  assumes "page_aligned p" and "page_aligned q" and "i < 512" and "j < 512"
  shows "load64 (store64 m (p + 8 * i) v) (q + 8 * j) =
    (if p = q \<and> i = j then v else load64 m (q + 8 * j))"
proof (cases "p = q \<and> i = j")
  case False
  have "load64 (store64 m (p + 8 * i) v) (q + 8 * j) = load64 m (q + 8 * j)"
  proof (rule load64_cong, rule store64_other, rule notI)
    fix k :: u64
    assume k: "k < 8" and in8: "q + 8 * j + k - (p + 8 * i) < 8"
    define l where "l = q + 8 * j + k - (p + 8 * i)"
    have "p + 8 * i + l = q + 8 * j + k"
      unfolding l_def by (simp only: add.commute [of "p + 8 * i"] diff_add_cancel)
    moreover have l8: "l < 8" using in8 by (simp add: l_def)
    ultimately have eq: "unat p + 8 * unat i + unat l = unat q + 8 * unat j + unat k"
      using unat_slot_byte [OF assms(1,3) l8] unat_slot_byte [OF assms(2,4) k] by metis
    have "8 dvd unat p" and "8 dvd unat q"
      using assms(1,2) unfolding page_aligned_def by (auto intro: dvd_trans [of 8 4096])
    then obtain x y where xy: "unat p = 8 * x" "unat q = 8 * y" by (elim dvdE)
    have "unat l < 8" and "unat k < 8"
      using k l8 by (simp_all add: word_less_nat_alt)
    with eq xy have "unat p + 8 * unat i = unat q + 8 * unat j" by presburger
    then have "p + 8 * i = q + 8 * j"
      using assms by (simp add: u64_eq_iff_unat unat_slot)
    with False assms show False by (simp add: slot_eq)
  qed
  with False show ?thesis by auto
qed auto

subsection \<open>Masking the low twelve bits\<close>

lemma mask12: "(0xfff :: u64) = mask 12"
  by (simp add: mask_eq_exp_minus_1)

lemma and_not_fff: "(a :: u64) AND NOT 0xfff = push_bit 12 (drop_bit 12 a)"
  unfolding mask12 by (rule bit_word_eqI) (auto simp: bit_simps)

lemma unat_and_not_fff: "unat ((a :: u64) AND NOT 0xfff) = unat a div 4096 * 4096"
  unfolding and_not_fff push_bit_eq_mult drop_bit_eq_div
  using unat_u64_lt [of a] by (simp add: unat_word_ariths unat_div)

lemma unat_and_fff: "unat ((a :: u64) AND 0xfff) = unat a mod 4096"
  unfolding mask12 take_bit_eq_mask [symmetric] by (simp add: take_bit_eq_mod unat_mod)

end
