(* ===== verification/Addrutil.thy ===== *)
theory Addrutil
  imports Prelude
begin

text \<open>
  Address arithmetic (\<^verbatim>\<open>memory/addrutil.c\<close>): the window that maps physical memory at
  \<^verbatim>\<open>VADDR_HIGHER\<close>, alignment to powers of two, and the test for user pointers.
\<close>

definition VADDR_HIGHER :: u64 where
  "VADDR_HIGHER = 0xffff800000000000"

definition addr_offset_higher :: "u64 \<Rightarrow> u64" where
  "addr_offset_higher p = p + VADDR_HIGHER"

definition addr_offset_lower :: "u64 \<Rightarrow> u64" where
  "addr_offset_lower p = p - VADDR_HIGHER"

definition addr_ensure_higher :: "u64 \<Rightarrow> u64" where
  "addr_ensure_higher p = p OR VADDR_HIGHER"

definition addr_ensure_lower :: "u64 \<Rightarrow> u64" where
  "addr_ensure_lower p = p AND NOT VADDR_HIGHER"

definition addr_align_up :: "u64 \<Rightarrow> u64 \<Rightarrow> u64" where
  "addr_align_up p a = (p + a - 1) AND NOT (a - 1)"

definition addr_align_down :: "u64 \<Rightarrow> u64 \<Rightarrow> u64" where
  "addr_align_down p a = p AND NOT (a - 1)"

definition addr_page_align_up :: "u64 \<Rightarrow> u64" where
  "addr_page_align_up p = addr_align_up p 0x1000"

definition addr_page_align_down :: "u64 \<Rightarrow> u64" where
  "addr_page_align_down p = addr_align_down p 0x1000"

definition ptr_is_user :: "ptr \<Rightarrow> bool" where
  "ptr_is_user p \<longleftrightarrow> p \<le> 0x7ffffffffff0"

section \<open>The two halves of the address space\<close>

lemma VADDR_HIGHER_mask: "VADDR_HIGHER = NOT (mask 47)"
  by (simp add: VADDR_HIGHER_def mask_eq_exp_minus_1)

lemma unat_VADDR_HIGHER: "unat VADDR_HIGHER = 18446603336221196288"
  by (simp add: VADDR_HIGHER_def)

lemma addr_ensure_lower_take_bit: "addr_ensure_lower p = take_bit 47 p"
  unfolding addr_ensure_lower_def VADDR_HIGHER_mask by (simp add: take_bit_eq_mask)

lemma unat_addr_ensure_lower: "unat (addr_ensure_lower p) = unat p mod 140737488355328"
  unfolding addr_ensure_lower_take_bit take_bit_eq_mod by (simp add: unat_mod)

lemma addr_ensure_higher_split: "addr_ensure_higher p = addr_ensure_lower p + VADDR_HIGHER"
proof -
  have "addr_ensure_higher p = take_bit 47 p OR VADDR_HIGHER"
    unfolding addr_ensure_higher_def VADDR_HIGHER_mask
    by (rule bit_word_eqI) (auto simp: bit_simps)
  also have "\<dots> = take_bit 47 p + VADDR_HIGHER"
    unfolding VADDR_HIGHER_mask
    by (rule disjunctive_add [symmetric]) (auto simp: bit_simps)
  finally show ?thesis by (simp add: addr_ensure_lower_take_bit)
qed

lemma unat_addr_ensure_higher:
  "unat (addr_ensure_higher p) = unat p mod 140737488355328 + 18446603336221196288"
proof -
  have "unat p mod 140737488355328 < 140737488355328" by simp
  then show ?thesis
    unfolding addr_ensure_higher_split
    by (simp add: unat_word_ariths unat_addr_ensure_lower unat_VADDR_HIGHER)
qed

lemma addr_ensure_lower_phys: "p < 0x800000000000 \<Longrightarrow> addr_ensure_lower p = p"
  by (simp add: u64_eq_iff_unat unat_addr_ensure_lower word_less_nat_alt)

lemma addr_ensure_higher_phys:
  "p < 0x800000000000 \<Longrightarrow> addr_ensure_higher p = addr_offset_higher p"
  by (simp add: addr_ensure_higher_split addr_offset_higher_def addr_ensure_lower_phys)

lemma addr_ensure_higher_high: "VADDR_HIGHER \<le> p \<Longrightarrow> addr_ensure_higher p = p"
proof -
  assume "VADDR_HIGHER \<le> p"
  then have "131071 * 140737488355328 \<le> unat p"
    by (simp add: word_le_nat_alt unat_VADDR_HIGHER)
  then obtain r where r: "unat p = r + 131071 * 140737488355328"
    by (metis le_add_diff_inverse2)
  with unat_u64_lt [of p] have "r < 140737488355328" by simp
  with r have "unat p mod 140737488355328 = r"
    by (simp only: mod_mult_self1 mod_less)
  with r show ?thesis
    by (simp add: u64_eq_iff_unat unat_addr_ensure_higher)
qed

lemma addr_ensure_lower_higher: "addr_ensure_lower (addr_ensure_higher p) = addr_ensure_lower p"
  unfolding addr_ensure_higher_def addr_ensure_lower_def
  by (simp add: bit.conj_disj_distrib2)

lemma unat_addr_offset_higher:
  "p < 0x800000000000 \<Longrightarrow> unat (addr_offset_higher p) = unat p + 18446603336221196288"
  by (simp add: addr_offset_higher_def unat_word_ariths unat_VADDR_HIGHER word_less_nat_alt)

lemma addr_offset_lower_higher [simp]: "addr_offset_lower (addr_offset_higher p) = p"
  by (simp add: addr_offset_higher_def addr_offset_lower_def)

section \<open>Alignment\<close>

lemma unat_exp_u64: "k < 64 \<Longrightarrow> unat (2 ^ k :: u64) = 2 ^ k"
proof -
  assume "k < 64"
  then have "(2 :: nat) ^ k < 2 ^ 64" by (rule power_strict_increasing) simp
  then have "unat (of_nat (2 ^ k) :: u64) = 2 ^ k" by (intro unat_of_nat_u64) simp
  then show ?thesis by simp
qed

lemma addr_align_down_exp:
  assumes "k < 64"
  shows "unat (addr_align_down p (2 ^ k)) = unat p div 2 ^ k * 2 ^ k"
proof -
  have "addr_align_down p (2 ^ k) = push_bit k (drop_bit k p)"
    unfolding addr_align_down_def mask_eq_exp_minus_1 [symmetric]
    by (rule bit_word_eqI) (auto simp: bit_simps)
  moreover have "unat p div 2 ^ k * 2 ^ k < 18446744073709551616"
    using unat_u64_lt [of p] div_times_less_eq_dividend [of "unat p" "2 ^ k"] by linarith
  moreover have "unat p div 2 ^ k < 18446744073709551616"
    using unat_u64_lt [of p] div_le_dividend [of "unat p" "2 ^ k"] by linarith
  ultimately show ?thesis
    using assms
    by (simp add: push_bit_eq_mult drop_bit_eq_div unat_word_ariths unat_div unat_exp_u64)
qed

lemma addr_align_up_down: "addr_align_up p a = addr_align_down (p + (a - 1)) a"
  by (simp add: addr_align_up_def addr_align_down_def add_diff_eq)

lemma addr_align_up_exp:
  assumes "k < 64" and "unat p + 2 ^ k - 1 < 2 ^ 64"
  shows "unat (addr_align_up p (2 ^ k)) = (unat p + 2 ^ k - 1) div 2 ^ k * 2 ^ k"
proof -
  have "unat (2 ^ k - 1 :: u64) = 2 ^ k - 1"
    using assms(1) by (simp add: unat_minus_one unat_exp_u64)
  then have "unat (p + (2 ^ k - 1)) = unat p + 2 ^ k - 1"
    using assms(2) by (simp add: unat_word_ariths)
  then show ?thesis
    by (simp add: addr_align_up_down addr_align_down_exp [OF assms(1)])
qed


section \<open>Properties\<close>

text \<open>The window is a bijection on physical addresses below \<open>2 ^ 47\<close>: both ways into it
  agree, both ways out undo both ways in, and going in twice changes nothing.\<close>

theorem addr_window_roundtrip:
  assumes "p < 0x800000000000"
  shows "addr_ensure_higher p = addr_offset_higher p \<and>
    addr_ensure_lower (addr_offset_higher p) = p \<and> addr_offset_lower (addr_ensure_higher p) = p \<and>
    addr_ensure_higher (addr_ensure_higher p) = addr_ensure_higher p \<and>
    \<not> ptr_is_user (addr_ensure_higher p)"
proof -
  note h = addr_ensure_higher_phys [OF assms]
  have "addr_ensure_lower (addr_offset_higher p) = p"
    using addr_ensure_lower_higher [of p] addr_ensure_lower_phys [OF assms] h by simp
  moreover have "addr_ensure_higher (addr_ensure_higher p) = addr_ensure_higher p"
    by (simp add: addr_ensure_higher_def)
  moreover have "\<not> ptr_is_user (addr_ensure_higher p)"
    using unat_addr_ensure_higher [of p] by (simp add: ptr_is_user_def word_le_nat_alt)
  ultimately show ?thesis using h by simp
qed

theorem addr_window_roundtrip_witness:
  "addr_ensure_lower (addr_offset_higher 0x1234000) = 0x1234000"
  using addr_window_roundtrip [of "0x1234000"] by simp

text \<open>For a power of two, \<^verbatim>\<open>addr_align_up\<close> is the least multiple that is not below the
  address and \<^verbatim>\<open>addr_align_down\<close> the greatest that is not above it.\<close>

theorem addr_align_exact:
  assumes "k < 64" and "unat p + 2 ^ k - 1 < 2 ^ 64"
  shows "2 ^ k dvd unat (addr_align_up p (2 ^ k)) \<and> unat p \<le> unat (addr_align_up p (2 ^ k)) \<and>
    unat (addr_align_up p (2 ^ k)) < unat p + 2 ^ k \<and>
    2 ^ k dvd unat (addr_align_down p (2 ^ k)) \<and> unat (addr_align_down p (2 ^ k)) \<le> unat p \<and>
    unat p < unat (addr_align_down p (2 ^ k)) + 2 ^ k"
proof -
  note up = addr_align_up_exp [OF assms] and down = addr_align_down_exp [OF assms(1), of p]
  have pos: "0 < (2 :: nat) ^ k" by simp
  have up_le: "(unat p + 2 ^ k - 1) div 2 ^ k * 2 ^ k \<le> unat p + 2 ^ k - 1"
    by (rule div_times_less_eq_dividend)
  have up_gt: "unat p + 2 ^ k - 1 < (unat p + 2 ^ k - 1) div 2 ^ k * 2 ^ k + 2 ^ k"
    using mod_less_divisor [OF pos, of "unat p + 2 ^ k - 1"]
      div_mult_mod_eq [of "unat p + 2 ^ k - 1" "2 ^ k"] by linarith
  have down_gt: "unat p < unat p div 2 ^ k * 2 ^ k + 2 ^ k"
    using mod_less_divisor [OF pos, of "unat p"] div_mult_mod_eq [of "unat p" "2 ^ k"] by linarith
  show ?thesis
    unfolding up down using up_le up_gt down_gt pos div_times_less_eq_dividend [of "unat p" "2 ^ k"]
    by (intro conjI dvd_triv_right) linarith+
qed

theorem addr_align_exact_witness:
  "unat (addr_align_up 0x1001 (2 ^ 12)) = 0x2000"
proof -
  have "unat (0x1001 :: u64) + 2 ^ 12 - 1 < 2 ^ 64" by simp
  from addr_align_exact [of 12, OF _ this] show ?thesis by (simp add: addr_align_up_def)
qed

text \<open>The header asks for an alignment that is a multiple of two; that is not enough. For 6,
  the address 1 is aligned up to 2 and the address 7 is aligned down to 2, which are no multiples
  of 6.\<close>

theorem addr_align_needs_power_of_two:
  "addr_align_up 1 6 = 2 \<and> addr_align_down 7 6 = 2 \<and> \<not> 6 dvd unat (addr_align_up 1 6)"
  by (simp add: addr_align_up_def addr_align_down_def)

end
