(* ===== verification/Memutil.thy ===== *)
theory Memutil
  imports Prelude
begin

text \<open>
  The byte-wise memory routines of \<^verbatim>\<open>libk/memutil.c\<close> as loops over the byte memory, and
  closed forms of their effect. The C functions return \<^verbatim>\<open>dst\<close>; the model returns the new
  memory, since every caller knows \<^verbatim>\<open>dst\<close> already.
\<close>

fun memcmp_from :: "mem \<Rightarrow> ptr \<Rightarrow> ptr \<Rightarrow> nat list \<Rightarrow> int" where
  "memcmp_from m str1 str2 [] = 0"
| "memcmp_from m str1 str2 (i # is) =
     (if m (str1 + of_nat i) < m (str2 + of_nat i) then - 1
      else if m (str1 + of_nat i) > m (str2 + of_nat i) then 1
      else memcmp_from m str1 str2 is)"

definition memcmp :: "mem \<Rightarrow> ptr \<Rightarrow> ptr \<Rightarrow> u64 \<Rightarrow> int" where
  "memcmp m str1 str2 n = memcmp_from m str1 str2 [0..<unat n]"

definition memcpy :: "mem \<Rightarrow> ptr \<Rightarrow> ptr \<Rightarrow> u64 \<Rightarrow> mem" where
  "memcpy m dst src n =
     fold (\<lambda>i m. m(dst + of_nat i := m (src + of_nat i))) [0..<unat n] m"

definition memset :: "mem \<Rightarrow> ptr \<Rightarrow> u8 \<Rightarrow> u64 \<Rightarrow> mem" where
  "memset m dst c n = fold (\<lambda>i m. m(dst + of_nat i := c)) [0..<unat n] m"

section \<open>Closed forms\<close>

lemma memset_apply [mem_simps]:
  "memset m dst c n a = (if a - dst < n then c else m a)"
  using fold_write_range [where f = "\<lambda>_. c" and n = "unat n"] unat_u64_lt [of n]
  by (simp add: memset_def word_less_nat_alt)

text \<open>
  \<open>memcpy\<close> copies upwards. When the destination starts \<open>d\<close> bytes above the source with
  \<open>0 < d < n\<close>, the bytes read late were written early, and the first \<open>d\<close> bytes
  repeat; in every other case the source is read unchanged. Both are one formula, as
  \<open>k mod 0 = k\<close>.
\<close>

lemma memcpy_loop:
  assumes "n \<le> 18446744073709551616"
  shows "fold (\<lambda>i m. m(dst + of_nat i := m (src + of_nat i))) [0..<n] m a =
    (if unat (a - dst :: u64) < n
     then m (src + of_nat (unat (a - dst) mod unat (dst - src))) else m a)"
  using assms
proof (induction n arbitrary: a)
  case 0
  then show ?case by simp
next
  case (Suc n)
  let ?d = "unat (dst - src)"
  let ?step = "\<lambda>i m. m(dst + of_nat i := m (src + of_nat i))"
  let ?mn = "fold ?step [0..<n] m"
  from Suc.prems have n: "n < 18446744073709551616" by simp
  have eq: "a = dst + of_nat n \<longleftrightarrow> unat (a - dst) = n" for a :: u64
    using unat_of_nat_u64 [OF n] by (metis add_diff_cancel_left' of_nat_unat_diff)
  have IH: "?mn a = (if unat (a - dst) < n
      then m (src + of_nat (unat (a - dst) mod ?d)) else m a)" for a
    by (rule Suc.IH) (use n in simp)
  have "?mn (src + of_nat n) = m (src + of_nat (n mod ?d))"
  proof (cases "?d \<le> n \<and> 0 < ?d")
    case True
    have "src + of_nat n - dst = of_nat n - (dst - src)" by simp
    also have "\<dots> = of_nat (n - ?d)" using True by simp
    finally have "unat (src + of_nat n - dst) = n - ?d"
      using n by (simp add: unat_of_nat_u64)
    with True show ?thesis
      unfolding IH by (simp add: le_mod_geq)
  next
    case False
    have "\<not> unat (src + of_nat n - dst) < n"
    proof
      assume lt: "unat (src + of_nat n - dst) < n"
      define j where "j = unat (src + of_nat n - dst)"
      have "dst - src + of_nat j = of_nat n" by (simp add: j_def)
      then have "dst - src = of_nat n - of_nat j" by (metis add_diff_cancel_right')
      also have "\<dots> = of_nat (n - j)" using lt by (simp add: j_def)
      finally have "?d = n - j" using n by (simp add: unat_of_nat_u64)
      with False lt show False by (simp add: j_def)
    qed
    moreover from False have "n mod ?d = n" by auto
    ultimately show ?thesis unfolding IH by simp
  qed
  moreover have "fold ?step [0..<Suc n] m a =
      (if a = dst + of_nat n then ?mn (src + of_nat n) else ?mn a)"
    unfolding fold_upt_Suc by (rule fun_upd_apply)
  ultimately show ?case
    using eq [of a] by (simp only: IH less_Suc_eq split: if_split) simp
qed

lemma memcpy_apply:
  "memcpy m dst src n a =
     (if a - dst < n then m (src + of_nat (unat (a - dst) mod unat (dst - src))) else m a)"
  unfolding memcpy_def word_less_nat_alt
  by (rule memcpy_loop) (use unat_u64_lt [of n] in simp)

lemma memcpy_disjoint [mem_simps]:
  assumes "n \<le> dst - src \<or> dst = src"
  shows "memcpy m dst src n a = (if a - dst < n then m (src + (a - dst)) else m a)"
proof -
  have "unat (a - dst) mod unat (dst - src) = unat (a - dst)" if "a - dst < n"
    using assms that by (auto simp: word_less_nat_alt word_le_nat_alt)
  then show ?thesis by (simp add: memcpy_apply)
qed

lemma memcmp_from_zero_iff:
  "memcmp_from m p q is = 0 \<longleftrightarrow> (\<forall>i\<in>set is. m (p + of_nat i) = m (q + of_nat i))"
  by (induction "is") auto

lemma memcmp_from_append:
  "memcmp_from m p q (is @ js) =
     (if memcmp_from m p q is = 0 then memcmp_from m p q js else memcmp_from m p q is)"
  by (induction "is") auto

end
