(* ===== verification/Bitmap.thy ===== *)
theory Bitmap
  imports Prelude
begin

text \<open>
  The bit array of \<^verbatim>\<open>memory/bitmap.c\<close>: bit \<open>n\<close> lives in byte \<open>n / 8\<close> of the buffer,
  at position \<open>n % 8\<close>. The locale states what a bit array promises its clients; the
  interpretation shows that the C routines keep that promise on the byte memory.
\<close>

record bitmap =
  bm_buf :: ptr
  bm_len :: u64

definition bitmap_isset :: "mem \<Rightarrow> bitmap \<Rightarrow> u64 \<Rightarrow> bool" where
  "bitmap_isset m bm n \<longleftrightarrow> m (bm_buf bm + n div 8) AND push_bit (unat (n mod 8)) 1 \<noteq> 0"

definition bitmap_set :: "mem \<Rightarrow> bitmap \<Rightarrow> u64 \<Rightarrow> mem" where
  "bitmap_set m bm n =
     (let a = bm_buf bm + n div 8 in m(a := m a OR push_bit (unat (n mod 8)) 1))"

definition bitmap_unset :: "mem \<Rightarrow> bitmap \<Rightarrow> u64 \<Rightarrow> mem" where
  "bitmap_unset m bm n =
     (let a = bm_buf bm + n div 8 in m(a := m a AND NOT (push_bit (unat (n mod 8)) 1)))"

definition bitmap_flip :: "mem \<Rightarrow> bitmap \<Rightarrow> u64 \<Rightarrow> mem" where
  "bitmap_flip m bm n =
     (let a = bm_buf bm + n div 8 in m(a := m a XOR push_bit (unat (n mod 8)) 1))"

section \<open>The interface of a bit array\<close>

locale bit_array =
  fixes isset :: "'s \<Rightarrow> 'i \<Rightarrow> bool"
    and set1 :: "'s \<Rightarrow> 'i \<Rightarrow> 's"
    and unset1 :: "'s \<Rightarrow> 'i \<Rightarrow> 's"
    and flip1 :: "'s \<Rightarrow> 'i \<Rightarrow> 's"
  assumes isset_set1: "isset (set1 s i) j \<longleftrightarrow> j = i \<or> isset s j"
    and isset_unset1: "isset (unset1 s i) j \<longleftrightarrow> j \<noteq> i \<and> isset s j"
    and isset_flip1: "isset (flip1 s i) j \<longleftrightarrow> (if j = i then \<not> isset s j else isset s j)"
begin

lemma isset_fold_set1:
  "isset (fold (\<lambda>i s. set1 s i) is s) j \<longleftrightarrow> j \<in> set is \<or> isset s j"
  by (induction "is" arbitrary: s) (auto simp: isset_set1)

lemma isset_fold_unset1:
  "isset (fold (\<lambda>i s. unset1 s i) is s) j \<longleftrightarrow> j \<notin> set is \<and> isset s j"
  by (induction "is" arbitrary: s) (auto simp: isset_unset1)

lemma set1_unset1_restores: "isset s i \<Longrightarrow> isset (set1 (unset1 s i) i) j = isset s j"
  by (auto simp: isset_set1 isset_unset1)

lemma unset1_set1_restores: "\<not> isset s i \<Longrightarrow> isset (unset1 (set1 s i) i) j = isset s j"
  by (auto simp: isset_set1 isset_unset1)

lemma flip1_flip1: "isset (flip1 (flip1 s i) i) j = isset s j"
  by (simp add: isset_flip1)

lemma flip1_is_set_or_unset:
  "isset (flip1 s i) j = isset (if isset s i then unset1 s i else set1 s i) j"
  by (auto simp: isset_flip1 isset_set1 isset_unset1)

end

section \<open>The C routines keep the interface\<close>

lemma bitmap_isset_bit:
  "bitmap_isset m bm n \<longleftrightarrow> bit (m (bm_buf bm + n div 8)) (unat (n mod 8))"
  by (simp add: bitmap_isset_def and_exp_eq_0_iff_not_bit)

lemma bit_index_eq:
  "n div 8 = k div 8 \<Longrightarrow> unat (n mod 8) = unat (k mod 8) \<Longrightarrow> n = (k :: u64)"
  by (metis div_mult_mod_eq word_unat_eq_iff)

lemma bit_u8_one: "i < 8 \<Longrightarrow> bit (2 ^ i :: u8) j \<longleftrightarrow> j = i"
  by (auto simp: bit_simps)

lemma unat_mod8: "unat (n mod 8 :: u64) < 8"
  by (simp add: unat_mod)

lemma bitmap_isset_set:
  "bitmap_isset (bitmap_set m bm n) bm k \<longleftrightarrow> k = n \<or> bitmap_isset m bm k"
  by (auto simp: bitmap_isset_bit bitmap_set_def Let_def bit_or_iff bit_u8_one unat_mod8
      dest: bit_index_eq)

lemma bitmap_isset_unset:
  "bitmap_isset (bitmap_unset m bm n) bm k \<longleftrightarrow> k \<noteq> n \<and> bitmap_isset m bm k"
  by (auto simp: bitmap_isset_bit bitmap_unset_def Let_def bit_and_iff bit_not_iff bit_u8_one
      unat_mod8 dest: bit_index_eq bit_imp_le_length)

lemma bitmap_isset_flip:
  "bitmap_isset (bitmap_flip m bm n) bm k \<longleftrightarrow>
     (if k = n then \<not> bitmap_isset m bm k else bitmap_isset m bm k)"
  by (auto simp: bitmap_isset_bit bitmap_flip_def Let_def bit_xor_iff bit_u8_one unat_mod8
      dest: bit_index_eq)

interpretation bm: bit_array
  "\<lambda>m. bitmap_isset m bm" "\<lambda>m. bitmap_set m bm" "\<lambda>m. bitmap_unset m bm"
  "\<lambda>m. bitmap_flip m bm" for bm
  by unfold_locales (simp_all add: bitmap_isset_set bitmap_isset_unset bitmap_isset_flip)

text \<open>Only the byte of the bit is written.\<close>

lemma bitmap_set_other: "a \<noteq> bm_buf bm + n div 8 \<Longrightarrow> bitmap_set m bm n a = m a"
  by (simp add: bitmap_set_def Let_def)

lemma bitmap_unset_other: "a \<noteq> bm_buf bm + n div 8 \<Longrightarrow> bitmap_unset m bm n a = m a"
  by (simp add: bitmap_unset_def Let_def)

end
