(* ===== verification/Pmm.thy ===== *)
theory Pmm
  imports Addrutil Memutil Bitmap
begin

text \<open>
  The physical memory manager (\<^verbatim>\<open>memory/pmm.c\<close>): one bit per page frame, set when the frame is
  locked. The static variables of the file are the fields of a record; later components extend the
  record with their own state. A result of \<open>None\<close> means that the C function does not return
  (an endless loop, or a NULL pointer it dereferences).
\<close>

record pmm =
  kmem :: mem
  page_bitmap :: bitmap
  last_free :: u64
  free_memory :: u64
  total_memory :: u64

section \<open>Locking and unlocking pages\<close>

definition lock_page :: "'z pmm_scheme \<Rightarrow> u64 \<Rightarrow> u64 \<times> 'z pmm_scheme" where
  "lock_page s paddr =
     (let pi = paddr div 0x1000 in
      if \<not> bitmap_isset (kmem s) (page_bitmap s) pi
      then (1, s\<lparr>kmem := bitmap_set (kmem s) (page_bitmap s) pi,
                 free_memory := free_memory s - 0x1000\<rparr>)
      else (0, s))"

definition unlock_page :: "'z pmm_scheme \<Rightarrow> u64 \<Rightarrow> u64 \<times> 'z pmm_scheme" where
  "unlock_page s paddr =
     (let pi = paddr div 0x1000 in
      if bitmap_isset (kmem s) (page_bitmap s) pi
      then (1, s\<lparr>kmem := bitmap_unset (kmem s) (page_bitmap s) pi,
                 free_memory := free_memory s + 0x1000\<rparr>)
      else (0, s))"

text \<open>
  The loop \<^verbatim>\<open>for (p = paddr; p < end; p += 0x1000) acc += f(p)\<close>. When \<^verbatim>\<open>end\<close> lies in the last
  page of the address space, \<^verbatim>\<open>p += 0x1000\<close> wraps below it and the loop never ends.
\<close>

partial_function (option) page_loop ::
  "('s \<Rightarrow> u64 \<Rightarrow> u64 \<times> 's) \<Rightarrow> u64 \<Rightarrow> u64 \<Rightarrow> u64 \<Rightarrow> 's \<Rightarrow> (u64 \<times> 's) option" where
  "page_loop f p e acc s =
     (if p < e then page_loop f (p + 0x1000) e (acc + fst (f s p)) (snd (f s p))
      else Some (acc, s))"

definition lock_pages :: "'z pmm_scheme \<Rightarrow> u64 \<Rightarrow> u64 \<Rightarrow> (u64 \<times> 'z pmm_scheme) option" where
  "lock_pages s paddr n = page_loop lock_page paddr (paddr + 0x1000 * n) 0 s"

definition unlock_pages :: "'z pmm_scheme \<Rightarrow> u64 \<Rightarrow> u64 \<Rightarrow> (u64 \<times> 'z pmm_scheme) option" where
  "unlock_pages s paddr n = page_loop unlock_page paddr (paddr + 0x1000 * n) 0 s"

section \<open>Requesting and releasing pages\<close>

definition pages_free :: "mem \<Rightarrow> bitmap \<Rightarrow> u64 \<Rightarrow> u64 \<Rightarrow> bool" where
  "pages_free m bm pi count =
     list_all (\<lambda>i. \<not> bitmap_isset m bm (pi + of_nat i)) [0..<unat count]"

partial_function (option) request_pages_from ::
  "u64 \<Rightarrow> u64 \<Rightarrow> 'z pmm_scheme \<Rightarrow> (ptr \<times> 'z pmm_scheme) option" where
  "request_pages_from pi count s =
     (if pi < total_memory s div 0x1000 then
        (if pages_free (kmem s) (page_bitmap s) pi count then
           Option.bind (lock_pages (s\<lparr>last_free := pi + count\<rparr>) (pi * 0x1000) count)
             (\<lambda>r. Some (pi * 0x1000, snd r))
         else request_pages_from (pi + 1) count s)
      else Some (0, s))"

definition pmm_request_pages ::
  "'z pmm_scheme \<Rightarrow> u64 \<Rightarrow> (ptr \<times> 'z pmm_scheme) option" where
  "pmm_request_pages s count = request_pages_from (last_free s) count s"

definition pmm_release_pages ::
  "'z pmm_scheme \<Rightarrow> ptr \<Rightarrow> u64 \<Rightarrow> 'z pmm_scheme option" where
  "pmm_release_pages s page count =
     do { (_, s') \<leftarrow> unlock_pages s page count;
          Some (if page < last_free s' then s'\<lparr>last_free := page\<rparr> else s') }"

section \<open>Initialisation from the memory map\<close>

record stivale2_mmap_entry =
  entry_base :: u64
  entry_length :: u64
  entry_type :: u32

definition STIVALE2_MMAP_USABLE :: u32 where
  "STIVALE2_MMAP_USABLE = 1"

fun scan_mmap ::
  "u64 \<Rightarrow> stivale2_mmap_entry option \<Rightarrow> stivale2_mmap_entry list \<Rightarrow>
   u64 \<times> stivale2_mmap_entry option" where
  "scan_mmap tot largest [] = (tot, largest)"
| "scan_mmap tot largest (entry # rest) =
     (let tot' = tot + entry_length entry in
      if entry_type entry \<noteq> STIVALE2_MMAP_USABLE then scan_mmap tot' largest rest
      else case largest of
          None \<Rightarrow> scan_mmap tot' (Some entry) rest
        | Some l \<Rightarrow> if entry_length entry > entry_length l
                    then scan_mmap tot' (Some entry) rest
                    else scan_mmap tot' largest rest)"

fun unlock_usable ::
  "'z pmm_scheme \<Rightarrow> stivale2_mmap_entry list \<Rightarrow> 'z pmm_scheme option" where
  "unlock_usable s [] = Some s"
| "unlock_usable s (entry # rest) =
     (if entry_type entry = STIVALE2_MMAP_USABLE then
        do { (_, s') \<leftarrow> unlock_pages s (entry_base entry) (entry_length entry div 0x1000);
             unlock_usable s' rest }
      else unlock_usable s rest)"

text \<open>
  Until \<^verbatim>\<open>paging_initialize\<close> runs, the boot loader maps physical memory twice, at its own address
  and at \<^verbatim>\<open>VADDR_HIGHER\<close>. \<^verbatim>\<open>pmm_initialize\<close> fills the bitmap through the low pointer and
  switches to the high one at the end; the memory of the model is keyed by pointer value, so the
  switch carries the bytes of the buffer over to the high addresses.
\<close>

definition alias_high :: "mem \<Rightarrow> ptr \<Rightarrow> u64 \<Rightarrow> mem" where
  "alias_high m p n =
     (\<lambda>a. if a - addr_ensure_higher p < n then m (p + (a - addr_ensure_higher p)) else m a)"

definition pmm_initialize ::
  "'z pmm_scheme \<Rightarrow> stivale2_mmap_entry list \<Rightarrow> 'z pmm_scheme option" where
  "pmm_initialize s mmap =
     (case scan_mmap 0 None mmap of
        (_, None) \<Rightarrow> None
      | (tot, Some largest) \<Rightarrow>
          let bitmap_len = tot div (0x1000 * 8) + 1;
              b = \<lparr>bm_buf = entry_base largest, bm_len = bitmap_len\<rparr>;
              s1 = s\<lparr>total_memory := tot, free_memory := 0, page_bitmap := b,
                     kmem := memset (kmem s) (bm_buf b) 0xff (bm_len b)\<rparr>
          in do { s2 \<leftarrow> unlock_usable s1 mmap;
                  (_, s3) \<leftarrow> lock_pages s2 (bm_buf b) (bm_len b div 0x1000);
                  Some (s3\<lparr>kmem := alias_high (kmem s3) (bm_buf b) (bm_len b),
                           page_bitmap := b\<lparr>bm_buf := addr_ensure_higher (bm_buf b)\<rparr>\<rparr>) })"


section \<open>What the loops do to the bitmap\<close>

text \<open>
  \<open>page_range\<close> is the reference definition of the loop: a fixed number of rounds. It agrees with
  the loop as long as the end of the range is representable.
\<close>

fun page_range ::
  "('s \<Rightarrow> u64 \<Rightarrow> u64 \<times> 's) \<Rightarrow> u64 \<Rightarrow> nat \<Rightarrow> u64 \<Rightarrow> 's \<Rightarrow> u64 \<times> 's" where
  "page_range f p 0 acc s = (acc, s)"
| "page_range f p (Suc k) acc s =
     page_range f (p + 0x1000) k (acc + fst (f s p)) (snd (f s p))"

lemma unat_next_page:
  "unat p + 4096 * Suc k < 18446744073709551616 \<Longrightarrow> unat (p + 0x1000 :: u64) = unat p + 4096"
  by (simp add: unat_word_ariths)

lemma page_loop_range:
  "unat p + 4096 * k < 18446744073709551616 \<Longrightarrow>
   page_loop f p (p + 0x1000 * of_nat k) acc s = Some (page_range f p k acc s)"
proof (induction k arbitrary: p acc s)
  case 0
  show ?case by (subst page_loop.simps) simp
next
  case (Suc k)
  have "unat (p + 0x1000 * of_nat (Suc k) :: u64) = unat p + 4096 * Suc k"
    using Suc.prems by (simp add: unat_word_ariths unat_of_nat)
  then have lt: "p < p + 0x1000 * of_nat (Suc k)"
    by (simp only: word_less_nat_alt) simp
  have split: "p + 0x1000 * of_nat (Suc k) = (p + 0x1000) + 0x1000 * of_nat k"
    by (simp add: algebra_simps)
  have IH: "page_loop f (p + 0x1000) ((p + 0x1000) + 0x1000 * of_nat k) acc' s' =
      Some (page_range f (p + 0x1000) k acc' s')" for acc' s'
    by (rule Suc.IH) (use Suc.prems unat_next_page in simp)
  show ?case
    unfolding page_range.simps IH [symmetric] split [symmetric]
    using lt by (subst page_loop.simps) simp
qed

abbreviation pmm_pages :: "'z pmm_scheme \<Rightarrow> nat" where
  "pmm_pages s \<equiv> unat (total_memory s) div 4096"

abbreviation bitmap_bits :: "'z pmm_scheme \<Rightarrow> nat" where
  "bitmap_bits s \<equiv> 8 * unat (bm_len (page_bitmap s))"

definition page_locked :: "'z pmm_scheme \<Rightarrow> nat \<Rightarrow> bool" where
  "page_locked s n \<longleftrightarrow> bitmap_isset (kmem s) (page_bitmap s) (of_nat n)"

definition free_pages :: "'z pmm_scheme \<Rightarrow> nat set" where
  "free_pages s = {n. n < bitmap_bits s \<and> \<not> page_locked s n}"

definition free_count_ok :: "'z pmm_scheme \<Rightarrow> bool" where
  "free_count_ok s \<longleftrightarrow> free_memory s = 0x1000 * of_nat (card (free_pages s))"

lemma finite_free_pages [simp]: "finite (free_pages s)"
  by (rule finite_subset [of _ "{..<bitmap_bits s}"]) (auto simp: free_pages_def)

lemma lock_page_simps [simp]:
  "page_bitmap (snd (lock_page s p)) = page_bitmap s"
  "last_free (snd (lock_page s p)) = last_free s"
  "total_memory (snd (lock_page s p)) = total_memory s"
  "pmm.more (snd (lock_page s p)) = pmm.more s"
  by (simp_all add: lock_page_def Let_def)

lemma unlock_page_simps [simp]:
  "page_bitmap (snd (unlock_page s p)) = page_bitmap s"
  "last_free (snd (unlock_page s p)) = last_free s"
  "total_memory (snd (unlock_page s p)) = total_memory s"
  "pmm.more (snd (unlock_page s p)) = pmm.more s"
  by (simp_all add: unlock_page_def Let_def)

lemma page_index_eq:
  "j < 4503599627370496 \<Longrightarrow> (of_nat j = p div (0x1000 :: u64)) = (j = unat p div 4096)"
  by (auto simp: u64_eq_iff_unat unat_of_nat_u64 unat_div)

lemma of_nat_page_index [simp]: "of_nat (unat p div 4096) = p div (0x1000 :: u64)"
  using unat_u64_lt [of p] by (subst page_index_eq) simp_all

lemma page_locked_index: "page_locked s (unat p div 4096) =
   bitmap_isset (kmem s) (page_bitmap s) (p div 0x1000)"
  by (simp add: page_locked_def)

lemma page_locked_lock_page:
  "j < 4503599627370496 \<Longrightarrow>
   page_locked (snd (lock_page s p)) j \<longleftrightarrow> page_locked s j \<or> j = unat p div 4096"
  by (auto simp: page_locked_def lock_page_def Let_def bm.isset_set1 page_index_eq)

lemma page_locked_unlock_page:
  "j < 4503599627370496 \<Longrightarrow>
   page_locked (snd (unlock_page s p)) j \<longleftrightarrow> page_locked s j \<and> j \<noteq> unat p div 4096"
  by (auto simp: page_locked_def unlock_page_def Let_def bm.isset_unset1 page_index_eq)

text \<open>The counter follows the bitmap, one page at a time.\<close>

lemma free_count_lock_page:
  assumes ok: "free_count_ok s" and n: "unat p div 4096 < bitmap_bits s"
    and bits: "bitmap_bits s \<le> 4503599627370496"
  shows "free_count_ok (snd (lock_page s p))"
proof (cases "page_locked s (unat p div 4096)")
  case True
  then have "lock_page s p = (0, s)" by (simp add: lock_page_def Let_def page_locked_index)
  with ok show ?thesis by simp
next
  case False
  let ?n = "unat p div 4096" and ?s' = "snd (lock_page s p)"
  have "free_pages ?s' = free_pages s - {?n}"
    using bits by (auto simp: free_pages_def page_locked_lock_page)
  moreover have mem: "?n \<in> free_pages s" using False n by (simp add: free_pages_def)
  ultimately have "card (free_pages s) = Suc (card (free_pages ?s'))"
    by (metis card.remove finite_free_pages)
  moreover have "free_memory ?s' = free_memory s - 0x1000"
    using False by (simp add: lock_page_def Let_def page_locked_index)
  ultimately show ?thesis using ok by (simp add: free_count_ok_def algebra_simps)
qed

lemma free_count_unlock_page:
  assumes ok: "free_count_ok s" and n: "unat p div 4096 < bitmap_bits s"
    and bits: "bitmap_bits s \<le> 4503599627370496"
  shows "free_count_ok (snd (unlock_page s p))"
proof (cases "page_locked s (unat p div 4096)")
  case False
  then have "unlock_page s p = (0, s)" by (simp add: unlock_page_def Let_def page_locked_index)
  with ok show ?thesis by simp
next
  case True
  let ?n = "unat p div 4096" and ?s' = "snd (unlock_page s p)"
  have "free_pages ?s' = insert ?n (free_pages s)"
    using bits n by (auto simp: free_pages_def page_locked_unlock_page)
  moreover have "?n \<notin> free_pages s" using True by (simp add: free_pages_def)
  ultimately have "card (free_pages ?s') = Suc (card (free_pages s))" by simp
  moreover have "free_memory ?s' = free_memory s + 0x1000"
    using True by (simp add: unlock_page_def Let_def page_locked_index)
  ultimately show ?thesis using ok by (simp add: free_count_ok_def algebra_simps)
qed

text \<open>Bytes outside the buffer of the bitmap are never written.\<close>

definition outside_bitmap :: "'z pmm_scheme \<Rightarrow> ptr \<Rightarrow> bool" where
  "outside_bitmap s a \<longleftrightarrow> bm_len (page_bitmap s) \<le> a - bm_buf (page_bitmap s)"

lemma bitmap_byte_inside:
  assumes "unat p div 4096 < bitmap_bits s" and "outside_bitmap s a"
  shows "a \<noteq> bm_buf (page_bitmap s) + p div 0x1000 div 8"
proof
  assume "a = bm_buf (page_bitmap s) + p div 0x1000 div 8"
  with assms(2) have "bm_len (page_bitmap s) \<le> p div 0x1000 div 8"
    by (simp add: outside_bitmap_def)
  then have "unat (bm_len (page_bitmap s)) \<le> unat p div 4096 div 8"
    by (simp add: word_le_nat_alt unat_div)
  with assms(1) show False by linarith
qed

lemma kmem_lock_page:
  "unat p div 4096 < bitmap_bits s \<Longrightarrow> outside_bitmap s a \<Longrightarrow>
   kmem (snd (lock_page s p)) a = kmem s a"
  by (simp add: lock_page_def Let_def bitmap_set_other bitmap_byte_inside)

lemma kmem_unlock_page:
  "unat p div 4096 < bitmap_bits s \<Longrightarrow> outside_bitmap s a \<Longrightarrow>
   kmem (snd (unlock_page s p)) a = kmem s a"
  by (simp add: unlock_page_def Let_def bitmap_unset_other bitmap_byte_inside)


subsection \<open>Ranges\<close>

lemma lock_pages_range:
  "unat p + 4096 * unat n < 18446744073709551616 \<Longrightarrow>
   lock_pages s p n = Some (page_range lock_page p (unat n) 0 s)"
  using page_loop_range [of p "unat n" lock_page 0 s] by (simp add: lock_pages_def)

lemma unlock_pages_range:
  "unat p + 4096 * unat n < 18446744073709551616 \<Longrightarrow>
   unlock_pages s p n = Some (page_range unlock_page p (unat n) 0 s)"
  using page_loop_range [of p "unat n" unlock_page 0 s] by (simp add: unlock_pages_def)

text \<open>An invariant of one page step on pages of the range is an invariant of the range.\<close>

lemma page_range_invariant:
  assumes "unat p + 4096 * k < 18446744073709551616"
    and "P s"
    and "\<And>q s. P s \<Longrightarrow> unat p div 4096 \<le> unat q div 4096 \<Longrightarrow>
      unat q div 4096 < unat p div 4096 + k \<Longrightarrow> P (snd (f s q))"
  shows "P (snd (page_range f p k acc s))"
  using assms
proof (induction k arbitrary: p acc s)
  case (Suc k)
  have nxt: "unat (p + 0x1000) = unat p + 4096" by (rule unat_next_page [OF Suc.prems(1)])
  have "P (snd (page_range f (p + 0x1000) k (acc + fst (f s p)) (snd (f s p))))"
  proof (rule Suc.IH)
    show "unat (p + 0x1000) + 4096 * k < 18446744073709551616"
      using Suc.prems(1) nxt by simp
    show "P (snd (f s p))" using Suc.prems by simp
    show "P (snd (f s' q))" if "P s'" "unat (p + 0x1000) div 4096 \<le> unat q div 4096"
      "unat q div 4096 < unat (p + 0x1000) div 4096 + k" for q s'
      using Suc.prems(3) [OF that(1), of q] that(2,3) nxt by simp
  qed
  then show ?case by simp
qed simp

lemma page_range_lock_simps [simp]:
  "page_bitmap (snd (page_range lock_page p k acc s)) = page_bitmap s"
  "last_free (snd (page_range lock_page p k acc s)) = last_free s"
  "total_memory (snd (page_range lock_page p k acc s)) = total_memory s"
  "pmm.more (snd (page_range lock_page p k acc s)) = pmm.more s"
  by (induction k arbitrary: p acc s) simp_all

lemma page_range_unlock_simps [simp]:
  "page_bitmap (snd (page_range unlock_page p k acc s)) = page_bitmap s"
  "last_free (snd (page_range unlock_page p k acc s)) = last_free s"
  "total_memory (snd (page_range unlock_page p k acc s)) = total_memory s"
  "pmm.more (snd (page_range unlock_page p k acc s)) = pmm.more s"
  by (induction k arbitrary: p acc s) simp_all

lemma page_locked_lock_range:
  "unat p + 4096 * k < 18446744073709551616 \<Longrightarrow> j < 4503599627370496 \<Longrightarrow>
   page_locked (snd (page_range lock_page p k acc s)) j \<longleftrightarrow>
     page_locked s j \<or> (unat p div 4096 \<le> j \<and> j < unat p div 4096 + k)"
proof (induction k arbitrary: p acc s)
  case (Suc k)
  have nxt: "unat (p + 0x1000) = unat p + 4096" by (rule unat_next_page [OF Suc.prems(1)])
  then have "unat (p + 0x1000) div 4096 = Suc (unat p div 4096)"
    by (simp add: div_add_self2)
  with nxt have "page_locked (snd (page_range lock_page p (Suc k) acc s)) j \<longleftrightarrow>
      page_locked (snd (lock_page s p)) j \<or>
      (Suc (unat p div 4096) \<le> j \<and> j < Suc (unat p div 4096) + k)"
    using Suc.prems by (simp add: Suc.IH)
  then show ?case using Suc.prems(2) by (auto simp: page_locked_lock_page)
qed auto

lemma page_locked_unlock_range:
  "unat p + 4096 * k < 18446744073709551616 \<Longrightarrow> j < 4503599627370496 \<Longrightarrow>
   page_locked (snd (page_range unlock_page p k acc s)) j \<longleftrightarrow>
     page_locked s j \<and> \<not> (unat p div 4096 \<le> j \<and> j < unat p div 4096 + k)"
proof (induction k arbitrary: p acc s)
  case (Suc k)
  have nxt: "unat (p + 0x1000) = unat p + 4096" by (rule unat_next_page [OF Suc.prems(1)])
  then have "unat (p + 0x1000) div 4096 = Suc (unat p div 4096)"
    by (simp add: div_add_self2)
  with nxt have "page_locked (snd (page_range unlock_page p (Suc k) acc s)) j \<longleftrightarrow>
      page_locked (snd (unlock_page s p)) j \<and>
      \<not> (Suc (unat p div 4096) \<le> j \<and> j < Suc (unat p div 4096) + k)"
    using Suc.prems by (simp add: Suc.IH)
  then show ?case using Suc.prems(2) by (auto simp: page_locked_unlock_page)
qed simp

section \<open>The invariant of the manager\<close>

text \<open>
  The bitmap covers all pages of the machine and one more, whose bit stays locked: it stops a run
  of free pages from reaching past the end. The counter of free bytes agrees with the bitmap.
\<close>

definition pmm_inv :: "'z pmm_scheme \<Rightarrow> bool" where
  "pmm_inv s \<longleftrightarrow> pmm_pages s < bitmap_bits s \<and> bitmap_bits s \<le> 4503599627370496 \<and>
     page_locked s (pmm_pages s) \<and> free_count_ok s"

lemma pmm_inv_lock_range:
  assumes inv: "pmm_inv s" and fit: "unat p div 4096 + k \<le> bitmap_bits s"
    and wrap: "unat p + 4096 * k < 18446744073709551616"
  shows "pmm_inv (snd (page_range lock_page p k acc s))"
proof -
  let ?P = "\<lambda>t. page_bitmap t = page_bitmap s \<and> free_count_ok t"
  have "?P (snd (page_range lock_page p k acc s))"
  proof (rule page_range_invariant [where P = ?P, OF wrap])
    show "?P s" using inv by (simp add: pmm_inv_def)
    fix q :: u64 and t :: "'a pmm_scheme"
    assume "?P t" and "unat q div 4096 < unat p div 4096 + k"
    then show "?P (snd (lock_page t q))"
      using inv fit by (auto simp: pmm_inv_def intro: free_count_lock_page)
  qed
  then show ?thesis
    using inv wrap by (simp add: pmm_inv_def page_locked_lock_range)
qed

lemma pmm_inv_unlock_range:
  assumes inv: "pmm_inv s" and fit: "unat p div 4096 + k \<le> pmm_pages s"
    and wrap: "unat p + 4096 * k < 18446744073709551616"
  shows "pmm_inv (snd (page_range unlock_page p k acc s))"
proof -
  let ?P = "\<lambda>t. page_bitmap t = page_bitmap s \<and> free_count_ok t"
  have "?P (snd (page_range unlock_page p k acc s))"
  proof (rule page_range_invariant [where P = ?P, OF wrap])
    show "?P s" using inv by (simp add: pmm_inv_def)
    fix q :: u64 and t :: "'a pmm_scheme"
    assume "?P t" and "unat q div 4096 < unat p div 4096 + k"
    then show "?P (snd (unlock_page t q))"
      using inv fit by (auto simp: pmm_inv_def intro: free_count_unlock_page)
  qed
  then show ?thesis
    using inv wrap fit by (simp add: pmm_inv_def page_locked_unlock_range)
qed

lemma kmem_lock_range:
  assumes "unat p div 4096 + k \<le> bitmap_bits s"
    and "unat p + 4096 * k < 18446744073709551616" and "outside_bitmap s a"
  shows "kmem (snd (page_range lock_page p k acc s)) a = kmem s a"
proof -
  let ?P = "\<lambda>t. page_bitmap t = page_bitmap s \<and> kmem t a = kmem s a"
  have "?P (snd (page_range lock_page p k acc s))"
  proof (rule page_range_invariant [where P = ?P, OF assms(2)])
    fix q :: u64 and t :: "'a pmm_scheme"
    assume "?P t" and "unat q div 4096 < unat p div 4096 + k"
    then show "?P (snd (lock_page t q))"
      using assms by (simp add: kmem_lock_page outside_bitmap_def)
  qed simp
  then show ?thesis by simp
qed


lemma kmem_unlock_range:
  assumes "unat p div 4096 + k \<le> bitmap_bits s"
    and "unat p + 4096 * k < 18446744073709551616" and "outside_bitmap s a"
  shows "kmem (snd (page_range unlock_page p k acc s)) a = kmem s a"
proof -
  let ?P = "\<lambda>t. page_bitmap t = page_bitmap s \<and> kmem t a = kmem s a"
  have "?P (snd (page_range unlock_page p k acc s))"
  proof (rule page_range_invariant [where P = ?P, OF assms(2)])
    fix q :: u64 and t :: "'a pmm_scheme"
    assume "?P t" and "unat q div 4096 < unat p div 4096 + k"
    then show "?P (snd (unlock_page t q))"
      using assms by (simp add: kmem_unlock_page outside_bitmap_def)
  qed simp
  then show ?thesis by simp
qed

section \<open>Requests\<close>

text \<open>A run of \<open>c\<close> free pages starting at page \<open>r\<close>.\<close>

definition free_run :: "'z pmm_scheme \<Rightarrow> nat \<Rightarrow> nat \<Rightarrow> bool" where
  "free_run s r c \<longleftrightarrow> (\<forall>i<c. \<not> page_locked s (r + i))"

lemma pmm_inv_pages: "pmm_inv s \<Longrightarrow> pmm_pages s < 4503599627370496"
  by (simp add: pmm_inv_def)

lemma free_run_bound:
  assumes "pmm_inv s" and "free_run s r c" and "r < pmm_pages s"
  shows "r + c \<le> pmm_pages s"
proof (rule ccontr)
  assume "\<not> r + c \<le> pmm_pages s"
  then have "pmm_pages s - r < c" using assms(3) by simp
  with assms(2) have "\<not> page_locked s (r + (pmm_pages s - r))"
    unfolding free_run_def by blast
  with assms(1,3) show False by (simp add: pmm_inv_def)
qed

lemma pages_free_run:
  "pages_free (kmem s) (page_bitmap s) pi count \<longleftrightarrow> free_run s (unat pi) (unat count)"
  by (auto simp: pages_free_def list_all_iff free_run_def page_locked_def)

text \<open>The address of a page.\<close>

definition page_addr :: "nat \<Rightarrow> u64" where
  "page_addr r = of_nat (4096 * r)"

lemma unat_page_addr: "r < 4503599627370496 \<Longrightarrow> unat (page_addr r) = 4096 * r"
  unfolding page_addr_def by (intro unat_of_nat_u64) simp

text \<open>The state after a successful request that found the run at page \<open>r\<close>.\<close>

definition request_state :: "'z pmm_scheme \<Rightarrow> nat \<Rightarrow> nat \<Rightarrow> 'z pmm_scheme" where
  "request_state s r c =
     snd (page_range lock_page (page_addr r) c 0 (s\<lparr>last_free := of_nat (r + c)\<rparr>))"

lemma request_pages_from_none:
  assumes "pmm_pages s \<le> unat pi"
  shows "request_pages_from pi count s = Some (0, s)"
proof -
  have "\<not> pi < total_memory s div 0x1000"
    using assms by (simp add: word_less_nat_alt unat_div)
  then show ?thesis by (subst request_pages_from.simps) simp
qed

lemma request_pages_from_hit:
  assumes inv: "pmm_inv s" and run: "free_run s (unat pi) (unat count)"
    and lt: "unat pi < pmm_pages s"
  shows "request_pages_from pi count s =
    Some (page_addr (unat pi), request_state s (unat pi) (unat count))"
proof -
  have fit: "unat pi + unat count \<le> pmm_pages s" by (rule free_run_bound [OF inv run lt])
  have T: "pmm_pages s < 4503599627370496" by (rule pmm_inv_pages [OF inv])
  have base: "pi * 0x1000 = page_addr (unat pi)" by (simp add: page_addr_def mult.commute)
  have end_: "pi + count = of_nat (unat pi + unat count)" by simp
  have "lock_pages (s\<lparr>last_free := pi + count\<rparr>) (pi * 0x1000) count =
      Some (page_range lock_page (pi * 0x1000) (unat count) 0 (s\<lparr>last_free := pi + count\<rparr>))"
    unfolding base using fit T lt
    by (intro lock_pages_range) (simp add: unat_page_addr)
  moreover have "pi < total_memory s div 0x1000"
    using lt by (simp add: word_less_nat_alt unat_div)
  ultimately show ?thesis
    unfolding request_state_def base [symmetric] end_ [symmetric] using run
    by (subst request_pages_from.simps) (simp add: pages_free_run)
qed

lemma request_pages_from_miss:
  assumes "\<not> free_run s (unat pi) (unat count)" and "unat pi < pmm_pages s"
  shows "request_pages_from pi count s = request_pages_from (pi + 1) count s"
proof -
  have "pi < total_memory s div 0x1000"
    using assms(2) by (simp add: word_less_nat_alt unat_div)
  then show ?thesis using assms(1)
    by (subst request_pages_from.simps) (simp add: pages_free_run)
qed

lemma request_pages_from_first:
  assumes inv: "pmm_inv s" and run: "free_run s r (unat count)" and lt: "r < pmm_pages s"
    and least: "\<And>q. unat pi \<le> q \<Longrightarrow> q < r \<Longrightarrow> \<not> free_run s q (unat count)"
    and le: "unat pi \<le> r"
  shows "request_pages_from pi count s =
    Some (page_addr r, request_state s r (unat count))"
  using le least
proof (induction "r - unat pi" arbitrary: pi)
  case 0
  then have "r = unat pi" by simp
  with inv run lt show ?case by (simp only: request_pages_from_hit)
next
  case (Suc d)
  then have less: "unat pi < r" by simp
  have nxt: "unat (pi + 1) = unat pi + 1"
    using less lt pmm_inv_pages [OF inv] by (simp add: unat_word_ariths)
  have "request_pages_from pi count s = request_pages_from (pi + 1) count s"
    using Suc.prems(2) [of "unat pi"] less lt by (intro request_pages_from_miss) auto
  also have "\<dots> = Some (page_addr r, request_state s r (unat count))"
    using Suc.hyps(2) less Suc.prems(2) by (intro Suc.hyps(1)) (auto simp: nxt)
  finally show ?case .
qed

lemma request_pages_from_exhausted:
  assumes inv: "pmm_inv s"
    and none: "\<And>q. unat pi \<le> q \<Longrightarrow> q < pmm_pages s \<Longrightarrow> \<not> free_run s q (unat count)"
  shows "request_pages_from pi count s = Some (0, s)"
  using none
proof (induction "pmm_pages s - unat pi" arbitrary: pi)
  case 0
  then show ?case by (intro request_pages_from_none) simp
next
  case (Suc d)
  then have less: "unat pi < pmm_pages s" by simp
  have nxt: "unat (pi + 1) = unat pi + 1"
    using less pmm_inv_pages [OF inv] by (simp add: unat_word_ariths)
  have "request_pages_from pi count s = request_pages_from (pi + 1) count s"
    using Suc.prems [of "unat pi"] less by (intro request_pages_from_miss) auto
  also have "\<dots> = Some (0, s)"
    using Suc.hyps(2) less Suc.prems by (intro Suc.hyps(1)) (auto simp: nxt)
  finally show ?case .
qed


lemma last_free_update_simps [simp]:
  "page_locked (s\<lparr>last_free := x\<rparr>) n = page_locked s n"
  "free_pages (s\<lparr>last_free := x\<rparr>) = free_pages s"
  "pmm_inv (s\<lparr>last_free := x\<rparr>) = pmm_inv s"
  "outside_bitmap (s\<lparr>last_free := x\<rparr>) a = outside_bitmap s a"
  by (simp_all add: page_locked_def free_pages_def pmm_inv_def free_count_ok_def outside_bitmap_def)

lemma request_state_simps [simp]:
  "page_bitmap (request_state s r c) = page_bitmap s"
  "last_free (request_state s r c) = of_nat (r + c)"
  "total_memory (request_state s r c) = total_memory s"
  "pmm.more (request_state s r c) = pmm.more s"
  by (simp_all add: request_state_def)

text \<open>A run of free pages below the end of memory, found by a request.\<close>

definition grantable :: "'z pmm_scheme \<Rightarrow> nat \<Rightarrow> nat \<Rightarrow> bool" where
  "grantable s r c \<longleftrightarrow> pmm_inv s \<and> free_run s r c \<and> r < pmm_pages s"

lemma grantable_fits:
  assumes "grantable s r c"
  shows "r + c \<le> pmm_pages s" "r + c < 4503599627370496" "unat (page_addr r) = 4096 * r"
    "unat (page_addr r) + 4096 * c < 18446744073709551616" "r + c \<le> bitmap_bits s"
proof -
  show le: "r + c \<le> pmm_pages s" using assms free_run_bound by (auto simp: grantable_def)
  show lt: "r + c < 4503599627370496"
    using le assms pmm_inv_pages [of s] by (simp add: grantable_def)
  show addr: "unat (page_addr r) = 4096 * r" using lt by (intro unat_page_addr) simp
  show "unat (page_addr r) + 4096 * c < 18446744073709551616" using lt addr by simp
  show "r + c \<le> bitmap_bits s" using le assms by (simp add: grantable_def pmm_inv_def)
qed

lemma request_state_locked:
  assumes "grantable s r c" and "j < 4503599627370496"
  shows "page_locked (request_state s r c) j \<longleftrightarrow> page_locked s j \<or> (r \<le> j \<and> j < r + c)"
  unfolding request_state_def
  by (subst page_locked_lock_range [OF grantable_fits(4) [OF assms(1)] assms(2)])
    (simp add: grantable_fits(3) [OF assms(1)])

lemma request_state_inv:
  assumes "grantable s r c"
  shows "pmm_inv (request_state s r c)"
  unfolding request_state_def
proof (rule pmm_inv_lock_range [OF _ _ grantable_fits(4) [OF assms]])
  show "pmm_inv (s\<lparr>last_free := of_nat (r + c)\<rparr>)"
    using assms by (simp only: last_free_update_simps grantable_def)
  show "unat (page_addr r) div 4096 + c \<le> bitmap_bits (s\<lparr>last_free := of_nat (r + c)\<rparr>)"
    using grantable_fits [OF assms] by simp
qed

lemma request_state_kmem:
  assumes "grantable s r c" and "outside_bitmap s a"
  shows "kmem (request_state s r c) a = kmem s a"
  unfolding request_state_def
  using grantable_fits(3,5) [OF assms(1)] assms(2)
  by (subst kmem_lock_range [OF _ grantable_fits(4) [OF assms(1)]]) simp_all

lemma request_state_free_pages:
  assumes "grantable s r c"
  shows "free_pages (request_state s r c) = free_pages s - {r..<r + c}"
proof -
  have "bitmap_bits s \<le> 4503599627370496"
    using assms by (simp add: grantable_def pmm_inv_def)
  then show ?thesis
    by (auto simp: free_pages_def request_state_locked [OF assms])
qed

text \<open>Every request returns, and it returns one of two things.\<close>

lemma pmm_request_pages_cases:
  assumes inv: "pmm_inv s"
  obtains
    (hit) r where "unat (last_free s) \<le> r" "r < pmm_pages s" "free_run s r (unat count)"
      "\<And>q. unat (last_free s) \<le> q \<Longrightarrow> q < r \<Longrightarrow> \<not> free_run s q (unat count)"
      "pmm_request_pages s count = Some (page_addr r, request_state s r (unat count))"
  | (exhausted)
      "\<And>q. unat (last_free s) \<le> q \<Longrightarrow> q < pmm_pages s \<Longrightarrow> \<not> free_run s q (unat count)"
      "pmm_request_pages s count = Some (0, s)"
proof (cases "\<exists>r. unat (last_free s) \<le> r \<and> r < pmm_pages s \<and> free_run s r (unat count)")
  case True
  define r where "r = (LEAST r. unat (last_free s) \<le> r \<and> r < pmm_pages s \<and>
    free_run s r (unat count))"
  from True have r: "unat (last_free s) \<le> r" "r < pmm_pages s" "free_run s r (unat count)"
    using LeastI_ex [OF True] by (auto simp: r_def)
  have least: "\<not> free_run s q (unat count)" if "unat (last_free s) \<le> q" "q < r" for q
    using not_less_Least [of q, folded r_def] that r(2) unfolding r_def by fastforce
  have "pmm_request_pages s count = Some (page_addr r, request_state s r (unat count))"
    unfolding pmm_request_pages_def
    by (rule request_pages_from_first [OF inv r(3,2) least r(1)])
  from hit [OF r least this] show ?thesis .
next
  case False
  then show ?thesis
    by (intro exhausted)
      (auto simp: pmm_request_pages_def intro!: request_pages_from_exhausted inv)
qed

section \<open>Releases\<close>

lemma pmm_release_pages_eq:
  assumes "unat page + 4096 * unat count < 18446744073709551616"
  shows "pmm_release_pages s page count =
    (let s' = snd (page_range unlock_page page (unat count) 0 s) in
     Some (if page < last_free s then s'\<lparr>last_free := page\<rparr> else s'))"
  using assms by (simp add: pmm_release_pages_def unlock_pages_range Let_def split: prod.split)
    (metis page_range_unlock_simps(2) snd_conv)

lemma pmm_release_pages_spec:
  assumes inv: "pmm_inv s" and fit: "unat page div 4096 + unat count \<le> pmm_pages s"
  obtains s' where "pmm_release_pages s page count = Some s'" "pmm_inv s'"
    "\<And>j. j < 4503599627370496 \<Longrightarrow> page_locked s' j \<longleftrightarrow> page_locked s j \<and>
      \<not> (unat page div 4096 \<le> j \<and> j < unat page div 4096 + unat count)"
    "last_free s' = (if page < last_free s then page else last_free s)"
    "page_bitmap s' = page_bitmap s" "total_memory s' = total_memory s"
    "\<And>a. outside_bitmap s a \<Longrightarrow> kmem s' a = kmem s a" "pmm.more s' = pmm.more s"
proof -
  have "unat page + 4096 * unat count < 4096 * (unat page div 4096 + unat count) + 4096"
    by simp
  also have "\<dots> \<le> 4096 * 4503599627370496"
    using fit pmm_inv_pages [OF inv] by simp
  finally have wrap: "unat page + 4096 * unat count < 18446744073709551616" by simp
  have bits: "unat page div 4096 + unat count \<le> bitmap_bits s"
    using fit inv by (simp add: pmm_inv_def)
  show ?thesis
    by (rule that [OF pmm_release_pages_eq [OF wrap, unfolded Let_def]])
      (auto simp: page_locked_unlock_range [OF wrap] kmem_unlock_range [OF bits wrap]
        intro: pmm_inv_unlock_range [OF inv fit wrap])
qed


section \<open>Initialisation\<close>

text \<open>
  A memory map the manager can handle: the usable entries end below the total amount of memory
  (no holes in the physical address space), and the bitmap fits into the entry chosen for it.
\<close>

definition mmap_covered :: "u64 \<Rightarrow> stivale2_mmap_entry list \<Rightarrow> bool" where
  "mmap_covered tot mmap \<longleftrightarrow> unat tot \<le> 140737488355328 \<and>
     (\<forall>e\<in>set mmap. entry_type e = STIVALE2_MMAP_USABLE \<longrightarrow>
        unat (entry_base e) div 4096 + unat (entry_length e) div 4096 \<le> unat tot div 4096)"

lemma scan_mmap_largest:
  "scan_mmap acc l0 mmap = (tot, Some l) \<Longrightarrow>
   (l0 = Some l \<or> (l \<in> set mmap \<and> entry_type l = STIVALE2_MMAP_USABLE)) \<and>
   (\<forall>e\<in>set mmap. entry_type e = STIVALE2_MMAP_USABLE \<longrightarrow> entry_length e \<le> entry_length l) \<and>
   (\<forall>k. l0 = Some k \<longrightarrow> entry_length k \<le> entry_length l)"
proof (induction acc l0 mmap rule: scan_mmap.induct)
  case (2 acc l0 e rest)
  then show ?case
    by (cases l0) (fastforce simp: Let_def split: if_splits)+
qed simp

lemma unlock_entry:
  assumes inv: "pmm_inv s" and fit: "unat b div 4096 + unat l div 4096 \<le> pmm_pages s"
  shows "\<exists>k t. unlock_pages s b (l div 0x1000) = Some (k, t) \<and>
    pmm_inv t \<and> page_bitmap t = page_bitmap s \<and>
    total_memory t = total_memory s \<and> last_free t = last_free s \<and>
    (\<forall>j<4503599627370496. page_locked t j \<longleftrightarrow> page_locked s j \<and>
      \<not> (unat b div 4096 \<le> j \<and> j < unat b div 4096 + unat l div 4096))"
proof -
  let ?n = "l div (0x1000 :: u64)"
  have n: "unat ?n = unat l div 4096" by (simp add: unat_div)
  have "unat b + 4096 * unat ?n < 4096 * (unat b div 4096 + unat l div 4096) + 4096"
    unfolding n by simp
  also have "\<dots> \<le> 4096 * 4503599627370496"
    using fit pmm_inv_pages [OF inv] by simp
  finally have wrap: "unat b + 4096 * unat ?n < 18446744073709551616" by simp
  obtain k t where kt: "page_range unlock_page b (unat ?n) 0 s = (k, t)" by force
  then have t: "t = snd (page_range unlock_page b (unat ?n) 0 s)" by simp
  have "unlock_pages s b ?n = Some (k, t)"
    using unlock_pages_range [OF wrap, of s] kt by simp
  then show ?thesis
    using pmm_inv_unlock_range [OF inv _ wrap, of 0] fit page_locked_unlock_range [OF wrap]
    unfolding t n by auto
qed

definition usable_page :: "stivale2_mmap_entry list \<Rightarrow> nat \<Rightarrow> bool" where
  "usable_page mmap j \<longleftrightarrow> (\<exists>e\<in>set mmap. entry_type e = STIVALE2_MMAP_USABLE \<and>
     unat (entry_base e) div 4096 \<le> j \<and>
     j < unat (entry_base e) div 4096 + unat (entry_length e) div 4096)"

lemma unlock_usable_spec:
  assumes "pmm_inv s" and "mmap_covered (total_memory s) mmap"
  shows "\<exists>s'. unlock_usable s mmap = Some s' \<and> pmm_inv s' \<and> page_bitmap s' = page_bitmap s \<and>
    total_memory s' = total_memory s \<and> last_free s' = last_free s \<and>
    (\<forall>j<4503599627370496. page_locked s' j \<longleftrightarrow> page_locked s j \<and> \<not> usable_page mmap j)"
  using assms
proof (induction mmap arbitrary: s)
  case (Cons e rest)
  show ?case
  proof (cases "entry_type e = STIVALE2_MMAP_USABLE")
    case False
    with Cons show ?thesis by (simp add: mmap_covered_def usable_page_def)
  next
    case True
    with Cons.prems have fit:
      "unat (entry_base e) div 4096 + unat (entry_length e) div 4096 \<le> pmm_pages s"
      by (simp add: mmap_covered_def)
    from unlock_entry [OF Cons.prems(1) fit] obtain k s1 where
      eq: "unlock_pages s (entry_base e) (entry_length e div 0x1000) = Some (k, s1)"
      and s1: "pmm_inv s1" "page_bitmap s1 = page_bitmap s" "total_memory s1 = total_memory s"
      "last_free s1 = last_free s"
      "\<forall>j<4503599627370496. page_locked s1 j \<longleftrightarrow> page_locked s j \<and>
        \<not> (unat (entry_base e) div 4096 \<le> j \<and>
           j < unat (entry_base e) div 4096 + unat (entry_length e) div 4096)"
      by blast
    have "mmap_covered (total_memory s1) rest"
      using Cons.prems(2) s1(3) by (simp add: mmap_covered_def)
    from Cons.IH [OF s1(1) this] show ?thesis
      using True eq s1 by (fastforce simp: usable_page_def)
  qed
qed (simp add: usable_page_def)


text \<open>After the buffer is filled with ones, every page is locked and nothing is free.\<close>

lemma memset_ff_locked:
  assumes "bm_len b = n" and "j < 8 * unat n" and "8 * unat n \<le> 4503599627370496"
  shows "bitmap_isset (memset m (bm_buf b) 0xff n) b (of_nat j)"
proof -
  have "unat (of_nat j :: u64) = j" using assms(2,3) by (intro unat_of_nat_u64) simp
  then have "(of_nat j :: u64) div 8 < n"
    using assms(2) by (simp add: word_less_nat_alt unat_div)
  moreover have "bit (0xff :: u8) (unat (of_nat j mod 8 :: u64))"
  proof -
    have "(0xff :: u8) = mask 8" by (simp add: mask_eq_exp_minus_1)
    then show ?thesis using unat_mod8 by (simp only: bit_mask_iff) simp
  qed
  ultimately show ?thesis by (simp add: bitmap_isset_bit memset_apply)
qed

lemma alias_high_isset:
  assumes "j < 8 * unat n" and "8 * unat n \<le> 4503599627370496"
  shows "bitmap_isset (alias_high m p n) (b\<lparr>bm_buf := addr_ensure_higher p\<rparr>) (of_nat j) =
    bitmap_isset m (b\<lparr>bm_buf := p\<rparr>) (of_nat j)"
proof -
  have "unat (of_nat j :: u64) = j" using assms by (intro unat_of_nat_u64) simp
  then have "(of_nat j :: u64) div 8 < n"
    using assms(1) by (simp add: word_less_nat_alt unat_div)
  then show ?thesis by (simp add: bitmap_isset_bit alias_high_def)
qed

text \<open>The three stages after the scan: fill the buffer, lock its pages, alias it.\<close>

lemma bitmap_len_bounds:
  assumes "unat tot \<le> 140737488355328" and "n = tot div (0x8000 :: u64) + 1"
  shows "8 * unat n \<le> 4503599627370496" "unat tot div 4096 < 8 * unat n"
proof -
  have un: "unat n = unat tot div 4096 div 8 + 1"
    using assms by (simp add: unat_word_ariths unat_div div_mult2_eq [symmetric])
  have "unat tot div 4096 \<le> 140737488355328 div 4096" using assms(1) by (rule div_le_mono)
  then show "8 * unat n \<le> 4503599627370496" "unat tot div 4096 < 8 * unat n"
    unfolding un by simp_all
qed

lemma init_fill_inv:
  assumes "8 * unat n \<le> 4503599627370496" and "unat tot div 4096 < 8 * unat n"
    and "s1 = s\<lparr>total_memory := tot, free_memory := 0, page_bitmap := b,
      kmem := memset (kmem s) (bm_buf b) 0xff (bm_len b)\<rparr>" and "bm_len b = n"
  shows "pmm_inv s1" and "\<And>j. j < 8 * unat n \<Longrightarrow> page_locked s1 j"
proof -
  show locked: "page_locked s1 j" if "j < 8 * unat n" for j
    using memset_ff_locked [of b n j] that assms by (simp add: page_locked_def)
  then have "free_pages s1 = {}" by (auto simp: free_pages_def assms(3,4))
  with assms(1,2) locked show "pmm_inv s1"
    by (simp add: pmm_inv_def free_count_ok_def) (simp add: assms(3,4))
qed

lemma init_lock_buffer:
  assumes inv: "pmm_inv s" and fit: "unat b div 4096 + unat n div 4096 \<le> pmm_pages s"
  shows "\<exists>c t. lock_pages s b (n div 0x1000) = Some (c, t) \<and> pmm_inv t \<and>
    page_bitmap t = page_bitmap s \<and> total_memory t = total_memory s \<and>
    (\<forall>j<4503599627370496. page_locked t j \<longleftrightarrow> page_locked s j \<or>
      (unat b div 4096 \<le> j \<and> j < unat b div 4096 + unat n div 4096))"
proof -
  let ?k = "n div (0x1000 :: u64)"
  have k: "unat ?k = unat n div 4096" by (simp add: unat_div)
  have "unat b + 4096 * unat ?k < 4096 * (unat b div 4096 + unat n div 4096) + 4096"
    unfolding k by simp
  also have "\<dots> \<le> 4096 * 4503599627370496"
    using fit pmm_inv_pages [OF inv] by simp
  finally have wrap: "unat b + 4096 * unat ?k < 18446744073709551616" by simp
  obtain c t where ct: "page_range lock_page b (unat ?k) 0 s = (c, t)" by force
  then have t: "t = snd (page_range lock_page b (unat ?k) 0 s)" by simp
  have fit': "unat b div 4096 + unat ?k \<le> bitmap_bits s"
    using fit inv by (simp add: k pmm_inv_def)
  have "lock_pages s b ?k = Some (c, t)"
    using lock_pages_range [OF wrap, of s] ct by simp
  then show ?thesis
    using pmm_inv_lock_range [OF inv fit' wrap, of 0] page_locked_lock_range [OF wrap, of _ 0 s]
    unfolding t k by auto
qed

lemma init_alias:
  assumes inv: "pmm_inv s" and b: "page_bitmap s = \<lparr>bm_buf = p, bm_len = n\<rparr>"
    and t: "t = s\<lparr>kmem := alias_high (kmem s) p n,
      page_bitmap := \<lparr>bm_buf = addr_ensure_higher p, bm_len = n\<rparr>\<rparr>"
  shows "pmm_inv t" and "\<And>j. j < 8 * unat n \<Longrightarrow> page_locked t j = page_locked s j"
proof -
  have bits: "8 * unat n \<le> 4503599627370496" using inv b by (simp add: pmm_inv_def)
  show locked: "page_locked t j = page_locked s j" if "j < 8 * unat n" for j
    using alias_high_isset [OF that bits, of "kmem s" p "page_bitmap s"]
    by (simp add: page_locked_def t b)
  have "free_pages t = free_pages s"
    using locked by (auto simp: free_pages_def t b)
  then show "pmm_inv t"
    using inv locked by (simp add: pmm_inv_def free_count_ok_def b) (simp add: t)
qed

lemma pmm_initialize_spec:
  assumes scan: "scan_mmap 0 None mmap = (tot, Some l)" and cov: "mmap_covered tot mmap"
    and fits: "n \<le> entry_length l" and n: "n = tot div 0x8000 + 1"
  shows "\<exists>s'. pmm_initialize s mmap = Some s' \<and> pmm_inv s' \<and> total_memory s' = tot \<and>
    page_bitmap s' = \<lparr>bm_buf = addr_ensure_higher (entry_base l), bm_len = n\<rparr> \<and>
    (\<forall>j < 8 * unat n. page_locked s' j \<longleftrightarrow> \<not> usable_page mmap j \<or>
       (unat (entry_base l) div 4096 \<le> j \<and>
        j < unat (entry_base l) div 4096 + unat n div 4096))"
proof -
  define b where "b = \<lparr>bm_buf = entry_base l, bm_len = n\<rparr>"
  define s1 where "s1 = s\<lparr>total_memory := tot, free_memory := 0, page_bitmap := b,
    kmem := memset (kmem s) (bm_buf b) 0xff (bm_len b)\<rparr>"
  have "unat tot \<le> 140737488355328" using cov by (simp add: mmap_covered_def)
  note bits = bitmap_len_bounds [OF this n]
  note inv1 = init_fill_inv [OF bits s1_def, unfolded b_def bitmap.simps, OF refl]
  have "mmap_covered (total_memory s1) mmap" using cov by (simp add: s1_def)
  from unlock_usable_spec [OF inv1(1) this] obtain s2 where
    s2: "unlock_usable s1 mmap = Some s2" "pmm_inv s2" "page_bitmap s2 = b" "total_memory s2 = tot"
      "\<forall>j<4503599627370496. page_locked s2 j \<longleftrightarrow> page_locked s1 j \<and> \<not> usable_page mmap j"
    by (auto simp: s1_def)
  have "unat (entry_base l) div 4096 + unat (entry_length l) div 4096 \<le> unat tot div 4096"
    using scan_mmap_largest [OF scan] cov by (auto simp: mmap_covered_def)
  moreover have "unat n div 4096 \<le> unat (entry_length l) div 4096"
    using fits by (intro div_le_mono) (simp add: word_le_nat_alt)
  ultimately have "unat (entry_base l) div 4096 + unat n div 4096 \<le> pmm_pages s2"
    by (simp add: s2)
  from init_lock_buffer [OF s2(2) this] obtain c s3 where
    s3: "lock_pages s2 (entry_base l) (n div 0x1000) = Some (c, s3)" "pmm_inv s3"
      "page_bitmap s3 = b" "total_memory s3 = tot"
      "\<forall>j<4503599627370496. page_locked s3 j \<longleftrightarrow> page_locked s2 j \<or>
        (unat (entry_base l) div 4096 \<le> j \<and> j < unat (entry_base l) div 4096 + unat n div 4096)"
    by (auto simp: s2)
  define s4 where "s4 = s3\<lparr>kmem := alias_high (kmem s3) (entry_base l) n,
    page_bitmap := \<lparr>bm_buf = addr_ensure_higher (entry_base l), bm_len = n\<rparr>\<rparr>"
  note inv4 = init_alias [OF s3(2) s3(3) [unfolded b_def] s4_def]
  have "pmm_initialize s mmap = Some s4"
    using scan s2(1) s3(1)
    by (simp add: pmm_initialize_def Let_def s4_def s1_def b_def n)
  then show ?thesis
    using inv4 bits inv1(2) s2(5) s3(5) by (intro exI [of _ s4]) (auto simp: s4_def s3(4))
qed


section \<open>Properties\<close>

text \<open>A machine of four pages: page 0 is locked, pages 1 to 3 are free.\<close>

definition pmm_example :: pmm where
  "pmm_example =
     \<lparr>kmem = (\<lambda>_. 0)(0xffff800000001000 := 0xf1),
      page_bitmap = \<lparr>bm_buf = 0xffff800000001000, bm_len = 1\<rparr>,
      last_free = 0, free_memory = 0x3000, total_memory = 0x4000\<rparr>"

lemma pmm_example_locked:
  assumes "n < 8"
  shows "page_locked pmm_example n \<longleftrightarrow> n \<in> {0, 4, 5, 6, 7}"
proof -
  from assms have "n = 0 \<or> n = 1 \<or> n = 2 \<or> n = 3 \<or> n = 4 \<or> n = 5 \<or> n = 6 \<or> n = 7"
    by arith
  then show ?thesis
    by (elim disjE) (simp_all add: page_locked_def pmm_example_def bitmap_isset_def)
qed

lemma pmm_example_inv: "pmm_inv pmm_example"
proof -
  have "free_pages pmm_example = {1, 2, 3}"
    using pmm_example_locked by (auto simp: free_pages_def) (auto simp: pmm_example_def)
  then show ?thesis
    using pmm_example_locked [of 4]
    by (simp add: pmm_inv_def free_count_ok_def) (simp add: pmm_example_def)
qed

text \<open>C1: A request for pages always returns. It either grants the first run of free pages at or
  after the search position - it locks exactly that run, moves the search position behind it,
  keeps the count of free bytes exact and writes nothing outside the bitmap - or it answers NULL
  and changes nothing, and then there is no such run.\<close>

theorem pmm_request_pages_correct:
  assumes "pmm_inv s"
  shows "\<exists>p s'. pmm_request_pages s count = Some (p, s') \<and> pmm_inv s' \<and>
    (\<forall>a. outside_bitmap s a \<longrightarrow> kmem s' a = kmem s a) \<and>
    ((\<exists>r. unat (last_free s) \<le> r \<and> r + unat count \<le> pmm_pages s \<and> free_run s r (unat count) \<and>
        (\<forall>q. unat (last_free s) \<le> q \<and> q < r \<longrightarrow> \<not> free_run s q (unat count)) \<and>
        p = page_addr r \<and> last_free s' = of_nat (r + unat count) \<and>
        free_pages s' = free_pages s - {r..<r + unat count}) \<or>
     ((\<forall>q. unat (last_free s) \<le> q \<and> q < pmm_pages s \<longrightarrow> \<not> free_run s q (unat count)) \<and>
        p = 0 \<and> s' = s))"
proof (cases rule: pmm_request_pages_cases [OF assms, of count, case_names hit exhausted])
  case (hit r)
  then have g: "grantable s r (unat count)" using assms by (simp add: grantable_def)
  show ?thesis
    using hit grantable_fits(1) [OF g] request_state_inv [OF g] request_state_kmem [OF g]
      request_state_free_pages [OF g]
    by (intro exI [of _ "page_addr r"] exI [of _ "request_state s r (unat count)"]) auto
next
  case exhausted
  then show ?thesis using assms by auto
qed

theorem pmm_request_pages_correct_witness:
  "pmm_inv pmm_example \<and> (\<exists>p s'. pmm_request_pages pmm_example 2 = Some (p, s') \<and> pmm_inv s')"
  using pmm_request_pages_correct [OF pmm_example_inv, of 2] pmm_example_inv by blast

text \<open>C15: Releasing pages below the end of memory returns; it unlocks exactly these pages, keeps
  the count of free bytes exact and leaves the bitmap's place and size alone.\<close>

theorem pmm_release_pages_correct:
  assumes "pmm_inv s" and "unat page div 4096 + unat count \<le> pmm_pages s"
  shows "\<exists>s'. pmm_release_pages s page count = Some s' \<and> pmm_inv s' \<and>
    page_bitmap s' = page_bitmap s \<and> total_memory s' = total_memory s \<and>
    free_pages s' =
      free_pages s \<union> {unat page div 4096..<unat page div 4096 + unat count}"
proof -
  from pmm_release_pages_spec [OF assms] obtain s' where s':
    "pmm_release_pages s page count = Some s'" "pmm_inv s'"
    "page_bitmap s' = page_bitmap s" "total_memory s' = total_memory s"
    and locked: "\<And>j. j < 4503599627370496 \<Longrightarrow> page_locked s' j \<longleftrightarrow> page_locked s j \<and>
      \<not> (unat page div 4096 \<le> j \<and> j < unat page div 4096 + unat count)"
    by metis
  have "pmm_pages s < bitmap_bits s" "bitmap_bits s \<le> 4503599627370496"
    using assms(1) by (simp_all add: pmm_inv_def)
  with assms(2) s' locked show ?thesis by (auto simp: free_pages_def)
qed

theorem pmm_release_pages_correct_witness:
  "pmm_inv pmm_example \<and> (\<exists>s'. pmm_release_pages pmm_example 0 1 = Some s' \<and> pmm_inv s')"
proof -
  have "unat (0 :: u64) div 4096 + unat (1 :: u64) \<le> pmm_pages pmm_example"
    by (simp add: pmm_example_def)
  from pmm_release_pages_correct [OF pmm_example_inv this] pmm_example_inv
  show ?thesis by blast
qed

text \<open>A page that is released is not handed out again by the next request: the search position
  counts pages, but the release compares it with, and sets it to, an address in bytes, so the
  search starts behind the released page.\<close>

theorem released_page_not_reused:
  assumes inv: "pmm_inv s" and al: "page_aligned page" and pos: "0 < page"
    and mem: "unat page div 4096 < pmm_pages s"
    and behind: "unat page div 4096 < unat (last_free s)"
  shows "\<exists>s1 q s2. pmm_release_pages s page 1 = Some s1 \<and>
    \<not> page_locked s1 (unat page div 4096) \<and>
    pmm_request_pages s1 count = Some (q, s2) \<and> (q = 0 \<or> page < q)"
proof -
  have "unat page div 4096 + unat (1 :: u64) \<le> pmm_pages s" using mem by simp
  from pmm_release_pages_spec [OF inv this] obtain s1 where
    s1: "pmm_release_pages s page 1 = Some s1" "pmm_inv s1"
      "last_free s1 = (if page < last_free s then page else last_free s)"
    and locked: "\<And>j. j < 4503599627370496 \<Longrightarrow> page_locked s1 j \<longleftrightarrow> page_locked s j \<and>
      \<not> (unat page div 4096 \<le> j \<and> j < unat page div 4096 + unat (1 :: u64))"
    by metis
  have free: "\<not> page_locked s1 (unat page div 4096)"
    using locked [of "unat page div 4096"] mem pmm_inv_pages [OF inv] by simp
  from page_alignedE [OF al] obtain k where k: "unat page = 4096 * k" by blast
  with pos have "0 < k" by (simp add: word_less_nat_alt)
  with k behind s1(3) have later: "k < unat (last_free s1)" by simp
  show ?thesis
  proof (cases rule: pmm_request_pages_cases [OF s1(2), of count, case_names hit exhausted])
    case (hit r)
    then have "unat (page_addr r) = 4096 * r"
      using pmm_inv_pages [OF s1(2)] by (intro unat_page_addr) simp
    then have "page < page_addr r" using hit(1) later k by (simp add: word_less_nat_alt)
    with s1(1) free hit(5) show ?thesis by auto
  next
    case exhausted
    with s1(1) free show ?thesis by auto
  qed
qed

theorem released_page_not_reused_witness:
  "\<exists>s1 q s2. pmm_release_pages (pmm_example\<lparr>last_free := 4\<rparr>) 0x3000 1 = Some s1 \<and>
    \<not> page_locked s1 (unat (0x3000 :: u64) div 4096) \<and>
    pmm_request_pages s1 1 = Some (q, s2) \<and> (q = 0 \<or> 0x3000 < q)"
  by (rule released_page_not_reused)
    (simp_all add: pmm_example_inv page_aligned_def, simp_all add: pmm_example_def)

text \<open>C14: Initialisation from a memory map whose usable entries end below the total amount of
  memory, with a bitmap that fits its entry, returns a manager that satisfies the invariant: a page
  is free exactly if a usable entry covers it and it is not one of the whole pages of the
  bitmap.\<close>

theorem pmm_initialize_correct:
  assumes "scan_mmap 0 None mmap = (tot, Some l)" and "mmap_covered tot mmap"
    and "tot div 0x8000 + 1 \<le> entry_length l"
  shows "\<exists>s'. pmm_initialize s mmap = Some s' \<and> pmm_inv s' \<and> total_memory s' = tot \<and>
    bm_buf (page_bitmap s') = addr_ensure_higher (entry_base l) \<and>
    free_pages s' = {j. j < bitmap_bits s' \<and> usable_page mmap j \<and>
      \<not> (unat (entry_base l) div 4096 \<le> j \<and>
         j < unat (entry_base l) div 4096 + unat (bm_len (page_bitmap s')) div 4096)}"
proof -
  from pmm_initialize_spec [OF assms refl, of s] obtain s' where
    s': "pmm_initialize s mmap = Some s'" "pmm_inv s'" "total_memory s' = tot"
      "page_bitmap s' =
        \<lparr>bm_buf = addr_ensure_higher (entry_base l), bm_len = tot div 0x8000 + 1\<rparr>"
      "\<forall>j < 8 * unat (tot div 0x8000 + 1). page_locked s' j \<longleftrightarrow> \<not> usable_page mmap j \<or>
       (unat (entry_base l) div 4096 \<le> j \<and>
        j < unat (entry_base l) div 4096 + unat (tot div 0x8000 + 1) div 4096)"
    by blast
  then show ?thesis by (intro exI [of _ s']) (auto simp: free_pages_def)
qed

definition mmap_example :: "stivale2_mmap_entry list" where
  "mmap_example =
     [\<lparr>entry_base = 0, entry_length = 0x1000, entry_type = 2\<rparr>,
      \<lparr>entry_base = 0x1000, entry_length = 0x3000, entry_type = 1\<rparr>]"

lemma mmap_example_scan:
  "scan_mmap 0 None mmap_example =
     (0x4000, Some \<lparr>entry_base = 0x1000, entry_length = 0x3000, entry_type = 1\<rparr>)"
  by (simp add: mmap_example_def STIVALE2_MMAP_USABLE_def)

lemma mmap_example_covered: "mmap_covered 0x4000 mmap_example"
  by (simp add: mmap_covered_def mmap_example_def STIVALE2_MMAP_USABLE_def)

theorem pmm_initialize_correct_witness:
  "\<exists>s'. pmm_initialize pmm_example mmap_example = Some s' \<and> pmm_inv s' \<and>
    total_memory s' = 0x4000"
  using pmm_initialize_correct [OF mmap_example_scan mmap_example_covered, of pmm_example]
  by auto

text \<open>On a machine with less than 128 MiB the bitmap does not protect itself: its length in
  bytes, divided by the page size, rounds down to zero pages, so the page that holds the bitmap is
  free after initialisation and will be handed out.\<close>

theorem bitmap_buffer_left_free:
  assumes scan: "scan_mmap 0 None mmap = (tot, Some l)" and cov: "mmap_covered tot mmap"
    and fits: "tot div 0x8000 + 1 \<le> entry_length l" and page: "0x1000 \<le> entry_length l"
    and small: "tot < 0x7ff8000"
  shows "\<exists>s'. pmm_initialize s mmap = Some s' \<and>
    addr_ensure_lower (bm_buf (page_bitmap s')) = addr_ensure_lower (entry_base l) \<and>
    unat (entry_base l) div 4096 \<in> free_pages s'"
proof -
  let ?n = "tot div 0x8000 + 1"
  from pmm_initialize_spec [OF scan cov fits refl, of s] obtain s' where
    s': "pmm_initialize s mmap = Some s'"
      "page_bitmap s' = \<lparr>bm_buf = addr_ensure_higher (entry_base l), bm_len = ?n\<rparr>"
      "\<forall>j < 8 * unat ?n. page_locked s' j \<longleftrightarrow> \<not> usable_page mmap j \<or>
       (unat (entry_base l) div 4096 \<le> j \<and>
        j < unat (entry_base l) div 4096 + unat ?n div 4096)"
    by blast
  have "unat tot \<le> 140737488355328" using cov by (simp add: mmap_covered_def)
  note bits = bitmap_len_bounds(2) [OF this refl]
  have "unat tot div 32768 < 4095"
    using small by (simp add: word_less_nat_alt)
  then have len: "unat ?n div 4096 = 0"
    by (simp add: unat_word_ariths unat_div)
  have l: "l \<in> set mmap" "entry_type l = STIVALE2_MMAP_USABLE"
    using scan_mmap_largest [OF scan] by simp_all
  have "1 \<le> unat (entry_length l) div 4096"
    using page by (simp add: word_le_nat_alt div_greater_zero_iff Suc_le_eq)
  then have base: "usable_page mmap (unat (entry_base l) div 4096)"
    unfolding usable_page_def using l by (intro bexI [of _ l]) simp_all
  have "unat (entry_base l) div 4096 + unat (entry_length l) div 4096 \<le> unat tot div 4096"
    using cov l by (simp add: mmap_covered_def)
  with bits have "unat (entry_base l) div 4096 < 8 * unat ?n" by linarith
  with s' base len show ?thesis
    by (intro exI [of _ s'])
      (simp add: free_pages_def addr_ensure_lower_higher)
qed

theorem bitmap_buffer_left_free_witness:
  "\<exists>s'. pmm_initialize pmm_example mmap_example = Some s' \<and>
    addr_ensure_lower (bm_buf (page_bitmap s')) = addr_ensure_lower 0x1000 \<and>
    1 \<in> free_pages s'"
  using bitmap_buffer_left_free [OF mmap_example_scan mmap_example_covered, of pmm_example]
  by simp

end
