(* ===== verification/Palloc.thy ===== *)
theory Palloc
  imports Pmm
begin

text \<open>
  Page allocation through the high window (\<^verbatim>\<open>palloc\<close>, \<^verbatim>\<open>zpalloc\<close>, \<^verbatim>\<open>pfree\<close> of
  \<^verbatim>\<open>libk/alloc.c\<close>), and the contract the page tables rely on, as the locale
  \<open>frame_allocator\<close>: an allocated frame was not owned before, is owned afterwards, and
  neither the allocation nor a write into an owned frame disturbs the other owned frames or the
  allocator itself.
\<close>

definition palloc :: "'z pmm_scheme \<Rightarrow> u64 \<Rightarrow> (ptr \<times> 'z pmm_scheme) option" where
  "palloc s n =
     do { (p, s') \<leftarrow> pmm_request_pages s n;
          Some (addr_offset_higher p, s') }"

definition zpalloc :: "'z pmm_scheme \<Rightarrow> u64 \<Rightarrow> (ptr \<times> 'z pmm_scheme) option" where
  "zpalloc s n =
     do { (p, s') \<leftarrow> palloc s n;
          Some (p, s'\<lparr>kmem := memset (kmem s') p 0 n\<rparr>) }"

definition pfree :: "'z pmm_scheme \<Rightarrow> ptr \<Rightarrow> u64 \<Rightarrow> 'z pmm_scheme option" where
  "pfree s p n = pmm_release_pages s (addr_ensure_lower p) n"

section \<open>The contract\<close>

definition table_ptr :: "ptr \<Rightarrow> bool" where
  "table_ptr p \<longleftrightarrow> page_aligned p \<and> VADDR_HIGHER \<le> p"

lemma table_ptr_aligned: "table_ptr p \<Longrightarrow> page_aligned p"
  by (simp add: table_ptr_def)

locale frame_allocator =
  fixes alloc :: "'s \<Rightarrow> (ptr \<times> 's) option"
    and memory :: "'s \<Rightarrow> mem"
    and put_memory :: "mem \<Rightarrow> 's \<Rightarrow> 's"
    and owned :: "'s \<Rightarrow> ptr \<Rightarrow> bool"
    and avail :: "'s \<Rightarrow> nat"
    and ok :: "'s \<Rightarrow> bool"
  assumes owned_table_ptr: "owned s p \<Longrightarrow> table_ptr p"
    and alloc_fresh: "ok s \<Longrightarrow> 0 < avail s \<Longrightarrow>
      \<exists>p s'. alloc s = Some (p, s') \<and> ok s' \<and> avail s' = avail s - 1 \<and> \<not> owned s p \<and>
        (\<forall>q. owned s' q \<longleftrightarrow> owned s q \<or> q = p) \<and>
        (\<forall>q a. owned s' q \<longrightarrow> a \<in> frame q \<longrightarrow> memory s' a = memory s a)"
    and write_owned: "ok s \<Longrightarrow> owned s q \<Longrightarrow> (\<And>a. a \<notin> frame q \<Longrightarrow> m a = memory s a) \<Longrightarrow>
      ok (put_memory m s) \<and> avail (put_memory m s) = avail s \<and>
      owned (put_memory m s) = owned s"
    and memory_put [simp]: "memory (put_memory m s) = m"
begin

lemma store_entry:
  assumes "ok s" and "owned s q" and "i < 512"
  shows "ok (put_memory (store64 (memory s) (q + 8 * i) v) s)"
    and "avail (put_memory (store64 (memory s) (q + 8 * i) v) s) = avail s"
    and "owned (put_memory (store64 (memory s) (q + 8 * i) v) s) = owned s"
proof -
  have "store64 (memory s) (q + 8 * i) v a = memory s a" if "a \<notin> frame q" for a
    using assms that owned_table_ptr table_ptr_aligned by (intro store64_slot_other) auto
  from write_owned [OF assms(1,2) this]
  show "ok (put_memory (store64 (memory s) (q + 8 * i) v) s)"
    and "avail (put_memory (store64 (memory s) (q + 8 * i) v) s) = avail s"
    and "owned (put_memory (store64 (memory s) (q + 8 * i) v) s) = owned s"
    by simp_all
qed

lemma zero_frame:
  assumes "page_aligned p"
  shows "memset m p 0 0x1000 a = (if a \<in> frame p then 0 else m a)"
  using in_frame_iff [OF assms] by (simp add: memset_apply word_less_nat_alt)

text \<open>An allocated and zeroed frame: the step every new page table starts with.\<close>

lemma alloc_zeroed:
  assumes "ok s" and "0 < avail s"
  obtains p s1 s2 where "alloc s = Some (p, s1)"
    "s2 = put_memory (memset (memory s1) p 0 0x1000) s1"
    "ok s2" "avail s2 = avail s - 1" "\<not> owned s p" "table_ptr p"
    "\<And>q. owned s2 q \<longleftrightarrow> owned s q \<or> q = p"
    "\<And>q a. owned s q \<Longrightarrow> a \<in> frame q \<Longrightarrow> memory s2 a = memory s a"
    "\<And>i. i < 512 \<Longrightarrow> load64 (memory s2) (p + 8 * i) = 0"
proof -
  from alloc_fresh [OF assms] obtain p s1 where
    p: "alloc s = Some (p, s1)" "ok s1" "avail s1 = avail s - 1" "\<not> owned s p"
      "\<And>q. owned s1 q \<longleftrightarrow> owned s q \<or> q = p"
      "\<And>q a. owned s1 q \<Longrightarrow> a \<in> frame q \<Longrightarrow> memory s1 a = memory s a"
    by blast
  define m where "m = memset (memory s1) p 0 0x1000"
  have own: "owned s1 p" by (simp add: p(5))
  then have tp: "table_ptr p" by (rule owned_table_ptr)
  have m: "m a = (if a \<in> frame p then 0 else memory s1 a)" for a
    using zero_frame [OF table_ptr_aligned [OF tp]] by (simp add: m_def)
  have w: "ok (put_memory m s1)" "avail (put_memory m s1) = avail s1"
    "owned (put_memory m s1) = owned s1"
    using write_owned [OF p(2) own, of m] m by auto
  have keep: "m a = memory s a" if "owned s q" and "a \<in> frame q" for q a
  proof -
    have "q \<noteq> p" using that(1) p(4) by blast
    moreover have "owned s1 q" using that(1) p(5) by simp
    ultimately have "frame q \<inter> frame p = {}"
      using tp owned_table_ptr table_ptr_aligned by (intro frame_disjoint) auto
    then show ?thesis using that m p(6) \<open>owned s1 q\<close> by auto
  qed
  have zero: "load64 m (p + 8 * i) = 0" if "i < 512" for i
    by (rule load64_zero)
      (simp add: m slot_in_frame [OF table_ptr_aligned [OF tp] that])
  show ?thesis
    by (rule that [OF p(1) refl])
      (use w p tp keep zero in \<open>simp_all add: m_def [symmetric]\<close>)
qed

end

section \<open>The physical memory manager satisfies it\<close>

definition page_of :: "ptr \<Rightarrow> nat" where
  "page_of p = unat (addr_ensure_lower p) div 4096"

text \<open>
  The bytes of the bitmap lie in the high window, in locked pages. Initialisation only
  locks the whole pages of the buffer (see \<open>bitmap_buffer_left_free\<close>), so this is a
  requirement on the memory map, not something \<^verbatim>\<open>pmm_initialize\<close> establishes.
\<close>

definition bitmap_safe :: "'z pmm_scheme \<Rightarrow> bool" where
  "bitmap_safe s \<longleftrightarrow> (\<forall>a. \<not> outside_bitmap s a \<longrightarrow>
     VADDR_HIGHER \<le> a \<and> page_of a < pmm_pages s \<and> page_locked s (page_of a))"

definition palloc_ok :: "'z pmm_scheme \<Rightarrow> bool" where
  "palloc_ok s \<longleftrightarrow> pmm_inv s \<and> unat (total_memory s) \<le> 140737488355328 \<and> bitmap_safe s"

definition frame_owned :: "'z pmm_scheme \<Rightarrow> ptr \<Rightarrow> bool" where
  "frame_owned s p \<longleftrightarrow> table_ptr p \<and> page_of p < pmm_pages s \<and> page_locked s (page_of p) \<and>
     (\<forall>a\<in>frame p. outside_bitmap s a)"

definition frames_avail :: "'z pmm_scheme \<Rightarrow> nat" where
  "frames_avail s = card {j. unat (last_free s) \<le> j \<and> j < pmm_pages s \<and> \<not> page_locked s j}"

text \<open>The pointers to the memory of the machine.\<close>

definition window :: "'z pmm_scheme \<Rightarrow> ptr set" where
  "window s = {a. VADDR_HIGHER \<le> a \<and> page_of a < pmm_pages s}"

lemma page_of_lt: "page_of p < 34359738368"
proof -
  have "unat p mod 140737488355328 < 140737488355328" by simp
  then show ?thesis unfolding page_of_def unat_addr_ensure_lower by linarith
qed

lemma unat_high:
  assumes "VADDR_HIGHER \<le> p"
  shows "unat p = unat (addr_ensure_lower p) + 18446603336221196288"
proof -
  have "unat p = unat (addr_ensure_higher p)" using addr_ensure_higher_high [OF assms] by simp
  also have "\<dots> = unat (addr_ensure_lower p) + 18446603336221196288"
    by (simp only: unat_addr_ensure_higher unat_addr_ensure_lower)
  finally show ?thesis .
qed

lemma high_div: "VADDR_HIGHER \<le> p \<Longrightarrow> unat p div 4096 = page_of p + 4503565267632128"
  using unat_high [of p] unfolding page_of_def by simp

lemma high_same_page:
  assumes "VADDR_HIGHER \<le> p"
  shows "a \<in> frame p \<longleftrightarrow> VADDR_HIGHER \<le> a \<and> page_of a = page_of p"
proof
  assume a: "a \<in> frame p"
  have "4503565267632128 \<le> unat p div 4096" using high_div [OF assms] by simp
  with a have "4503565267632128 \<le> unat a div 4096" by (simp add: frame_def)
  then have "VADDR_HIGHER \<le> a" by (simp add: word_le_nat_alt unat_VADDR_HIGHER)
  with a assms show "VADDR_HIGHER \<le> a \<and> page_of a = page_of p"
    using high_div [of a] high_div [of p] by (simp add: frame_def)
next
  assume "VADDR_HIGHER \<le> a \<and> page_of a = page_of p"
  with assms show "a \<in> frame p" using high_div [of a] high_div [of p] by (simp add: frame_def)
qed

lemma frame_owned_window: "frame_owned s p \<Longrightarrow> frame p \<subseteq> window s"
  using high_same_page [of p] by (auto simp: frame_owned_def window_def table_ptr_def)

lemma table_ptr_eq:
  assumes "table_ptr p" and "table_ptr q"
  shows "p = q \<longleftrightarrow> page_of p = page_of q"
proof
  assume "page_of p = page_of q"
  with assms have "unat p div 4096 = unat q div 4096" by (simp add: high_div table_ptr_def)
  moreover from assms obtain k l where "unat p = 4096 * k" "unat q = 4096 * l"
    unfolding table_ptr_def by (metis page_alignedE)
  ultimately show "p = q" by (simp add: u64_eq_iff_unat)
qed simp

lemma page_of_window:
  assumes "r < 34359738368"
  shows "table_ptr (addr_offset_higher (page_addr r))"
    and "page_of (addr_offset_higher (page_addr r)) = r"
proof -
  have r: "unat (page_addr r) = 4096 * r" using assms by (intro unat_page_addr) simp
  then have "page_addr r < 0x800000000000" using assms by (simp add: word_less_nat_alt)
  then have u: "unat (addr_offset_higher (page_addr r)) = 4096 * r + 18446603336221196288"
    using unat_addr_offset_higher r by simp
  have "4096 dvd 4096 * r + (18446603336221196288 :: nat)" by (intro dvd_add) simp_all
  with u show tp: "table_ptr (addr_offset_higher (page_addr r))"
    by (simp add: table_ptr_def page_aligned_def word_le_nat_alt unat_VADDR_HIGHER)
  have "page_of (addr_offset_higher (page_addr r)) + 4503565267632128 =
    (4096 * r + 18446603336221196288) div 4096"
    using high_div [of "addr_offset_higher (page_addr r)"] tp u by (simp add: table_ptr_def)
  also have "\<dots> = r + 4503565267632128" by simp
  finally show "page_of (addr_offset_higher (page_addr r)) = r" by simp
qed

lemma page_locked_write:
  assumes "n < bitmap_bits s" and "bitmap_bits s \<le> 4503599627370496"
    and "\<And>a. \<not> outside_bitmap s a \<Longrightarrow> m a = kmem s a"
  shows "page_locked (s\<lparr>kmem := m\<rparr>) n = page_locked s n"
proof -
  have "unat (of_nat n :: u64) = n" using assms(1,2) by (intro unat_of_nat_u64) simp
  then have "(of_nat n :: u64) div 8 < bm_len (page_bitmap s)"
    using assms(1) by (simp add: word_less_nat_alt unat_div)
  then have "m (bm_buf (page_bitmap s) + of_nat n div 8) =
    kmem s (bm_buf (page_bitmap s) + of_nat n div 8)"
    by (intro assms(3)) (simp add: outside_bitmap_def not_le)
  then show ?thesis by (simp add: page_locked_def bitmap_isset_bit)
qed

lemma write_outside_bitmap:
  assumes ok: "palloc_ok s" and m: "\<And>a. \<not> outside_bitmap s a \<Longrightarrow> m a = kmem s a"
  shows "palloc_ok (s\<lparr>kmem := m\<rparr>)" and "frames_avail (s\<lparr>kmem := m\<rparr>) = frames_avail s"
    and "frame_owned (s\<lparr>kmem := m\<rparr>) = frame_owned s"
proof -
  have bits: "pmm_pages s < bitmap_bits s" "bitmap_bits s \<le> 4503599627370496"
    using ok by (simp_all add: palloc_ok_def pmm_inv_def)
  have locked: "page_locked (s\<lparr>kmem := m\<rparr>) n = page_locked s n" if "n < bitmap_bits s" for n
    by (rule page_locked_write [OF that bits(2) m])
  then have "free_pages (s\<lparr>kmem := m\<rparr>) = free_pages s" by (auto simp: free_pages_def)
  moreover have locked': "page_locked (s\<lparr>kmem := m\<rparr>) n = page_locked s n"
    if "n \<le> pmm_pages s" for n
    using that bits by (intro locked) simp
  ultimately show "palloc_ok (s\<lparr>kmem := m\<rparr>)"
    using ok less_imp_le
    by (auto simp: palloc_ok_def pmm_inv_def free_count_ok_def bitmap_safe_def outside_bitmap_def)
  show "frame_owned (s\<lparr>kmem := m\<rparr>) = frame_owned s"
    using locked' by (auto simp: fun_eq_iff frame_owned_def outside_bitmap_def)
  have "{j. unat (last_free s) \<le> j \<and> j < pmm_pages s \<and> \<not> page_locked (s\<lparr>kmem := m\<rparr>) j} =
    {j. unat (last_free s) \<le> j \<and> j < pmm_pages s \<and> \<not> page_locked s j}"
    using locked' by auto
  then show "frames_avail (s\<lparr>kmem := m\<rparr>) = frames_avail s"
    by (simp add: frames_avail_def)
qed

lemma palloc_one:
  assumes ok: "palloc_ok s" and av: "0 < frames_avail s"
  obtains r where "grantable s r 1" "unat (last_free s) \<le> r" "\<not> page_locked s r"
    "\<And>q. unat (last_free s) \<le> q \<Longrightarrow> q < r \<Longrightarrow> page_locked s q"
    "palloc s 1 = Some (addr_offset_higher (page_addr r), request_state s r 1)"
proof -
  have inv: "pmm_inv s" using ok by (simp add: palloc_ok_def)
  have run: "free_run s q (unat (1 :: u64)) \<longleftrightarrow> \<not> page_locked s q" for q
    by (simp add: free_run_def)
  show ?thesis
  proof (cases rule: pmm_request_pages_cases [OF inv, of 1, case_names hit exhausted])
    case (hit r)
    then show ?thesis
      using inv run by (intro that [of r]) (auto simp: grantable_def palloc_def)
  next
    case exhausted
    then have "{j. unat (last_free s) \<le> j \<and> j < pmm_pages s \<and> \<not> page_locked s j} = {}"
      unfolding run by auto
    with av show ?thesis by (simp add: frames_avail_def)
  qed
qed

lemma palloc_one_more:
  assumes "palloc_ok s" and "0 < frames_avail s" and "palloc s 1 = Some (p, s1)"
  shows "pmm.more s1 = pmm.more s" "total_memory s1 = total_memory s"
    "page_bitmap s1 = page_bitmap s"
  using palloc_one [OF assms(1,2)] assms(3)
  by (metis option.inject prod.inject request_state_simps(4),
      metis option.inject prod.inject request_state_simps(3),
      metis option.inject prod.inject request_state_simps(1))

lemma palloc_one_outside:
  assumes ok: "palloc_ok s" and av: "0 < frames_avail s" and p: "palloc s 1 = Some (p, s1)"
    and a: "a \<notin> window s"
  shows "kmem s1 a = kmem s a"
proof -
  have "outside_bitmap s a" using ok a by (auto simp: palloc_ok_def bitmap_safe_def window_def)
  moreover from palloc_one [OF ok av] obtain r where "grantable s r 1"
    "palloc s 1 = Some (addr_offset_higher (page_addr r), request_state s r 1)" by metis
  ultimately show ?thesis using p request_state_kmem by auto
qed

lemma palloc_one_owned:
  assumes ok: "palloc_ok s" and g: "grantable s r 1" and free: "\<not> page_locked s r"
  defines "p \<equiv> addr_offset_higher (page_addr r)" and "s' \<equiv> request_state s r 1"
  shows "palloc_ok s'" and "\<not> frame_owned s p"
    and "frame_owned s' q \<longleftrightarrow> frame_owned s q \<or> q = p"
proof -
  have "unat (total_memory s) \<le> 140737488355328" using ok by (simp add: palloc_ok_def)
  then have tot: "pmm_pages s \<le> 34359738368" by linarith
  have rN: "r < pmm_pages s" using g by (simp add: grantable_def)
  have p: "table_ptr p" "page_of p = r"
    using page_of_window [of r] rN tot by (simp_all add: p_def)
  have locked: "page_locked s' j \<longleftrightarrow> page_locked s j \<or> j = r" if "j < 4503599627370496" for j
    using request_state_locked [OF g that] by (auto simp: s'_def)
  have locked_of: "page_locked s' (page_of a) \<longleftrightarrow> page_locked s (page_of a) \<or> page_of a = r" for a
    using page_of_lt [of a] by (intro locked) simp
  have out: "outside_bitmap s' a = outside_bitmap s a" for a
    by (simp add: s'_def outside_bitmap_def)
  have N: "pmm_pages s' = pmm_pages s" "total_memory s' = total_memory s"
    by (simp_all add: s'_def)
  show "palloc_ok s'"
    using ok request_state_inv [OF g, folded s'_def]
    by (auto simp: palloc_ok_def bitmap_safe_def out locked_of N)
  show "\<not> frame_owned s p" using free p by (simp add: frame_owned_def)
  have "outside_bitmap s a" if "a \<in> frame p" for a
  proof (rule ccontr)
    assume "\<not> outside_bitmap s a"
    then have "page_locked s (page_of a)" using ok by (simp add: palloc_ok_def bitmap_safe_def)
    moreover have "page_of a = r"
      using that p high_same_page [of p a] by (simp add: table_ptr_def)
    ultimately show False using free by simp
  qed
  moreover have "q = p" if "table_ptr q" "page_of q = r"
    using that p table_ptr_eq by simp
  ultimately show "frame_owned s' q \<longleftrightarrow> frame_owned s q \<or> q = p"
    using p rN by (auto simp: frame_owned_def out locked_of N)
qed

lemma palloc_one_avail:
  assumes g: "grantable s r 1" and lo: "unat (last_free s) \<le> r" and free: "\<not> page_locked s r"
    and least: "\<And>q. unat (last_free s) \<le> q \<Longrightarrow> q < r \<Longrightarrow> page_locked s q"
  shows "frames_avail (request_state s r 1) = frames_avail s - 1"
proof -
  let ?s = "request_state s r 1"
  let ?F = "{j. unat (last_free s) \<le> j \<and> j < pmm_pages s \<and> \<not> page_locked s j}"
  have N: "pmm_pages s < 4503599627370496" and r: "r < pmm_pages s"
    using g pmm_inv_pages by (auto simp: grantable_def)
  then have "unat (last_free ?s) = r + 1"
    by (simp only: request_state_simps) (intro unat_of_nat_u64, simp)
  then have "{j. unat (last_free ?s) \<le> j \<and> j < pmm_pages ?s \<and> \<not> page_locked ?s j} = ?F - {r}"
    using N lo least request_state_locked [OF g] by (auto simp: Suc_le_eq)
      (metis le_neq_implies_less not_le_imp_less)+
  moreover have "r \<in> ?F" using lo r free by simp
  moreover have "finite ?F" by simp
  ultimately show ?thesis unfolding frames_avail_def by (simp add: card_Diff_singleton)
qed

interpretation pa: frame_allocator
  "\<lambda>s. palloc s 1" "kmem :: 'z pmm_scheme \<Rightarrow> mem" "\<lambda>m. kmem_update (\<lambda>_. m)"
  frame_owned frames_avail palloc_ok
proof unfold_locales
  fix s :: "'z pmm_scheme" and p
  assume "frame_owned s p"
  then show "table_ptr p" by (simp add: frame_owned_def)
next
  fix s :: "'z pmm_scheme"
  assume ok: "palloc_ok s" and av: "0 < frames_avail s"
  from palloc_one [OF this] obtain r where r: "grantable s r 1" "unat (last_free s) \<le> r"
    "\<not> page_locked s r"
    "\<And>q. unat (last_free s) \<le> q \<Longrightarrow> q < r \<Longrightarrow> page_locked s q"
    "palloc s 1 = Some (addr_offset_higher (page_addr r), request_state s r 1)"
    by metis
  have "kmem (request_state s r 1) a = kmem s a"
    if "frame_owned (request_state s r 1) q" "a \<in> frame q" for q a
    using that by (intro request_state_kmem [OF r(1)])
      (simp add: frame_owned_def outside_bitmap_def)
  with r palloc_one_owned [OF ok r(1,3)] palloc_one_avail [OF r(1-4)]
  show "\<exists>p s'. palloc s 1 = Some (p, s') \<and> palloc_ok s' \<and> frames_avail s' = frames_avail s - 1 \<and>
    \<not> frame_owned s p \<and> (\<forall>q. frame_owned s' q \<longleftrightarrow> frame_owned s q \<or> q = p) \<and>
    (\<forall>q a. frame_owned s' q \<longrightarrow> a \<in> frame q \<longrightarrow> kmem s' a = kmem s a)"
    by (intro exI [of _ "addr_offset_higher (page_addr r)"] exI [of _ "request_state s r 1"])
      simp
next
  fix s :: "'z pmm_scheme" and q and m :: mem
  assume ok: "palloc_ok s" and own: "frame_owned s q" and m: "\<And>a. a \<notin> frame q \<Longrightarrow> m a = kmem s a"
  have "m a = kmem s a" if "\<not> outside_bitmap s a" for a
    using that own by (intro m) (auto simp: frame_owned_def)
  from write_outside_bitmap [OF ok this]
  show "palloc_ok (s\<lparr>kmem := m\<rparr>) \<and> frames_avail (s\<lparr>kmem := m\<rparr>) = frames_avail s \<and>
    frame_owned (s\<lparr>kmem := m\<rparr>) = frame_owned s" by simp
qed simp


section \<open>Properties\<close>

text \<open>The second argument of \<^verbatim>\<open>zpalloc\<close> counts pages for the allocation and bytes for the
  clearing: of the page it allocates, only the first byte is cleared.\<close>

theorem zpalloc_clears_one_byte:
  assumes ok: "palloc_ok s" and av: "0 < frames_avail s"
  shows "\<exists>p s'. zpalloc s 1 = Some (p, s') \<and> table_ptr p \<and> kmem s' p = 0 \<and>
    (\<forall>a\<in>frame p. a \<noteq> p \<longrightarrow> kmem s' a = kmem s a)"
proof -
  from pa.alloc_fresh [OF ok av] obtain p s1 where
    p: "palloc s 1 = Some (p, s1)" "\<And>q. frame_owned s1 q \<longleftrightarrow> frame_owned s q \<or> q = p"
    "\<And>q a. frame_owned s1 q \<Longrightarrow> a \<in> frame q \<Longrightarrow> kmem s1 a = kmem s a" by blast
  have own: "frame_owned s1 p" by (simp add: p(2))
  have one: "a - p < 1 \<longleftrightarrow> a = p" for a :: u64
    by (metis eq_iff_diff_eq_0 word_less_1)
  show ?thesis
    using p(1) p(3) [OF own] own
    by (intro exI [of _ p] exI [of _ "s1\<lparr>kmem := memset (kmem s1) p 0 1\<rparr>"])
      (simp add: zpalloc_def memset_apply one frame_owned_def)
qed

text \<open>Freeing the pages of an allocation gives exactly these pages back.\<close>

theorem palloc_pfree_restores:
  assumes ok: "palloc_ok s" and some: "0 < frames_avail s"
  shows "\<exists>p s1 s2. palloc s 1 = Some (p, s1) \<and> pfree s1 p 1 = Some s2 \<and>
    free_pages s2 = free_pages s \<and> pmm_inv s2"
proof -
  from palloc_one [OF ok some] obtain r where r: "grantable s r 1" "\<not> page_locked s r"
    "palloc s 1 = Some (addr_offset_higher (page_addr r), request_state s r 1)" by metis
  let ?s1 = "request_state s r 1"
  have rN: "r < pmm_pages s" "pmm_inv s" using r(1) by (simp_all add: grantable_def)
  have tot: "unat (total_memory s) \<le> 140737488355328" using ok by (simp add: palloc_ok_def)
  then have small: "r < 34359738368" using rN(1) by linarith
  have addr: "unat (page_addr r) = 4096 * r" using small by (intro unat_page_addr) simp
  have low: "addr_ensure_lower (addr_offset_higher (page_addr r)) = page_addr r"
  proof -
    have "page_addr r < 0x800000000000" using addr small by (simp add: word_less_nat_alt)
    then show ?thesis
      using addr_ensure_lower_higher [of "page_addr r"] addr_ensure_lower_phys addr_ensure_higher_phys
      by metis
  qed
  have fit: "unat (page_addr r) div 4096 + unat (1 :: u64) \<le> pmm_pages ?s1"
    using rN(1) by (simp add: addr)
  obtain s2 where s2: "pmm_release_pages ?s1 (page_addr r) 1 = Some s2" "pmm_inv s2"
    "\<And>j. j < 4503599627370496 \<Longrightarrow> page_locked s2 j \<longleftrightarrow> page_locked ?s1 j \<and>
      \<not> (unat (page_addr r) div 4096 \<le> j \<and> j < unat (page_addr r) div 4096 + unat (1 :: u64))"
    "page_bitmap s2 = page_bitmap ?s1"
    by (rule pmm_release_pages_spec [OF request_state_inv [OF r(1)] fit]) blast
  have "page_locked s2 j \<longleftrightarrow> page_locked s j" if "j < 4503599627370496" for j
    using r(2) s2(3) [OF that] request_state_locked [OF r(1) that] by (cases "j = r") (auto simp: addr)
  moreover have "bitmap_bits s \<le> 4503599627370496" using rN(2) by (simp add: pmm_inv_def)
  ultimately have "free_pages s2 = free_pages s" by (auto simp: free_pages_def s2(4))
  with r(3) s2(1,2) low show ?thesis by (simp add: pfree_def)
qed

end
