(* ===== verification/Paging.thy ===== *)
theory Paging
  imports Palloc
begin

text \<open>
  The four-level page tables (\<^verbatim>\<open>memory/paging.c\<close>). A table is a frame of 512 entries of eight
  bytes, reached through the high window; levels count down from 3 (the root, PML4) to 0 (PML1).
  The loops over the levels are recursions on the level. The state extends that of the page
  allocator by the kernel's root table, the control register \<^verbatim>\<open>cr3\<close> and a log of the addresses
  flushed from the TLB.
\<close>

record vm = pmm +
  kernel_table :: ptr
  cr3 :: u64
  invlpg :: "ptr list"

definition PAGING_PRESENT :: u64 where "PAGING_PRESENT = 1"
definition PAGING_WRITABLE :: u64 where "PAGING_WRITABLE = 2"
definition PAGING_USER :: u64 where "PAGING_USER = 4"
definition PAGING_HUGE :: u64 where "PAGING_HUGE = 0x80"

section \<open>The operations\<close>

definition vaddr_to_index :: "u64 \<Rightarrow> u64 list" where
  "vaddr_to_index vaddr =
     (let v0 = drop_bit 12 vaddr; v1 = drop_bit 9 v0; v2 = drop_bit 9 v1; v3 = drop_bit 9 v2
      in [v0 AND 0x1ff, v1 AND 0x1ff, v2 AND 0x1ff, v3 AND 0x1ff])"

definition paging_write_cr3 :: "'z vm_scheme \<Rightarrow> ptr \<Rightarrow> 'z vm_scheme" where
  "paging_write_cr3 s table = s\<lparr>cr3 := addr_ensure_lower table\<rparr>"

definition paging_flush_tlb :: "'z vm_scheme \<Rightarrow> ptr \<Rightarrow> 'z vm_scheme" where
  "paging_flush_tlb s addr = s\<lparr>invlpg := addr # invlpg s\<rparr>"

definition child_table :: "u64 \<Rightarrow> ptr" where
  "child_table e = addr_ensure_higher (e AND NOT 0xfff)"

text \<open>The loop of \<^verbatim>\<open>paging_map\<close>: the table of the last level, creating tables on the way.\<close>

fun map_walk ::
  "u64 list \<Rightarrow> u64 \<Rightarrow> nat \<Rightarrow> ptr \<Rightarrow> 'z vm_scheme \<Rightarrow> (ptr \<times> 'z vm_scheme) option" where
  "map_walk indices vaddr 0 table s = Some (table, s)"
| "map_walk indices vaddr (Suc l) table s =
     (let slot = table + 8 * indices ! Suc l;
          child = load64 (kmem s) slot
      in if child AND PAGING_PRESENT = 0 then
           do { (new, s1) \<leftarrow> palloc s 1;
                let m1 = memset (kmem s1) new 0 0x1000;
                let m2 = store64 m1 slot (addr_offset_lower new OR PAGING_PRESENT);
                let m3 = (if vaddr < VADDR_HIGHER
                          then store64 m2 slot (load64 m2 slot OR (PAGING_WRITABLE OR PAGING_USER))
                          else m2);
                map_walk indices vaddr l (child_table new) (s1\<lparr>kmem := m3\<rparr>) }
         else map_walk indices vaddr l (child_table child) s)"

definition paging_map ::
  "'z vm_scheme \<Rightarrow> ptr \<Rightarrow> ptr \<Rightarrow> ptr \<Rightarrow> u8 \<Rightarrow> 'z vm_scheme option" where
  "paging_map s table vaddr paddr flags =
     (let indices = vaddr_to_index vaddr in
      do { (t, s1) \<leftarrow> map_walk indices vaddr 3 table s;
           let s2 = s1\<lparr>kmem := store64 (kmem s1) (t + 8 * indices ! 0)
                                 (paddr OR ucast flags OR PAGING_PRESENT)\<rparr>;
           Some (paging_flush_tlb s2 vaddr) })"

text \<open>
  The loop of \<^verbatim>\<open>paging_unmap\<close>: the table of the last level, or \<open>None\<close> where the function
  returns early because a table is missing.
\<close>

fun unmap_walk :: "u64 list \<Rightarrow> mem \<Rightarrow> nat \<Rightarrow> ptr \<Rightarrow> ptr option" where
  "unmap_walk indices m 0 table = Some table"
| "unmap_walk indices m (Suc l) table =
     (let child = load64 m (table + 8 * indices ! Suc l) in
      if child AND PAGING_PRESENT = 0 then None
      else unmap_walk indices m l (child_table child))"

definition paging_unmap :: "'z vm_scheme \<Rightarrow> ptr \<Rightarrow> ptr \<Rightarrow> 'z vm_scheme" where
  "paging_unmap s table vaddr =
     (let indices = vaddr_to_index vaddr in
      case unmap_walk indices (kmem s) 3 table of
        None \<Rightarrow> s
      | Some t \<Rightarrow>
          paging_flush_tlb (s\<lparr>kmem := store64 (kmem s) (t + 8 * indices ! 0) 0\<rparr>) vaddr)"

fun get_walk :: "u64 list \<Rightarrow> mem \<Rightarrow> nat \<Rightarrow> ptr \<Rightarrow> u64" where
  "get_walk indices m 0 table = load64 m (table + 8 * indices ! 0)"
| "get_walk indices m (Suc l) table =
     (let child = load64 m (table + 8 * indices ! Suc l) in
      if child AND PAGING_PRESENT = 0 then 0
      else if child AND PAGING_HUGE \<noteq> 0 then child
      else get_walk indices m l (child_table child))"

definition paging_get :: "'z vm_scheme \<Rightarrow> ptr \<Rightarrow> ptr \<Rightarrow> u64" where
  "paging_get s table vaddr = get_walk (vaddr_to_index vaddr) (kmem s) 3 table"

definition paging_create_empty :: "'z vm_scheme \<Rightarrow> (ptr \<times> 'z vm_scheme) option" where
  "paging_create_empty s =
     do { (new_table, s1) \<leftarrow> palloc s 1;
          let m1 = memset (kmem s1) new_table 0 0x1000;
          let m2 = memcpy m1 (new_table + 0x800) (kernel_table s1 + 0x800) 0x800;
          Some (new_table, s1\<lparr>kmem := m2\<rparr>) }"

text \<open>
  \<^verbatim>\<open>paging_copy_recursive\<close> counts levels from 4 down to 1 and is only called with 4, so level 0
  is not reached.
\<close>

fun paging_copy_recursive ::
  "nat \<Rightarrow> ptr \<Rightarrow> ptr \<Rightarrow> 'z vm_scheme \<Rightarrow> 'z vm_scheme option" where
  "paging_copy_recursive 0 dst src s = None"
| "paging_copy_recursive (Suc 0) dst src s =
     Some (s\<lparr>kmem := memcpy (kmem s) dst src 0x1000\<rparr>)"
| "paging_copy_recursive (Suc (Suc l)) dst src s =
     for_each (\<lambda>i s.
       let e = load64 (kmem s) (src + 8 * of_nat i) in
       if e AND PAGING_PRESENT = 0 then Some s
       else
         do { let new_src = child_table e;
              (new_dst, s1) \<leftarrow> palloc s 1;
              s2 \<leftarrow> paging_copy_recursive (Suc l) new_dst new_src s1;
              let e2 = load64 (kmem s2) (src + 8 * of_nat i);
              Some (s2\<lparr>kmem := store64 (kmem s2) (dst + 8 * of_nat i)
                                 (addr_offset_lower new_dst OR (e2 AND 0xfff))\<rparr>) })
       [0..<if Suc (Suc l) = 4 then 256 else 512] s"

definition paging_copy :: "'z vm_scheme \<Rightarrow> ptr \<Rightarrow> (ptr \<times> 'z vm_scheme) option" where
  "paging_copy s parent =
     do { (new_table, s1) \<leftarrow> paging_create_empty s;
          s2 \<leftarrow> paging_copy_recursive 4 new_table parent s1;
          Some (new_table, s2) }"

fun paging_make_readonly_recursive ::
  "nat \<Rightarrow> ptr \<Rightarrow> u64 \<Rightarrow> 'z vm_scheme \<Rightarrow> 'z vm_scheme option" where
  "paging_make_readonly_recursive 0 table vaddr s = None"
| "paging_make_readonly_recursive (Suc 0) table vaddr s =
     for_each (\<lambda>i s.
       let final_vaddr = push_bit 12 (push_bit 9 vaddr OR of_nat i);
           s1 = paging_flush_tlb s final_vaddr;
           slot = table + 8 * of_nat i
       in Some (s1\<lparr>kmem := store64 (kmem s1) slot
                             (load64 (kmem s1) slot AND NOT PAGING_WRITABLE)\<rparr>)) [0..<512] s"
| "paging_make_readonly_recursive (Suc (Suc l)) table vaddr s =
     for_each (\<lambda>i s.
       let e = load64 (kmem s) (table + 8 * of_nat i) in
       if e AND PAGING_PRESENT = 0 then Some s
       else paging_make_readonly_recursive (Suc l) (child_table e)
              (push_bit 9 vaddr OR of_nat i) s)
       [0..<if Suc (Suc l) = 4 then 256 else 512] s"

definition paging_make_readonly :: "'z vm_scheme \<Rightarrow> ptr \<Rightarrow> 'z vm_scheme option" where
  "paging_make_readonly s table = paging_make_readonly_recursive 4 table 0 s"

section \<open>Initialisation\<close>

text \<open>The loop that maps the frames of one memory map entry, except those below 4 GiB.\<close>

partial_function (option) map_entry_pages ::
  "u64 \<Rightarrow> u64 \<Rightarrow> 'z vm_scheme \<Rightarrow> 'z vm_scheme option" where
  "map_entry_pages paddr e s =
     (if paddr < e then
        if paddr < 0x100000000 then map_entry_pages (paddr + 0x1000) e s
        else Option.bind
          (paging_map s (kernel_table s) (VADDR_HIGHER + paddr) paddr (ucast PAGING_WRITABLE))
          (map_entry_pages (paddr + 0x1000) e)
      else Some s)"

definition huge_entry :: "nat \<Rightarrow> u64" where
  "huge_entry i =
     of_nat i * 0x40000000 OR PAGING_PRESENT OR PAGING_WRITABLE OR PAGING_HUGE"

definition paging_initialize ::
  "'z vm_scheme \<Rightarrow> stivale2_mmap_entry list \<Rightarrow> 'z vm_scheme option" where
  "paging_initialize s mmap =
     do { (root, s1) \<leftarrow> palloc s 1;
          let s2 = s1\<lparr>kernel_table := root, kmem := memset (kmem s1) root 0 0x1000\<rparr>;
          s3 \<leftarrow> for_each (\<lambda>i s.
            do { (child, s') \<leftarrow> palloc s 1;
                 let m = memset (kmem s') child 0 0x1000;
                 Some (s'\<lparr>kmem := store64 m (kernel_table s' + 8 * of_nat i)
                                     (PAGING_PRESENT OR addr_offset_lower child)\<rparr>) })
            [256..<512] s2;
          let parent = child_table (load64 (kmem s3) (kernel_table s3 + 8 * 256));
          let s4 = s3\<lparr>kmem :=
            fold (\<lambda>i m. store64 m (parent + 8 * of_nat i) (huge_entry i)) [0..<4] (kmem s3)\<rparr>;
          let parent2 = child_table (load64 (kmem s4) (kernel_table s4 + 8 * 511));
          let s5 = s4\<lparr>kmem :=
            fold (\<lambda>i m. store64 m (parent2 + 8 * of_nat (510 + i)) (huge_entry i)) [0..<2]
              (kmem s4)\<rparr>;
          s6 \<leftarrow> for_each (\<lambda>e. map_entry_pages (entry_base e) (entry_base e + entry_length e))
            mmap s5;
          let s7 = paging_unmap s6 (kernel_table s6) 0;
          Some (paging_write_cr3 s7 (kernel_table s7)) }"

end
