(* ===== verification/Paging_Tree.thy ===== *)
theory Paging_Tree
  imports Paging
begin

text \<open>
  What the page table code relies on and what it promises. \<open>tabs l m t\<close> is the set of tables
  reachable from a table \<open>t\<close> of level \<open>l\<close>, and \<open>tree l m t\<close> says that they form a tree of
  frames: aligned, in the high window, no table reachable on two ways. Every table is a frame the
  allocator counts as owned. The lemmas say when a change of memory leaves a tree and all its
  translations alone, what a store into a last-level table does, and that the walk of
  \<^verbatim>\<open>paging_map\<close> only grows the tree by fresh empty tables.
\<close>

section \<open>Entries and indices\<close>

abbreviation entry :: "mem \<Rightarrow> ptr \<Rightarrow> u64 \<Rightarrow> u64" where
  "entry m t i \<equiv> load64 m (t + 8 * i)"

definition present :: "u64 \<Rightarrow> bool" where
  "present e \<longleftrightarrow> e AND PAGING_PRESENT \<noteq> 0"

definition huge :: "u64 \<Rightarrow> bool" where
  "huge e \<longleftrightarrow> e AND PAGING_HUGE \<noteq> 0"

definition live :: "u64 \<Rightarrow> bool" where
  "live e \<longleftrightarrow> present e \<and> \<not> huge e"

lemma present_bit: "present e \<longleftrightarrow> bit e 0"
  unfolding present_def PAGING_PRESENT_def using and_exp_eq_0_iff_not_bit [of e 0] by simp

lemma huge_bit: "huge e \<longleftrightarrow> bit e 7"
  unfolding huge_def PAGING_HUGE_def using and_exp_eq_0_iff_not_bit [of e 7] by simp

lemma not_present_zero [simp]: "\<not> present 0" "\<not> live 0"
  by (simp_all add: present_bit live_def)

definition indices_ok :: "u64 list \<Rightarrow> bool" where
  "indices_ok indices \<longleftrightarrow> (\<forall>k<4. indices ! k < 512)"

lemma index_mask: "(v :: u64) AND 0x1ff = take_bit 9 v"
  by (simp add: take_bit_eq_mask mask_eq_exp_minus_1)

lemma index_lt: "(v :: u64) AND 0x1ff < 512"
proof -
  have "(v :: u64) AND 0x1ff \<le> 0x1ff" by (rule word_and_le1)
  then show ?thesis by (rule order.strict_trans1) simp
qed

lemma nat_less_4: "k < 4 \<Longrightarrow> k = 0 \<or> k = 1 \<or> k = 2 \<or> k = (3 :: nat)"
  by arith

lemma vaddr_to_index_nth:
  assumes "k < 4"
  shows "vaddr_to_index v ! k = take_bit 9 (drop_bit (12 + 9 * k) v)"
  using nat_less_4 [OF assms]
  by (elim disjE) (simp_all add: vaddr_to_index_def Let_def index_mask)

text \<open>The page of a virtual address: the 36 bits that select the entries of a walk.\<close>

definition vpage :: "u64 \<Rightarrow> u64" where
  "vpage v = take_bit 36 (drop_bit 12 v)"

lemma vpage_neq_index:
  assumes "vpage v \<noteq> vpage w"
  shows "\<exists>k<4. vaddr_to_index v ! k \<noteq> vaddr_to_index w ! k"
proof (rule ccontr)
  assume "\<not> ?thesis"
  then have same: "take_bit 9 (drop_bit (12 + 9 * k) v) = take_bit 9 (drop_bit (12 + 9 * k) w)"
    if "k < 4" for k
    using that by (auto simp: vaddr_to_index_nth)
  have "vpage v = vpage w"
  proof (rule bit_word_eqI)
    fix n assume "n < LENGTH(64)"
    have "bit v (12 + n) = bit w (12 + n)" if "n < 36"
    proof -
      have "bit (take_bit 9 (drop_bit (12 + 9 * (n div 9)) x)) (n mod 9) = bit x (12 + n)"
        for x :: u64
      proof -
        have "12 + 9 * (n div 9) + n mod 9 = 12 + n" by simp
        then show ?thesis by (simp add: bit_take_bit_iff bit_drop_bit_eq add.commute)
      qed
      moreover have "n div 9 < 4" using that by simp
      ultimately show ?thesis using same by metis
    qed
    then show "bit (vpage v) n \<longleftrightarrow> bit (vpage w) n"
      by (auto simp: vpage_def bit_take_bit_iff bit_drop_bit_eq)
  qed
  with assms show False ..
qed

lemma indices_ok_vaddr [simp]: "indices_ok (vaddr_to_index v)"
  using index_lt
  by (auto simp: indices_ok_def vaddr_to_index_def Let_def nth_Cons' )


lemma vpage_eq_index:
  assumes eq: "vpage v = vpage w"
  shows "vaddr_to_index v = vaddr_to_index w"
proof (rule nth_equalityI)
  fix k assume "k < length (vaddr_to_index v)"
  then have k: "k < 4" by (simp add: vaddr_to_index_def Let_def)
  have "bit (take_bit 9 (drop_bit (12 + 9 * k) v)) n = bit (take_bit 9 (drop_bit (12 + 9 * k) w)) n"
    for n
  proof (cases "n < 9")
    case True
    with k have "9 * k + n < 36" by simp
    moreover have "bit (vpage v) (9 * k + n) = bit (vpage w) (9 * k + n)" by (simp add: eq)
    ultimately show ?thesis
      using True by (simp add: vpage_def bit_take_bit_iff bit_drop_bit_eq add.assoc)
  qed (simp add: bit_take_bit_iff)
  then have "take_bit 9 (drop_bit (12 + 9 * k) v) = take_bit 9 (drop_bit (12 + 9 * k) w)"
    by (intro bit_word_eqI)
  then show "vaddr_to_index v ! k = vaddr_to_index w ! k" using k by (simp add: vaddr_to_index_nth)
qed (simp add: vaddr_to_index_def Let_def)

section \<open>Trees of tables\<close>

abbreviation child_of :: "mem \<Rightarrow> ptr \<Rightarrow> u64 \<Rightarrow> ptr" where
  "child_of m t i \<equiv> child_table (entry m t i)"

fun tabs :: "nat \<Rightarrow> mem \<Rightarrow> ptr \<Rightarrow> ptr set" where
  "tabs 0 m t = {t}"
| "tabs (Suc l) m t =
     insert t (\<Union>i\<in>{i. i < 512 \<and> live (entry m t i)}. tabs l m (child_of m t i))"

fun tree :: "nat \<Rightarrow> mem \<Rightarrow> ptr \<Rightarrow> bool" where
  "tree 0 m t = table_ptr t"
| "tree (Suc l) m t \<longleftrightarrow> table_ptr t \<and>
     (\<forall>i<512. live (entry m t i) \<longrightarrow>
        tree l m (child_of m t i) \<and> t \<notin> tabs l m (child_of m t i)) \<and>
     (\<forall>i<512. \<forall>j<512. i \<noteq> j \<longrightarrow> live (entry m t i) \<longrightarrow> live (entry m t j) \<longrightarrow>
        tabs l m (child_of m t i) \<inter> tabs l m (child_of m t j) = {})"

text \<open>No entry on the path of an address is a huge page.\<close>

fun path_ok :: "u64 list \<Rightarrow> mem \<Rightarrow> nat \<Rightarrow> ptr \<Rightarrow> bool" where
  "path_ok indices m 0 t = True"
| "path_ok indices m (Suc l) t \<longleftrightarrow>
     (let e = entry m t (indices ! Suc l) in
      present e \<longrightarrow> \<not> huge e \<and> path_ok indices m l (child_table e))"

lemma walk_step:
  "get_walk idx m (Suc l) t =
     (if \<not> present (entry m t (idx ! Suc l)) then 0
      else if huge (entry m t (idx ! Suc l)) then entry m t (idx ! Suc l)
      else get_walk idx m l (child_of m t (idx ! Suc l)))"
  "unmap_walk idx m (Suc l) t =
     (if present (entry m t (idx ! Suc l)) then unmap_walk idx m l (child_of m t (idx ! Suc l))
      else None)"
  "path_ok idx m (Suc l) t \<longleftrightarrow>
     (present (entry m t (idx ! Suc l)) \<longrightarrow>
      \<not> huge (entry m t (idx ! Suc l)) \<and> path_ok idx m l (child_of m t (idx ! Suc l)))"
  by (simp_all add: Let_def present_def huge_def)

declare get_walk.simps(2) [simp del] unmap_walk.simps(2) [simp del] path_ok.simps(2) [simp del]

definition path_kept :: "nat \<Rightarrow> mem \<Rightarrow> mem \<Rightarrow> ptr \<Rightarrow> bool" where
  "path_kept l m m' t \<longleftrightarrow> (\<forall>idx. indices_ok idx \<longrightarrow> path_ok idx m l t \<longrightarrow> path_ok idx m' l t)"

lemma tabs_self [simp]: "t \<in> tabs l m t"
  by (cases l) simp_all

lemma tree_table_ptr: "tree l m t \<Longrightarrow> table_ptr t"
  by (cases l) simp_all

lemma tree_child:
  "tree (Suc l) m t \<Longrightarrow> i < 512 \<Longrightarrow> live (entry m t i) \<Longrightarrow> tree l m (child_of m t i)"
  by simp

lemma tabs_child:
  "i < 512 \<Longrightarrow> live (entry m t i) \<Longrightarrow> x \<in> tabs l m (child_of m t i) \<Longrightarrow> x \<in> tabs (Suc l) m t"
  by auto

lemma tabs_table_ptr: "tree l m t \<Longrightarrow> x \<in> tabs l m t \<Longrightarrow> table_ptr x"
  by (induction l arbitrary: t) auto

text \<open>The memory of a set of tables is the same before and after a change.\<close>

definition same_on :: "ptr set \<Rightarrow> mem \<Rightarrow> mem \<Rightarrow> bool" where
  "same_on T m m' \<longleftrightarrow> (\<forall>x\<in>T. \<forall>a\<in>frame x. m' a = m a)"

lemma same_on_mono: "same_on T m m' \<Longrightarrow> S \<subseteq> T \<Longrightarrow> same_on S m m'"
  by (auto simp: same_on_def)

lemma same_on_entry:
  "same_on T m m' \<Longrightarrow> t \<in> T \<Longrightarrow> table_ptr t \<Longrightarrow> i < 512 \<Longrightarrow> entry m' t i = entry m t i"
  by (rule load64_frame_cong) (auto simp: same_on_def table_ptr_def)

lemma same_on_child:
  "same_on (tabs (Suc l) m t) m m' \<Longrightarrow> i < 512 \<Longrightarrow> live (entry m t i) \<Longrightarrow>
   same_on (tabs l m (child_of m t i)) m m'"
  by (rule same_on_mono) (auto dest: tabs_child)

lemma tabs_same:
  "tree l m t \<Longrightarrow> same_on (tabs l m t) m m' \<Longrightarrow> tabs l m' t = tabs l m t"
proof (induction l arbitrary: t)
  case (Suc l)
  have e: "entry m' t i = entry m t i" if "i < 512" for i
    using Suc.prems that by (intro same_on_entry) (auto simp: tree_table_ptr)
  have "tabs l m' (child_of m t i) = tabs l m (child_of m t i)"
    if "i < 512" "live (entry m t i)" for i
    using Suc.prems that same_on_child by (intro Suc.IH) auto
  with e show ?case by auto
qed simp

lemma tree_same:
  "tree l m t \<Longrightarrow> same_on (tabs l m t) m m' \<Longrightarrow> tree l m' t"
proof (induction l arbitrary: t)
  case (Suc l)
  have e: "entry m' t i = entry m t i" if "i < 512" for i
    using Suc.prems that by (intro same_on_entry) (auto simp: tree_table_ptr)
  have c: "tree l m' (child_of m t i) \<and> tabs l m' (child_of m t i) = tabs l m (child_of m t i)"
    if "i < 512" "live (entry m t i)" for i
    using Suc.prems that same_on_child tabs_same by (intro conjI Suc.IH) auto
  show ?case unfolding tree.simps using Suc.prems(1) e c by simp
qed simp

lemma walks_same:
  assumes "indices_ok idx"
  shows "l < 4 \<Longrightarrow> tree l m t \<Longrightarrow> same_on (tabs l m t) m m' \<Longrightarrow>
    get_walk idx m' l t = get_walk idx m l t \<and>
    (path_ok idx m l t \<longrightarrow>
      path_ok idx m' l t \<and> unmap_walk idx m' l t = unmap_walk idx m l t)"
proof (induction l arbitrary: t)
  case 0
  then show ?case
    using assms same_on_entry [of "{t}" m m' t "idx ! 0"] by (simp add: indices_ok_def)
next
  case (Suc l)
  have i: "idx ! Suc l < 512" using assms Suc.prems by (simp add: indices_ok_def)
  have e: "entry m' t (idx ! Suc l) = entry m t (idx ! Suc l)"
    using Suc.prems i by (intro same_on_entry) (auto simp: tree_table_ptr)
  show ?case
  proof (cases "live (entry m t (idx ! Suc l))")
    case True
    with Suc i have "get_walk idx m' l (child_of m t (idx ! Suc l)) =
        get_walk idx m l (child_of m t (idx ! Suc l)) \<and>
      (path_ok idx m l (child_of m t (idx ! Suc l)) \<longrightarrow>
        path_ok idx m' l (child_of m t (idx ! Suc l)) \<and>
        unmap_walk idx m' l (child_of m t (idx ! Suc l)) =
        unmap_walk idx m l (child_of m t (idx ! Suc l)))"
      by (intro Suc.IH same_on_child tree_child) auto
    with e show ?thesis by (simp add: walk_step live_def)
  next
    case False
    with e show ?thesis by (auto simp: walk_step live_def)
  qed
qed

section \<open>Changing one subtree\<close>

text \<open>
  From \<open>m\<close> to \<open>m'\<close> only the tables below entry \<open>i\<close> of \<open>t\<close> change; tables that join
  them are not used elsewhere in the tree.
\<close>

definition subtree_changed :: "nat \<Rightarrow> mem \<Rightarrow> mem \<Rightarrow> ptr \<Rightarrow> u64 \<Rightarrow> bool" where
  "subtree_changed l m m' t i \<longleftrightarrow> tree (Suc l) m t \<and> i < 512 \<and> live (entry m t i) \<and>
     tree l m' (child_of m t i) \<and>
     tabs l m' (child_of m t i) \<inter> tabs (Suc l) m t \<subseteq> tabs l m (child_of m t i) \<and>
     same_on (tabs (Suc l) m t - tabs l m (child_of m t i)) m m'"

lemma subtree_changed_entry:
  assumes "subtree_changed l m m' t i" and "j < 512"
  shows "entry m' t j = entry m t j"
proof -
  have "same_on (tabs (Suc l) m t - tabs l m (child_of m t i)) m m'" "table_ptr t"
    using assms by (simp_all add: subtree_changed_def)
  moreover have "t \<in> tabs (Suc l) m t - tabs l m (child_of m t i)"
    using assms by (simp add: subtree_changed_def)
  ultimately show ?thesis using assms(2) by (blast intro: same_on_entry)
qed

lemma subtree_changed_other:
  assumes "subtree_changed l m m' t i" and j: "j < 512" "j \<noteq> i" "live (entry m t j)"
  shows "same_on (tabs l m (child_of m t j)) m m'"
    and "tabs l m' (child_of m t j) = tabs l m (child_of m t j)"
    and "tree l m' (child_of m t j)"
proof -
  have c: "tree (Suc l) m t" "i < 512" "live (entry m t i)"
    "same_on (tabs (Suc l) m t - tabs l m (child_of m t i)) m m'"
    using assms(1) unfolding subtree_changed_def by blast+
  have disj: "tabs l m (child_of m t j) \<inter> tabs l m (child_of m t i) = {}"
    using c(1-3) j by simp
  show same: "same_on (tabs l m (child_of m t j)) m m'"
    using c(4) by (rule same_on_mono) (use tabs_child [OF j(1,3)] disj in blast)
  show "tabs l m' (child_of m t j) = tabs l m (child_of m t j)"
    by (rule tabs_same [OF tree_child [OF c(1) j(1,3)] same])
  show "tree l m' (child_of m t j)"
    by (rule tree_same [OF tree_child [OF c(1) j(1,3)] same])
qed

lemma subtree_changed_new:
  assumes "subtree_changed l m m' t i" and "j < 512" and "live (entry m t j)"
    and "x \<in> tabs l m' (child_of m t j)" and "x \<in> tabs (Suc l) m t"
  shows "x \<in> tabs l m (child_of m t j)"
proof (cases "j = i")
  case True
  then show ?thesis using assms unfolding subtree_changed_def by blast
next
  case False
  then show ?thesis using assms subtree_changed_other(2) by blast
qed

lemma subtree_changed_disjoint:
  assumes ch: "subtree_changed l m m' t i" and jk: "j < 512" "k < 512" "j \<noteq> k"
    and lv: "live (entry m t j)" "live (entry m t k)"
  shows "tabs l m' (child_of m t j) \<inter> tabs l m' (child_of m t k) = {}"
proof -
  have old: "tabs l m (child_of m t j) \<inter> tabs l m (child_of m t k) = {}"
    using ch jk lv by (simp add: subtree_changed_def)
  have "x \<in> tabs (Suc l) m t"
    if "x \<in> tabs l m' (child_of m t j)" "x \<in> tabs l m' (child_of m t k)" for x
    using that jk lv subtree_changed_other(2) [OF ch] tabs_child by (cases "j = i") blast+
  then show ?thesis
    using old subtree_changed_new [OF ch jk(1) lv(1)] subtree_changed_new [OF ch jk(2) lv(2)]
    by blast
qed

lemma subtree_changed_tree:
  assumes ch: "subtree_changed l m m' t i"
  shows "tree (Suc l) m' t"
proof -
  have tr: "tree (Suc l) m t" using ch unfolding subtree_changed_def by blast
  have "tree l m' (child_of m t j) \<and> t \<notin> tabs l m' (child_of m t j)"
    if j: "j < 512" "live (entry m t j)" for j
  proof
    show "tree l m' (child_of m t j)"
      using ch subtree_changed_other(3) [OF ch j(1) _ j(2)]
      by (cases "j = i") (simp_all add: subtree_changed_def)
    have "t \<notin> tabs l m (child_of m t j)" using tr j by simp
    then show "t \<notin> tabs l m' (child_of m t j)"
      using subtree_changed_new [OF ch j, of t] tabs_self by blast
  qed
  then show ?thesis
    unfolding tree.simps
    using tr subtree_changed_entry [OF ch] subtree_changed_disjoint [OF ch] by simp
qed

lemma subtree_changed_tabs:
  assumes ch: "subtree_changed l m m' t i" and x: "x \<in> tabs (Suc l) m' t"
  shows "x \<in> tabs l m' (child_of m t i) \<or> x \<in> tabs (Suc l) m t"
proof -
  have "x = t \<or> (\<exists>j<512. live (entry m t j) \<and> x \<in> tabs l m' (child_of m t j))"
    using x subtree_changed_entry [OF ch] by auto
  then consider "x = t" | j where "j < 512" "live (entry m t j)" "x \<in> tabs l m' (child_of m t j)"
    by blast
  then show ?thesis
  proof cases
    case (2 j)
    then show ?thesis
      using subtree_changed_other(2) [OF ch, of j] tabs_child [of j m t x l] by (cases "j = i") simp_all
  qed simp
qed

lemma subtree_changed_get:
  assumes ch: "subtree_changed l m m' t i" and l: "l < 3" and idx: "indices_ok idx"
    and sub: "idx ! Suc l = i \<Longrightarrow>
      get_walk idx m' l (child_of m t i) = get_walk idx m l (child_of m t i)"
  shows "get_walk idx m' (Suc l) t = get_walk idx m (Suc l) t"
proof -
  let ?j = "idx ! Suc l"
  have j: "?j < 512" using idx l by (simp add: indices_ok_def)
  have tr: "tree (Suc l) m t" using ch unfolding subtree_changed_def by blast
  have "get_walk idx m' l (child_of m t ?j) = get_walk idx m l (child_of m t ?j)"
    if "live (entry m t ?j)"
  proof (cases "?j = i")
    case False
    have "same_on (tabs l m (child_of m t ?j)) m m'"
      by (rule subtree_changed_other(1) [OF ch j False that])
    from walks_same [OF idx _ tree_child [OF tr j that] this] l show ?thesis by simp
  qed (use sub in simp)
  with subtree_changed_entry [OF ch j] show ?thesis by (auto simp: walk_step live_def)
qed

section \<open>A store into a last-level table\<close>

lemma leaf_in_tabs:
  assumes "indices_ok idx"
  shows "l < 4 \<Longrightarrow> path_ok idx m l t \<Longrightarrow> unmap_walk idx m l t = Some t0 \<Longrightarrow> t0 \<in> tabs l m t"
proof (induction l arbitrary: t)
  case (Suc l)
  have i: "idx ! Suc l < 512" using assms Suc.prems by (simp add: indices_ok_def)
  from Suc show ?case
    using tabs_child [OF i, of m t t0 l]
    by (auto simp: walk_step live_def split: if_splits)
qed simp

lemma store_same_on:
  assumes "table_ptr t0" and "i < 512" and "t0 \<notin> T" and "\<And>x. x \<in> T \<Longrightarrow> table_ptr x"
  shows "same_on T m (store64 m (t0 + 8 * i) e)"
  unfolding same_on_def
proof (intro ballI)
  fix x a assume "x \<in> T" "a \<in> frame x"
  moreover from this have "frame x \<inter> frame t0 = {}"
    using assms by (intro frame_disjoint) (auto simp: table_ptr_def)
  ultimately show "store64 m (t0 + 8 * i) e a = m a"
    using assms by (intro store64_slot_other) (auto simp: table_ptr_def)
qed

lemma subtree_changed_path:
  assumes ch: "subtree_changed l m m' t i" and l: "l < 3"
    and sub: "path_kept l m m' (child_of m t i)"
  shows "path_kept (Suc l) m m' t"
  unfolding path_kept_def
proof (intro allI impI)
  fix idx assume idx: "indices_ok idx" and path: "path_ok idx m (Suc l) t"
  let ?j = "idx ! Suc l"
  have j: "?j < 512" using idx l by (simp add: indices_ok_def)
  have tr: "tree (Suc l) m t" using ch unfolding subtree_changed_def by blast
  have "path_ok idx m' l (child_of m t ?j)"
    if lv: "live (entry m t ?j)" and pj: "path_ok idx m l (child_of m t ?j)"
  proof (cases "?j = i")
    case True
    with sub idx pj show ?thesis by (simp add: path_kept_def)
  next
    case False
    have "same_on (tabs l m (child_of m t ?j)) m m'"
      by (rule subtree_changed_other(1) [OF ch j False lv])
    from walks_same [OF idx _ tree_child [OF tr j lv] this] l pj show ?thesis by simp
  qed
  with path subtree_changed_entry [OF ch j] show "path_ok idx m' (Suc l) t"
    by (auto simp: walk_step live_def)
qed

text \<open>
  Storing an entry into the table the walk of an address ends in keeps the tree and its tables,
  sets the translation of the address, and changes no other.
\<close>

lemma store_leaf:
  assumes idx: "indices_ok idx"
  shows "l < 4 \<Longrightarrow> tree l m t \<Longrightarrow> path_ok idx m l t \<Longrightarrow> unmap_walk idx m l t = Some t0 \<Longrightarrow>
    m' = store64 m (t0 + 8 * idx ! 0) e \<Longrightarrow>
    tree l m' t \<and> tabs l m' t \<subseteq> tabs l m t \<and> get_walk idx m' l t = e \<and> path_kept l m m' t \<and>
    (\<forall>jdx. indices_ok jdx \<longrightarrow> (\<exists>k\<le>l. jdx ! k \<noteq> idx ! k) \<longrightarrow>
      get_walk jdx m' l t = get_walk jdx m l t)"
proof (induction l arbitrary: t)
  case 0
  then have "table_ptr t" "idx ! 0 < 512" using idx by (simp_all add: indices_ok_def)
  with 0 show ?case
    by (auto simp: table_ptr_def load64_store64_slot indices_ok_def path_kept_def)
next
  case (Suc l)
  let ?i = "idx ! Suc l"
  let ?c = "child_of m t ?i"
  have i: "?i < 512" "idx ! 0 < 512" using idx Suc.prems(1) by (simp_all add: indices_ok_def)
  have lv: "live (entry m t ?i)" and path: "path_ok idx m l ?c"
    and leaf: "unmap_walk idx m l ?c = Some t0"
    using Suc.prems(3,4) by (auto simp: walk_step live_def split: if_splits)
  note tr = tree_child [OF Suc.prems(2) i(1) lv]
  have in_c: "t0 \<in> tabs l m ?c"
    using Suc.prems(1) by (intro leaf_in_tabs [OF idx _ path leaf]) simp
  have IH: "tree l m' ?c" "tabs l m' ?c \<subseteq> tabs l m ?c" "get_walk idx m' l ?c = e"
    "path_kept l m m' ?c"
    "\<And>jdx. indices_ok jdx \<Longrightarrow> \<exists>k\<le>l. jdx ! k \<noteq> idx ! k \<Longrightarrow>
      get_walk jdx m' l ?c = get_walk jdx m l ?c"
    using Suc.IH [OF _ tr path leaf Suc.prems(5)] Suc.prems(1) by auto
  have "same_on (tabs (Suc l) m t - tabs l m ?c) m m'"
    unfolding Suc.prems(5)
    using tabs_table_ptr [OF Suc.prems(2)] tabs_table_ptr [OF tr in_c] in_c i(2)
    by (intro store_same_on) blast+
  then have ch: "subtree_changed l m m' t ?i"
    unfolding subtree_changed_def using Suc.prems(2) i lv IH(1,2) by blast
  have "tabs (Suc l) m' t \<subseteq> tabs (Suc l) m t"
    using subtree_changed_tabs [OF ch] IH(2) tabs_child [OF i(1) lv] by blast
  moreover have "get_walk jdx m' (Suc l) t = get_walk jdx m (Suc l) t"
    if "indices_ok jdx" "\<exists>k\<le>Suc l. jdx ! k \<noteq> idx ! k" for jdx
    using that IH(5) Suc.prems(1) by (intro subtree_changed_get [OF ch]) (auto simp: le_Suc_eq)
  moreover have "path_kept (Suc l) m m' t"
    using Suc.prems(1) by (intro subtree_changed_path [OF ch _ IH(4)]) simp
  ultimately show ?case
    using subtree_changed_tree [OF ch] IH(3) subtree_changed_entry [OF ch i(1)] lv
    by (simp add: walk_step live_def)
qed

section \<open>Growing a tree\<close>

text \<open>The entry that links a new table, whatever the flags below the address.\<close>

lemma table_ptr_bits:
  assumes "table_ptr p"
  shows "n < 12 \<Longrightarrow> \<not> bit p n" and "47 \<le> n \<Longrightarrow> n < 64 \<Longrightarrow> bit p n"
proof -
  from assms obtain k where "unat p = 4096 * k" unfolding table_ptr_def by (metis page_alignedE)
  then have "unat (take_bit 12 p) = 0" by (simp add: take_bit_eq_mod unat_mod)
  then have "take_bit 12 p = 0" by (simp add: u64_eq_iff_unat)
  then show "\<not> bit p n" if "n < 12" using that by (metis bit_take_bit_iff bit_0_eq bot_apply bot_bool_def)
  have "p = p OR NOT (mask 47)"
    using assms addr_ensure_higher_high [of p]
    by (simp add: table_ptr_def addr_ensure_higher_def VADDR_HIGHER_mask)
  then have "bit p n = bit (p OR NOT (mask 47)) n" by simp
  then show "bit p n" if "47 \<le> n" "n < 64" using that by (simp add: bit_simps)
qed

lemma offset_lower_high:
  assumes "VADDR_HIGHER \<le> p"
  shows "addr_offset_lower p = addr_ensure_lower p"
proof -
  have "p = addr_ensure_lower p + VADDR_HIGHER"
    using addr_ensure_higher_high [OF assms] by (simp add: addr_ensure_higher_split)
  then show ?thesis by (metis add_diff_cancel_right' addr_offset_lower_def)
qed

lemma link_entry:
  assumes "table_ptr p" and "f = take_bit 12 f"
  shows "child_table (addr_offset_lower p OR f) = p"
    and "present (addr_offset_lower p OR f) \<longleftrightarrow> bit f 0"
    and "huge (addr_offset_lower p OR f) \<longleftrightarrow> bit f 7"
proof -
  have low: "addr_offset_lower p = take_bit 47 p"
    using assms(1) by (simp add: offset_lower_high table_ptr_def addr_ensure_lower_take_bit)
  have f: "bit f n \<Longrightarrow> n < 12" for n using assms(2) by (metis bit_take_bit_iff)
  show "child_table (addr_offset_lower p OR f) = p"
    unfolding child_table_def addr_ensure_higher_def VADDR_HIGHER_mask low mask12
    by (rule bit_word_eqI) (use table_ptr_bits [OF assms(1)] f in \<open>auto simp: bit_simps not_le\<close>)
  show "present (addr_offset_lower p OR f) \<longleftrightarrow> bit f 0" "huge (addr_offset_lower p OR f) \<longleftrightarrow> bit f 7"
    using table_ptr_bits(1) [OF assms(1)] by (auto simp: present_bit huge_bit low bit_simps)
qed

lemma child_table_ptr:
  assumes "table_ptr p"
  shows "child_table p = p"
  unfolding child_table_def addr_ensure_higher_def VADDR_HIGHER_mask mask12
  by (rule bit_word_eqI) (use table_ptr_bits [OF assms] in \<open>auto simp: bit_simps not_le\<close>)

definition tables_ok :: "nat \<Rightarrow> 'z pmm_scheme \<Rightarrow> ptr \<Rightarrow> bool" where
  "tables_ok l s t \<longleftrightarrow> palloc_ok s \<and> tree l (kmem s) t \<and>
     (\<forall>x\<in>tabs l (kmem s) t. frame_owned s x)"

text \<open>
  \<open>s'\<close> differs from \<open>s\<close> by tables added below \<open>t\<close>: they were not owned before, they
  translate nothing, and no other owned frame is written.
\<close>

definition grows :: "nat \<Rightarrow> ptr \<Rightarrow> 'z pmm_scheme \<Rightarrow> 'z pmm_scheme \<Rightarrow> bool" where
  "grows l t s s' \<longleftrightarrow> tables_ok l s' t \<and>
     (\<forall>x. frame_owned s x \<longrightarrow> frame_owned s' x) \<and>
     (\<forall>x\<in>tabs l (kmem s') t. frame_owned s x \<longrightarrow> x \<in> tabs l (kmem s) t) \<and>
     same_on {x. frame_owned s x \<and> x \<notin> tabs l (kmem s) t} (kmem s) (kmem s') \<and>
     (\<forall>idx. indices_ok idx \<longrightarrow> get_walk idx (kmem s') l t = get_walk idx (kmem s) l t) \<and>
     path_kept l (kmem s) (kmem s') t \<and> total_memory s' = total_memory s \<and>
     (\<forall>a. a \<notin> window s \<longrightarrow> kmem s' a = kmem s a)"

lemma grows_refl: "tables_ok l s t \<Longrightarrow> grows l t s s"
  by (simp add: grows_def same_on_def path_kept_def)

lemma window_cong: "total_memory s' = total_memory s \<Longrightarrow> window s' = window s"
  by (simp add: window_def)

lemma grows_trans: "grows l t s s1 \<Longrightarrow> grows l t s1 s2 \<Longrightarrow> grows l t s s2"
  using window_cong [of s1 s] unfolding grows_def same_on_def path_kept_def
  by (safe; simp) (metis)+

lemma tables_ok_child:
  "tables_ok (Suc l) s t \<Longrightarrow> i < 512 \<Longrightarrow> live (entry (kmem s) t i) \<Longrightarrow>
   tables_ok l s (child_of (kmem s) t i)"
  by (auto simp: tables_ok_def)

lemma grows_child:
  assumes ok: "tables_ok (Suc l) s t" and i: "i < 512" and lv: "live (entry (kmem s) t i)"
    and l: "l < 3" and g: "grows l (child_of (kmem s) t i) s s'"
  shows "grows (Suc l) t s s'" and "entry (kmem s') t i = entry (kmem s) t i"
proof -
  let ?m = "kmem s" and ?m' = "kmem s'"
  let ?c = "child_of ?m t i"
  have tr: "tree (Suc l) ?m t" and own: "\<And>x. x \<in> tabs (Suc l) ?m t \<Longrightarrow> frame_owned s x"
    using ok unfolding tables_ok_def by blast+
  have g: "palloc_ok s'" "tree l ?m' ?c" "\<And>x. x \<in> tabs l ?m' ?c \<Longrightarrow> frame_owned s' x"
    "\<And>x. frame_owned s x \<Longrightarrow> frame_owned s' x"
    "\<And>x. x \<in> tabs l ?m' ?c \<Longrightarrow> frame_owned s x \<Longrightarrow> x \<in> tabs l ?m ?c"
    "same_on {x. frame_owned s x \<and> x \<notin> tabs l ?m ?c} ?m ?m'"
    "\<And>idx. indices_ok idx \<Longrightarrow> get_walk idx ?m' l ?c = get_walk idx ?m l ?c"
    "path_kept l ?m ?m' ?c" "total_memory s' = total_memory s"
    "\<And>a. a \<notin> window s \<Longrightarrow> ?m' a = ?m a"
    using g unfolding grows_def tables_ok_def by blast+
  have "same_on (tabs (Suc l) ?m t - tabs l ?m ?c) ?m ?m'"
    using g(6) by (rule same_on_mono) (use own in blast)
  then have ch: "subtree_changed l ?m ?m' t i"
    unfolding subtree_changed_def using tr i lv g(2,5) own by blast
  show "entry ?m' t i = entry ?m t i" by (rule subtree_changed_entry [OF ch i])
  have "same_on {x. frame_owned s x \<and> x \<notin> tabs (Suc l) ?m t} ?m ?m'"
    using g(6) by (rule same_on_mono) (use tabs_child [OF i lv] in blast)
  moreover have "frame_owned s' x" if "x \<in> tabs (Suc l) ?m' t" for x
    using subtree_changed_tabs [OF ch that] g(3,4) own by blast
  moreover have "x \<in> tabs (Suc l) ?m t" if "x \<in> tabs (Suc l) ?m' t" "frame_owned s x" for x
    using subtree_changed_tabs [OF ch that(1)] that(2) g(5) tabs_child [OF i lv] by blast
  moreover have "get_walk idx ?m' (Suc l) t = get_walk idx ?m (Suc l) t" if "indices_ok idx" for idx
    using subtree_changed_get [OF ch l that] g(7) [OF that] by blast
  ultimately show "grows (Suc l) t s s'"
    unfolding grows_def tables_ok_def using g(1,4,9,10) subtree_changed_tree [OF ch]
      subtree_changed_path [OF ch l g(8)] by blast
qed


section \<open>Linking a fresh table\<close>

lemma zero_table:
  assumes "table_ptr p" and "\<And>i. i < 512 \<Longrightarrow> entry m p i = 0"
  shows "tabs l m p = {p}" and "tree l m p"
    and "indices_ok idx \<Longrightarrow> l < 4 \<Longrightarrow> get_walk idx m l p = 0 \<and> path_ok idx m l p"
proof -
  show "tabs l m p = {p}" using assms by (cases l) auto
  show "tree l m p" using assms by (cases l) auto
  show "get_walk idx m l p = 0 \<and> path_ok idx m l p" if "indices_ok idx" "l < 4"
    using assms that by (cases l) (simp_all add: walk_step indices_ok_def)
qed

definition links_new :: "nat \<Rightarrow> mem \<Rightarrow> mem \<Rightarrow> ptr \<Rightarrow> u64 \<Rightarrow> ptr \<Rightarrow> bool" where
  "links_new l m m' t i p \<longleftrightarrow> tree (Suc l) m t \<and> i < 512 \<and> \<not> present (entry m t i) \<and>
     p \<notin> tabs (Suc l) m t \<and> table_ptr p \<and> same_on (tabs (Suc l) m t - {t}) m m' \<and>
     live (entry m' t i) \<and> child_of m' t i = p \<and>
     (\<forall>j<512. j \<noteq> i \<longrightarrow> entry m' t j = entry m t j) \<and> (\<forall>j<512. entry m' p j = 0)"

lemma links_new_other:
  assumes ln: "links_new l m m' t i p" and j: "j < 512" "live (entry m t j)"
  shows "j \<noteq> i" and "entry m' t j = entry m t j"
    and "same_on (tabs l m (child_of m t j)) m m'"
    and "tabs l m' (child_of m t j) = tabs l m (child_of m t j)"
    and "tree l m' (child_of m t j)"
proof -
  have c: "tree (Suc l) m t" "\<not> present (entry m t i)" "same_on (tabs (Suc l) m t - {t}) m m'"
    "\<And>j. j < 512 \<Longrightarrow> j \<noteq> i \<Longrightarrow> entry m' t j = entry m t j"
    using ln unfolding links_new_def by blast+
  show "j \<noteq> i" using c(2) j by (auto simp: live_def)
  with c(4) j show "entry m' t j = entry m t j" by blast
  have "t \<notin> tabs l m (child_of m t j)" using c(1) j by simp
  then show same: "same_on (tabs l m (child_of m t j)) m m'"
    by (intro same_on_mono [OF c(3)]) (use tabs_child [OF j] in blast)
  show "tabs l m' (child_of m t j) = tabs l m (child_of m t j)"
    by (rule tabs_same [OF tree_child [OF c(1) j] same])
  show "tree l m' (child_of m t j)"
    by (rule tree_same [OF tree_child [OF c(1) j] same])
qed

lemma links_new_live:
  assumes ln: "links_new l m m' t i p" and j: "j < 512"
  shows "live (entry m' t j) \<longleftrightarrow> j = i \<or> live (entry m t j)"
  using ln j unfolding links_new_def by metis

lemma links_new_child:
  assumes ln: "links_new l m m' t i p" and j: "j < 512" "live (entry m' t j)"
  shows "tree l m' (child_of m' t j) \<and> tabs l m' (child_of m' t j) =
    (if j = i then {p} else tabs l m (child_of m t j))"
proof (cases "j = i")
  case True
  moreover have "child_of m' t i = p" "table_ptr p" "\<And>j. j < 512 \<Longrightarrow> entry m' p j = 0"
    using ln unfolding links_new_def by blast+
  ultimately show ?thesis using zero_table(1,2) [of p m' l] by simp
next
  case False
  then have "live (entry m t j)" using links_new_live [OF ln j(1)] j(2) by blast
  with False j links_new_other [OF ln j(1)] show ?thesis by simp
qed

lemma links_new_tabs:
  assumes ln: "links_new l m m' t i p"
  shows "tabs (Suc l) m' t = insert p (tabs (Suc l) m t)"
proof -
  have i: "i < 512" "live (entry m' t i)" using ln unfolding links_new_def by blast+
  have new: "tabs l m' (child_of m' t i) = {p}" using links_new_child [OF ln i] by simp
  have old: "tabs l m' (child_of m' t j) = tabs l m (child_of m t j)"
    if "j < 512" "live (entry m t j)" for j
    using links_new_child [OF ln, of j] links_new_live [OF ln, of j] links_new_other(1) [OF ln that]
      that by simp
  have "x \<in> tabs (Suc l) m' t \<longleftrightarrow> x = p \<or> x \<in> tabs (Suc l) m t" for x
  proof
    assume "x \<in> tabs (Suc l) m' t"
    then consider "x = t" | j where "j < 512" "live (entry m' t j)" "x \<in> tabs l m' (child_of m' t j)"
      by auto
    then show "x = p \<or> x \<in> tabs (Suc l) m t"
    proof cases
      case (2 j)
      then show ?thesis
        using new old [of j] links_new_live [OF ln, of j] tabs_child [of j m t x l]
        by (cases "j = i") simp_all
    qed simp
  next
    assume "x = p \<or> x \<in> tabs (Suc l) m t"
    then consider "x = p" | "x = t" | j where "j < 512" "live (entry m t j)"
      "x \<in> tabs l m (child_of m t j)" by auto
    then show "x \<in> tabs (Suc l) m' t"
    proof cases
      case 1
      then show ?thesis using tabs_child [OF i, of x l] new by simp
    next
      case (3 j)
      then show ?thesis
        using tabs_child [of j m' t x l] old links_new_live [OF ln, of j] by simp
    qed simp
  qed
  then show ?thesis by blast
qed

lemma links_new_tree:
  assumes ln: "links_new l m m' t i p"
  shows "tree (Suc l) m' t"
proof -
  have c: "tree (Suc l) m t" "p \<notin> tabs (Suc l) m t" using ln unfolding links_new_def by blast+
  note child = links_new_child [OF ln] and lv = links_new_live [OF ln]
  have np: "p \<notin> tabs l m (child_of m t j)" if "j < 512" "live (entry m t j)" for j
    using c(2) tabs_child [OF that] by blast
  have "t \<notin> tabs l m' (child_of m' t j)" if "j < 512" "live (entry m' t j)" for j
    using c child [OF that] lv [OF that(1)] that by (cases "j = i") auto
  moreover have "tabs l m' (child_of m' t j) \<inter> tabs l m' (child_of m' t k) = {}"
    if "j < 512" "k < 512" "j \<noteq> k" "live (entry m' t j)" "live (entry m' t k)" for j k
    using c(1) child [OF that(1,4)] child [OF that(2,5)] lv [OF that(1)] lv [OF that(2)] that np
    by (cases "j = i"; cases "k = i") simp_all
  ultimately show ?thesis unfolding tree.simps using c(1) child by simp
qed

lemma links_new_get:
  assumes ln: "links_new l m m' t i p" and l: "l < 3" and idx: "indices_ok idx"
  shows "get_walk idx m' (Suc l) t = get_walk idx m (Suc l) t"
proof -
  let ?j = "idx ! Suc l"
  have j: "?j < 512" using idx l by (simp add: indices_ok_def)
  have c: "tree (Suc l) m t" "\<not> present (entry m t i)" "live (entry m' t i)" "child_of m' t i = p"
    "table_ptr p" "\<And>j. j < 512 \<Longrightarrow> j \<noteq> i \<Longrightarrow> entry m' t j = entry m t j"
    "\<And>j. j < 512 \<Longrightarrow> entry m' p j = 0"
    using ln unfolding links_new_def by blast+
  have zero: "get_walk idx m' l p = 0" using zero_table(3) [OF c(5,7) idx] l by simp
  have same: "get_walk idx m' l (child_of m t ?j) = get_walk idx m l (child_of m t ?j)"
    if "live (entry m t ?j)"
    using walks_same [OF idx _ tree_child [OF c(1) j that] links_new_other(3) [OF ln j that]] l
    by simp
  show ?thesis
  proof (cases "?j = i")
    case True
    with c zero show ?thesis by (simp add: walk_step live_def)
  next
    case False
    with c(6) [OF j False] same show ?thesis by (auto simp: walk_step live_def)
  qed
qed

lemma links_new_path:
  assumes ln: "links_new l m m' t i p" and l: "l < 3"
  shows "path_kept (Suc l) m m' t"
  unfolding path_kept_def
proof (intro allI impI)
  fix idx assume idx: "indices_ok idx" and path: "path_ok idx m (Suc l) t"
  let ?j = "idx ! Suc l"
  have j: "?j < 512" using idx l by (simp add: indices_ok_def)
  have c: "tree (Suc l) m t" "live (entry m' t i)" "child_of m' t i = p"
    "table_ptr p" "\<And>j. j < 512 \<Longrightarrow> j \<noteq> i \<Longrightarrow> entry m' t j = entry m t j"
    "\<And>j. j < 512 \<Longrightarrow> entry m' p j = 0"
    using ln unfolding links_new_def by blast+
  have zero: "path_ok idx m' l p" using zero_table(3) [OF c(4,6) idx] l by simp
  have same: "path_ok idx m' l (child_of m t ?j)"
    if "live (entry m t ?j)" "path_ok idx m l (child_of m t ?j)"
    using walks_same [OF idx _ tree_child [OF c(1) j that(1)] links_new_other(3) [OF ln j that(1)]]
      l that(2) by simp
  show "path_ok idx m' (Suc l) t"
  proof (cases "?j = i")
    case True
    with c zero show ?thesis by (simp add: walk_step live_def)
  next
    case False
    with c(5) [OF j False] same path show ?thesis by (auto simp: walk_step live_def)
  qed
qed

section \<open>The walk of paging_map\<close>

text \<open>The state after one round of the loop that finds no table.\<close>

definition new_table_state ::
  "u64 \<Rightarrow> ptr \<Rightarrow> ptr \<Rightarrow> 'z pmm_scheme \<Rightarrow> 'z pmm_scheme" where
  "new_table_state vaddr slot new s1 = s1\<lparr>kmem := store64 (memset (kmem s1) new 0 0x1000) slot
     (addr_offset_lower new OR
      (if vaddr < VADDR_HIGHER then PAGING_PRESENT OR (PAGING_WRITABLE OR PAGING_USER)
       else PAGING_PRESENT))\<rparr>"

lemma map_walk_new:
  assumes "\<not> present (load64 (kmem s) (t + 8 * idx ! Suc l))" and "palloc s 1 = Some (p, s1)"
  shows "map_walk idx v (Suc l) t s =
    map_walk idx v l (child_table p) (new_table_state v (t + 8 * idx ! Suc l) p s1)"
  using assms by (simp add: Let_def present_def new_table_state_def or.assoc)

lemma map_walk_old:
  assumes "present (load64 (kmem s) (t + 8 * idx ! Suc l))"
  shows "map_walk idx v (Suc l) t s =
    map_walk idx v l (child_table (load64 (kmem s) (t + 8 * idx ! Suc l))) s"
  using assms by (simp add: Let_def present_def)

lemma new_table_grows:
  assumes ok: "tables_ok (Suc l) s t" and i: "i < 512" and l: "l < 3"
    and absent: "\<not> present (entry (kmem s) t i)" and av: "0 < frames_avail s"
  obtains p s1 where "palloc s 1 = Some (p, s1)" "table_ptr p"
    "grows (Suc l) t s (new_table_state v (t + 8 * i) p s1)"
    "frames_avail (new_table_state v (t + 8 * i) p s1) = frames_avail s - 1"
    "live (entry (kmem (new_table_state v (t + 8 * i) p s1)) t i)"
    "child_of (kmem (new_table_state v (t + 8 * i) p s1)) t i = p"
    "\<And>idx. indices_ok idx \<Longrightarrow> path_ok idx (kmem (new_table_state v (t + 8 * i) p s1)) l p"
proof -
  have tr: "tree (Suc l) (kmem s) t" and own: "\<And>x. x \<in> tabs (Suc l) (kmem s) t \<Longrightarrow> frame_owned s x"
    and pok: "palloc_ok s"
    using ok unfolding tables_ok_def by blast+
  have t: "table_ptr t" "frame_owned s t" using tr own tabs_self by simp_all
  obtain p s1 s2 where p: "palloc s 1 = Some (p, s1)"
    and s2: "s2 = s1\<lparr>kmem := memset (kmem s1) p 0 0x1000\<rparr>" "palloc_ok s2"
      "frames_avail s2 = frames_avail s - 1" "\<not> frame_owned s p" "table_ptr p"
      "\<And>q. frame_owned s2 q \<longleftrightarrow> frame_owned s q \<or> q = p"
      "\<And>q a. frame_owned s q \<Longrightarrow> a \<in> frame q \<Longrightarrow> kmem s2 a = kmem s a"
      "\<And>i. i < 512 \<Longrightarrow> load64 (kmem s2) (p + 8 * i) = 0"
    by (rule pa.alloc_zeroed [OF pok av]) blast
  define f where "f = (if v < VADDR_HIGHER then PAGING_PRESENT OR (PAGING_WRITABLE OR PAGING_USER)
    else PAGING_PRESENT)"
  define e where "e = addr_offset_lower p OR f"
  define s3 where "s3 = new_table_state v (t + 8 * i) p s1"
  have f: "f = take_bit 12 f" "bit f 0" "\<not> bit f 7"
    by (simp_all add: f_def PAGING_PRESENT_def PAGING_WRITABLE_def PAGING_USER_def)
  note e = link_entry [OF s2(5) f(1), folded e_def]
  have s3: "s3 = s2\<lparr>kmem := store64 (kmem s2) (t + 8 * i) e\<rparr>"
    by (simp add: s3_def s2(1) new_table_state_def e_def f_def)
  have neq: "t \<noteq> p" using t(2) s2(4) by blast
  have st: "palloc_ok s3" "frames_avail s3 = frames_avail s2" "frame_owned s3 = frame_owned s2"
    using pa.store_entry [OF s2(2) _ i, of t e] t(2) s2(6) unfolding s3 by blast+
  have same2: "same_on {x. frame_owned s x} (kmem s) (kmem s2)"
    using s2(7) by (simp add: same_on_def)
  have "same_on {x. frame_owned s x \<and> x \<noteq> t} (kmem s2) (kmem s3)"
    unfolding s3 by (simp, intro store_same_on t i) (auto simp: frame_owned_def)
  with same2 have same: "same_on {x. frame_owned s x \<and> x \<noteq> t} (kmem s) (kmem s3)"
    by (auto simp: same_on_def)
  have et: "entry (kmem s3) t j = (if j = i then e else entry (kmem s) t j)" if "j < 512" for j
    using t i that same_on_entry [OF same2 _ t(1) that]
    by (simp add: s3 load64_store64_slot table_ptr_aligned)
  have ep: "entry (kmem s3) p j = 0" if "j < 512" for j
    using t i that neq s2(5,8) by (simp add: s3 load64_store64_slot table_ptr_aligned)
  have lv: "live e" using e f by (simp add: live_def)
  have ln: "links_new l (kmem s) (kmem s3) t i p"
    unfolding links_new_def using tr i absent own s2(4,5) lv e(1) et ep
      same_on_mono [OF same, of "tabs (Suc l) (kmem s) t - {t}"] by auto
  have tot: "total_memory s3 = total_memory s"
    using palloc_one_more(2) [OF pok av p] by (simp add: s3 s2(1))
  have out: "kmem s3 a = kmem s a" if "a \<notin> window s" for a
  proof -
    have own2: "frame_owned s2 p" "frame_owned s2 t" using s2(6) t(2) by simp_all
    moreover have "window s2 = window s"
      using tot by (intro window_cong) (simp add: s3)
    ultimately have "a \<notin> frame p" "a \<notin> frame t" using that frame_owned_window by blast+
    then show ?thesis
      using palloc_one_outside [OF pok av p that] store64_slot_other [OF _ i, of t a]
        pa.zero_frame [of p "kmem s1" a] t(1) s2(5)
      by (simp add: s3 s2(1) table_ptr_def)
  qed
  have "same_on {x. frame_owned s x \<and> x \<notin> tabs (Suc l) (kmem s) t} (kmem s) (kmem s3)"
    using same by (rule same_on_mono) (use tabs_self in blast)
  then have "grows (Suc l) t s s3"
    unfolding grows_def tables_ok_def
    using st(1,3) s2(4,6) own links_new_tree [OF ln] links_new_tabs [OF ln] links_new_get [OF ln l]
      links_new_path [OF ln l] tot out
    by auto
  then show ?thesis
    using that [OF p s2(5)] st(2) s2(3) et [OF i] lv e(1) zero_table(3) [OF s2(5) ep] l
    unfolding s3_def by simp
qed


lemma new_table_state_more [simp]:
  "pmm.more (new_table_state v slot p s1) = pmm.more s1"
  by (simp add: new_table_state_def)

lemma map_walk_spec:
  assumes idx: "indices_ok idx"
  shows "l < 4 \<Longrightarrow> tables_ok l s t \<Longrightarrow> path_ok idx (kmem s) l t \<Longrightarrow> l \<le> frames_avail s \<Longrightarrow>
    \<exists>t0 s'. map_walk idx v l t s = Some (t0, s') \<and> grows l t s s' \<and>
      unmap_walk idx (kmem s') l t = Some t0 \<and> path_ok idx (kmem s') l t \<and>
      pmm.more s' = pmm.more s \<and> frames_avail s \<le> frames_avail s' + l"
proof (induction l arbitrary: t s)
  case 0
  then show ?case by (simp add: grows_refl)
next
  case (Suc l)
  let ?i = "idx ! Suc l"
  have i: "?i < 512" using idx Suc.prems(1) by (simp add: indices_ok_def)
  have l: "l < 3" "l < 4" using Suc.prems(1) by simp_all
  have descend: "\<exists>t0 s'. map_walk idx v l (child_of (kmem u) t ?i) u = Some (t0, s') \<and>
      grows (Suc l) t u s' \<and> unmap_walk idx (kmem s') (Suc l) t = Some t0 \<and>
      path_ok idx (kmem s') (Suc l) t \<and> pmm.more s' = pmm.more u \<and>
      frames_avail u \<le> frames_avail s' + l"
    if u: "tables_ok (Suc l) u t" "live (entry (kmem u) t ?i)"
      "path_ok idx (kmem u) l (child_of (kmem u) t ?i)" "l \<le> frames_avail u"
    for u :: "'a vm_scheme"
  proof -
    from Suc.IH [OF l(2) tables_ok_child [OF u(1) i u(2)] u(3,4)] obtain t0 s' where
      w: "map_walk idx v l (child_of (kmem u) t ?i) u = Some (t0, s')"
        "grows l (child_of (kmem u) t ?i) u s'"
        "unmap_walk idx (kmem s') l (child_of (kmem u) t ?i) = Some t0"
        "path_ok idx (kmem s') l (child_of (kmem u) t ?i)"
        "pmm.more s' = pmm.more u" "frames_avail u \<le> frames_avail s' + l" by blast
    from grows_child [OF u(1) i u(2) l(1) w(2)] w u(2) show ?thesis
      by (intro exI [of _ t0] exI [of _ s']) (simp add: walk_step live_def)
  qed
  show ?case
  proof (cases "present (entry (kmem s) t ?i)")
    case True
    with Suc.prems(3) have "live (entry (kmem s) t ?i)"
      "path_ok idx (kmem s) l (child_of (kmem s) t ?i)"
      by (simp_all add: walk_step live_def)
    from descend [OF Suc.prems(2) this] Suc.prems(4) map_walk_old [OF True]
    show ?thesis by fastforce
  next
    case False
    have av: "0 < frames_avail s" using Suc.prems(4) by simp
    obtain p s1 where p: "palloc s 1 = Some (p, s1)"
      and u: "grows (Suc l) t s (new_table_state v (t + 8 * ?i) p s1)"
        "frames_avail (new_table_state v (t + 8 * ?i) p s1) = frames_avail s - 1"
        "live (entry (kmem (new_table_state v (t + 8 * ?i) p s1)) t ?i)"
        "child_of (kmem (new_table_state v (t + 8 * ?i) p s1)) t ?i = p"
        "path_ok idx (kmem (new_table_state v (t + 8 * ?i) p s1)) l p"
      and cp: "child_table p = p"
      using new_table_grows [OF Suc.prems(2) i l(1) False av, where v = v] idx child_table_ptr
      by metis
    have more: "pmm.more s1 = pmm.more s"
      using Suc.prems(2) by (intro palloc_one_more(1) [OF _ av p]) (simp add: tables_ok_def)
    have "tables_ok (Suc l) (new_table_state v (t + 8 * ?i) p s1) t"
      using u(1) by (simp add: grows_def)
    moreover have "path_ok idx (kmem (new_table_state v (t + 8 * ?i) p s1)) l
        (child_of (kmem (new_table_state v (t + 8 * ?i) p s1)) t ?i)"
      using u(4,5) by simp
    moreover have "l \<le> frames_avail (new_table_state v (t + 8 * ?i) p s1)"
      using u(2) Suc.prems(4) by simp
    ultimately have "\<exists>t0 s'. map_walk idx v l p (new_table_state v (t + 8 * ?i) p s1) = Some (t0, s') \<and>
      grows (Suc l) t (new_table_state v (t + 8 * ?i) p s1) s' \<and>
      unmap_walk idx (kmem s') (Suc l) t = Some t0 \<and> path_ok idx (kmem s') (Suc l) t \<and>
      pmm.more s' = pmm.more s1 \<and> frames_avail s - 1 \<le> frames_avail s' + l"
      using descend [of "new_table_state v (t + 8 * ?i) p s1"] u(2-4) by simp
    then obtain t0 s' where
      w: "map_walk idx v l p (new_table_state v (t + 8 * ?i) p s1) = Some (t0, s')"
        "grows (Suc l) t (new_table_state v (t + 8 * ?i) p s1) s'"
        "unmap_walk idx (kmem s') (Suc l) t = Some t0" "path_ok idx (kmem s') (Suc l) t"
        "pmm.more s' = pmm.more s1" "frames_avail s - 1 \<le> frames_avail s' + l" by blast
    then show ?thesis
      using map_walk_new [OF False p] cp grows_trans [OF u(1) w(2)] more
      by (intro exI [of _ t0] exI [of _ s']) simp
  qed
qed


section \<open>Mapping and unmapping\<close>

abbreviation paging_ok :: "'z vm_scheme \<Rightarrow> ptr \<Rightarrow> bool" where
  "paging_ok s root \<equiv> tables_ok 3 s root"

lemma vm_more_fields:
  fixes s s' :: "'z vm_scheme"
  assumes "pmm.more s' = pmm.more s"
  shows "kernel_table s' = kernel_table s" "cr3 s' = cr3 s" "invlpg s' = invlpg s"
    "vm.more s' = vm.more s"
  using assms by (cases s, cases s', simp)+

lemma tables_ok_store_leaf:
  fixes e :: u64
  assumes ok: "tables_ok l s t" and l: "l < 4" and idx: "indices_ok idx"
    and path: "path_ok idx (kmem s) l t" and leaf: "unmap_walk idx (kmem s) l t = Some t0"
  defines "s' \<equiv> s\<lparr>kmem := store64 (kmem s) (t0 + 8 * idx ! 0) e\<rparr>"
  shows "tables_ok l s' t" and "frames_avail s' = frames_avail s" and "frame_owned s' = frame_owned s"
    and "get_walk idx (kmem s') l t = e"
    and "path_kept l (kmem s) (kmem s') t"
    and "\<And>jdx. indices_ok jdx \<Longrightarrow> \<exists>k\<le>l. jdx ! k \<noteq> idx ! k \<Longrightarrow>
      get_walk jdx (kmem s') l t = get_walk jdx (kmem s) l t"
    and "same_on {x. frame_owned s x \<and> x \<notin> tabs l (kmem s) t} (kmem s) (kmem s')"
    and "\<And>a. a \<notin> window s \<Longrightarrow> kmem s' a = kmem s a"
proof -
  have tr: "tree l (kmem s) t" and pok: "palloc_ok s"
    and own: "\<And>x. x \<in> tabs l (kmem s) t \<Longrightarrow> frame_owned s x"
    using ok unfolding tables_ok_def by blast+
  have in_t: "t0 \<in> tabs l (kmem s) t" by (rule leaf_in_tabs [OF idx l path leaf])
  have i: "idx ! 0 < 512" using idx by (simp add: indices_ok_def)
  note st = pa.store_entry [OF pok own [OF in_t] i, of e, folded s'_def]
  have m': "kmem s' = store64 (kmem s) (t0 + 8 * idx ! 0) e" by (simp add: s'_def)
  note leaf' = store_leaf [OF idx l tr path leaf m']
  show "tables_ok l s' t" using st leaf' own unfolding tables_ok_def by auto
  show "frames_avail s' = frames_avail s" "frame_owned s' = frame_owned s" using st by simp_all
  show "get_walk idx (kmem s') l t = e" "path_kept l (kmem s) (kmem s') t" using leaf' by simp_all
  show "get_walk jdx (kmem s') l t = get_walk jdx (kmem s) l t"
    if "indices_ok jdx" "\<exists>k\<le>l. jdx ! k \<noteq> idx ! k" for jdx
    using leaf' that by blast
  show "same_on {x. frame_owned s x \<and> x \<notin> tabs l (kmem s) t} (kmem s) (kmem s')"
    unfolding m' using tabs_table_ptr [OF tr in_t] i in_t
    by (intro store_same_on) (auto simp: frame_owned_def)
  show "kmem s' a = kmem s a" if "a \<notin> window s" for a
    unfolding m' using that frame_owned_window [OF own [OF in_t]] i tabs_table_ptr [OF tr in_t]
    by (intro store64_slot_other) (auto simp: table_ptr_def)
qed

lemma frames_avail_flush [simp]:
  "frames_avail (paging_flush_tlb s a) = frames_avail s"
  "frame_owned (paging_flush_tlb s a) = frame_owned s"
  "tables_ok l (paging_flush_tlb s a) t = tables_ok l s t"
  "kmem (paging_flush_tlb s a) = kmem s"
  "kernel_table (paging_flush_tlb s a) = kernel_table s"
  "invlpg (paging_flush_tlb s a) = a # invlpg s"
  "cr3 (paging_flush_tlb s a) = cr3 s"
  by (simp_all add: paging_flush_tlb_def frames_avail_def frame_owned_def tables_ok_def fun_eq_iff
      palloc_ok_def pmm_inv_def free_count_ok_def free_pages_def page_locked_def outside_bitmap_def
      bitmap_safe_def)

lemma vpage_neq_le3:
  "vpage w \<noteq> vpage v \<Longrightarrow> \<exists>k\<le>3. vaddr_to_index w ! k \<noteq> vaddr_to_index v ! k"
  using vpage_neq_index [of w v] by (auto simp: less_Suc_eq_le numeral_eq_Suc)

lemma paging_map_spec:
  assumes ok: "paging_ok s root" and path: "path_ok (vaddr_to_index v) (kmem s) 3 root"
    and av: "3 \<le> frames_avail s"
  obtains s' where "paging_map s root v p flags = Some s'" "paging_ok s' root"
    "paging_get s' root v = p OR ucast flags OR PAGING_PRESENT"
    "\<And>w. vpage w \<noteq> vpage v \<Longrightarrow> paging_get s' root w = paging_get s root w"
    "same_on {x. frame_owned s x \<and> x \<notin> tabs 3 (kmem s) root} (kmem s) (kmem s')"
    "\<And>x. frame_owned s x \<Longrightarrow> frame_owned s' x"
    "\<And>x. x \<in> tabs 3 (kmem s') root \<Longrightarrow> frame_owned s x \<Longrightarrow> x \<in> tabs 3 (kmem s) root"
    "frames_avail s \<le> frames_avail s' + 3" "path_kept 3 (kmem s) (kmem s') root"
    "total_memory s' = total_memory s" "\<And>a. a \<notin> window s \<Longrightarrow> kmem s' a = kmem s a"
    "kernel_table s' = kernel_table s" "cr3 s' = cr3 s" "invlpg s' = v # invlpg s"
    "vm.more s' = vm.more s"
proof -
  let ?idx = "vaddr_to_index v"
  have three: "(3 :: nat) < 4" by simp
  from map_walk_spec [OF indices_ok_vaddr three ok path av, of v] obtain t0 s1 where
    w: "map_walk ?idx v 3 root s = Some (t0, s1)" and g: "grows 3 root s s1"
      and leaf: "unmap_walk ?idx (kmem s1) 3 root = Some t0" and path1: "path_ok ?idx (kmem s1) 3 root"
      and rest: "pmm.more s1 = pmm.more s" "frames_avail s \<le> frames_avail s1 + 3" by blast
  define e where "e = p OR ucast flags OR PAGING_PRESENT"
  define s2 where "s2 = s1\<lparr>kmem := store64 (kmem s1) (t0 + 8 * ?idx ! 0) e\<rparr>"
  have ok1: "tables_ok 3 s1 root" using g by (simp add: grows_def)
  note st = tables_ok_store_leaf [OF ok1 three indices_ok_vaddr path1 leaf,
    where e = e, folded s2_def]
  have tr1: "tree 3 (kmem s1) root" using ok1 by (simp add: tables_ok_def)
  have tabs2: "tabs 3 (kmem s2) root \<subseteq> tabs 3 (kmem s1) root"
    using store_leaf [OF indices_ok_vaddr three tr1 path1 leaf, of "kmem s2" e] by (simp add: s2_def)
  have eq: "paging_map s root v p flags = Some (paging_flush_tlb s2 v)"
    using w by (simp add: paging_map_def Let_def s2_def e_def)
  have fields: "kernel_table s2 = kernel_table s1" "cr3 s2 = cr3 s1" "invlpg s2 = invlpg s1"
    "vm.more s2 = vm.more s1" "vm.more (paging_flush_tlb s2 v) = vm.more s2"
    by (simp_all add: s2_def paging_flush_tlb_def)
  note g' = g [unfolded grows_def]
  show ?thesis
  proof (rule that [OF eq])
    show "paging_get (paging_flush_tlb s2 v) root w = paging_get s root w"
      if "vpage w \<noteq> vpage v" for w
      using st(6) [OF indices_ok_vaddr vpage_neq_le3 [OF that]] g' indices_ok_vaddr
      by (simp add: paging_get_def)
    show "same_on {x. frame_owned s x \<and> x \<notin> tabs 3 (kmem s) root} (kmem s)
        (kmem (paging_flush_tlb s2 v))"
      using st(7) g' unfolding same_on_def frames_avail_flush(4)
      by (metis (no_types, lifting) mem_Collect_eq)
    show "x \<in> tabs 3 (kmem s) root"
      if "x \<in> tabs 3 (kmem (paging_flush_tlb s2 v)) root" "frame_owned s x" for x
      using that tabs2 g' by auto
    show "path_kept 3 (kmem s) (kmem (paging_flush_tlb s2 v)) root"
      using st(5) g' by (simp add: path_kept_def)
    show "kmem (paging_flush_tlb s2 v) a = kmem s a" if "a \<notin> window s" for a
      using st(8) g' that window_cong [of s1 s] by simp
    show "total_memory (paging_flush_tlb s2 v) = total_memory s"
      using g' by (simp add: paging_flush_tlb_def s2_def)
  qed (use st g' rest fields vm_more_fields [OF rest(1)] in
      \<open>simp_all add: paging_get_def e_def\<close>)
qed


lemma unmap_none_get:
  "indices_ok idx \<Longrightarrow> path_ok idx m l t \<Longrightarrow> unmap_walk idx m l t = None \<Longrightarrow> get_walk idx m l t = 0"
  by (induction l arbitrary: t) (auto simp: walk_step split: if_splits)

lemma unmap_some_present:
  "path_ok idx m (Suc l) t \<Longrightarrow> get_walk idx m (Suc l) t \<noteq> 0 \<Longrightarrow> \<exists>t0. unmap_walk idx m (Suc l) t = Some t0"
proof (induction l arbitrary: t)
  case 0
  then show ?case by (simp add: walk_step split: if_splits)
next
  case (Suc l)
  then show ?case
    by (simp add: walk_step(1) [of idx m "Suc l"] walk_step(2) [of idx m "Suc l"]
        walk_step(3) [of idx m "Suc l"] split: if_splits)
qed

lemma paging_unmap_spec:
  assumes ok: "paging_ok s root" and path: "path_ok (vaddr_to_index v) (kmem s) 3 root"
  defines "s' \<equiv> paging_unmap s root v"
  shows "paging_ok s' root" and "paging_get s' root v = 0"
    and "vpage w \<noteq> vpage v \<Longrightarrow> paging_get s' root w = paging_get s root w"
    and "frames_avail s' = frames_avail s" and "frame_owned s' = frame_owned s"
    and "same_on {x. frame_owned s x \<and> x \<notin> tabs 3 (kmem s) root} (kmem s) (kmem s')"
    and "invlpg s' = (if paging_get s root v = 0 \<and> s' = s then invlpg s else v # invlpg s)"
proof -
  let ?idx = "vaddr_to_index v"
  have three: "(3 :: nat) < 4" by simp
  have "paging_ok s' root \<and> paging_get s' root v = 0 \<and>
    (\<forall>w. vpage w \<noteq> vpage v \<longrightarrow> paging_get s' root w = paging_get s root w) \<and>
    frames_avail s' = frames_avail s \<and> frame_owned s' = frame_owned s \<and>
    same_on {x. frame_owned s x \<and> x \<notin> tabs 3 (kmem s) root} (kmem s) (kmem s') \<and>
    invlpg s' = (if paging_get s root v = 0 \<and> s' = s then invlpg s else v # invlpg s)"
  proof (cases "unmap_walk ?idx (kmem s) 3 root")
    case None
    then have "s' = s" by (simp add: s'_def paging_unmap_def Let_def)
    with ok unmap_none_get [OF indices_ok_vaddr path None] show ?thesis
      by (simp add: paging_get_def same_on_def)
  next
    case (Some t0)
    define s1 where "s1 = s\<lparr>kmem := store64 (kmem s) (t0 + 8 * ?idx ! 0) 0\<rparr>"
    note st = tables_ok_store_leaf [OF ok three indices_ok_vaddr path Some, where e = 0, folded s1_def]
    have s': "s' = paging_flush_tlb s1 v"
      using Some by (simp add: s'_def paging_unmap_def Let_def s1_def)
    have log: "invlpg s' = v # invlpg s" by (simp add: s' s1_def)
    then have "s' \<noteq> s" by auto
    moreover have "\<forall>w. vpage w \<noteq> vpage v \<longrightarrow> paging_get s1 root w = paging_get s root w"
      using st(6) [OF indices_ok_vaddr vpage_neq_le3] by (simp add: paging_get_def)
    ultimately show ?thesis using st(1-4,7) log by (simp add: s' paging_get_def)
  qed
  then show "paging_ok s' root" "paging_get s' root v = 0"
    "vpage w \<noteq> vpage v \<Longrightarrow> paging_get s' root w = paging_get s root w"
    "frames_avail s' = frames_avail s" "frame_owned s' = frame_owned s"
    "same_on {x. frame_owned s x \<and> x \<notin> tabs 3 (kmem s) root} (kmem s) (kmem s')"
    "invlpg s' = (if paging_get s root v = 0 \<and> s' = s then invlpg s else v # invlpg s)"
    by blast+
qed

section \<open>An example machine\<close>

text \<open>
  Twenty-three pages; the bitmap lies in page 0, an empty root table in page 1, both are locked, and
  so are the pages 14 and 15, which hold data, and the bit behind the last page.
\<close>

definition vm_example :: vm where
  "vm_example =
     \<lparr>kmem = (\<lambda>_. 0)(0xffff800000000000 := 3, 0xffff800000000001 := 0xc0,
        0xffff800000000002 := 0x80),
      page_bitmap = \<lparr>bm_buf = 0xffff800000000000, bm_len = 3\<rparr>,
      last_free = 2, free_memory = 0x13000, total_memory = 0x17000,
      kernel_table = 0xffff800000001000, cr3 = 0x1000, invlpg = []\<rparr>"

lemma nat_less_24: "n < 24 \<Longrightarrow> n \<in> {0, 1, 2, 3, 4, 5, 6, 7, 8, 9, 10, 11, 12, 13, 14, 15,
    16, 17, 18, 19, 20, 21, 22, 23 :: nat}"
  by simp arith

lemma vm_example_locked:
  assumes "n < 24"
  shows "page_locked vm_example n \<longleftrightarrow> n < 2 \<or> n = 14 \<or> n = 15 \<or> n = 23"
  using nat_less_24 [OF assms]
  by (elim insertE emptyE) (simp_all add: page_locked_def vm_example_def bitmap_isset_def)

lemma vm_example_card: "card ({2..<14} \<union> {16..<23 :: nat}) = 19"
  by (subst card_Un_disjoint) auto

lemma vm_example_inv: "pmm_inv vm_example"
proof -
  have "free_pages vm_example = {2..<14} \<union> {16..<23}"
    using vm_example_locked by (auto simp: free_pages_def) (auto simp: vm_example_def)
  then show ?thesis
    using vm_example_locked [of 23]
    by (simp add: pmm_inv_def free_count_ok_def vm_example_card) (simp add: vm_example_def vm_example_card)
qed

lemma vm_example_bitmap:
  assumes "\<not> outside_bitmap vm_example a"
  shows "VADDR_HIGHER \<le> a" and "page_of a = 0"
proof -
  have "a - 0xffff800000000000 < 3" using assms by (simp add: outside_bitmap_def vm_example_def)
  then have "unat (a - 0xffff800000000000) < 3" by (simp add: word_less_nat_alt)
  then have "unat (a - 0xffff800000000000) = unat (0 :: u64) \<or>
    unat (a - 0xffff800000000000) = unat (1 :: u64) \<or> unat (a - 0xffff800000000000) = unat (2 :: u64)"
    by simp linarith
  then have "a - 0xffff800000000000 = 0 \<or> a - 0xffff800000000000 = 1 \<or> a - 0xffff800000000000 = 2"
    unfolding word_unat_eq_iff [symmetric] .
  then have "a = 0xffff800000000000 \<or> a = 0xffff800000000001 \<or> a = 0xffff800000000002" by (auto simp: diff_eq_eq)
  then show "VADDR_HIGHER \<le> a" "page_of a = 0"
    by (auto simp: VADDR_HIGHER_def page_of_def unat_addr_ensure_lower)
qed

lemma vm_example_palloc_ok: "palloc_ok vm_example"
  unfolding palloc_ok_def bitmap_safe_def
  using vm_example_inv vm_example_bitmap vm_example_locked [of 0]
  by (simp add: vm_example_def [THEN arg_cong, of total_memory])

lemma vm_example_root: "table_ptr 0xffff800000001000" "page_of 0xffff800000001000 = 1"
  by (simp_all add: table_ptr_def page_aligned_def VADDR_HIGHER_def page_of_def unat_addr_ensure_lower)

lemma vm_example_mem: "unat a div 4096 = 4503565267632129 \<Longrightarrow> kmem vm_example a = 0"
  by (auto simp: vm_example_def)

lemma vm_example_zero: "i < 512 \<Longrightarrow> entry (kmem vm_example) 0xffff800000001000 i = 0"
proof (rule load64_zero)
  fix k :: u64
  assume "i < 512" "k < 8"
  then have "0xffff800000001000 + 8 * i + k \<in> frame 0xffff800000001000"
    using vm_example_root(1) by (intro slot_in_frame) (simp_all add: table_ptr_def)
  then have "unat (0xffff800000001000 + 8 * i + k) div 4096 = 4503565267632129"
    by (simp add: frame_def)
  then show "kmem vm_example (0xffff800000001000 + 8 * i + k) = 0"
    by (rule vm_example_mem)
qed

lemma vm_example_ok: "paging_ok vm_example 0xffff800000001000"
proof -
  have "outside_bitmap vm_example a" if "a \<in> frame 0xffff800000001000" for a
    using that vm_example_bitmap(2) [of a] vm_example_root high_same_page [of "0xffff800000001000" a]
    by (auto simp: table_ptr_def)
  then show ?thesis
    using vm_example_palloc_ok zero_table(1,2) [OF vm_example_root(1) vm_example_zero, where l = 3]
      vm_example_root vm_example_locked [of 1]
    by (simp add: tables_ok_def frame_owned_def) (simp add: vm_example_def)
qed

lemma vm_example_path: "path_ok (vaddr_to_index v) (kmem vm_example) 3 0xffff800000001000"
  using zero_table(3) [OF vm_example_root(1) vm_example_zero indices_ok_vaddr] by simp

lemma vm_example_avail: "frames_avail vm_example = 19"
proof -
  have "{j. unat (last_free vm_example) \<le> j \<and> j < pmm_pages vm_example \<and> \<not> page_locked vm_example j}
    = {2..<14} \<union> {16..<23}"
    using vm_example_locked by (auto simp: vm_example_def [THEN arg_cong, of last_free]
        vm_example_def [THEN arg_cong, of total_memory])
  then show ?thesis by (simp add: frames_avail_def vm_example_card)
qed


text \<open>The two properties of page allocation hold on this machine.\<close>

theorem zpalloc_clears_one_byte_witness:
  "\<exists>p s'. zpalloc vm_example 1 = Some (p, s') \<and> kmem s' p = 0"
  using zpalloc_clears_one_byte [OF vm_example_palloc_ok] by (auto simp: vm_example_avail)

theorem palloc_pfree_restores_witness:
  "\<exists>p s1 s2. palloc vm_example 1 = Some (p, s1) \<and> pfree s1 p 1 = Some s2 \<and>
    free_pages s2 = free_pages vm_example"
  using palloc_pfree_restores [OF vm_example_palloc_ok] by (auto simp: vm_example_avail)

section \<open>Empty address spaces\<close>

text \<open>Different tables are at least a page apart, in both directions.\<close>

lemma table_ptr_apart:
  assumes "table_ptr p" and "table_ptr q" and "p \<noteq> q"
  shows "0x1000 \<le> p - q"
proof -
  have "p \<in> frame p" by (simp add: frame_def)
  moreover have "frame p \<inter> frame q = {}" using assms by (intro frame_disjoint table_ptr_aligned)
  ultimately have "p \<notin> frame q" by blast
  then show ?thesis
    using in_frame_iff [OF table_ptr_aligned [OF assms(2)], of p] by (simp add: word_le_nat_alt)
qed

text \<open>The memory after the upper half of table \<open>k\<close> is copied into the zeroed table \<open>p\<close>.\<close>

lemma copy_half_apply:
  assumes "table_ptr p" and "table_ptr k" and "p \<noteq> k"
  shows "memcpy m (p + 0x800) (k + 0x800) 0x800 a =
    (if a - (p + 0x800) < 0x800 then m (k + (a - p)) else m a)"
proof -
  have "4096 \<le> unat (p - k)" using table_ptr_apart [OF assms] by (simp add: word_le_nat_alt)
  then have "0x800 \<le> p + 0x800 - (k + 0x800)" by (simp add: word_le_nat_alt)
  then show ?thesis by (subst memcpy_disjoint) (simp_all add: algebra_simps)
qed

lemma upper_half: "(x :: u64) - 0x800 < 0x800 \<longleftrightarrow> 2048 \<le> unat x \<and> unat x < 4096"
proof (cases "0x800 \<le> x")
  case True
  then have "unat (x - 0x800) = unat x - 2048" "2048 \<le> unat x"
    by (simp_all add: unat_sub word_le_nat_alt)
  then show ?thesis by (simp only: word_less_nat_alt) (simp, arith)
next
  case False
  then have lt: "unat x < 2048" by (simp add: word_le_nat_alt)
  then have "unat (x - 0x800) = 18446744073709551616 + unat x - 2048"
    by (simp add: unat_sub_if')
  with lt show ?thesis by (simp only: word_less_nat_alt) simp
qed

lemma copy_half_entry:
  assumes p: "table_ptr p" and k: "table_ptr k" and "p \<noteq> k" and i: "i < 512"
  shows "entry (memcpy m (p + 0x800) (k + 0x800) 0x800) p i =
    (if i < 256 then entry m p i else entry m k i)"
proof -
  let ?m = "memcpy m (p + 0x800) (k + 0x800) 0x800"
  have byte: "?m (p + 8 * i + b) = (if i < 256 then m (p + 8 * i + b) else m (k + 8 * i + b))"
    if "b < 8" for b
  proof -
    have un: "unat i < 512" "unat b < 8" using i that by (simp_all add: word_less_nat_alt)
    then have off: "unat (8 * i + b) = 8 * unat i + unat b" by (simp add: unat_word_ariths)
    have "p + 8 * i + b - (p + 0x800) = (8 * i + b) - 0x800" by simp
    moreover have "2048 \<le> 8 * unat i + unat b \<longleftrightarrow> 256 \<le> unat i" using un by linarith
    moreover have "8 * unat i + unat b < 4096" using un by linarith
    ultimately have "p + 8 * i + b - (p + 0x800) < 0x800 \<longleftrightarrow> 256 \<le> i"
      by (simp only: upper_half off) (simp add: word_le_nat_alt)
    then show ?thesis
      using copy_half_apply [OF p k assms(3), of m "p + 8 * i + b"]
      by (cases "256 \<le> i") (simp_all add: algebra_simps leD not_le)
  qed
  show ?thesis
  proof (cases "i < 256")
    case True
    have "entry ?m p i = entry m p i" by (rule load64_cong) (simp add: byte True)
    with True show ?thesis by simp
  next
    case False
    have "load64 ?m (p + 8 * i) = load64 (\<lambda>a. m (a - p + k)) (p + 8 * i)"
      by (rule load64_cong) (subst byte, assumption, simp add: False algebra_simps)
    also have "\<dots> = entry m k i" by (simp add: load64_def algebra_simps)
    finally show ?thesis using False by simp
  qed
qed

lemma copy_half_other:
  assumes p: "table_ptr p" and k: "table_ptr k" and "p \<noteq> k" and a: "a \<notin> frame p"
  shows "memcpy m (p + 0x800) (k + 0x800) 0x800 a = m a"
proof -
  have "\<not> unat (a - p) < 4096" using a in_frame_iff [of p a] p by (simp add: table_ptr_def)
  moreover have "a - (p + 0x800) = (a - p) - 0x800" by simp
  ultimately have "\<not> a - (p + 0x800) < 0x800" by (simp only: upper_half) simp
  then show ?thesis using copy_half_apply [OF p k assms(3)] by simp
qed

text \<open>A table whose lower half is empty and whose upper half is that of another.\<close>

lemma half_tree:
  assumes tr: "tree (Suc l) m k" and l: "l < 3" and same: "same_on (tabs (Suc l) m k) m m'"
    and p: "table_ptr p" "p \<notin> tabs (Suc l) m k"
    and e: "\<And>i. i < 512 \<Longrightarrow> entry m' p i = (if i < 256 then 0 else entry m k i)"
  shows "tree (Suc l) m' p" and "tabs (Suc l) m' p \<subseteq> insert p (tabs (Suc l) m k)"
    and "indices_ok idx \<Longrightarrow> get_walk idx m' (Suc l) p =
      (if idx ! Suc l < 256 then 0 else get_walk idx m (Suc l) k)"
proof -
  have sub: "tree l m' (child_of m k i)" "tabs l m' (child_of m k i) = tabs l m (child_of m k i)"
    if "i < 512" "live (entry m k i)" for i
    using tree_same [OF tree_child [OF tr that] same_on_child [OF same that]]
      tabs_same [OF tree_child [OF tr that] same_on_child [OF same that]] by blast+
  have lv: "\<not> i < 256" "live (entry m k i)" "child_of m' p i = child_of m k i"
    if "i < 512" "live (entry m' p i)" for i
    using e [OF that(1)] that(2) by (simp_all split: if_splits)
  have np: "p \<notin> tabs l m (child_of m k i)" if "i < 512" "live (entry m k i)" for i
    using p(2) tabs_child [OF that] by blast
  have disj: "tabs l m (child_of m k i) \<inter> tabs l m (child_of m k j) = {}"
    if "i < 512" "j < 512" "i \<noteq> j" "live (entry m k i)" "live (entry m k j)" for i j
    using tr that by simp
  show "tree (Suc l) m' p"
    unfolding tree.simps using p(1) sub lv np disj by simp
  show "tabs (Suc l) m' p \<subseteq> insert p (tabs (Suc l) m k)"
  proof
    fix x assume "x \<in> tabs (Suc l) m' p"
    then consider "x = p" | i where "i < 512" "live (entry m' p i)" "x \<in> tabs l m' (child_of m' p i)"
      by auto
    then show "x \<in> insert p (tabs (Suc l) m k)"
    proof cases
      case (2 i)
      then show ?thesis using lv [OF 2(1,2)] sub [OF 2(1)] tabs_child [of i m k x l] by simp
    qed simp
  qed
  show "get_walk idx m' (Suc l) p = (if idx ! Suc l < 256 then 0 else get_walk idx m (Suc l) k)"
    if idx: "indices_ok idx"
  proof -
    let ?i = "idx ! Suc l"
    have i: "?i < 512" using idx l by (simp add: indices_ok_def)
    have "get_walk idx m' l (child_of m k ?i) = get_walk idx m l (child_of m k ?i)"
      if "live (entry m k ?i)"
      using walks_same [OF idx _ tree_child [OF tr i that] same_on_child [OF same i that]] l by simp
    then show ?thesis using e [OF i] by (auto simp: walk_step live_def)
  qed
qed

lemma paging_create_empty_spec:
  assumes ok: "paging_ok s (kernel_table s)" and av: "0 < frames_avail s"
  obtains t s' where "paging_create_empty s = Some (t, s')" "paging_ok s' t"
    "\<not> frame_owned s t" "\<And>q. frame_owned s' q \<longleftrightarrow> frame_owned s q \<or> q = t"
    "same_on {q. frame_owned s q} (kmem s) (kmem s')" "frames_avail s' = frames_avail s - 1"
    "\<And>v. paging_get s' t v = (if vaddr_to_index v ! 3 < 256 then 0
       else paging_get s (kernel_table s) v)"
    "kernel_table s' = kernel_table s"
proof -
  have pok: "palloc_ok s" and tr: "tree 3 (kmem s) (kernel_table s)"
    and own: "\<And>x. x \<in> tabs 3 (kmem s) (kernel_table s) \<Longrightarrow> frame_owned s x"
    using ok unfolding tables_ok_def by blast+
  obtain t s1 s2 where t: "palloc s 1 = Some (t, s1)"
    and s2: "s2 = s1\<lparr>kmem := memset (kmem s1) t 0 0x1000\<rparr>" "palloc_ok s2"
      "frames_avail s2 = frames_avail s - 1" "\<not> frame_owned s t" "table_ptr t"
      "\<And>q. frame_owned s2 q \<longleftrightarrow> frame_owned s q \<or> q = t"
      "\<And>q a. frame_owned s q \<Longrightarrow> a \<in> frame q \<Longrightarrow> kmem s2 a = kmem s a"
      "\<And>i. i < 512 \<Longrightarrow> load64 (kmem s2) (t + 8 * i) = 0"
    by (rule pa.alloc_zeroed [OF pok av]) blast
  let ?k = "kernel_table s"
  have kt: "kernel_table s1 = ?k"
    by (rule vm_more_fields(1) [OF palloc_one_more(1) [OF pok av t]])
  have k: "table_ptr ?k" "frame_owned s ?k" "t \<noteq> ?k"
    using tr own [OF tabs_self] s2(4) tree_table_ptr by blast+
  define m where "m = memcpy (kmem s2) (t + 0x800) (?k + 0x800) 0x800"
  define s3 where "s3 = s2\<lparr>kmem := m\<rparr>"
  have eq: "paging_create_empty s = Some (t, s3)"
    using t kt by (simp add: paging_create_empty_def s3_def m_def s2(1))
  have keep: "m a = kmem s2 a" if "a \<notin> frame t" for a
    unfolding m_def by (rule copy_half_other [OF s2(5) k(1,3) that])
  have own2: "frame_owned s2 t" by (simp add: s2(6))
  have st: "palloc_ok s3" "frames_avail s3 = frames_avail s2" "frame_owned s3 = frame_owned s2"
    using pa.write_owned [OF s2(2) own2 keep] unfolding s3_def by blast+
  have same: "same_on {q. frame_owned s q} (kmem s) (kmem s3)"
    unfolding same_on_def
  proof (intro ballI)
    fix q a assume q: "q \<in> {q. frame_owned s q}" "a \<in> frame q"
    then have "q \<noteq> t" "table_ptr q" using s2(4) by (auto simp: frame_owned_def)
    then have "frame q \<inter> frame t = {}" using s2(5) by (intro frame_disjoint) (simp_all add: table_ptr_def)
    with q have "a \<notin> frame t" by blast
    with q keep s2(7) show "kmem s3 a = kmem s a" by (simp add: s3_def)
  qed
  have e: "entry (kmem s3) t i = (if i < 256 then 0 else entry (kmem s) ?k i)" if "i < 512" for i
  proof -
    have "entry (kmem s2) ?k i = entry (kmem s) ?k i"
      by (rule load64_frame_cong) (use k s2(7) that in \<open>auto simp: table_ptr_def\<close>)
    then show ?thesis
      using copy_half_entry [OF s2(5) k(1,3) that] s2(8) [OF that] by (simp add: s3_def m_def)
  qed
  have three: "(3 :: nat) = Suc 2" by simp
  have nt: "t \<notin> tabs (Suc 2) (kmem s) ?k" using s2(4) own three by metis
  have same': "same_on (tabs (Suc 2) (kmem s) ?k) (kmem s) (kmem s3)"
    using same by (rule same_on_mono) (use own [unfolded three] in blast)
  note h = half_tree [OF tr [unfolded three] _ same' s2(5) nt e, folded three]
  have "paging_ok s3 t" using h(1,2) st own s2(6) by (auto simp: tables_ok_def)
  moreover have "kernel_table s3 = ?k" by (simp add: s3_def s2(1) kt)
  ultimately show ?thesis
    using h(3) [OF _ _ indices_ok_vaddr] st s2(3,4,6) same
    by (intro that [OF eq]) (simp_all add: paging_get_def)
qed


section \<open>Properties\<close>

text \<open>C2: Mapping a page with three free frames left succeeds whenever no huge page is on the
  path: the address then translates to the frame with the given flags and the present bit, every
  address of another page translates as before, the tables still form a tree of owned frames, no
  owned frame outside the tables is written, and the address is flushed from the TLB.\<close>

theorem paging_map_correct:
  assumes "paging_ok s root" and "path_ok (vaddr_to_index v) (kmem s) 3 root"
    and "3 \<le> frames_avail s"
  shows "\<exists>s'. paging_map s root v p flags = Some s' \<and> paging_ok s' root \<and>
    paging_get s' root v = p OR ucast flags OR PAGING_PRESENT \<and>
    (\<forall>w. vpage w \<noteq> vpage v \<longrightarrow> paging_get s' root w = paging_get s root w) \<and>
    (\<forall>x a. frame_owned s x \<longrightarrow> x \<notin> tabs 3 (kmem s) root \<longrightarrow> a \<in> frame x \<longrightarrow>
      kmem s' a = kmem s a) \<and>
    invlpg s' = v # invlpg s"
  by (rule paging_map_spec [OF assms, of p flags]) (auto simp: same_on_def)

theorem paging_map_correct_witness:
  "\<exists>s'. paging_map vm_example 0xffff800000001000 0x400000 0x5000 3 = Some s' \<and>
    paging_get s' 0xffff800000001000 0x400000 = 0x5003 \<and>
    paging_get s' 0xffff800000001000 0x401000 =
      paging_get vm_example 0xffff800000001000 0x401000"
proof -
  have "3 \<le> frames_avail vm_example" by (simp add: vm_example_avail)
  from paging_map_correct [OF vm_example_ok vm_example_path this, of "0x400000" "0x5000" 3]
  obtain s' where s': "paging_map vm_example 0xffff800000001000 0x400000 0x5000 3 = Some s'"
    "paging_get s' 0xffff800000001000 0x400000 = 0x5000 OR ucast (3 :: u8) OR PAGING_PRESENT"
    "\<And>w. vpage w \<noteq> vpage 0x400000 \<Longrightarrow>
      paging_get s' 0xffff800000001000 w = paging_get vm_example 0xffff800000001000 w"
    by blast
  have "vpage 0x401000 \<noteq> vpage 0x400000" by (simp add: vpage_def)
  moreover have "(0x5000 :: u64) OR ucast (3 :: u8) OR PAGING_PRESENT = 0x5003"
    by (simp add: PAGING_PRESENT_def)
  ultimately show ?thesis using s' by metis
qed

text \<open>C17: Mapping an unmapped page and unmapping it again restores every translation of the
  address space, whatever tables were created on the way.\<close>

theorem paging_map_unmap_roundtrip:
  assumes "paging_ok s root" and "path_ok (vaddr_to_index v) (kmem s) 3 root"
    and "3 \<le> frames_avail s" and unmapped: "paging_get s root v = 0"
  shows "\<exists>s'. paging_map s root v p flags = Some s' \<and>
    (\<forall>w. paging_get (paging_unmap s' root v) root w = paging_get s root w)"
proof (rule paging_map_spec [OF assms(1-3), of p flags])
  fix s'
  assume s': "paging_map s root v p flags = Some s'" "paging_ok s' root"
    "path_kept 3 (kmem s) (kmem s') root"
    "\<And>w. vpage w \<noteq> vpage v \<Longrightarrow> paging_get s' root w = paging_get s root w"
  have "path_ok (vaddr_to_index v) (kmem s') 3 root" using s'(3) assms(2) by (simp add: path_kept_def)
  note un = paging_unmap_spec [OF s'(2) this]
  have "paging_get (paging_unmap s' root v) root w = paging_get s root w" for w
  proof (cases "vpage w = vpage v")
    case True
    then have "vaddr_to_index w = vaddr_to_index v" by (rule vpage_eq_index)
    with un(2) unmapped show ?thesis by (simp only: paging_get_def)
  qed (use un(3) s'(4) in simp)
  with s'(1) show ?thesis by blast
qed

theorem paging_map_unmap_roundtrip_witness:
  "\<exists>s'. paging_map vm_example 0xffff800000001000 0x400000 0x5000 3 = Some s' \<and>
    (\<forall>w. paging_get (paging_unmap s' 0xffff800000001000 0x400000) 0xffff800000001000 w =
      paging_get vm_example 0xffff800000001000 w)"
proof (rule paging_map_unmap_roundtrip [OF vm_example_ok vm_example_path])
  show "paging_get vm_example 0xffff800000001000 0x400000 = 0"
    using zero_table(3) [OF vm_example_root(1) vm_example_zero indices_ok_vaddr, of 3]
    by (simp add: paging_get_def)
qed (simp add: vm_example_avail)

text \<open>C18: A new address space starts with an empty lower half and shares the kernel's upper half:
  every lower address is unmapped, every upper address translates as in the kernel's table. Its
  root is a fresh frame, and no frame in use is written.\<close>

theorem paging_create_empty_correct:
  assumes "paging_ok s (kernel_table s)" and "0 < frames_avail s"
  shows "\<exists>t s'. paging_create_empty s = Some (t, s') \<and> paging_ok s' t \<and> \<not> frame_owned s t \<and>
    (\<forall>v. paging_get s' t v =
      (if vaddr_to_index v ! 3 < 256 then 0 else paging_get s (kernel_table s) v)) \<and>
    (\<forall>x a. frame_owned s x \<longrightarrow> a \<in> frame x \<longrightarrow> kmem s' a = kmem s a)"
  by (rule paging_create_empty_spec [OF assms]) (auto simp: same_on_def)

theorem paging_create_empty_correct_witness:
  "\<exists>t s'. paging_create_empty vm_example = Some (t, s') \<and> paging_get s' t 0x400000 = 0"
proof -
  have k: "kernel_table vm_example = 0xffff800000001000" by (simp add: vm_example_def)
  from paging_create_empty_correct [of vm_example] vm_example_ok vm_example_avail
  show ?thesis by (fastforce simp: k vaddr_to_index_def Let_def)
qed

text \<open>Larger machines that embed a machine of memory and page tables.\<close>

lemma extend_simps:
  fixes s :: vm
  shows "palloc_ok (vm.extend s x) = palloc_ok s" "frame_owned (vm.extend s x) = frame_owned s"
    "frames_avail (vm.extend s x) = frames_avail s" "window (vm.extend s x) = window s"
    "kmem (vm.extend s x) = kmem s" "cr3 (vm.extend s x) = cr3 s" "vm.more (vm.extend s x) = x"
    "tables_ok l (vm.extend s x) t = tables_ok l s t" "total_memory (vm.extend s x) = total_memory s"
  by (simp_all add: vm.defs frames_avail_def frame_owned_def tables_ok_def fun_eq_iff window_def
      palloc_ok_def pmm_inv_def free_count_ok_def free_pages_def page_locked_def outside_bitmap_def
      bitmap_safe_def)

end
