(* ===== verification/Paging_Copy.thy ===== *)
theory Paging_Copy
  imports Paging_Tree
begin

text \<open>
  Copies of address spaces (\<^verbatim>\<open>paging_copy\<close> of \<^verbatim>\<open>memory/paging.c\<close>): what the recursion over
  the levels writes, which translations the copy has, and what is left in the entries it skips.
\<close>

section \<open>Frames that are written\<close>

definition fresh_frames :: "'z pmm_scheme \<Rightarrow> 'z pmm_scheme \<Rightarrow> ptr set" where
  "fresh_frames s t = {x. frame_owned t x \<and> \<not> frame_owned s x}"

text \<open>From \<open>s\<close> to \<open>t\<close> frames are allocated, and only these and the frame \<open>d\<close> are written.\<close>

definition keeps :: "ptr \<Rightarrow> 'z pmm_scheme \<Rightarrow> 'z pmm_scheme \<Rightarrow> bool" where
  "keeps d s t \<longleftrightarrow> palloc_ok t \<and> (\<forall>x. frame_owned s x \<longrightarrow> frame_owned t x) \<and>
     outside_bitmap t = outside_bitmap s \<and>
     (\<forall>a. outside_bitmap s a \<longrightarrow> kmem t a \<noteq> kmem s a \<longrightarrow>
        (\<exists>x. a \<in> frame x \<and> frame_owned t x \<and> (frame_owned s x \<longrightarrow> x = d)))"

lemma keeps_refl: "palloc_ok s \<Longrightarrow> keeps d s s"
  by (simp add: keeps_def)

lemma keeps_trans:
  assumes a: "keeps d s t" and b: "keeps d t u"
  shows "keeps d s u"
  unfolding keeps_def
proof (intro conjI allI impI)
  fix a assume out: "outside_bitmap s a" and ch: "kmem u a \<noteq> kmem s a"
  then consider "kmem t a \<noteq> kmem s a" | "kmem u a \<noteq> kmem t a" by metis
  then show "\<exists>x. a \<in> frame x \<and> frame_owned u x \<and> (frame_owned s x \<longrightarrow> x = d)"
    by cases (use assms out in \<open>unfold keeps_def, metis\<close>)+
qed (use assms in \<open>simp_all add: keeps_def\<close>)

text \<open>Writing to a frame that was allocated since.\<close>

lemma keeps_child:
  assumes a: "keeps d s t" and b: "keeps c t u" and c: "\<not> frame_owned s c"
  shows "keeps d s u"
  unfolding keeps_def
proof (intro conjI allI impI)
  fix a assume out: "outside_bitmap s a" and ch: "kmem u a \<noteq> kmem s a"
  then consider "kmem t a \<noteq> kmem s a" | "kmem u a \<noteq> kmem t a" by metis
  then show "\<exists>x. a \<in> frame x \<and> frame_owned u x \<and> (frame_owned s x \<longrightarrow> x = d)"
    by cases (use assms out in \<open>unfold keeps_def, metis\<close>)+
qed (use assms in \<open>simp_all add: keeps_def\<close>)

lemma frame_owned_eq:
  assumes "frame_owned s x" and "table_ptr y" and "a \<in> frame x" and "a \<in> frame y"
  shows "x = y"
  using frame_disjoint [of x y] assms by (auto simp: frame_owned_def dest: table_ptr_aligned)

lemma keeps_frame:
  assumes k: "keeps d s t" and x: "frame_owned s x" "x \<noteq> d" and a: "a \<in> frame x"
  shows "kmem t a = kmem s a"
proof (rule ccontr)
  assume ch: "kmem t a \<noteq> kmem s a"
  have "outside_bitmap s a" using x(1) a by (simp add: frame_owned_def)
  with k ch obtain y where y: "a \<in> frame y" "frame_owned t y" "frame_owned s y \<longrightarrow> y = d"
    unfolding keeps_def by blast
  have "x = y" by (rule frame_owned_eq [OF x(1) _ a y(1)]) (use y(2) in \<open>simp add: frame_owned_def\<close>)
  with x y(3) show False by simp
qed

lemma keeps_free:
  assumes k: "keeps d s t" and x: "table_ptr x" "\<not> frame_owned t x" and a: "a \<in> frame x" "outside_bitmap s a"
  shows "kmem t a = kmem s a"
proof (rule ccontr)
  assume "kmem t a \<noteq> kmem s a"
  with k a obtain y where y: "a \<in> frame y" "frame_owned t y" unfolding keeps_def by blast
  from frame_owned_eq [OF y(2) x(1) y(1) a(1)] x(2) y(2) show False by simp
qed

lemma keeps_owned: "keeps d s t \<Longrightarrow> frame_owned s x \<Longrightarrow> frame_owned t x"
  by (simp add: keeps_def)

lemma keeps_write:
  assumes ok: "palloc_ok s" and d: "frame_owned s d" and m: "\<And>a. a \<notin> frame d \<Longrightarrow> m a = kmem s a"
  shows "keeps d s (s\<lparr>kmem := m\<rparr>)" "frame_owned (s\<lparr>kmem := m\<rparr>) = frame_owned s"
    "frames_avail (s\<lparr>kmem := m\<rparr>) = frames_avail s"
proof -
  note w = pa.write_owned [OF ok d m]
  show own: "frame_owned (s\<lparr>kmem := m\<rparr>) = frame_owned s" and "frames_avail (s\<lparr>kmem := m\<rparr>) = frames_avail s"
    using w by simp_all
  have "palloc_ok (s\<lparr>kmem := m\<rparr>)" using w by simp
  then show "keeps d s (s\<lparr>kmem := m\<rparr>)"
    using d m unfolding keeps_def own by (auto simp: outside_bitmap_def fun_eq_iff)
qed

lemma keeps_alloc:
  assumes ok: "palloc_ok s" and av: "0 < frames_avail s"
  obtains q t where "palloc s 1 = Some (q, t)" "\<And>d. keeps d s t" "frames_avail t = frames_avail s - 1"
    "\<not> frame_owned s q" "frame_owned t q" "\<And>a. outside_bitmap s a \<Longrightarrow> kmem t a = kmem s a"
proof -
  from pa.alloc_fresh [OF assms] obtain q t where
    q: "palloc s 1 = Some (q, t)" "palloc_ok t" "frames_avail t = frames_avail s - 1" "\<not> frame_owned s q"
      "\<And>x. frame_owned t x \<longleftrightarrow> frame_owned s x \<or> x = q" by blast
  obtain r where r: "grantable s r 1" "t = request_state s r 1"
    using palloc_one [OF assms] q(1) by (metis option.inject prod.inject)
  have mem: "kmem t a = kmem s a" if "outside_bitmap s a" for a
    unfolding r(2) by (rule request_state_kmem [OF r(1) that])
  have "outside_bitmap t = outside_bitmap s" by (simp add: r(2) outside_bitmap_def fun_eq_iff)
  then have "keeps d s t" for d using q mem by (simp add: keeps_def)
  with q mem show ?thesis by (intro that [of q t]) simp_all
qed

section \<open>Copies of tables\<close>

text \<open>
  The loops cover the whole table, or the lower half of the root. \<open>copy_cost\<close> is the number of
  tables that are allocated; a huge page would be taken for a table (\<open>no_huge\<close> excludes it).
\<close>

definition copy_width :: "nat \<Rightarrow> nat" where "copy_width l = (if l = 3 then 256 else 512)"

fun no_huge :: "nat \<Rightarrow> mem \<Rightarrow> ptr \<Rightarrow> bool" where
  "no_huge 0 m t = True"
| "no_huge (Suc l) m t \<longleftrightarrow> (\<forall>i<512. unat i < copy_width (Suc l) \<longrightarrow> present (entry m t i) \<longrightarrow>
     \<not> huge (entry m t i) \<and> no_huge l m (child_of m t i))"

fun copy_cost :: "nat \<Rightarrow> mem \<Rightarrow> ptr \<Rightarrow> nat" where
  "copy_cost 0 m t = 0"
| "copy_cost (Suc l) m t = (\<Sum>j<copy_width (Suc l).
     if present (entry m t (of_nat j)) then Suc (copy_cost l m (child_of m t (of_nat j))) else 0)"

text \<open>
  From memory \<open>m\<close> to \<open>m'\<close> the table \<open>dst\<close> became a copy of \<open>src\<close>, with the tables below in
  \<open>N\<close>. An entry whose source is not present keeps what the frame held before.
\<close>

fun copy_of :: "ptr set \<Rightarrow> mem \<Rightarrow> mem \<Rightarrow> nat \<Rightarrow> ptr \<Rightarrow> ptr \<Rightarrow> bool" where
  "copy_of N m m' 0 src dst \<longleftrightarrow> (\<forall>i<512. entry m' dst i = entry m src i)"
| "copy_of N m m' (Suc l) src dst \<longleftrightarrow> (\<forall>i<512.
     if unat i < copy_width (Suc l) \<and> present (entry m src i) then
       child_of m' dst i \<in> N \<and> entry m' dst i AND 0xfff = entry m src i AND 0xfff \<and>
       copy_of N m m' l (child_of m src i) (child_of m' dst i)
     else entry m' dst i = entry m dst i)"

text \<open>The state of the loop after \<open>k\<close> entries.\<close>

definition slots_copied :: "nat \<Rightarrow> ptr set \<Rightarrow> mem \<Rightarrow> mem \<Rightarrow> nat \<Rightarrow> ptr \<Rightarrow> ptr \<Rightarrow> bool" where
  "slots_copied k N m m' l src dst \<longleftrightarrow> (\<forall>i<512.
     if unat i < k \<and> present (entry m src i) then
       child_of m' dst i \<in> N \<and> entry m' dst i AND 0xfff = entry m src i AND 0xfff \<and>
       copy_of N m m' l (child_of m src i) (child_of m' dst i)
     else entry m' dst i = entry m dst i)"

lemma copy_of_Suc: "copy_of N m m' (Suc l) src dst \<longleftrightarrow> slots_copied (copy_width (Suc l)) N m m' l src dst"
  by (simp add: slots_copied_def)

lemma copy_of_later:
  assumes "copy_of N m m' l src dst" and "same_on (insert dst N) m' m''" and "N \<subseteq> N'"
    and "table_ptr dst" and "\<And>x. x \<in> N \<Longrightarrow> table_ptr x"
  shows "copy_of N' m m'' l src dst"
  using assms
proof (induction l arbitrary: src dst)
  case 0
  then show ?case using same_on_entry [of "insert dst N" m' m'' dst] by simp
next
  case (Suc l)
  have e: "entry m'' dst i = entry m' dst i" if "i < 512" for i
    using same_on_entry [OF Suc.prems(2) _ Suc.prems(4) that] by simp
  have "copy_of N' m m'' l (child_of m src i) (child_of m' dst i)"
    if "i < 512" "unat i < copy_width (Suc l)" "present (entry m src i)" for i
  proof (rule Suc.IH)
    have c: "child_of m' dst i \<in> N" "copy_of N m m' l (child_of m src i) (child_of m' dst i)"
      using Suc.prems(1) that by (auto split: if_splits)
    then show "copy_of N m m' l (child_of m src i) (child_of m' dst i)" "table_ptr (child_of m' dst i)"
      using Suc.prems(5) by simp_all
    show "same_on (insert (child_of m' dst i) N) m' m''"
      by (rule same_on_mono [OF Suc.prems(2)]) (use c(1) in blast)
  qed (use Suc.prems in auto)
  with Suc.prems(1,3) e show ?case by (auto split: if_splits)
qed

lemma copy_of_earlier:
  assumes "copy_of N m m' l src dst" and "tree l m0 src" and "no_huge l m0 src"
    and "same_on (tabs l m0 src) m0 m" and "same_on (insert dst N) m0 m"
    and "table_ptr dst" and "\<And>x. x \<in> N \<Longrightarrow> table_ptr x"
  shows "copy_of N m0 m' l src dst"
  using assms
proof (induction l arbitrary: src dst)
  case 0
  then show ?case using same_on_entry [of "{src}" m0 m src] by simp
next
  case (Suc l)
  have e: "entry m src i = entry m0 src i" "entry m dst i = entry m0 dst i" if "i < 512" for i
    using same_on_entry [OF Suc.prems(4) _ _ that] same_on_entry [OF Suc.prems(5) _ _ that]
      tree_table_ptr [OF Suc.prems(2)] Suc.prems(6) by simp_all
  have "copy_of N m0 m' l (child_of m0 src i) (child_of m' dst i)"
    if i: "i < 512" "unat i < copy_width (Suc l)" "present (entry m0 src i)" for i
  proof (rule Suc.IH)
    have lv: "live (entry m0 src i)" "no_huge l m0 (child_of m0 src i)"
      using Suc.prems(3) i by (simp_all add: live_def)
    show "tree l m0 (child_of m0 src i)" by (rule tree_child [OF Suc.prems(2) i(1) lv(1)])
    show "no_huge l m0 (child_of m0 src i)" by (rule lv)
    show "same_on (tabs l m0 (child_of m0 src i)) m0 m" by (rule same_on_child [OF Suc.prems(4) i(1) lv(1)])
    have c: "child_of m' dst i \<in> N" "copy_of N m m' l (child_of m src i) (child_of m' dst i)"
      using Suc.prems(1) i e by (auto split: if_splits)
    then show "copy_of N m m' l (child_of m0 src i) (child_of m' dst i)" "table_ptr (child_of m' dst i)"
      using Suc.prems(7) e(1) [OF i(1)] by simp_all
    show "same_on (insert (child_of m' dst i) N) m0 m"
      by (rule same_on_mono [OF Suc.prems(5)]) (use c(1) in blast)
  qed (use Suc.prems in auto)
  with Suc.prems(1) e show ?case by (auto split: if_splits)
qed

lemma no_huge_same:
  assumes "tree l m t" and "no_huge l m t" and "same_on (tabs l m t) m m'"
  shows "no_huge l m' t" and "copy_cost l m' t = copy_cost l m t"
proof -
  have "no_huge l m' t \<and> copy_cost l m' t = copy_cost l m t"
    using assms
  proof (induction l arbitrary: t)
    case (Suc l)
    have e: "entry m' t i = entry m t i" if "i < 512" for i
      using same_on_entry [OF Suc.prems(3) _ tree_table_ptr [OF Suc.prems(1)] that] by simp
    have sub: "no_huge l m' (child_of m t i) \<and> copy_cost l m' (child_of m t i) = copy_cost l m (child_of m t i)"
      if i: "i < 512" "unat i < copy_width (Suc l)" "present (entry m t i)" for i
    proof -
      have "live (entry m t i)" "no_huge l m (child_of m t i)" using Suc.prems(2) i by (simp_all add: live_def)
      then show ?thesis
        using Suc.IH tree_child [OF Suc.prems(1) i(1)] same_on_child [OF Suc.prems(3) i(1)] by simp
    qed
    have "no_huge (Suc l) m' t" using Suc.prems(2) e sub by simp
    moreover have "copy_cost (Suc l) m' t = copy_cost (Suc l) m t"
      unfolding copy_cost.simps
    proof (rule sum.cong)
      fix j assume j: "j \<in> {..<copy_width (Suc l)}"
      then have "j < 512" by (auto simp: copy_width_def split: if_splits)
      then have "(of_nat j :: u64) < 512" "unat (of_nat j :: u64) = j"
        by (simp_all add: word_less_nat_alt unat_of_nat_u64)
      with e [of "of_nat j"] sub [of "of_nat j"] j show "(if present (entry m' t (of_nat j))
          then Suc (copy_cost l m' (child_of m' t (of_nat j))) else 0) =
        (if present (entry m t (of_nat j)) then Suc (copy_cost l m (child_of m t (of_nat j))) else 0)"
        by simp
    qed simp
    ultimately show ?case ..
  qed simp
  then show "no_huge l m' t" "copy_cost l m' t = copy_cost l m t" by blast+
qed

section \<open>The recursion\<close>

lemma copy_page:
  assumes p: "table_ptr p" and q: "table_ptr q" and "p \<noteq> q"
  shows "a \<notin> frame p \<Longrightarrow> memcpy m p q 0x1000 a = m a"
    and "i < 512 \<Longrightarrow> entry (memcpy m p q 0x1000) p i = entry m q i"
proof -
  have cp: "memcpy m p q 0x1000 a = (if a \<in> frame p then m (q + (a - p)) else m a)" for a
    using in_frame_iff [OF table_ptr_aligned [OF p], of a] table_ptr_apart [OF assms]
    by (simp add: memcpy_disjoint word_less_nat_alt)
  then show "a \<notin> frame p \<Longrightarrow> memcpy m p q 0x1000 a = m a" by simp
  show "entry (memcpy m p q 0x1000) p i = entry m q i" if i: "i < 512"
  proof -
    have "load64 (memcpy m p q 0x1000) (p + 8 * i) = load64 (\<lambda>a. m (q + (a - p))) (p + 8 * i)"
    proof (rule load64_cong)
      fix k :: u64 assume "k < 8"
      from slot_in_frame [OF table_ptr_aligned [OF p] i this]
      show "memcpy m p q 0x1000 (p + 8 * i + k) = m (q + (p + 8 * i + k - p))" by (simp add: cp)
    qed
    also have "\<dots> = entry m q i" by (simp add: load64_def algebra_simps)
    finally show ?thesis .
  qed
qed

lemma link_flags:
  assumes "table_ptr p"
  shows "(addr_offset_lower p OR (e AND 0xfff)) AND 0xfff = e AND 0xfff"
proof -
  have "addr_offset_lower p = take_bit 47 p"
    using assms by (simp add: offset_lower_high table_ptr_def addr_ensure_lower_take_bit)
  moreover have f: "(0xfff :: u64) = mask 12" by (simp add: mask_eq_exp_minus_1)
  ultimately show ?thesis
    unfolding f using table_ptr_bits(1) [OF assms] by (intro bit_word_eqI) (auto simp: bit_simps)
qed

lemma low_flags: "(e AND 0xfff :: u64) = take_bit 12 (e AND 0xfff)"
proof -
  have f: "(0xfff :: u64) = mask 12" by (simp add: mask_eq_exp_minus_1)
  show ?thesis unfolding f by (rule bit_word_eqI) (auto simp: bit_simps)
qed

text \<open>One entry that is present: its table is copied to a fresh frame, which is then linked.\<close>

definition copy_slot :: "nat \<Rightarrow> ptr \<Rightarrow> ptr \<Rightarrow> nat \<Rightarrow> 'z vm_scheme \<Rightarrow> 'z vm_scheme option" where
  "copy_slot l dst src i s =
     (let e = load64 (kmem s) (src + 8 * of_nat i) in
      if e AND PAGING_PRESENT = 0 then Some s
      else
        do { let new_src = child_table e;
             (new_dst, s1) \<leftarrow> palloc s 1;
             s2 \<leftarrow> paging_copy_recursive (Suc l) new_dst new_src s1;
             let e2 = load64 (kmem s2) (src + 8 * of_nat i);
             Some (s2\<lparr>kmem := store64 (kmem s2) (dst + 8 * of_nat i)
                                (addr_offset_lower new_dst OR (e2 AND 0xfff))\<rparr>) })"

lemma copy_recursive_Suc:
  "paging_copy_recursive (Suc (Suc l)) dst src s =
     for_each (copy_slot l dst src) [0..<copy_width (Suc l)] s"
  by (simp add: copy_slot_def [abs_def] copy_width_def Let_def)

text \<open>What the recursion does with a table of level \<open>l\<close>.\<close>

definition copies :: "nat \<Rightarrow> ptr \<Rightarrow> ptr \<Rightarrow> 'z vm_scheme \<Rightarrow> 'z vm_scheme \<Rightarrow> bool" where
  "copies l dst src s t \<longleftrightarrow> keeps dst s t \<and> frames_avail s \<le> frames_avail t + copy_cost l (kmem s) src \<and>
     copy_of (fresh_frames s t) (kmem s) (kmem t) l src dst"

lemma fresh_table_ptr: "x \<in> fresh_frames s t \<Longrightarrow> table_ptr x"
  by (simp add: fresh_frames_def frame_owned_def)

lemma copy_leaf:
  assumes ok: "tables_ok 0 s src" and d: "frame_owned s dst" "dst \<noteq> src"
  shows "\<exists>t. paging_copy_recursive (Suc 0) dst src s = Some t \<and> copies 0 dst src s t"
proof -
  have p: "palloc_ok s" "table_ptr src" "table_ptr dst" using ok d by (simp_all add: tables_ok_def frame_owned_def)
  note cp = copy_page [OF p(3,2) d(2)]
  note w = keeps_write [where m = "memcpy (kmem s) dst src 0x1000", OF p(1) d(1) cp(1)]
  from w cp(2) show ?thesis by (simp add: copies_def)
qed

text \<open>What is assumed of the recursion on the next level.\<close>

definition copier :: "nat \<Rightarrow> 'z itself \<Rightarrow> bool" where
  "copier l _ \<longleftrightarrow> (\<forall>(s :: 'z vm_scheme) src dst. tables_ok l s src \<longrightarrow> no_huge l (kmem s) src \<longrightarrow> frame_owned s dst \<longrightarrow>
     dst \<notin> tabs l (kmem s) src \<longrightarrow> copy_cost l (kmem s) src \<le> frames_avail s \<longrightarrow>
     (\<exists>t. paging_copy_recursive (Suc l) dst src s = Some t \<and> copies l dst src s t))"

lemma copierD:
  fixes s :: "'z vm_scheme"
  assumes "copier l TYPE('z)" "tables_ok l s src" "no_huge l (kmem s) src" "frame_owned s dst"
    "dst \<notin> tabs l (kmem s) src" "copy_cost l (kmem s) src \<le> frames_avail s"
  obtains t where "paging_copy_recursive (Suc l) dst src s = Some t" "copies l dst src s t"
  using assms unfolding copier_def by blast

text \<open>The table of a present entry, copied to a frame that was allocated for it.\<close>

lemma copy_to_fresh:
  fixes s u :: "'z vm_scheme"
  assumes IH: "copier l TYPE('z)"
    and ok: "tables_ok l s c" and plain: "no_huge l (kmem s) c"
    and d: "frame_owned s dst" "dst \<notin> tabs l (kmem s) c" and u: "keeps dst s u"
    and av: "Suc (copy_cost l (kmem s) c) \<le> frames_avail u"
  obtains q u1 u2 where "palloc u 1 = Some (q, u1)" "paging_copy_recursive (Suc l) q c u1 = Some u2"
    "keeps dst u u2" "frames_avail u \<le> frames_avail u2 + Suc (copy_cost l (kmem s) c)"
    "\<not> frame_owned u q" "frame_owned u2 q" "copy_of (fresh_frames u u2) (kmem s) (kmem u2) l c q"
    "\<And>a. a \<in> frame dst \<Longrightarrow> kmem u2 a = kmem u a"
proof -
  have tr: "tree l (kmem s) c" and own: "\<And>x. x \<in> tabs l (kmem s) c \<Longrightarrow> frame_owned s x"
    using ok unfolding tables_ok_def by blast+
  have pok: "palloc_ok u" using u by (simp add: keeps_def)
  obtain q u1 where q: "palloc u 1 = Some (q, u1)" "\<And>d. keeps d u u1" "frames_avail u1 = frames_avail u - 1"
    "\<not> frame_owned u q" "frame_owned u1 q" "\<And>a. outside_bitmap u a \<Longrightarrow> kmem u1 a = kmem u a"
    by (rule keeps_alloc [OF pok]) (use av in auto)
  have k1: "keeps dst s u1" by (rule keeps_trans [OF u q(2)])
  have "kmem u1 a = kmem s a" if "x \<in> tabs l (kmem s) c" "a \<in> frame x" for x a
    using keeps_frame [OF k1 own [OF that(1)] _ that(2)] d(2) that(1) by metis
  then have same: "same_on (tabs l (kmem s) c) (kmem s) (kmem u1)" by (simp add: same_on_def)
  have tabs1: "tabs l (kmem u1) c = tabs l (kmem s) c" by (rule tabs_same [OF tr same])
  have ok1: "tables_ok l u1 c"
    using k1 tree_same [OF tr same] own keeps_owned [OF k1] unfolding tables_ok_def tabs1 keeps_def by blast
  have q1: "q \<notin> tabs l (kmem u1) c" using own keeps_owned [OF u] q(4) unfolding tabs1 by blast
  note plain1 = no_huge_same [OF tr plain same]
  obtain u2 where u2: "paging_copy_recursive (Suc l) q c u1 = Some u2" "copies l q c u1 u2"
    by (rule copierD [OF IH ok1 plain1(1) q(5) q1]) (use av q(3) plain1(2) in simp)
  have k2: "keeps q u1 u2" and copy: "copy_of (fresh_frames u1 u2) (kmem u1) (kmem u2) l c q"
    using u2(2) by (simp_all add: copies_def)
  have ks2: "keeps dst u u2" by (rule keeps_child [OF q(2) k2 q(4)])
  have out: "outside_bitmap u2 = outside_bitmap s" "outside_bitmap u = outside_bitmap s"
    using keeps_trans [OF u ks2] u by (simp_all add: keeps_def)
  have before: "same_on (insert q (fresh_frames u1 u2)) (kmem s) (kmem u1)"
    unfolding same_on_def
  proof (intro ballI)
    fix x a assume x: "x \<in> insert q (fresh_frames u1 u2)" and a: "a \<in> frame x"
    then have "frame_owned u2 x" "\<not> frame_owned u x"
      using q(4) keeps_owned [OF k2 q(5)] keeps_owned [OF q(2)] by (auto simp: fresh_frames_def)
    then have "table_ptr x" "outside_bitmap u2 a" "\<not> frame_owned u x" using a by (simp_all add: frame_owned_def)
    then show "kmem u1 a = kmem s a" using q(6) keeps_free [OF u _ _ a] out by simp
  qed
  have qp: "table_ptr q" using q(5) by (simp add: frame_owned_def)
  note early = copy_of_earlier [OF copy tr plain same before qp fresh_table_ptr]
  have sub: "fresh_frames u1 u2 \<subseteq> fresh_frames u u2"
    using keeps_owned [OF q(2)] by (auto simp: fresh_frames_def)
  have copied: "copy_of (fresh_frames u u2) (kmem s) (kmem u2) l c q"
    by (rule copy_of_later [OF early _ sub qp]) (simp_all add: same_on_def fresh_table_ptr)
  have du: "frame_owned u dst" "q \<noteq> dst" using keeps_owned [OF u d(1)] q(4) by auto
  have "kmem u2 a = kmem u a" if a: "a \<in> frame dst" for a
  proof -
    have "outside_bitmap u a" using du(1) a by (simp add: frame_owned_def)
    then show ?thesis using keeps_frame [OF k2 keeps_owned [OF q(2) du(1)] _ a] du(2) q(6) by simp
  qed
  moreover have "frames_avail u \<le> frames_avail u2 + Suc (copy_cost l (kmem s) c)"
    using u2(2) q(3) plain1(2) by (auto simp: copies_def)
  ultimately show ?thesis by (intro that [OF q(1) u2(1) ks2 _ q(4) keeps_owned [OF k2 q(5)] copied])
qed

lemma copy_child:
  fixes s u :: "'z vm_scheme"
  assumes IH: "copier l TYPE('z)"
    and ok: "tables_ok (Suc l) s src" and plain: "no_huge (Suc l) (kmem s) src"
    and d: "frame_owned s dst" "dst \<notin> tabs (Suc l) (kmem s) src"
    and u: "keeps dst s u" and k: "k < copy_width (Suc l)"
    and pres: "present (entry (kmem s) src (of_nat k))"
    and av: "Suc (copy_cost l (kmem s) (child_of (kmem s) src (of_nat k))) \<le> frames_avail u"
  obtains v where "copy_slot l dst src k u = Some v" "keeps dst u v"
    "frames_avail u \<le> frames_avail v + Suc (copy_cost l (kmem s) (child_of (kmem s) src (of_nat k)))"
    "child_of (kmem v) dst (of_nat k) \<in> fresh_frames s v"
    "entry (kmem v) dst (of_nat k) AND 0xfff = entry (kmem s) src (of_nat k) AND 0xfff"
    "copy_of (fresh_frames s v) (kmem s) (kmem v) l (child_of (kmem s) src (of_nat k)) (child_of (kmem v) dst (of_nat k))"
    "\<And>j. j < 512 \<Longrightarrow> j \<noteq> of_nat k \<Longrightarrow> entry (kmem v) dst j = entry (kmem u) dst j"
proof -
  let ?i = "of_nat k :: u64" and ?e = "entry (kmem s) src (of_nat k)"
  let ?c = "child_table ?e"
  have i: "?i < 512" "unat ?i = k"
    using k by (auto simp: copy_width_def word_less_nat_alt unat_of_nat_u64 split: if_splits)
  have lv: "live ?e" "no_huge l (kmem s) ?c" using plain i k pres by (simp_all add: live_def)
  have src: "frame_owned s src" "src \<noteq> dst" "table_ptr src" and dc: "dst \<notin> tabs l (kmem s) ?c"
    using ok d(2) tabs_child [OF i(1) lv(1), of dst l] by (auto simp: tables_ok_def frame_owned_def)
  have src_entry: "entry (kmem z) src ?i = ?e" if "keeps dst s z" for z :: "'z vm_scheme"
    using keeps_frame [OF that src(1,2)] src(3) i(1) by (intro load64_frame_cong) (auto simp: table_ptr_def)
  obtain q u1 u2 where q: "palloc u 1 = Some (q, u1)" "paging_copy_recursive (Suc l) q ?c u1 = Some u2"
    "keeps dst u u2" "frames_avail u \<le> frames_avail u2 + Suc (copy_cost l (kmem s) ?c)"
    "\<not> frame_owned u q" "frame_owned u2 q" "copy_of (fresh_frames u u2) (kmem s) (kmem u2) l ?c q"
    "\<And>a. a \<in> frame dst \<Longrightarrow> kmem u2 a = kmem u a"
    by (rule copy_to_fresh [OF IH tables_ok_child [OF ok i(1) lv(1)] lv(2) d(1) dc u av]) blast
  define m where "m = store64 (kmem u2) (dst + 8 * ?i) (addr_offset_lower q OR (?e AND 0xfff))"
  define v where "v = u2\<lparr>kmem := m\<rparr>"
  have du: "frame_owned u dst" "frame_owned u2 dst" "table_ptr dst"
    using keeps_owned [OF u d(1)] keeps_owned [OF q(3)] d(1) by (simp_all add: frame_owned_def)
  have qp: "table_ptr q" "q \<noteq> dst" using q(5,6) du(1) by (auto simp: frame_owned_def)
  have out: "m a = kmem u2 a" if "a \<notin> frame dst" for a
    unfolding m_def using du(3) i(1) that by (intro store64_slot_other) (simp_all add: table_ptr_def)
  have ok2: "palloc_ok u2" using q(3) by (simp add: keeps_def)
  note w = keeps_write [where m = m, OF ok2 du(2) out, folded v_def]
  have run: "copy_slot l dst src k u = Some v"
    using pres q(1,2) src_entry [OF u] src_entry [OF keeps_trans [OF u q(3)]]
    by (simp add: copy_slot_def present_def v_def m_def)
  have dst_entry: "entry (kmem v) dst j = (if j = ?i then addr_offset_lower q OR (?e AND 0xfff) else entry (kmem u) dst j)"
    if "j < 512" for j
  proof -
    have "entry (kmem u2) dst j = entry (kmem u) dst j"
      using du(3) that q(8) by (intro load64_frame_cong) (simp_all add: table_ptr_def)
    then show ?thesis using du(3) i(1) that by (auto simp: v_def m_def load64_store64_slot table_ptr_def)
  qed
  have child: "child_of (kmem v) dst ?i = q"
    using link_entry(1) [OF qp(1) low_flags] i(1) by (simp add: dst_entry)
  have qv: "q \<in> fresh_frames s v" "fresh_frames u u2 \<subseteq> fresh_frames s v"
    using q(5,6) keeps_owned [OF u] w(2) by (auto simp: fresh_frames_def)
  have "kmem v = m" by (simp add: v_def)
  moreover have "same_on (insert q (fresh_frames u u2)) (kmem u2) m"
    unfolding m_def using du(1) qp fresh_table_ptr
    by (intro store_same_on du(3) i(1)) (auto simp: fresh_frames_def frame_owned_def)
  ultimately have "copy_of (fresh_frames s v) (kmem s) (kmem v) l ?c q"
    using copy_of_later [OF q(7) _ qv(2) qp(1) fresh_table_ptr] by simp
  with child qv(1) show ?thesis
    using i(1) link_flags [OF qp(1)] dst_entry q(4) w(3)
    by (intro that [OF run keeps_trans [OF q(3) w(1)]]) simp_all
qed

definition slot_cost :: "nat \<Rightarrow> mem \<Rightarrow> ptr \<Rightarrow> nat \<Rightarrow> nat" where
  "slot_cost l m t j =
     (if present (entry m t (of_nat j)) then Suc (copy_cost l m (child_of m t (of_nat j))) else 0)"

definition copying :: "nat \<Rightarrow> ptr \<Rightarrow> ptr \<Rightarrow> 'z vm_scheme \<Rightarrow> nat \<Rightarrow> 'z vm_scheme \<Rightarrow> bool" where
  "copying l dst src s k u \<longleftrightarrow> keeps dst s u \<and>
     frames_avail s \<le> frames_avail u + (\<Sum>j<k. slot_cost l (kmem s) src j) \<and>
     slots_copied k (fresh_frames s u) (kmem s) (kmem u) l src dst"

lemma slots_copied_Suc:
  assumes S: "slots_copied k N m m' l src dst" and k: "k < 512"
    and later: "same_on N m' m''" "N \<subseteq> N'" "\<And>x. x \<in> N \<Longrightarrow> table_ptr x"
    and other: "\<And>j. j < 512 \<Longrightarrow> j \<noteq> of_nat k \<Longrightarrow> entry m'' dst j = entry m' dst j"
    and now: "if present (entry m src (of_nat k)) then
       child_of m'' dst (of_nat k) \<in> N' \<and> entry m'' dst (of_nat k) AND 0xfff = entry m src (of_nat k) AND 0xfff \<and>
       copy_of N' m m'' l (child_of m src (of_nat k)) (child_of m'' dst (of_nat k))
     else entry m'' dst (of_nat k) = entry m' dst (of_nat k)"
  shows "slots_copied (Suc k) N' m m'' l src dst"
  unfolding slots_copied_def
proof (intro allI impI)
  fix i :: u64 assume i: "i < 512"
  have ik: "i = of_nat k \<longleftrightarrow> unat i = k" using k by (auto simp: unat_of_nat_u64)
  have old: "if unat i < k \<and> present (entry m src i) then child_of m' dst i \<in> N \<and>
       entry m' dst i AND 0xfff = entry m src i AND 0xfff \<and> copy_of N m m' l (child_of m src i) (child_of m' dst i)
     else entry m' dst i = entry m dst i"
    using S i by (simp add: slots_copied_def)
  show "if unat i < Suc k \<and> present (entry m src i) then child_of m'' dst i \<in> N' \<and>
       entry m'' dst i AND 0xfff = entry m src i AND 0xfff \<and> copy_of N' m m'' l (child_of m src i) (child_of m'' dst i)
     else entry m'' dst i = entry m dst i"
  proof (cases "unat i = k")
    case True
    with now old ik show ?thesis by (cases "present (entry m src i)") auto
  next
    case False
    then have e: "entry m'' dst i = entry m' dst i" using other [OF i] ik by simp
    have "copy_of N' m m'' l (child_of m src i) (child_of m' dst i)"
      if c: "child_of m' dst i \<in> N" "copy_of N m m' l (child_of m src i) (child_of m' dst i)"
      using copy_of_later [OF c(2) _ later(2,3,3)] later(1) c(1) by (simp add: insert_absorb)
    with old e False later(2) show ?thesis by (auto split: if_splits)
  qed
qed

lemma copy_loop:
  fixes s :: "'z vm_scheme"
  assumes IH: "copier l TYPE('z)"
    and ok: "tables_ok (Suc l) s src" and plain: "no_huge (Suc l) (kmem s) src"
    and d: "frame_owned s dst" "dst \<notin> tabs (Suc l) (kmem s) src"
    and av: "copy_cost (Suc l) (kmem s) src \<le> frames_avail s"
  shows "\<exists>t. paging_copy_recursive (Suc (Suc l)) dst src s = Some t \<and> copies (Suc l) dst src s t"
proof -
  let ?m = "kmem s" and ?W = "copy_width (Suc l)"
  have W: "?W \<le> 512" by (simp add: copy_width_def)
  have cost: "copy_cost (Suc l) ?m src = (\<Sum>j<?W. slot_cost l ?m src j)" by (simp add: slot_cost_def)
  have pok: "palloc_ok s" using ok by (simp add: tables_ok_def)
  have tr: "tree (Suc l) ?m src" and own: "frame_owned s src" using ok by (auto simp: tables_ok_def)
  have ne: "src \<noteq> dst" "table_ptr src" using d(2) tree_table_ptr [OF tr] by auto
  have "\<exists>t. for_each (copy_slot l dst src) [0..<?W] s = Some t \<and> copying l dst src s (length [0..<?W]) t"
  proof (rule for_each_invariant [where P = "copying l dst src s"])
    show "copying l dst src s 0 s" using pok by (simp add: copying_def keeps_refl slots_copied_def)
  next
    fix k u assume "k < length [0..<?W]" and P: "copying l dst src s k u"
    then have k: "k < ?W" "[0..<?W] ! k = k" "k < 512" using W by simp_all
    have u: "keeps dst s u" and S: "slots_copied k (fresh_frames s u) ?m (kmem u) l src dst"
      using P by (simp_all add: copying_def)
    have "slot_cost l ?m src k + (\<Sum>j<k. slot_cost l ?m src j) \<le> (\<Sum>j<?W. slot_cost l ?m src j)"
      using sum_mono2 [of "{..<?W}" "{..<Suc k}" "slot_cost l ?m src"] k by simp
    then have av': "slot_cost l ?m src k \<le> frames_avail u" using P av cost by (simp add: copying_def)
    have "\<exists>v. copy_slot l dst src k u = Some v \<and> copying l dst src s (Suc k) v"
    proof (cases "present (entry ?m src (of_nat k))")
      case False
      have "entry (kmem u) src (of_nat k) = entry ?m src (of_nat k)"
        by (rule load64_frame_cong) (use keeps_frame [OF u own ne(1)] ne(2) k(3) in
            \<open>auto simp: table_ptr_def word_less_nat_alt unat_of_nat_u64\<close>)
      then have "copy_slot l dst src k u = Some u" using False by (simp add: copy_slot_def present_def)
      moreover have "slots_copied (Suc k) (fresh_frames s u) ?m (kmem u) l src dst"
        by (rule slots_copied_Suc [OF S k(3)]) (use False fresh_table_ptr in \<open>auto simp: same_on_def\<close>)
      then have "copying l dst src s (Suc k) u"
        using P False by (simp add: copying_def slot_cost_def)
      ultimately show ?thesis by blast
    next
      case True
      obtain v where v: "copy_slot l dst src k u = Some v" "keeps dst u v"
        "frames_avail u \<le> frames_avail v + Suc (copy_cost l ?m (child_of ?m src (of_nat k)))"
        "child_of (kmem v) dst (of_nat k) \<in> fresh_frames s v"
        "entry (kmem v) dst (of_nat k) AND 0xfff = entry ?m src (of_nat k) AND 0xfff"
        "copy_of (fresh_frames s v) ?m (kmem v) l (child_of ?m src (of_nat k)) (child_of (kmem v) dst (of_nat k))"
        "\<And>j. j < 512 \<Longrightarrow> j \<noteq> of_nat k \<Longrightarrow> entry (kmem v) dst j = entry (kmem u) dst j"
        by (rule copy_child [OF IH ok plain d u k(1) True]) (use av' True in \<open>simp_all add: slot_cost_def\<close>)
      have "same_on (fresh_frames s u) (kmem u) (kmem v)"
        using keeps_frame [OF v(2)] d(1) by (auto simp: same_on_def fresh_frames_def)
      moreover have "fresh_frames s u \<subseteq> fresh_frames s v" using keeps_owned [OF v(2)] by (auto simp: fresh_frames_def)
      ultimately have "slots_copied (Suc k) (fresh_frames s v) ?m (kmem v) l src dst"
        by (rule slots_copied_Suc [OF S k(3)]) (use True v fresh_table_ptr in auto)
      then have "copying l dst src s (Suc k) v"
        using P v(2,3) True keeps_trans [OF u v(2)] by (simp add: copying_def slot_cost_def)
      with v(1) show ?thesis by blast
    qed
    with k(2) show "\<exists>v. copy_slot l dst src ([0..<?W] ! k) u = Some v \<and> copying l dst src s (Suc k) v" by simp
  qed
  then show ?thesis
    unfolding copy_recursive_Suc copies_def copy_of_Suc cost by (auto simp: copying_def)
qed

lemma copier_all: "copier l TYPE('z)"
proof (induction l)
  case 0
  show ?case unfolding copier_def by (intro allI impI copy_leaf) simp_all
next
  case (Suc l)
  show ?case
    unfolding copier_def by (intro allI impI) (rule copy_loop [OF Suc.IH])
qed

section \<open>Translations of a copy\<close>

lemma same_flags:
  assumes "e AND 0xfff = e' AND 0xfff"
  shows "present e \<longleftrightarrow> present e'" and "huge e \<longleftrightarrow> huge e'"
proof -
  have "bit e n = bit e' n" if "n < 12" for n
  proof -
    have "(0xfff :: u64) = mask 12" by (simp add: mask_eq_exp_minus_1)
    with assms have "bit (e AND mask 12) n = bit (e' AND mask 12) n" by simp
    with that show ?thesis by (simp add: bit_simps)
  qed
  from this [of 0] this [of 7] show "present e \<longleftrightarrow> present e'" "huge e \<longleftrightarrow> huge e'"
    by (simp_all add: present_bit huge_bit)
qed

lemma copy_of_get:
  assumes "copy_of N m m' l src dst" and "indices_ok idx" and "l < 4" and "no_huge l m src"
    and "l = 3 \<Longrightarrow> idx ! 3 < 256" and "unmap_walk idx m l src \<noteq> None"
  shows "get_walk idx m' l dst = get_walk idx m l src"
  using assms
proof (induction l arbitrary: src dst)
  case 0
  then show ?case by (simp add: indices_ok_def)
next
  case (Suc l)
  let ?i = "idx ! Suc l"
  have i: "?i < 512" "unat ?i < copy_width (Suc l)"
    using Suc.prems(2,3,5) by (auto simp: indices_ok_def copy_width_def word_less_nat_alt numeral_3_eq_3)
  have p: "present (entry m src ?i)" "unmap_walk idx m l (child_of m src ?i) \<noteq> None"
    using Suc.prems(6) by (auto simp: walk_step split: if_splits)
  have h: "\<not> huge (entry m src ?i)" "no_huge l m (child_of m src ?i)" using Suc.prems(4) i p(1) by simp_all
  have c: "entry m' dst ?i AND 0xfff = entry m src ?i AND 0xfff"
    "copy_of N m m' l (child_of m src ?i) (child_of m' dst ?i)"
    using Suc.prems(1) i p(1) by simp_all
  have "get_walk idx m' l (child_of m' dst ?i) = get_walk idx m l (child_of m src ?i)"
    by (rule Suc.IH) (use Suc.prems c h p in auto)
  then show ?case using same_flags [OF c(1)] p(1) h(1) by (simp add: walk_step)
qed

text \<open>An entry that is not copied, at the root: the old table is there behind it.\<close>

lemma tree_not_below: "tree (Suc l) m t \<Longrightarrow> i < 512 \<Longrightarrow> live (entry m t i) \<Longrightarrow> t \<notin> tabs l m (child_of m t i)"
  by simp

lemma copy_skips:
  assumes ok: "paging_ok s d" and k: "keeps d s t" and idx: "indices_ok idx"
    and e: "entry (kmem t) d (idx ! 3) = entry (kmem s) d (idx ! 3)"
  shows "get_walk idx (kmem t) 3 d = get_walk idx (kmem s) 3 d"
proof -
  let ?i = "idx ! 3"
  have i: "?i < 512" using idx by (simp add: indices_ok_def)
  have three: "3 = Suc 2" by simp
  have tr: "tree (Suc 2) (kmem s) d" and own: "\<And>x. x \<in> tabs (Suc 2) (kmem s) d \<Longrightarrow> frame_owned s x"
    using ok by (simp_all add: tables_ok_def del: tree.simps tabs.simps flip: three)
  have "get_walk idx (kmem t) 2 (child_of (kmem s) d ?i) = get_walk idx (kmem s) 2 (child_of (kmem s) d ?i)"
    if lv: "live (entry (kmem s) d ?i)"
  proof -
    have "d \<notin> tabs 2 (kmem s) (child_of (kmem s) d ?i)" by (rule tree_not_below [OF tr i lv])
    then have "same_on (tabs 2 (kmem s) (child_of (kmem s) d ?i)) (kmem s) (kmem t)"
      unfolding same_on_def using keeps_frame [OF k own [OF tabs_child [OF i lv]]] by metis
    from walks_same [OF idx _ tree_child [OF tr i lv] this] show ?thesis by simp
  qed
  then show ?thesis using walk_step(1) [of idx _ 2 d] by (auto simp: live_def e)
qed

lemma create_empty_keeps:
  assumes ok: "paging_ok s (kernel_table s)" and av: "0 < frames_avail s"
    and r: "paging_create_empty s = Some (t, s')"
  shows "keeps d s s'"
proof -
  have pok: "palloc_ok s" and kt: "frame_owned s (kernel_table s)" "table_ptr (kernel_table s)"
    using ok by (auto simp: tables_ok_def frame_owned_def)
  obtain q s1 where q: "palloc s 1 = Some (q, s1)" "\<And>d. keeps d s s1" "\<not> frame_owned s q" "frame_owned s1 q"
    by (rule keeps_alloc [OF pok av]) blast
  have k1: "kernel_table s1 = kernel_table s"
    by (rule vm_more_fields(1) [OF palloc_one_more(1) [OF pok av q(1)]])
  have qp: "table_ptr q" "q \<noteq> kernel_table s" using q(3,4) kt(1) by (auto simp: frame_owned_def)
  define m where "m = memcpy (memset (kmem s1) q 0 0x1000) (q + 0x800) (kernel_table s + 0x800) 0x800"
  have s': "s' = s1\<lparr>kmem := m\<rparr>" using r q(1) k1 by (auto simp: paging_create_empty_def m_def)
  have "m a = kmem s1 a" if "a \<notin> frame q" for a
    using copy_half_other [OF qp(1) kt(2) qp(2) that] pa.zero_frame [OF table_ptr_aligned [OF qp(1)]] that
    by (simp add: m_def)
  moreover have "palloc_ok s1" using q(2) by (simp add: keeps_def)
  ultimately have "keeps q s1 s'" unfolding s' using q(4) by (intro keeps_write)
  from keeps_child [OF q(2) this q(3)] show ?thesis .
qed

lemma paging_copy_spec:
  assumes ok: "paging_ok s parent" and kt: "paging_ok s (kernel_table s)" and plain: "no_huge 3 (kmem s) parent"
    and av: "Suc (copy_cost 3 (kmem s) parent) \<le> frames_avail s"
  obtains new s1 t where "paging_copy s parent = Some (new, t)" "paging_create_empty s = Some (new, s1)"
    "paging_ok s1 new" "\<not> frame_owned s new" "keeps new s1 t" "\<And>d. keeps d s s1" "frame_owned s1 new"
    "frames_avail s \<le> frames_avail t + Suc (copy_cost 3 (kmem s) parent)"
    "copy_of (fresh_frames s1 t) (kmem s1) (kmem t) 3 parent new"
    "same_on (tabs 3 (kmem s) parent) (kmem s) (kmem s1)" "no_huge 3 (kmem s1) parent"
    "\<And>w. paging_get s1 new w = (if vaddr_to_index w ! 3 < 256 then 0 else paging_get s (kernel_table s) w)"
proof -
  have tr: "tree 3 (kmem s) parent" and own: "\<And>x. x \<in> tabs 3 (kmem s) parent \<Longrightarrow> frame_owned s x"
    using ok unfolding tables_ok_def by blast+
  have av1: "0 < frames_avail s" using av by simp
  obtain new s1 where n: "paging_create_empty s = Some (new, s1)" "paging_ok s1 new" "\<not> frame_owned s new"
    "\<And>q. frame_owned s1 q \<longleftrightarrow> frame_owned s q \<or> q = new" "same_on {q. frame_owned s q} (kmem s) (kmem s1)"
    "frames_avail s1 = frames_avail s - 1"
    "\<And>v. paging_get s1 new v = (if vaddr_to_index v ! 3 < 256 then 0 else paging_get s (kernel_table s) v)"
    by (rule paging_create_empty_spec [OF kt av1]) blast
  have same: "same_on (tabs 3 (kmem s) parent) (kmem s) (kmem s1)"
    by (rule same_on_mono [OF n(5)]) (use own in blast)
  have tabs1: "tabs 3 (kmem s1) parent = tabs 3 (kmem s) parent" by (rule tabs_same [OF tr same])
  have ok1: "tables_ok 3 s1 parent"
    using n(2,4) own tree_same [OF tr same] unfolding tables_ok_def tabs1 by blast
  have new1: "new \<notin> tabs 3 (kmem s1) parent" "frame_owned s1 new" using own n(3,4) unfolding tabs1 by blast+
  note plain1 = no_huge_same [OF tr plain same]
  have "copy_cost 3 (kmem s1) parent \<le> frames_avail s1" using av n(6) plain1(2) by simp
  from copierD [OF copier_all ok1 plain1(1) new1(2,1) this]
  obtain t where t: "paging_copy_recursive 4 new parent s1 = Some t" "copies 3 new parent s1 t" by auto
  have "paging_copy s parent = Some (new, t)" using n(1) t(1) by (simp add: paging_copy_def)
  then show ?thesis
    using that [OF _ n(1,2,3) _ create_empty_keeps [OF kt av1 n(1)] new1(2) _ _ same plain1(1) n(7)]
      t(2) n(6) av1 plain1(2) by (auto simp: copies_def)
qed

lemma no_huge_path:
  assumes "no_huge l m t" and "indices_ok idx" and "l < 4" and "l = 3 \<Longrightarrow> idx ! 3 < 256"
  shows "path_ok idx m l t"
  using assms
proof (induction l arbitrary: t)
  case (Suc l)
  have "idx ! Suc l < 512" "unat (idx ! Suc l) < copy_width (Suc l)"
    using Suc.prems(2-4) by (auto simp: indices_ok_def copy_width_def word_less_nat_alt numeral_3_eq_3)
  with Suc show ?case by (simp add: walk_step)
qed simp

section \<open>Properties\<close>

text \<open>C7: Copying an address space gives a new root in a frame of its own. Its upper half translates
  as the kernel's tables; an address of the lower half translates as in the parent where the tables of
  the address exist in the parent (unmapped entries of these tables included) and where the parent's root has no
  entry for it. No frame that was in use is written, so the parent and all other address spaces stay as they are,
  and at most one frame is taken for the root and one for each table.\<close>

theorem paging_copy_correct:
  assumes ok: "paging_ok s parent" and kt: "paging_ok s (kernel_table s)" and plain: "no_huge 3 (kmem s) parent"
    and av: "Suc (copy_cost 3 (kmem s) parent) \<le> frames_avail s"
  shows "\<exists>new t. paging_copy s parent = Some (new, t) \<and> \<not> frame_owned s new \<and> frame_owned t new \<and> palloc_ok t \<and>
    same_on {x. frame_owned s x} (kmem s) (kmem t) \<and>
    frames_avail s \<le> frames_avail t + Suc (copy_cost 3 (kmem s) parent) \<and>
    (\<forall>w. \<not> vaddr_to_index w ! 3 < 256 \<longrightarrow> paging_get t new w = paging_get s (kernel_table s) w) \<and>
    (\<forall>w. vaddr_to_index w ! 3 < 256 \<longrightarrow>
       \<not> present (entry (kmem s) parent (vaddr_to_index w ! 3)) \<or> unmap_walk (vaddr_to_index w) (kmem s) 3 parent \<noteq> None \<longrightarrow>
       paging_get t new w = paging_get s parent w)"
proof -
  obtain new s1 t where n: "paging_copy s parent = Some (new, t)" "paging_create_empty s = Some (new, s1)"
    "paging_ok s1 new" "\<not> frame_owned s new" "keeps new s1 t" "\<And>d. keeps d s s1" "frame_owned s1 new"
    "frames_avail s \<le> frames_avail t + Suc (copy_cost 3 (kmem s) parent)"
    "copy_of (fresh_frames s1 t) (kmem s1) (kmem t) 3 parent new"
    "same_on (tabs 3 (kmem s) parent) (kmem s) (kmem s1)" "no_huge 3 (kmem s1) parent"
    "\<And>w. paging_get s1 new w = (if vaddr_to_index w ! 3 < 256 then 0 else paging_get s (kernel_table s) w)"
    by (rule paging_copy_spec [OF ok kt plain av]) blast
  have tr: "tree 3 (kmem s) parent" and own: "frame_owned s parent" using ok by (auto simp: tables_ok_def)
  have kept: "kmem t a = kmem s a" if "frame_owned s x" "a \<in> frame x" for x a
  proof -
    have "x \<noteq> new" using that(1) n(4) by blast
    then show ?thesis
      using keeps_frame [OF n(6) that(1) _ that(2), of new] keeps_frame [OF n(5) keeps_owned [OF n(6) that(1)] _ that(2)]
      by simp
  qed
  have skip: "paging_get t new w = paging_get s1 new w"
    if "\<not> (vaddr_to_index w ! 3 < 256 \<and> present (entry (kmem s1) parent (vaddr_to_index w ! 3)))" for w
  proof -
    have "vaddr_to_index w ! 3 < 512" using indices_ok_vaddr [of w] by (simp add: indices_ok_def)
    then have "entry (kmem t) new (vaddr_to_index w ! 3) = entry (kmem s1) new (vaddr_to_index w ! 3)"
      using n(9) that by (auto simp: numeral_3_eq_3 copy_width_def word_less_nat_alt)
    from copy_skips [OF n(3,5) indices_ok_vaddr this] show ?thesis by (simp add: paging_get_def)
  qed
  have root: "entry (kmem s1) parent (vaddr_to_index w ! 3) = entry (kmem s) parent (vaddr_to_index w ! 3)" for w
    using same_on_entry [OF n(10) tabs_self tree_table_ptr [OF tr]] indices_ok_vaddr [of w] by (simp add: indices_ok_def)
  have upper: "paging_get t new w = paging_get s (kernel_table s) w" if "\<not> vaddr_to_index w ! 3 < 256" for w
    using skip [of w] n(12) [of w] that by simp
  have lower: "paging_get t new w = paging_get s parent w"
    if low: "vaddr_to_index w ! 3 < 256" and path: "\<not> present (entry (kmem s) parent (vaddr_to_index w ! 3)) \<or>
      unmap_walk (vaddr_to_index w) (kmem s) 3 parent \<noteq> None" for w
  proof (cases "present (entry (kmem s) parent (vaddr_to_index w ! 3))")
    case True
    have four: "(3 :: nat) < 4" by simp
    note ws = walks_same [OF indices_ok_vaddr four tr n(10), of w]
    have "path_ok (vaddr_to_index w) (kmem s) 3 parent"
      by (rule no_huge_path [OF plain indices_ok_vaddr four low])
    then have "unmap_walk (vaddr_to_index w) (kmem s1) 3 parent \<noteq> None" using ws path True by simp
    from copy_of_get [OF n(9) indices_ok_vaddr four n(11) low this] ws show ?thesis by (simp add: paging_get_def)
  next
    case False
    then have "paging_get s parent w = 0" using walk_step(1) [of _ _ 2 parent] by (simp add: paging_get_def)
    with False show ?thesis using skip [of w] n(12) [of w] low by (simp add: root)
  qed
  have "frame_owned t new" "palloc_ok t" using keeps_owned [OF n(5,7)] n(5) by (simp_all add: keeps_def)
  then show ?thesis
    using n(1,4,8) kept upper lower by (intro exI [of _ new] exI [of _ t]) (auto simp: same_on_def)
qed

text \<open>C10: The tables of a copy are not cleared: where a table of the parent has no entry, the copy has what
  the frame held before. If the free frames hold, at that place, the entry of a huge page, an address that is
  not mapped in the parent is mapped by that stale entry in the copy.\<close>

theorem paging_copy_stale_entries:
  assumes ok: "paging_ok s parent" and kt: "paging_ok s (kernel_table s)" and plain: "no_huge 3 (kmem s) parent"
    and av: "Suc (copy_cost 3 (kmem s) parent) \<le> frames_avail s"
    and low: "vaddr_to_index w ! 3 < 256" and pres: "present (entry (kmem s) parent (vaddr_to_index w ! 3))"
    and absent: "\<not> present (entry (kmem s) (child_of (kmem s) parent (vaddr_to_index w ! 3)) (vaddr_to_index w ! 2))"
    and stale: "\<And>x. table_ptr x \<Longrightarrow> \<not> frame_owned s x \<Longrightarrow> entry (kmem s) x (vaddr_to_index w ! 2) = e"
    and e: "present e" "huge e"
  shows "paging_get s parent w = 0 \<and> (\<exists>new t. paging_copy s parent = Some (new, t) \<and> paging_get t new w = e)"
proof -
  let ?i = "vaddr_to_index w ! 3" and ?j = "vaddr_to_index w ! 2"
  let ?c = "child_of (kmem s) parent ?i"
  obtain new s1 t where n: "paging_copy s parent = Some (new, t)" "paging_create_empty s = Some (new, s1)"
    "paging_ok s1 new" "\<not> frame_owned s new" "keeps new s1 t" "\<And>d. keeps d s s1" "frame_owned s1 new"
    "frames_avail s \<le> frames_avail t + Suc (copy_cost 3 (kmem s) parent)"
    "copy_of (fresh_frames s1 t) (kmem s1) (kmem t) 3 parent new"
    "same_on (tabs 3 (kmem s) parent) (kmem s) (kmem s1)" "no_huge 3 (kmem s1) parent"
    "\<And>w. paging_get s1 new w = (if vaddr_to_index w ! 3 < 256 then 0 else paging_get s (kernel_table s) w)"
    by (rule paging_copy_spec [OF ok kt plain av]) blast
  have i: "?i < 512" "?j < 512" using indices_ok_vaddr [of w] by (simp_all add: indices_ok_def)
  have three: "3 = Suc 2" by simp
  have tr: "tree (Suc 2) (kmem s) parent" using ok by (simp add: tables_ok_def flip: three)
  have lv: "live (entry (kmem s) parent ?i)"
    using plain low pres i by (simp add: live_def numeral_3_eq_3 copy_width_def word_less_nat_alt)
  have same: "entry (kmem s1) parent ?i = entry (kmem s) parent ?i" "entry (kmem s1) ?c ?j = entry (kmem s) ?c ?j"
    using same_on_entry [OF n(10) _ _ i(1), of parent] same_on_entry [OF same_on_child [OF n(10) [unfolded three] i(1) lv] _ _ i(2), of ?c]
      tree_table_ptr [OF tr] tree_table_ptr [OF tree_child [OF tr i(1) lv]] by simp_all
  define q where "q = child_of (kmem t) new ?i"
  have slot: "q \<in> fresh_frames s1 t" "entry (kmem t) new ?i AND 0xfff = entry (kmem s) parent ?i AND 0xfff"
    "copy_of (fresh_frames s1 t) (kmem s1) (kmem t) 2 ?c q"
  proof -
    have "unat ?i < copy_width (Suc 2)" using low by (simp add: copy_width_def word_less_nat_alt)
    with n(9) [unfolded three copy_of.simps, rule_format, OF i(1)] pres same(1)
    show "q \<in> fresh_frames s1 t" "entry (kmem t) new ?i AND 0xfff = entry (kmem s) parent ?i AND 0xfff"
      "copy_of (fresh_frames s1 t) (kmem s1) (kmem t) 2 ?c q"
      by (simp_all add: q_def)
  qed
  have two: "2 = Suc 1" by simp
  have "entry (kmem t) q ?j = entry (kmem s1) q ?j"
    using slot(3) [unfolded two copy_of.simps, rule_format, OF i(2)] absent same(2) by simp
  also have "\<dots> = entry (kmem s) q ?j"
  proof (rule load64_frame_cong)
    fix a assume a: "a \<in> frame q"
    have "frame_owned t q" "\<not> frame_owned s1 q" using slot(1) by (simp_all add: fresh_frames_def)
    moreover have "outside_bitmap t = outside_bitmap s" using n(5) n(6) by (simp add: keeps_def)
    ultimately show "kmem s1 a = kmem s a"
      using a by (intro keeps_free [OF n(6), of q]) (simp_all add: frame_owned_def)
  qed (use fresh_table_ptr [OF slot(1)] i(2) in \<open>simp_all add: table_ptr_def\<close>)
  also have "\<dots> = e"
    using slot(1) keeps_owned [OF n(6)] by (intro stale fresh_table_ptr) (auto simp: fresh_frames_def)
  finally have "get_walk (vaddr_to_index w) (kmem t) 2 q = e"
    using e walk_step(1) [of "vaddr_to_index w" "kmem t" 1 q, folded two] by simp
  then have "paging_get t new w = e"
    using same_flags [OF slot(2)] lv walk_step(1) [of "vaddr_to_index w" "kmem t" 2 new]
    by (simp add: paging_get_def live_def q_def)
  moreover have "paging_get s parent w = 0"
    using lv absent walk_step(1) [of "vaddr_to_index w" "kmem s" 2 parent] walk_step(1) [of "vaddr_to_index w" "kmem s" 1 ?c, folded two]
    by (simp add: paging_get_def live_def)
  ultimately show ?thesis using n(1) by blast
qed

subsection \<open>An address space with one page\<close>

lemma single_entry:
  assumes t: "table_ptr t" and e: "\<And>j. j < 512 \<Longrightarrow> entry m t j = (if j = i then e else 0)" and i: "i < 512" "unat i < 256"
    and lv: "live e" and c: "child_table e = c"
  shows "tabs (Suc l) m t = insert t (tabs l m c)" and "tree (Suc l) m t \<longleftrightarrow> tree l m c \<and> t \<notin> tabs l m c"
    and "no_huge (Suc l) m t \<longleftrightarrow> no_huge l m c" and "copy_cost (Suc l) m t = Suc (copy_cost l m c)"
proof -
  have only: "j < 512 \<and> live (entry m t j) \<longleftrightarrow> j = i" for j using e [of j] i(1) lv by (auto split: if_splits)
  have p: "present e" "\<not> huge e" using lv by (simp_all add: live_def)
  have w: "256 \<le> copy_width (Suc l)" "copy_width (Suc l) \<le> 512" by (simp_all add: copy_width_def)
  have ch: "child_of m t i = c" using e [OF i(1)] c by simp
  show "tabs (Suc l) m t = insert t (tabs l m c)" by (simp add: only ch)
  show "tree (Suc l) m t \<longleftrightarrow> tree l m c \<and> t \<notin> tabs l m c"
    unfolding tree.simps using only ch t by (metis (no_types, lifting))
  have np: "\<not> present (entry m t j)" if "j < 512" "j \<noteq> i" for j using e [OF that(1)] that(2) by simp
  have pi: "present (entry m t i)" "\<not> huge (entry m t i)" using e [OF i(1)] p by simp_all
  show "no_huge (Suc l) m t \<longleftrightarrow> no_huge l m c"
  proof
    assume "no_huge (Suc l) m t"
    then have "unat i < copy_width (Suc l) \<longrightarrow> present (entry m t i) \<longrightarrow> no_huge l m (child_of m t i)"
      using i(1) by simp
    then show "no_huge l m c" using i(2) w(1) pi(1) ch by simp
  next
    assume "no_huge l m c"
    then show "no_huge (Suc l) m t" using np pi(2) ch unfolding no_huge.simps by metis
  qed
  have "slot_cost l m t j = (if j = unat i then Suc (copy_cost l m c) else 0)" if "j \<in> {..<copy_width (Suc l)}" for j
  proof -
    have "j < 512" using that w(2) by simp
    then have "(of_nat j :: u64) < 512" "of_nat j = i \<longleftrightarrow> j = unat i"
      by (auto simp: word_less_nat_alt unat_of_nat_u64)
    then show ?thesis using np [of "of_nat j"] pi ch by (auto simp: slot_cost_def)
  qed
  then have "(\<Sum>j<copy_width (Suc l). slot_cost l m t j) =
      (\<Sum>j<copy_width (Suc l). if j = unat i then Suc (copy_cost l m c) else 0)"
    by (rule sum.cong [OF refl])
  also have "\<dots> = Suc (copy_cost l m c)" using i(2) w(1) by simp
  finally show "copy_cost (Suc l) m t = Suc (copy_cost l m c)" by (simp add: slot_cost_def)
qed

text \<open>
  Page 0x5000 is mapped at 0x400000 through the tables in pages 1, 14, 15 and 2; every byte that is not in
  use is 0x81.
\<close>

definition copy_tables :: mem where
  "copy_tables = store64 (store64 (store64 (store64 (\<lambda>_. 0)
     (0xffff800000001000 + 8 * 0) 0xe003) (0xffff80000000e000 + 8 * 0) 0xf003)
     (0xffff80000000f000 + 8 * 2) 0x2003) (0xffff800000002000 + 8 * 0) 0x5003"

definition copy_mem :: mem where
  "copy_mem a = (if VADDR_HIGHER \<le> a \<and> page_of a \<in> {1, 2, 14, 15} then copy_tables a
     else if a - 0xffff800000000000 < 3 then kmem (request_state vm_example 2 1) a else 0x81)"

definition copy_example :: vm where "copy_example = (request_state vm_example 2 1)\<lparr>kmem := copy_mem\<rparr>"

lemma copy_pages:
  "table_ptr 0xffff800000001000" "table_ptr 0xffff80000000e000" "table_ptr 0xffff80000000f000" "table_ptr 0xffff800000002000"
  "page_of 0xffff800000001000 = 1" "page_of 0xffff80000000e000 = 14" "page_of 0xffff80000000f000 = 15"
  "page_of 0xffff800000002000 = 2"
  by (simp_all add: table_ptr_def page_aligned_def VADDR_HIGHER_def page_of_def unat_addr_ensure_lower)

lemma copy_mem_entry:
  assumes "table_ptr p" and "page_of p \<in> {1, 2, 14, 15}" and "i < 512"
  shows "entry copy_mem p i = entry copy_tables p i"
proof (rule load64_frame_cong)
  fix a assume "a \<in> frame p"
  then have "VADDR_HIGHER \<le> a" "page_of a = page_of p"
    using assms(1) high_same_page [of p a] by (simp_all add: table_ptr_def)
  then show "copy_mem a = copy_tables a" using assms(2) by (auto simp: copy_mem_def)
qed (use assms in \<open>simp_all add: table_ptr_def\<close>)

lemma copy_entries:
  assumes "i < 512"
  shows "entry copy_mem 0xffff800000001000 i = (if i = 0 then 0xe003 else 0)"
    and "entry copy_mem 0xffff80000000e000 i = (if i = 0 then 0xf003 else 0)"
    and "entry copy_mem 0xffff80000000f000 i = (if i = 2 then 0x2003 else 0)"
    and "entry copy_mem 0xffff800000002000 i = (if i = 0 then 0x5003 else 0)"
proof -
  have z: "load64 (\<lambda>_. 0) a = 0" for a by (simp add: load64_def)
  note slot = load64_store64_slot [OF table_ptr_aligned table_ptr_aligned]
  have e: "entry copy_mem p i = entry copy_tables p i"
    if "p \<in> {0xffff800000001000, 0xffff80000000e000, 0xffff80000000f000, 0xffff800000002000}" for p
    using that copy_pages assms by (intro copy_mem_entry) auto
  have lt: "(0 :: u64) < 512" "(2 :: u64) < 512" by simp_all
  show "entry copy_mem 0xffff800000001000 i = (if i = 0 then 0xe003 else 0)"
    "entry copy_mem 0xffff80000000e000 i = (if i = 0 then 0xf003 else 0)"
    "entry copy_mem 0xffff80000000f000 i = (if i = 2 then 0x2003 else 0)"
    "entry copy_mem 0xffff800000002000 i = (if i = 0 then 0x5003 else 0)"
    by (simp_all only: e insertI1 insertI2 copy_tables_def slot copy_pages(1-4) assms lt z) (simp_all)
qed

lemma copy_links:
  "live 0xe003" "live 0xf003" "live 0x2003" "child_table 0xe003 = 0xffff80000000e000"
  "child_table 0xf003 = 0xffff80000000f000" "child_table 0x2003 = 0xffff800000002000"
  by (simp_all add: live_def present_def huge_def PAGING_PRESENT_def PAGING_HUGE_def child_table_def
      addr_ensure_higher_def VADDR_HIGHER_def)

lemmas copy_level =
  single_entry [OF copy_pages(3) copy_entries(3) _ _ copy_links(3,6), where l = 0]
  single_entry [OF copy_pages(2) copy_entries(2) _ _ copy_links(2,5), where l = "Suc 0"]
  single_entry [OF copy_pages(1) copy_entries(1) _ _ copy_links(1,4), where l = "Suc (Suc 0)"]

lemma copy_example_tables:
  "tree 3 copy_mem 0xffff800000001000"
  "tabs 3 copy_mem 0xffff800000001000 = {0xffff800000001000, 0xffff80000000e000, 0xffff80000000f000, 0xffff800000002000}"
  "no_huge 3 copy_mem 0xffff800000001000" "copy_cost 3 copy_mem 0xffff800000001000 = 3"
proof -
  have c: "(0 :: u64) < 512" "(2 :: u64) < 512" "unat (0 :: u64) < 256" "unat (2 :: u64) < 256" by simp_all
  show "tree 3 copy_mem 0xffff800000001000"
    unfolding numeral_3_eq_3 by (simp only: copy_level c) (simp add: copy_pages)
  show "tabs 3 copy_mem 0xffff800000001000 = {0xffff800000001000, 0xffff80000000e000, 0xffff80000000f000, 0xffff800000002000}"
    unfolding numeral_3_eq_3 by (simp only: copy_level c) simp
  show "no_huge 3 copy_mem 0xffff800000001000" "copy_cost 3 copy_mem 0xffff800000001000 = 3"
    unfolding numeral_3_eq_3 by (simp_all only: copy_level c) simp_all
qed

lemma copy_grant: "grantable vm_example 2 1" "\<not> page_locked vm_example 2"
  "frames_avail (request_state vm_example 2 1) = 18"
proof -
  show free: "\<not> page_locked vm_example 2" using vm_example_locked [of 2] by simp
  have last: "unat (last_free vm_example) = 2" by (simp add: vm_example_def)
  obtain r where r: "grantable vm_example r 1" "unat (last_free vm_example) \<le> r" "\<not> page_locked vm_example r"
    "\<And>q. unat (last_free vm_example) \<le> q \<Longrightarrow> q < r \<Longrightarrow> page_locked vm_example q"
    by (rule palloc_one [OF vm_example_palloc_ok]) (simp_all add: vm_example_avail)
  have "r = 2" using r(2,4) free last by (metis le_neq_implies_less order_refl)
  with r palloc_one_avail [OF r(1-4)] show "grantable vm_example 2 1" "frames_avail (request_state vm_example 2 1) = 18"
    by (simp_all add: vm_example_avail)
qed

lemma vm_example_owned: "frame_owned vm_example p \<longleftrightarrow> table_ptr p \<and> page_of p \<in> {1, 14, 15}"
proof -
  have "outside_bitmap vm_example a" if "table_ptr p" "page_of p \<noteq> 0" "a \<in> frame p" for a
    using that vm_example_bitmap(2) [of a] high_same_page [of p a] by (auto simp: table_ptr_def)
  moreover have "0xffff800000000000 \<in> frame p \<and> \<not> outside_bitmap vm_example 0xffff800000000000"
    if "table_ptr p" "page_of p = 0"
    using that high_same_page [of p "0xffff800000000000"]
    by (simp add: table_ptr_def VADDR_HIGHER_def page_of_def unat_addr_ensure_lower outside_bitmap_def vm_example_def)
  moreover have "pmm_pages vm_example = 23" by (simp add: vm_example_def)
  moreover have "page_of p < 23 \<Longrightarrow> page_locked vm_example (page_of p) \<longleftrightarrow> page_of p \<in> {0, 1, 14, 15}"
    using vm_example_locked [of "page_of p"] by auto
  ultimately show ?thesis unfolding frame_owned_def by (cases "page_of p = 0") auto
qed

lemma copy_example_ok:
  "palloc_ok copy_example" "frames_avail copy_example = 18"
  "frame_owned copy_example p \<longleftrightarrow> table_ptr p \<and> page_of p \<in> {1, 2, 14, 15}"
proof -
  let ?r = "request_state vm_example 2 1"
  note o = palloc_one_owned [OF vm_example_palloc_ok copy_grant(1,2)]
  have out: "copy_mem a = kmem ?r a" if "\<not> outside_bitmap ?r a" for a
  proof -
    have "a - 0xffff800000000000 < 3" using that by (simp add: outside_bitmap_def vm_example_def)
    moreover from this have "page_of a = 0" by (intro vm_example_bitmap(2)) (simp add: outside_bitmap_def vm_example_def)
    ultimately show ?thesis by (simp add: copy_mem_def)
  qed
  note w = write_outside_bitmap [OF o(1) out, folded copy_example_def]
  show "palloc_ok copy_example" "frames_avail copy_example = 18" using w(1,2) copy_grant(3) by simp_all
  have "addr_offset_higher (page_addr 2) = 0xffff800000002000"
    by (simp add: addr_offset_higher_def page_addr_def VADDR_HIGHER_def)
  then have "frame_owned copy_example p \<longleftrightarrow> frame_owned vm_example p \<or> p = 0xffff800000002000"
    using w(3) o(3) [of p] by simp
  then show "frame_owned copy_example p \<longleftrightarrow> table_ptr p \<and> page_of p \<in> {1, 2, 14, 15}"
    unfolding vm_example_owned using table_ptr_eq [of p "0xffff800000002000"] copy_pages by auto
qed

lemma copy_example_paging: "paging_ok copy_example 0xffff800000001000" "kernel_table copy_example = 0xffff800000001000"
  "kmem copy_example = copy_mem"
proof -
  show m: "kmem copy_example = copy_mem" by (simp add: copy_example_def)
  show "paging_ok copy_example 0xffff800000001000"
    using copy_example_ok(1) copy_example_tables(1) copy_pages
    by (simp add: tables_ok_def m copy_example_tables(2) copy_example_ok(3))
  show "kernel_table copy_example = 0xffff800000001000"
    using vm_more_fields(1) [of "request_state vm_example 2 1" vm_example] by (simp add: copy_example_def)
      (simp add: vm_example_def)
qed

lemma copy_example_stale:
  assumes "table_ptr x" and "\<not> frame_owned copy_example x"
  shows "entry copy_mem x 1 = 0x8181818181818181"
proof -
  have x: "page_of x \<notin> {1, 2, 14, 15}" using assms by (simp add: copy_example_ok(3))
  have byte: "copy_mem (x + 8 + k) = 0x81" if k: "k < 8" for k
  proof -
    have "x + 8 * 1 + k \<in> frame x" by (rule slot_in_frame [OF table_ptr_aligned [OF assms(1)] _ k]) simp
    then have a: "VADDR_HIGHER \<le> x + 8 + k" "page_of (x + 8 + k) = page_of x"
      using assms(1) high_same_page [of x "x + 8 + k"] by (simp_all add: table_ptr_def)
    have "\<not> x + 8 + k - 0xffff800000000000 < 3"
    proof
      assume less: "x + 8 + k - 0xffff800000000000 < 3"
      then have "page_of x = 0"
        unfolding a(2) [symmetric] by (intro vm_example_bitmap(2)) (simp add: outside_bitmap_def vm_example_def)
      moreover have "table_ptr 0xffff800000000000" "page_of 0xffff800000000000 = 0"
        by (simp_all add: table_ptr_def page_aligned_def VADDR_HIGHER_def page_of_def unat_addr_ensure_lower)
      ultimately have "x = 0xffff800000000000" using table_ptr_eq [OF assms(1)] by metis
      with less have "8 + k < 3" by simp
      with k show False by (simp add: word_less_nat_alt unat_word_ariths)
    qed
    with a x show ?thesis by (simp add: copy_mem_def)
  qed
  have "load64 copy_mem (x + 8 * 1) = load64 (\<lambda>_. 0x81) (x + 8 * 1)"
    by (rule load64_cong) (use byte in simp)
  also have "\<dots> = 0x8181818181818181" by (simp add: load64_def)
  finally show ?thesis .
qed

lemma copy_example_walk:
  "get_walk [i, 2, 0, 0] copy_mem 3 0xffff800000001000 = entry copy_mem 0xffff800000002000 i"
  "unmap_walk [i, 2, 0, 0] copy_mem 3 0xffff800000001000 \<noteq> None"
proof -
  have three: "3 = Suc (Suc (Suc 0))" by simp
  have nth: "[i, 2, 0, 0] ! Suc (Suc (Suc 0)) = 0" "[i, 2, 0, 0] ! Suc (Suc 0) = 0" "[i, 2, 0, 0] ! Suc 0 = 2"
    "[i, 2, 0, 0] ! 0 = i" by simp_all
  have lt: "(0 :: u64) < 512" "(2 :: u64) < 512" by simp_all
  note lk = copy_links(1-3) [unfolded live_def]
  show "get_walk [i, 2, 0, 0] copy_mem 3 0xffff800000001000 = entry copy_mem 0xffff800000002000 i"
    unfolding three
    by (simp only: walk_step nth copy_entries(1-3) lt lk copy_links(4-6) get_walk.simps(1) if_True if_False simp_thms)
  show "unmap_walk [i, 2, 0, 0] copy_mem 3 0xffff800000001000 \<noteq> None"
    unfolding three
    by (simp only: walk_step nth copy_entries(1-3) lt lk copy_links(4-6) if_True if_False simp_thms unmap_walk.simps(1)
        option.distinct)
qed

theorem paging_copy_correct_witness:
  "\<exists>new t. paging_copy copy_example 0xffff800000001000 = Some (new, t) \<and> new \<noteq> 0xffff800000001000 \<and>
     paging_get t new 0x400000 = 0x5003 \<and> paging_get t new 0x401000 = 0"
proof -
  let ?r = "0xffff800000001000 :: ptr"
  note p = copy_example_paging
  have i: "vaddr_to_index 0x400000 = [0, 2, 0, 0]" "vaddr_to_index 0x401000 = [1, 2, 0, 0]"
    by (simp_all add: vaddr_to_index_def Let_def)
  have av: "Suc (copy_cost 3 (kmem copy_example) ?r) \<le> frames_avail copy_example"
    by (simp add: p(3) copy_example_tables(4) copy_example_ok(2))
  have plain: "no_huge 3 (kmem copy_example) ?r" by (simp only: p(3) copy_example_tables(3))
  have kt: "paging_ok copy_example (kernel_table copy_example)" by (simp only: p(2) p(1))
  have r: "frame_owned copy_example ?r" using copy_pages by (simp add: copy_example_ok(3))
  have get: "paging_get copy_example ?r 0x400000 = 0x5003" "paging_get copy_example ?r 0x401000 = 0"
    using copy_entries(4) [of 0] copy_entries(4) [of 1] by (simp_all add: paging_get_def p(3) i copy_example_walk(1))
  from paging_copy_correct [OF p(1) kt plain av] obtain new t where
    n: "paging_copy copy_example ?r = Some (new, t)" "\<not> frame_owned copy_example new" and
    low: "\<forall>w. vaddr_to_index w ! 3 < 256 \<longrightarrow>
       \<not> present (entry (kmem copy_example) ?r (vaddr_to_index w ! 3)) \<or>
         unmap_walk (vaddr_to_index w) (kmem copy_example) 3 ?r \<noteq> None \<longrightarrow>
       paging_get t new w = paging_get copy_example ?r w" by blast
  have "paging_get t new w = paging_get copy_example ?r w" if "w = 0x400000 \<or> w = 0x401000" for w
    by (rule low [rule_format]) (use that copy_example_walk(2) i p(3) in auto)
  then show ?thesis using n r get by (intro exI [of _ new] exI [of _ t]) auto
qed

theorem paging_copy_stale_entries_witness:
  "\<exists>new t. paging_get copy_example 0xffff800000001000 0x40000000 = 0 \<and>
     paging_copy copy_example 0xffff800000001000 = Some (new, t) \<and> paging_get t new 0x40000000 = 0x8181818181818181"
proof -
  let ?r = "0xffff800000001000 :: ptr"
  note p = copy_example_paging
  have i: "vaddr_to_index 0x40000000 = [0, 0, 1, 0]" by (simp add: vaddr_to_index_def Let_def)
  have av: "Suc (copy_cost 3 (kmem copy_example) ?r) \<le> frames_avail copy_example"
    by (simp add: p(3) copy_example_tables(4) copy_example_ok(2))
  have plain: "no_huge 3 (kmem copy_example) ?r" by (simp only: p(3) copy_example_tables(3))
  have kt: "paging_ok copy_example (kernel_table copy_example)" by (simp only: p(2) p(1))
  have idx: "vaddr_to_index 0x40000000 ! 3 = 0" "vaddr_to_index 0x40000000 ! 2 = 1" by (simp_all add: i)
  have lt: "(0 :: u64) < 512" "(1 :: u64) < 512" by simp_all
  have "paging_get copy_example ?r 0x40000000 = 0 \<and>
      (\<exists>new t. paging_copy copy_example ?r = Some (new, t) \<and> paging_get t new 0x40000000 = 0x8181818181818181)"
  proof (rule paging_copy_stale_entries [OF p(1) kt plain av])
    show "vaddr_to_index 0x40000000 ! 3 < 256" by (simp add: idx)
    show "present (entry (kmem copy_example) ?r (vaddr_to_index 0x40000000 ! 3))"
      unfolding p(3) idx copy_entries(1) [OF lt(1)] using copy_links(1) by (simp add: live_def)
    show "\<not> present (entry (kmem copy_example) (child_of (kmem copy_example) ?r (vaddr_to_index 0x40000000 ! 3))
        (vaddr_to_index 0x40000000 ! 2))"
      unfolding p(3) idx copy_entries(1) [OF lt(1)] if_True copy_links(4) refl copy_entries(2) [OF lt(2)]
      by (simp add: copy_links(4) copy_entries(2) [OF lt(2), simplified])
    show "entry (kmem copy_example) x (vaddr_to_index 0x40000000 ! 2) = 0x8181818181818181"
      if "table_ptr x" "\<not> frame_owned copy_example x" for x
      unfolding p(3) idx by (rule copy_example_stale [OF that])
    show "present (0x8181818181818181 :: u64)" "huge (0x8181818181818181 :: u64)"
      by (simp_all add: present_def huge_def PAGING_PRESENT_def PAGING_HUGE_def)
  qed
  then show ?thesis by blast
qed

end
