(* ===== verification/Paging_Protect.thy ===== *)
theory Paging_Protect
  imports Paging_Copy
begin

text \<open>
  Write protection of an address space (\<^verbatim>\<open>paging_make_readonly\<close> of \<^verbatim>\<open>memory/paging.c\<close>): the
  recursion clears the writable flag of every entry of the last level below the lower half and nothing
  else, and flushes the address of each.
\<close>

section \<open>The state of the loops\<close>

text \<open>The number of the page that the recursion has reached with \<open>v\<close> and the indices below.\<close>

fun page_no :: "nat \<Rightarrow> u64 \<Rightarrow> u64 list \<Rightarrow> u64" where
  "page_no 0 v idx = push_bit 9 v OR idx ! 0"
| "page_no (Suc l) v idx = page_no l (push_bit 9 v OR idx ! Suc l) idx"

text \<open>
  In the table \<open>t\<close> of level \<open>l\<close> the first \<open>k\<close> entries are done: the translations behind them are the
  old ones without the writable flag and their pages are flushed. All else is as in \<open>s\<close>.
\<close>

definition protects :: "nat \<Rightarrow> nat \<Rightarrow> ptr \<Rightarrow> u64 \<Rightarrow> 'z vm_scheme \<Rightarrow> 'z vm_scheme \<Rightarrow> bool" where
  "protects k l t v s u \<longleftrightarrow> tables_ok l u t \<and> frame_owned u = frame_owned s \<and> frames_avail u = frames_avail s \<and>
     tabs l (kmem u) t = tabs l (kmem s) t \<and> no_huge l (kmem u) t \<and>
     (0 < l \<longrightarrow> (\<forall>i<512. entry (kmem u) t i = entry (kmem s) t i)) \<and>
     same_on {x. frame_owned s x \<and> x \<notin> tabs l (kmem s) t} (kmem s) (kmem u) \<and>
     (\<forall>idx. indices_ok idx \<longrightarrow> get_walk idx (kmem u) l t =
        (if unat (idx ! l) < k then get_walk idx (kmem s) l t AND NOT PAGING_WRITABLE else get_walk idx (kmem s) l t)) \<and>
     (\<forall>idx. indices_ok idx \<longrightarrow> unat (idx ! l) < copy_width l \<longrightarrow>
        unmap_walk idx (kmem u) l t = unmap_walk idx (kmem s) l t) \<and>
     set (invlpg s) \<subseteq> set (invlpg u) \<and>
     (\<forall>idx. indices_ok idx \<longrightarrow> unat (idx ! l) < k \<longrightarrow> unmap_walk idx (kmem s) l t \<noteq> None \<longrightarrow>
        push_bit 12 (page_no l v idx) \<in> set (invlpg u))"

lemma protectsD:
  assumes "protects k l t v s u"
  shows "tables_ok l u t" "frame_owned u = frame_owned s" "frames_avail u = frames_avail s"
    "tabs l (kmem u) t = tabs l (kmem s) t" "no_huge l (kmem u) t"
    "0 < l \<Longrightarrow> i < 512 \<Longrightarrow> entry (kmem u) t i = entry (kmem s) t i"
    "same_on {x. frame_owned s x \<and> x \<notin> tabs l (kmem s) t} (kmem s) (kmem u)"
    "indices_ok idx \<Longrightarrow> get_walk idx (kmem u) l t =
        (if unat (idx ! l) < k then get_walk idx (kmem s) l t AND NOT PAGING_WRITABLE else get_walk idx (kmem s) l t)"
    "indices_ok idx \<Longrightarrow> unat (idx ! l) < copy_width l \<Longrightarrow> unmap_walk idx (kmem u) l t = unmap_walk idx (kmem s) l t"
    "set (invlpg s) \<subseteq> set (invlpg u)"
    "indices_ok idx \<Longrightarrow> unat (idx ! l) < k \<Longrightarrow> unmap_walk idx (kmem s) l t \<noteq> None \<Longrightarrow>
        push_bit 12 (page_no l v idx) \<in> set (invlpg u)"
  using assms unfolding protects_def by blast+

lemma protects_start:
  "tables_ok l s t \<Longrightarrow> no_huge l (kmem s) t \<Longrightarrow> protects 0 l t v s s"
  by (simp add: protects_def same_on_def)

lemma protect_width: "k < copy_width l \<Longrightarrow> unat (of_nat k :: u64) = k" "k < copy_width l \<Longrightarrow> (of_nat k :: u64) < 512"
  by (auto simp: copy_width_def word_less_nat_alt unat_of_nat_u64 split: if_splits)

definition protect_entry :: "ptr \<Rightarrow> u64 \<Rightarrow> nat \<Rightarrow> 'z vm_scheme \<Rightarrow> 'z vm_scheme option" where
  "protect_entry table vaddr i s =
     (let final_vaddr = push_bit 12 (push_bit 9 vaddr OR of_nat i);
          s1 = paging_flush_tlb s final_vaddr;
          slot = table + 8 * of_nat i
      in Some (s1\<lparr>kmem := store64 (kmem s1) slot (load64 (kmem s1) slot AND NOT PAGING_WRITABLE)\<rparr>))"

definition protect_table :: "nat \<Rightarrow> ptr \<Rightarrow> u64 \<Rightarrow> nat \<Rightarrow> 'z vm_scheme \<Rightarrow> 'z vm_scheme option" where
  "protect_table l table vaddr i s =
     (let e = load64 (kmem s) (table + 8 * of_nat i) in
      if e AND PAGING_PRESENT = 0 then Some s
      else paging_make_readonly_recursive (Suc l) (child_table e) (push_bit 9 vaddr OR of_nat i) s)"

lemma protect_recursive:
  "paging_make_readonly_recursive (Suc 0) t v s = for_each (protect_entry t v) [0..<copy_width 0] s"
  "paging_make_readonly_recursive (Suc (Suc l)) t v s = for_each (protect_table l t v) [0..<copy_width (Suc l)] s"
  by (simp_all add: protect_entry_def [abs_def] protect_table_def [abs_def] copy_width_def Let_def)

section \<open>The last level\<close>

lemma protect_entry_step:
  assumes P: "protects k 0 t v s u" and k: "k < copy_width 0"
  shows "\<exists>w. protect_entry t v k u = Some w \<and> protects (Suc k) 0 t v s w"
proof -
  let ?i = "of_nat k :: u64" and ?f = "paging_flush_tlb u (push_bit 12 (push_bit 9 v OR of_nat k))"
  let ?e = "entry (kmem u) t ?i AND NOT PAGING_WRITABLE"
  note i = protect_width [OF k]
  define w where "w = ?f\<lparr>kmem := store64 (kmem ?f) (t + 8 * [?i, 0, 0, 0] ! 0) ?e\<rparr>"
  have okf: "tables_ok 0 ?f t" using P by (simp add: protects_def)
  have idx: "indices_ok [?i, 0, 0, 0]" using i(2) by (auto simp: indices_ok_def nth_Cons split: nat.splits)
  note st = tables_ok_store_leaf [where ?t0.0 = t and e = ?e, OF okf _ idx]
  note st = st [folded w_def, simplified]
  have u: "frame_owned u = frame_owned s" "frames_avail u = frames_avail s"
    "same_on {x. frame_owned s x \<and> x \<noteq> t} (kmem s) (kmem u)" "set (invlpg s) \<subseteq> set (invlpg u)"
    and get: "\<And>jdx. indices_ok jdx \<Longrightarrow> entry (kmem u) t (jdx ! 0) =
      (if unat (jdx ! 0) < k then entry (kmem s) t (jdx ! 0) AND NOT PAGING_WRITABLE else entry (kmem s) t (jdx ! 0))"
    and fl: "\<And>jdx. indices_ok jdx \<Longrightarrow> unat (jdx ! 0) < k \<Longrightarrow> push_bit 12 (push_bit 9 v OR jdx ! 0) \<in> set (invlpg u)"
    using P by (simp_all add: protects_def)
  have "page_aligned t" using okf by (simp add: tables_ok_def table_ptr_def)
  then have new: "entry (kmem w) t ?i = ?e" using i(2) by (simp add: w_def paging_flush_tlb_def load64_store64_slot)
  have ik: "jdx ! 0 = ?i \<longleftrightarrow> unat (jdx ! 0) = k" for jdx :: "u64 list" using i(1) by auto
  have "entry (kmem w) t (jdx ! 0) =
      (if unat (jdx ! 0) < Suc k then entry (kmem s) t (jdx ! 0) AND NOT PAGING_WRITABLE else entry (kmem s) t (jdx ! 0))"
    if jdx: "indices_ok jdx" for jdx
  proof (cases "jdx ! 0 = ?i")
    case True
    then show ?thesis using new get [OF idx] i(1) by simp
  next
    case False
    then have "entry (kmem w) t (jdx ! 0) = entry (kmem u) t (jdx ! 0)" using st(6) [OF jdx] by simp
    then show ?thesis using get [OF jdx] False ik by (simp add: less_Suc_eq)
  qed
  moreover have "invlpg w = push_bit 12 (push_bit 9 v OR ?i) # invlpg u" by (simp add: w_def paging_flush_tlb_def)
  moreover have "same_on {x. frame_owned s x \<and> x \<noteq> t} (kmem s) (kmem w)"
    using st(7) u(1,3) by (simp add: same_on_def)
  ultimately have "protects (Suc k) 0 t v s w"
    using st(1-3) u fl ik unfolding protects_def by (auto simp: less_Suc_eq)
  moreover have "protect_entry t v k u = Some w" by (simp add: protect_entry_def w_def paging_flush_tlb_def Let_def)
  ultimately show ?thesis by blast
qed

lemma protect_leaf:
  assumes ok: "tables_ok 0 s t"
  shows "\<exists>u. paging_make_readonly_recursive (Suc 0) t v s = Some u \<and> protects (copy_width 0) 0 t v s u"
proof -
  have "\<exists>u. for_each (protect_entry t v) [0..<copy_width 0] s = Some u \<and> protects (length [0..<copy_width 0]) 0 t v s u"
  proof (rule for_each_invariant [where P = "\<lambda>k u. protects k 0 t v s u"])
    show "protects 0 0 t v s s" using ok by (simp add: protects_start)
  next
    fix k u assume "k < length [0..<copy_width 0]" and P: "protects k 0 t v s u"
    then have k: "k < copy_width 0" "[0..<copy_width 0] ! k = k" by simp_all
    have "\<exists>w. protect_entry t v k u = Some w \<and> protects (Suc k) 0 t v s w" by (rule protect_entry_step [OF P k(1)])
    with k(2) show "\<exists>w. protect_entry t v ([0..<copy_width 0] ! k) u = Some w \<and> protects (Suc k) 0 t v s w" by simp
  qed
  then show ?thesis by (simp only: protect_recursive length_upt diff_zero)
qed

section \<open>The other levels\<close>

lemma protects_step_absent:
  assumes P: "protects k (Suc l) t v s u" and k: "k < copy_width (Suc l)"
    and e: "entry (kmem u) t (of_nat k) = entry (kmem s) t (of_nat k)" and absent: "\<not> present (entry (kmem s) t (of_nat k))"
  shows "protects (Suc k) (Suc l) t v s u"
proof -
  have ik: "unat i = k \<Longrightarrow> i = of_nat k" for i :: u64 by auto
  have gone: "get_walk idx (kmem s) (Suc l) t = 0 \<and> unmap_walk idx (kmem s) (Suc l) t = None"
    if "unat (idx ! Suc l) = k" for idx using ik [OF that] absent by (simp add: walk_step)
  show ?thesis using P gone unfolding protects_def by (auto simp: less_Suc_eq)
qed

text \<open>A table below an entry of \<open>t\<close> is protected.\<close>

lemma protects_subtree:
  assumes ok: "tables_ok (Suc l) u t" and plain: "no_huge (Suc l) (kmem u) t" and l: "l < 3"
    and i: "i < 512" "live (entry (kmem u) t i)"
    and P: "protects (copy_width l) l (child_of (kmem u) t i) v' u w"
  shows "subtree_changed l (kmem u) (kmem w) t i" and "tables_ok (Suc l) w t"
    and "tabs (Suc l) (kmem w) t = tabs (Suc l) (kmem u) t"
    and "same_on {x. frame_owned u x \<and> x \<notin> tabs (Suc l) (kmem u) t} (kmem u) (kmem w)"
    and "no_huge (Suc l) (kmem w) t"
proof -
  let ?m = "kmem u" and ?m' = "kmem w"
  let ?c = "child_of ?m t i"
  have tr: "tree (Suc l) ?m t" and own: "\<And>x. x \<in> tabs (Suc l) ?m t \<Longrightarrow> frame_owned u x"
    using ok unfolding tables_ok_def by blast+
  have c: "tables_ok l w ?c" "frame_owned w = frame_owned u" "tabs l ?m' ?c = tabs l ?m ?c" "no_huge l ?m' ?c"
    "same_on {x. frame_owned u x \<and> x \<notin> tabs l ?m ?c} ?m ?m'"
    using P by (simp_all add: protects_def)
  have "same_on (tabs (Suc l) ?m t - tabs l ?m ?c) ?m ?m'"
    by (rule same_on_mono [OF c(5)]) (use own in blast)
  then show ch: "subtree_changed l ?m ?m' t i"
    unfolding subtree_changed_def using tr i c(1,3) by (simp add: tables_ok_def del: tabs.simps tree.simps)
  note e = subtree_changed_entry [OF ch]
  have "tabs l ?m' (child_of ?m t j) = tabs l ?m (child_of ?m t j)" if "j < 512" "live (entry ?m t j)" for j
    using c(3) subtree_changed_other(2) [OF ch that(1) _ that(2)] by (cases "j = i") simp_all
  then show tabs: "tabs (Suc l) ?m' t = tabs (Suc l) ?m t" using e by auto
  show "tables_ok (Suc l) w t"
    using subtree_changed_tree [OF ch] own c(1,2) unfolding tables_ok_def tabs by simp
  show "same_on {x. frame_owned u x \<and> x \<notin> tabs (Suc l) ?m t} ?m ?m'"
    by (rule same_on_mono [OF c(5)]) (use tabs_child [OF i] in blast)
  have "no_huge l ?m' (child_of ?m t j)"
    if j: "j < 512" "unat j < copy_width (Suc l)" "present (entry ?m t j)" for j
  proof (cases "j = i")
    case False
    have lv: "live (entry ?m t j)" "no_huge l ?m (child_of ?m t j)" using plain j by (simp_all add: live_def)
    show ?thesis
      by (rule no_huge_same(1) [OF tree_child [OF tr j(1) lv(1)] lv(2) subtree_changed_other(1) [OF ch j(1) False lv(1)]])
  qed (use c(4) in simp)
  then show "no_huge (Suc l) ?m' t" using plain e by simp
qed

text \<open>What is assumed of the recursion on the next level.\<close>

definition protector :: "nat \<Rightarrow> 'z itself \<Rightarrow> bool" where
  "protector l _ \<longleftrightarrow> (\<forall>(s :: 'z vm_scheme) t v. tables_ok l s t \<longrightarrow> no_huge l (kmem s) t \<longrightarrow>
     (\<exists>u. paging_make_readonly_recursive (Suc l) t v s = Some u \<and> protects (copy_width l) l t v s u))"

lemma protects_step_present:
  fixes s u w :: "'z vm_scheme"
  assumes P: "protects k (Suc l) t v s u" and k: "k < copy_width (Suc l)" and l: "l < 3"
    and i: "i = of_nat k" "live (entry (kmem u) t i)"
    and W: "protects (copy_width l) l (child_of (kmem u) t i) (push_bit 9 v OR i) u w"
  shows "protects (Suc k) (Suc l) t v s w"
proof -
  let ?m = "kmem u" and ?m' = "kmem w" and ?L = "Suc l"
  let ?c = "child_of ?m t i"
  note ik = protect_width [OF k, folded i(1)]
  note u = protectsD(1,5) [OF P]
  note sub = protects_subtree [OF u l ik(2) i(2) W]
  note e = subtree_changed_entry [OF sub(1)]
  have tr: "tree ?L ?m t" using u(1) by (simp add: tables_ok_def)
  have low: "unat (idx ! l) < copy_width l" "idx ! ?L < 512" if "indices_ok idx" for idx
    using that l by (simp_all add: indices_ok_def copy_width_def word_less_nat_alt)
  have at_i: "get_walk idx ?m' ?L t = get_walk idx ?m ?L t AND NOT PAGING_WRITABLE"
    "unmap_walk idx ?m' ?L t = unmap_walk idx ?m ?L t"
    "unmap_walk idx ?m ?L t \<noteq> None \<Longrightarrow> push_bit 12 (page_no ?L v idx) \<in> set (invlpg w)"
    if idx: "indices_ok idx" "idx ! ?L = i" for idx
    using protectsD(8,9,11) [OF W idx(1)] low(1) [OF idx(1)] i(2) e [OF ik(2)] idx(2)
    by (simp_all add: walk_step live_def)
  have other: "get_walk idx ?m' ?L t = get_walk idx ?m ?L t" if "indices_ok idx" "idx ! ?L \<noteq> i" for idx
    using that by (intro subtree_changed_get [OF sub(1) l]) simp_all
  have other': "unmap_walk idx ?m' ?L t = unmap_walk idx ?m ?L t"
    if idx: "indices_ok idx" "unat (idx ! ?L) < copy_width ?L" "idx ! ?L \<noteq> i" for idx
  proof (cases "present (entry ?m t (idx ! ?L))")
    case True
    note j = low(2) [OF idx(1)]
    have lv: "live (entry ?m t (idx ! ?L))" "no_huge l ?m (child_of ?m t (idx ! ?L))"
      using u(2) j idx(2) True by (simp_all add: live_def)
    have "path_ok idx ?m l (child_of ?m t (idx ! ?L))" by (rule no_huge_path [OF lv(2) idx(1)]) (use l in simp_all)
    then have "unmap_walk idx ?m' l (child_of ?m t (idx ! ?L)) = unmap_walk idx ?m l (child_of ?m t (idx ! ?L))"
      using walks_same [OF idx(1) _ tree_child [OF tr j lv(1)] subtree_changed_other(1) [OF sub(1) j idx(3) lv(1)]] l by simp
    then show ?thesis using e [OF j] by (simp add: walk_step)
  qed (use e [OF low(2) [OF idx(1)]] in \<open>simp add: walk_step\<close>)
  have same: "same_on {x. frame_owned s x \<and> x \<notin> tabs ?L (kmem s) t} (kmem s) ?m'"
    using protectsD(7) [OF P] sub(4) unfolding same_on_def protectsD(2,4) [OF P] by (metis (no_types, lifting))
  have "get_walk idx ?m' ?L t = (if unat (idx ! ?L) < Suc k then get_walk idx (kmem s) ?L t AND NOT PAGING_WRITABLE
      else get_walk idx (kmem s) ?L t)" if idx: "indices_ok idx" for idx
  proof (cases "idx ! ?L = i")
    case True
    then show ?thesis using at_i(1) [OF idx True] protectsD(8) [OF P idx] ik(1) by simp
  next
    case False
    then have "unat (idx ! ?L) \<noteq> k" using i(1) by auto
    then show ?thesis using other [OF idx False] protectsD(8) [OF P idx] by (simp add: less_Suc_eq)
  qed
  moreover have "unmap_walk idx ?m' ?L t = unmap_walk idx (kmem s) ?L t"
    if idx: "indices_ok idx" "unat (idx ! ?L) < copy_width ?L" for idx
    using at_i(2) [OF idx(1)] other' [OF idx] protectsD(9) [OF P idx] by (cases "idx ! ?L = i") simp_all
  moreover have "push_bit 12 (page_no ?L v idx) \<in> set (invlpg w)"
    if idx: "indices_ok idx" "unat (idx ! ?L) < Suc k" "unmap_walk idx (kmem s) ?L t \<noteq> None" for idx
  proof (cases "idx ! ?L = i")
    case True
    then show ?thesis using at_i(3) [OF idx(1) True] protectsD(9) [OF P idx(1)] idx(3) ik(1) k by simp
  next
    case False
    then have "unat (idx ! ?L) < k" using i(1) idx(2) by (auto simp: less_Suc_eq)
    then show ?thesis using protectsD(11) [OF P idx(1) _ idx(3)] protectsD(10) [OF W] by blast
  qed
  ultimately show ?thesis
    using sub(2,3,5) protectsD(2-4,10) [OF P] protectsD(2,3,10) [OF W] protectsD(6) [OF P] e same
    unfolding protects_def by auto
qed

lemma protect_loop:
  fixes s :: "'z vm_scheme"
  assumes IH: "protector l TYPE('z)" and l: "l < 3"
    and ok: "tables_ok (Suc l) s t" and plain: "no_huge (Suc l) (kmem s) t"
  shows "\<exists>u. paging_make_readonly_recursive (Suc (Suc l)) t v s = Some u \<and>
    protects (copy_width (Suc l)) (Suc l) t v s u"
proof -
  let ?W = "copy_width (Suc l)"
  have "\<exists>u. for_each (protect_table l t v) [0..<?W] s = Some u \<and> protects (length [0..<?W]) (Suc l) t v s u"
  proof (rule for_each_invariant [where P = "\<lambda>k u. protects k (Suc l) t v s u"])
    show "protects 0 (Suc l) t v s s" by (rule protects_start [OF ok plain])
  next
    fix k u assume "k < length [0..<?W]" and P: "protects k (Suc l) t v s u"
    then have k: "k < ?W" "[0..<?W] ! k = k" by simp_all
    note i = protect_width [OF k(1)]
    note e = protectsD(6) [OF P zero_less_Suc i(2)]
    have "\<exists>w. protect_table l t v k u = Some w \<and> protects (Suc k) (Suc l) t v s w"
    proof (cases "present (entry (kmem u) t (of_nat k))")
      case False
      then have "protect_table l t v k u = Some u" by (simp add: protect_table_def present_def)
      with protects_step_absent [OF P k(1) e] False e show ?thesis by simp
    next
      case True
      have lv: "live (entry (kmem u) t (of_nat k))" "no_huge l (kmem u) (child_of (kmem u) t (of_nat k))"
        using protectsD(5) [OF P] True i k(1) by (simp_all add: live_def)
      obtain w where w: "paging_make_readonly_recursive (Suc l) (child_of (kmem u) t (of_nat k))
          (push_bit 9 v OR of_nat k) u = Some w"
        "protects (copy_width l) l (child_of (kmem u) t (of_nat k)) (push_bit 9 v OR of_nat k) u w"
        using IH tables_ok_child [OF protectsD(1) [OF P] i(2) lv(1)] lv(2) unfolding protector_def by blast
      have "protect_table l t v k u = Some w" using True w(1) by (simp add: protect_table_def present_def)
      with protects_step_present [OF P k(1) l refl lv(1) w(2)] show ?thesis by blast
    qed
    with k(2) show "\<exists>w. protect_table l t v ([0..<?W] ! k) u = Some w \<and> protects (Suc k) (Suc l) t v s w" by simp
  qed
  then show ?thesis by (simp only: protect_recursive length_upt diff_zero)
qed

lemma protector_all: "l < 4 \<Longrightarrow> protector l TYPE('z)"
proof (induction l)
  case 0
  show ?case unfolding protector_def by (intro allI impI protect_leaf)
next
  case (Suc l)
  then have "protector l TYPE('z)" "l < 3" by simp_all
  from protect_loop [OF this] show ?case unfolding protector_def by blast
qed

section \<open>Properties\<close>

lemma join_bits:
  fixes w :: u64
  assumes "a + 9 \<le> 64"
  shows "push_bit 9 (take_bit a (drop_bit (b + 9) w)) OR take_bit 9 (drop_bit b w) = take_bit (a + 9) (drop_bit b w)"
proof (rule bit_word_eqI)
  fix n :: nat assume n: "n < LENGTH(64)"
  show "bit (push_bit 9 (take_bit a (drop_bit (b + 9) w)) OR take_bit 9 (drop_bit b w)) n =
      bit (take_bit (a + 9) (drop_bit b w)) n"
    using n by (cases "n < 9") (auto simp: bit_simps)
qed

lemma page_no_vpage: "page_no 3 0 (vaddr_to_index w) = vpage w"
proof -
  have three: "3 = Suc (Suc (Suc 0))" by simp
  have "page_no 3 0 (vaddr_to_index w) = push_bit 9 (push_bit 9 (push_bit 9 (take_bit 9 (drop_bit 39 w)) OR
      take_bit 9 (drop_bit 30 w)) OR take_bit 9 (drop_bit 21 w)) OR take_bit 9 (drop_bit 12 w)"
    unfolding three by (simp add: vaddr_to_index_nth)
  also have "\<dots> = vpage w"
    using join_bits [of 9 30 w] join_bits [of 18 21 w] join_bits [of 27 12 w] by (simp add: vpage_def)
  finally show ?thesis .
qed

text \<open>C9: Write protection of an address space clears the writable flag of the translation of every
  address of the lower half, keeps the rest of these translations and all those of the upper half, takes
  no frame and writes no frame other than the tables, and the page of every address of the lower half
  whose tables exist is flushed from the translation buffer.\<close>

theorem paging_make_readonly_correct:
  assumes ok: "paging_ok s root" and plain: "no_huge 3 (kmem s) root"
  shows "\<exists>t. paging_make_readonly s root = Some t \<and> paging_ok t root \<and>
    (\<forall>w. paging_get t root w =
       (if vaddr_to_index w ! 3 < 256 then paging_get s root w AND NOT PAGING_WRITABLE else paging_get s root w)) \<and>
    (\<forall>w. vaddr_to_index w ! 3 < 256 \<longrightarrow> unmap_walk (vaddr_to_index w) (kmem s) 3 root \<noteq> None \<longrightarrow>
       push_bit 12 (vpage w) \<in> set (invlpg t)) \<and>
    frame_owned t = frame_owned s \<and> frames_avail t = frames_avail s \<and>
    same_on {x. frame_owned s x \<and> x \<notin> tabs 3 (kmem s) root} (kmem s) (kmem t)"
proof -
  have four: "(3 :: nat) < 4" by simp
  obtain t where t: "paging_make_readonly_recursive (Suc 3) root 0 s = Some t"
    "protects (copy_width 3) 3 root 0 s t"
    using protector_all [OF four] ok plain unfolding protector_def by blast
  have "unat (vaddr_to_index w ! 3) < copy_width 3 \<longleftrightarrow> vaddr_to_index w ! 3 < 256" for w
    by (simp add: copy_width_def word_less_nat_alt)
  with protectsD [OF t(2)] t(1) show ?thesis
    by (intro exI [of _ t]) (simp add: paging_make_readonly_def paging_get_def flip: page_no_vpage)
qed

theorem paging_make_readonly_correct_witness:
  "\<exists>t. paging_make_readonly copy_example 0xffff800000001000 = Some t \<and>
     paging_get copy_example 0xffff800000001000 0x400000 = 0x5003 \<and>
     paging_get t 0xffff800000001000 0x400000 = 0x5001 \<and> 0x400000 \<in> set (invlpg t)"
proof -
  let ?r = "0xffff800000001000 :: ptr"
  note p = copy_example_paging
  have i: "vaddr_to_index 0x400000 = [0, 2, 0, 0]" by (simp add: vaddr_to_index_def Let_def)
  have plain: "no_huge 3 (kmem copy_example) ?r" by (simp only: p(3) copy_example_tables(3))
  have get: "paging_get copy_example ?r 0x400000 = 0x5003"
    using copy_entries(4) [of 0] by (simp add: paging_get_def p(3) i copy_example_walk(1))
  from paging_make_readonly_correct [OF p(1) plain] obtain t where
    t: "paging_make_readonly copy_example ?r = Some t" and
    gets: "\<forall>w. paging_get t ?r w = (if vaddr_to_index w ! 3 < 256 then paging_get copy_example ?r w AND NOT PAGING_WRITABLE
       else paging_get copy_example ?r w)" and
    fl: "\<forall>w. vaddr_to_index w ! 3 < 256 \<longrightarrow> unmap_walk (vaddr_to_index w) (kmem copy_example) 3 ?r \<noteq> None \<longrightarrow>
       push_bit 12 (vpage w) \<in> set (invlpg t)" by blast
  have "paging_get t ?r 0x400000 = 0x5001" using gets get by (simp add: i PAGING_WRITABLE_def)
  moreover have "push_bit 12 (vpage 0x400000) = 0x400000" by (simp add: vpage_def)
  then have "0x400000 \<in> set (invlpg t)"
    using fl [rule_format, of "0x400000"] copy_example_walk(2) [of 0] i p(3) by simp
  ultimately show ?thesis using t get by blast
qed

end
