(* ===== verification/Vmm.thy ===== *)
theory Vmm
  imports Paging_Tree
begin

text \<open>
  The virtual memory manager (\<^verbatim>\<open>memory/vmm.c\<close>): backing a range of pages with frames, and
  releasing them.
\<close>

definition vmm_request_page ::
  "ptr \<Rightarrow> ptr \<Rightarrow> u8 \<Rightarrow> nat \<Rightarrow> 'z vm_scheme \<Rightarrow> 'z vm_scheme option" where
  "vmm_request_page table vaddr flags i s =
     (let target_vaddr = vaddr + of_nat i * 0x1000;
          entry = paging_get s table target_vaddr
      in if entry AND PAGING_PRESENT \<noteq> 0 then Some s
         else do { (memory, s1) \<leftarrow> pmm_request_pages s 1;
                   paging_map s1 table target_vaddr memory flags })"

definition vmm_request_at ::
  "'z vm_scheme \<Rightarrow> ptr \<Rightarrow> ptr \<Rightarrow> u64 \<Rightarrow> u8 \<Rightarrow> 'z vm_scheme option" where
  "vmm_request_at s table vaddr n flags =
     for_each (vmm_request_page table vaddr flags) [0..<unat n] s"

definition vmm_release_at ::
  "'z vm_scheme \<Rightarrow> ptr \<Rightarrow> ptr \<Rightarrow> u64 \<Rightarrow> 'z vm_scheme option" where
  "vmm_release_at s table vaddr n =
     (let entry = paging_get s table vaddr in
      if entry AND PAGING_PRESENT = 0 then Some s
      else do { s1 \<leftarrow> pmm_release_pages s (entry AND NOT 0xfff) n;
                Some (paging_unmap s1 table vaddr) })"

section \<open>Backing a page\<close>

lemma entry_frame:
  assumes "page_aligned q"
  shows "(q OR ucast (flags :: u8) OR PAGING_PRESENT) AND NOT 0xfff = q"
proof -
  from assms obtain k where "unat q = 4096 * k" by (metis page_alignedE)
  then have "unat (take_bit 12 q) = 0" by (simp add: take_bit_eq_mod unat_mod)
  then have "take_bit 12 q = 0" by (simp add: u64_eq_iff_unat)
  then have low: "\<not> bit q n" if "n < 12" for n
    using that by (metis bit_take_bit_iff bit_0_eq bot_apply bot_bool_def)
  have flags: "bit flags n \<Longrightarrow> n < 8" for n by (drule bit_imp_le_length) simp
  show ?thesis
    unfolding mask12 PAGING_PRESENT_def
    by (rule bit_word_eqI)
      (use low in \<open>auto simp: bit_simps not_le dest: flags\<close>)
qed

lemma entry_present: "present (q OR f OR PAGING_PRESENT)"
  by (simp add: present_bit PAGING_PRESENT_def bit_simps)

lemma tables_ok_palloc:
  assumes ok: "tables_ok l s t" and av: "0 < frames_avail s" and l: "l < 4"
  obtains q s1 where "pmm_request_pages s 1 = Some (q, s1)" "page_aligned q" "tables_ok l s1 t"
    "frames_avail s1 = frames_avail s - 1" "\<not> frame_owned s (addr_offset_higher q)"
    "\<And>x. frame_owned s1 x \<longleftrightarrow> frame_owned s x \<or> x = addr_offset_higher q"
    "\<And>idx. indices_ok idx \<Longrightarrow> get_walk idx (kmem s1) l t = get_walk idx (kmem s) l t"
    "path_kept l (kmem s) (kmem s1) t" "total_memory s1 = total_memory s"
    "\<And>a. a \<notin> window s \<Longrightarrow> kmem s1 a = kmem s a" "pmm.more s1 = pmm.more s"
    "tabs l (kmem s1) t = tabs l (kmem s) t"
proof -
  have pok: "palloc_ok s" and tr: "tree l (kmem s) t"
    and own: "\<And>x. x \<in> tabs l (kmem s) t \<Longrightarrow> frame_owned s x"
    using ok unfolding tables_ok_def by blast+
  from palloc_one [OF pok av] obtain r where r: "grantable s r 1"
    "palloc s 1 = Some (addr_offset_higher (page_addr r), request_state s r 1)" by metis
  define q where "q = page_addr r"
  define s1 where "s1 = request_state s r 1"
  have req: "pmm_request_pages s 1 = Some (q, s1)"
    using r(2) unfolding palloc_def q_def s1_def
    by (cases "pmm_request_pages s 1") (auto simp: addr_offset_higher_def)
  have p: "palloc s 1 = Some (addr_offset_higher q, s1)" using r by (simp add: q_def s1_def)
  from pa.alloc_fresh [OF pok av] p have
    a: "palloc_ok s1" "frames_avail s1 = frames_avail s - 1" "\<not> frame_owned s (addr_offset_higher q)"
      "\<And>x. frame_owned s1 x \<longleftrightarrow> frame_owned s x \<or> x = addr_offset_higher q"
      "\<And>x a. frame_owned s1 x \<Longrightarrow> a \<in> frame x \<Longrightarrow> kmem s1 a = kmem s a"
    by auto
  have same: "same_on (tabs l (kmem s) t) (kmem s) (kmem s1)"
    using own a(4,5) unfolding same_on_def by blast
  have al: "page_aligned q"
    unfolding page_aligned_def q_def
    using r(1) pmm_inv_pages [of s] by (subst unat_page_addr) (auto simp: grantable_def)
  have tabs: "tabs l (kmem s1) t = tabs l (kmem s) t" by (rule tabs_same [OF tr same])
  have "tables_ok l s1 t"
    unfolding tables_ok_def tabs using a(1,4) own tree_same [OF tr same] by blast
  then show ?thesis
    using that [OF req al] a walks_same [OF _ l tr same] palloc_one_more [OF pok av p]
      palloc_one_outside [OF pok av p] tabs
    unfolding path_kept_def by blast
qed

text \<open>Backing one page, as seen from the tables.\<close>

lemma vmm_request_page_spec:
  assumes ok: "paging_ok s root" and av: "4 \<le> frames_avail s"
    and path: "path_ok (vaddr_to_index (v + of_nat i * 0x1000)) (kmem s) 3 root"
  defines "w \<equiv> v + of_nat i * 0x1000"
  obtains s' where "vmm_request_page root v flags i s = Some s'" "paging_ok s' root"
    "frames_avail s \<le> frames_avail s' + 4" "path_kept 3 (kmem s) (kmem s') root"
    "total_memory s' = total_memory s" "\<And>a. a \<notin> window s \<Longrightarrow> kmem s' a = kmem s a"
    "\<And>x. frame_owned s x \<Longrightarrow> frame_owned s' x" "kernel_table s' = kernel_table s"
    "\<And>u. vpage u \<noteq> vpage w \<or> present (paging_get s root u) \<Longrightarrow>
      paging_get s' root u = paging_get s root u"
    "present (paging_get s' root w)"
    "\<not> present (paging_get s root w) \<Longrightarrow>
      \<exists>q. page_aligned q \<and> paging_get s' root w = q OR ucast flags OR PAGING_PRESENT \<and>
        frame_owned s' (addr_offset_higher q) \<and> \<not> frame_owned s (addr_offset_higher q)"
proof (cases "present (paging_get s root w)")
  case True
  then have eq: "vmm_request_page root v flags i s = Some s"
    by (simp add: vmm_request_page_def Let_def w_def present_def)
  show ?thesis using ok True by (intro that [OF eq]) (simp_all add: path_kept_def)
next
  case False
  have av1: "0 < frames_avail s" and four: "(3 :: nat) < 4" using av by simp_all
  obtain q s1 where q: "pmm_request_pages s 1 = Some (q, s1)" "page_aligned q" "paging_ok s1 root"
    "frames_avail s1 = frames_avail s - 1" "\<not> frame_owned s (addr_offset_higher q)"
    "\<And>x. frame_owned s1 x \<longleftrightarrow> frame_owned s x \<or> x = addr_offset_higher q"
    "\<And>idx. indices_ok idx \<Longrightarrow> get_walk idx (kmem s1) 3 root = get_walk idx (kmem s) 3 root"
    "path_kept 3 (kmem s) (kmem s1) root" "total_memory s1 = total_memory s"
    "\<And>a. a \<notin> window s \<Longrightarrow> kmem s1 a = kmem s a" "pmm.more s1 = pmm.more s"
    by (rule tables_ok_palloc [OF ok av1 four]) blast
  have path1: "path_ok (vaddr_to_index w) (kmem s1) 3 root"
    using q(8) path by (simp add: path_kept_def w_def)
  have av3: "3 \<le> frames_avail s1" using av q(4) by simp
  obtain s' where m: "paging_map s1 root w q flags = Some s'" "paging_ok s' root"
    "paging_get s' root w = q OR ucast flags OR PAGING_PRESENT"
    "\<And>u. vpage u \<noteq> vpage w \<Longrightarrow> paging_get s' root u = paging_get s1 root u"
    "\<And>x. frame_owned s1 x \<Longrightarrow> frame_owned s' x" "frames_avail s1 \<le> frames_avail s' + 3"
    "path_kept 3 (kmem s1) (kmem s') root"
    "total_memory s' = total_memory s1" "\<And>a. a \<notin> window s1 \<Longrightarrow> kmem s' a = kmem s1 a"
    "kernel_table s' = kernel_table s1"
    by (rule paging_map_spec [OF q(3) path1 av3, of q flags]) blast
  have eq: "vmm_request_page root v flags i s = Some s'"
    using False q(1) m(1) by (simp add: vmm_request_page_def Let_def w_def present_def)
  have get1: "paging_get s1 root u = paging_get s root u" for u
    using q(7) by (simp add: paging_get_def)
  show ?thesis
  proof (rule that [OF eq m(2)])
    show "path_kept 3 (kmem s) (kmem s') root" using q(8) m(7) by (simp add: path_kept_def)
    show "kmem s' a = kmem s a" if "a \<notin> window s" for a
      using that q(10) m(9) window_cong [OF q(9)] by simp
    show "paging_get s' root u = paging_get s root u"
      if "vpage u \<noteq> vpage w \<or> present (paging_get s root u)" for u
    proof -
      have "paging_get s root u = paging_get s root w" if "vpage u = vpage w"
        using vpage_eq_index [OF that] by (simp add: paging_get_def)
      with that False have "vpage u \<noteq> vpage w" by metis
      then show ?thesis using m(4) get1 by simp
    qed
  qed (use q m vm_more_fields(1) [OF q(11)] entry_present in auto)
qed


section \<open>Backing a range\<close>

definition vpage_at :: "ptr \<Rightarrow> nat \<Rightarrow> ptr" where
  "vpage_at v i = v + of_nat i * 0x1000"

text \<open>
  What holds after the first \<open>k\<close> pages: they are present; pages that were present, and pages
  outside the range, translate as before; a page that was missing maps a frame that was not owned
  before, and different pages got different frames.
\<close>

definition backed ::
  "'z vm_scheme \<Rightarrow> ptr \<Rightarrow> ptr \<Rightarrow> u8 \<Rightarrow> nat \<Rightarrow> 'z vm_scheme \<Rightarrow> bool" where
  "backed s root v flags k t \<longleftrightarrow>
     (\<forall>u. (\<forall>i<k. vpage u \<noteq> vpage (vpage_at v i)) \<or> present (paging_get s root u) \<longrightarrow>
        paging_get t root u = paging_get s root u) \<and>
     (\<forall>i<k. present (paging_get t root (vpage_at v i))) \<and>
     (\<forall>i<k. \<not> present (paging_get s root (vpage_at v i)) \<longrightarrow>
        (\<exists>q. page_aligned q \<and>
           paging_get t root (vpage_at v i) = q OR ucast flags OR PAGING_PRESENT \<and>
           frame_owned t (addr_offset_higher q) \<and> \<not> frame_owned s (addr_offset_higher q))) \<and>
     (\<forall>i<k. \<forall>j<k. \<not> present (paging_get s root (vpage_at v i)) \<longrightarrow>
        \<not> present (paging_get s root (vpage_at v j)) \<longrightarrow>
        vpage (vpage_at v i) \<noteq> vpage (vpage_at v j) \<longrightarrow>
        paging_get t root (vpage_at v i) AND NOT 0xfff \<noteq>
        paging_get t root (vpage_at v j) AND NOT 0xfff)"

lemma paging_get_vpage: "vpage u = vpage w \<Longrightarrow> paging_get s root u = paging_get s root w"
  using vpage_eq_index [of u w] by (simp add: paging_get_def)

lemma backed_Suc:
  assumes b: "backed s root v flags k t"
    and own: "\<And>x. frame_owned s x \<Longrightarrow> frame_owned t x" "\<And>x. frame_owned t x \<Longrightarrow> frame_owned t' x"
    and keep: "\<And>u. vpage u \<noteq> vpage (vpage_at v k) \<or> present (paging_get t root u) \<Longrightarrow>
      paging_get t' root u = paging_get t root u"
    and pres: "present (paging_get t' root (vpage_at v k))"
    and fresh: "\<not> present (paging_get t root (vpage_at v k)) \<Longrightarrow>
      \<exists>q. page_aligned q \<and>
        paging_get t' root (vpage_at v k) = q OR ucast flags OR PAGING_PRESENT \<and>
        frame_owned t' (addr_offset_higher q) \<and> \<not> frame_owned t (addr_offset_higher q)"
  shows "backed s root v flags (Suc k) t'"
proof -
  let ?w = "vpage_at v"
  let ?new = "\<lambda>i. \<not> present (paging_get s root (?w i))"
  let ?fr = "\<lambda>t i. paging_get t root (?w i) AND NOT 0xfff"
  have old: "\<And>u. (\<forall>i<k. vpage u \<noteq> vpage (?w i)) \<or> present (paging_get s root u) \<Longrightarrow>
      paging_get t root u = paging_get s root u"
    and bp: "\<And>i. i < k \<Longrightarrow> present (paging_get t root (?w i))"
    and bf: "\<And>i. i < k \<Longrightarrow> ?new i \<Longrightarrow> \<exists>q. page_aligned q \<and>
      paging_get t root (?w i) = q OR ucast flags OR PAGING_PRESENT \<and>
      frame_owned t (addr_offset_higher q) \<and> \<not> frame_owned s (addr_offset_higher q)"
    and bd: "\<And>i j. i < k \<Longrightarrow> j < k \<Longrightarrow> ?new i \<Longrightarrow> ?new j \<Longrightarrow> vpage (?w i) \<noteq> vpage (?w j) \<Longrightarrow>
      ?fr t i \<noteq> ?fr t j"
    using b unfolding backed_def by blast+
  have same: "paging_get t' root (?w i) = paging_get t root (?w i)" if "i < k" for i
    using keep bp [OF that] by blast
  have isnew: "\<not> present (paging_get t root (?w k))"
    if "?new k" "\<And>i. i < k \<Longrightarrow> vpage (?w k) \<noteq> vpage (?w i)"
    using old [of "?w k"] that by simp
  have new': "\<exists>q. page_aligned q \<and>
      paging_get t' root (?w i) = q OR ucast flags OR PAGING_PRESENT \<and>
      frame_owned t' (addr_offset_higher q) \<and> \<not> frame_owned s (addr_offset_higher q)"
    if i: "i < Suc k" and n: "?new i" for i
  proof (cases "i < k")
    case True
    with bf n same own(2) show ?thesis by metis
  next
    case False
    with i have ik: "i = k" by simp
    show ?thesis
    proof (cases "\<exists>j<k. vpage (?w k) = vpage (?w j)")
      case True
      then obtain j where j: "j < k" "vpage (?w k) = vpage (?w j)" by blast
      with n ik have "?new j" using paging_get_vpage by metis
      with bf [OF j(1)] same [OF j(1)] own(2) j(2) ik show ?thesis
        using paging_get_vpage by metis
    next
      case False
      with isnew n ik fresh own(1) show ?thesis by blast
    qed
  qed
  have split: "?fr t' i \<noteq> ?fr t' k"
    if i: "i < k" and n: "?new i" "?new k" and ne: "vpage (?w i) \<noteq> vpage (?w k)" for i
  proof (cases "\<exists>j<k. vpage (?w k) = vpage (?w j)")
    case True
    then obtain j where j: "j < k" "vpage (?w k) = vpage (?w j)" by blast
    with n(2) have "?new j" using paging_get_vpage by metis
    with bd [OF i j(1) n(1)] ne j(2) have "?fr t i \<noteq> ?fr t j" by simp
    then show ?thesis using same i j paging_get_vpage [OF j(2), of t' root] by simp
  next
    case False
    with isnew n(2) have "\<not> present (paging_get t root (?w k))" by blast
    with fresh obtain q where q: "page_aligned q"
      "paging_get t' root (?w k) = q OR ucast flags OR PAGING_PRESENT"
      "\<not> frame_owned t (addr_offset_higher q)" by blast
    from bf [OF i n(1)] obtain p where p: "page_aligned p"
      "paging_get t root (?w i) = p OR ucast flags OR PAGING_PRESENT"
      "frame_owned t (addr_offset_higher p)" by blast
    have "?fr t' i = p" "?fr t' k = q"
      using entry_frame [OF p(1)] entry_frame [OF q(1)] p(2) q(2) same [OF i] by simp_all
    then show ?thesis using p(3) q(3) by auto
  qed
  have out: "paging_get t' root u = paging_get s root u"
    if u: "(\<forall>i<Suc k. vpage u \<noteq> vpage (?w i)) \<or> present (paging_get s root u)" for u
  proof -
    have "paging_get t root u = paging_get s root u" using u old less_SucI by blast
    moreover have "vpage u \<noteq> vpage (?w k) \<or> present (paging_get t root u)"
      using u calculation by auto
    ultimately show ?thesis using keep by simp
  qed
  show ?thesis
    unfolding backed_def
  proof (intro conjI allI impI)
    show "present (paging_get t' root (?w i))" if "i < Suc k" for i
      using that pres bp same by (cases "i = k") simp_all
    show "?fr t' i \<noteq> ?fr t' j"
      if "i < Suc k" "j < Suc k" "?new i" "?new j" "vpage (?w i) \<noteq> vpage (?w j)" for i j
    proof (cases "i = k \<or> j = k")
      case True
      with that split [of i] split [of j] show ?thesis by (metis less_SucE)
    next
      case False
      with that bd same show ?thesis by simp
    qed
  qed (use out new' in blast)+
qed

lemma vmm_request_at_spec:
  assumes ok: "paging_ok s root" and av: "4 * unat n \<le> frames_avail s"
    and path: "\<And>i. i < unat n \<Longrightarrow> path_ok (vaddr_to_index (vpage_at v i)) (kmem s) 3 root"
  obtains s' where "vmm_request_at s root v n flags = Some s'" "paging_ok s' root"
    "backed s root v flags (unat n) s'" "frames_avail s \<le> frames_avail s' + 4 * unat n"
    "path_kept 3 (kmem s) (kmem s') root"
    "total_memory s' = total_memory s" "\<And>a. a \<notin> window s \<Longrightarrow> kmem s' a = kmem s a"
    "\<And>x. frame_owned s x \<Longrightarrow> frame_owned s' x" "kernel_table s' = kernel_table s"
proof -
  let ?P = "\<lambda>k t. paging_ok t root \<and> frames_avail s \<le> frames_avail t + 4 * k \<and>
    path_kept 3 (kmem s) (kmem t) root \<and> total_memory t = total_memory s \<and>
    (\<forall>a. a \<notin> window s \<longrightarrow> kmem t a = kmem s a) \<and> (\<forall>x. frame_owned s x \<longrightarrow> frame_owned t x) \<and>
    kernel_table t = kernel_table s \<and> backed s root v flags k t"
  have "\<exists>t. for_each (vmm_request_page root v flags) [0..<unat n] s = Some t \<and>
    ?P (length [0..<unat n]) t"
  proof (rule for_each_invariant [where P = ?P])
    show "?P 0 s" using ok by (simp add: path_kept_def backed_def)
    fix k and t :: "'a vm_scheme"
    assume "k < length [0..<unat n]" and P: "?P k t"
    then have k: "k < unat n" "[0..<unat n] ! k = k" by simp_all
    have av': "4 \<le> frames_avail t" using P av k(1) by linarith
    have pk: "path_ok (vaddr_to_index (v + of_nat k * 0x1000)) (kmem t) 3 root"
      using P path [OF k(1)] by (simp add: path_kept_def vpage_at_def)
    from P have okt: "paging_ok t root" by blast
    obtain t' where t': "vmm_request_page root v flags k t = Some t'" "paging_ok t' root"
      "frames_avail t \<le> frames_avail t' + 4" "path_kept 3 (kmem t) (kmem t') root"
      "total_memory t' = total_memory t" "\<And>a. a \<notin> window t \<Longrightarrow> kmem t' a = kmem t a"
      "\<And>x. frame_owned t x \<Longrightarrow> frame_owned t' x" "kernel_table t' = kernel_table t"
      "\<And>u. vpage u \<noteq> vpage (vpage_at v k) \<or> present (paging_get t root u) \<Longrightarrow>
        paging_get t' root u = paging_get t root u"
      "present (paging_get t' root (vpage_at v k))"
      "\<not> present (paging_get t root (vpage_at v k)) \<Longrightarrow>
        \<exists>q. page_aligned q \<and>
          paging_get t' root (vpage_at v k) = q OR ucast flags OR PAGING_PRESENT \<and>
          frame_owned t' (addr_offset_higher q) \<and> \<not> frame_owned t (addr_offset_higher q)"
      by (rule vmm_request_page_spec [OF okt av' pk, folded vpage_at_def, of flags]) blast
    have "backed s root v flags (Suc k) t'"
      using P t'(7,9-11) by (intro backed_Suc [of s root v flags k t]) blast+
    then have "?P (Suc k) t'"
      using P t'(2-8) window_cong [of t s] by (simp add: path_kept_def)
    with t'(1) k(2) show "\<exists>t'. vmm_request_page root v flags ([0..<unat n] ! k) t = Some t' \<and>
      ?P (Suc k) t'" by auto
  qed
  then show ?thesis using that unfolding vmm_request_at_def by auto
qed


section \<open>Releasing a range\<close>

text \<open>The pages from \<open>p\<close> on that a release of \<open>n\<close> pages gives back.\<close>

definition released :: "ptr \<Rightarrow> u64 \<Rightarrow> nat set" where
  "released p n = {unat p div 4096..<unat p div 4096 + unat n}"

text \<open>Releasing frames that hold neither tables nor the bitmap leaves the tables as they are.\<close>

lemma tables_ok_release:
  assumes ok: "tables_ok l s t" and l: "l < 4" and fit: "unat p div 4096 + unat n \<le> pmm_pages s"
    and no_table: "\<And>x. x \<in> tabs l (kmem s) t \<Longrightarrow> page_of x \<notin> released p n"
    and no_bitmap: "\<And>a. \<not> outside_bitmap s a \<Longrightarrow> page_of a \<notin> released p n"
  obtains s' where "pmm_release_pages s p n = Some s'" "tables_ok l s' t"
    "\<And>idx. indices_ok idx \<Longrightarrow> get_walk idx (kmem s') l t = get_walk idx (kmem s) l t"
    "path_kept l (kmem s) (kmem s') t" "pmm.more s' = pmm.more s"
    "\<And>j. j \<in> released p n \<Longrightarrow> \<not> page_locked s' j"
    "page_bitmap s' = page_bitmap s" "total_memory s' = total_memory s"
proof -
  have pok: "palloc_ok s" and tr: "tree l (kmem s) t"
    and own: "\<And>x. x \<in> tabs l (kmem s) t \<Longrightarrow> frame_owned s x"
    using ok unfolding tables_ok_def by blast+
  have inv: "pmm_inv s" using pok by (simp add: palloc_ok_def)
  obtain s' where s': "pmm_release_pages s p n = Some s'" "pmm_inv s'"
    "\<And>j. j < 4503599627370496 \<Longrightarrow> page_locked s' j \<longleftrightarrow> page_locked s j \<and>
      \<not> (unat p div 4096 \<le> j \<and> j < unat p div 4096 + unat n)"
    "page_bitmap s' = page_bitmap s" "total_memory s' = total_memory s"
    "\<And>a. outside_bitmap s a \<Longrightarrow> kmem s' a = kmem s a" "pmm.more s' = pmm.more s"
    by (rule pmm_release_pages_spec [OF inv fit]) blast
  have locked: "page_locked s' (page_of a) \<longleftrightarrow> page_locked s (page_of a)"
    if "page_of a \<notin> released p n" for a
    using s'(3) [of "page_of a"] page_of_lt [of a] that by (auto simp: released_def)
  have out: "outside_bitmap s' a = outside_bitmap s a" for a by (simp add: outside_bitmap_def s'(4))
  have "bitmap_safe s'"
    using pok no_bitmap locked by (auto simp: palloc_ok_def bitmap_safe_def out s'(5))
  then have pok': "palloc_ok s'" using pok s'(2,5) by (simp add: palloc_ok_def)
  have same: "same_on (tabs l (kmem s) t) (kmem s) (kmem s')"
    using own s'(6) unfolding same_on_def frame_owned_def by blast
  have own': "frame_owned s' x" if "x \<in> tabs l (kmem s) t" for x
    using own [OF that] locked [OF no_table [OF that]] by (simp add: frame_owned_def out s'(5))
  have "tables_ok l s' t"
    unfolding tables_ok_def tabs_same [OF tr same] using pok' tree_same [OF tr same] own' by blast
  moreover have "\<not> page_locked s' j" if "j \<in> released p n" for j
    using that s'(3) [of j] fit pmm_inv_pages [OF inv] by (auto simp: released_def)
  ultimately show ?thesis
    using that [OF s'(1)] s' walks_same [OF _ l tr same] unfolding path_kept_def by blast
qed

lemma paging_unmap_locked:
  assumes ok: "paging_ok s root" and path: "path_ok (vaddr_to_index v) (kmem s) 3 root"
    and j: "j < pmm_pages s"
  shows "page_locked (paging_unmap s root v) j = page_locked s j"
proof (cases "unmap_walk (vaddr_to_index v) (kmem s) 3 root")
  case None
  then show ?thesis by (simp add: paging_unmap_def Let_def)
next
  case (Some t0)
  have t0: "t0 \<in> tabs 3 (kmem s) root"
    by (rule leaf_in_tabs [OF indices_ok_vaddr _ path Some]) simp
  then have "frame_owned s t0" using ok unfolding tables_ok_def by blast
  then have t: "page_aligned t0" "\<And>a. a \<in> frame t0 \<Longrightarrow> outside_bitmap s a"
    by (simp_all add: frame_owned_def table_ptr_def)
  let ?i = "vaddr_to_index v ! 0"
  have i: "?i < 512" using indices_ok_vaddr [of v] by (simp add: indices_ok_def)
  have m: "store64 (kmem s) (t0 + 8 * ?i) 0 a = kmem s a" if "\<not> outside_bitmap s a" for a
    using store64_slot_other [OF t(1) i] t(2) that by blast
  have bits: "pmm_pages s < bitmap_bits s" "bitmap_bits s \<le> 4503599627370496"
    using ok by (simp_all add: tables_ok_def palloc_ok_def pmm_inv_def)
  have "page_locked (s\<lparr>kmem := store64 (kmem s) (t0 + 8 * ?i) 0\<rparr>) j = page_locked s j"
    using j bits by (intro page_locked_write m) simp_all
  then show ?thesis
    using Some by (simp add: paging_unmap_def Let_def paging_flush_tlb_def page_locked_def)
qed

section \<open>Properties\<close>

text \<open>C16: Requesting memory for a range of pages succeeds when four frames per page are left:
  afterwards every page of the range is present; pages that were present and pages outside the
  range translate as before; every page that was missing maps, with the given flags, a frame that
  was not in use, and different pages map different frames.\<close>

theorem vmm_request_at_correct:
  assumes "paging_ok s root" and "4 * unat n \<le> frames_avail s"
    and "\<And>i. i < unat n \<Longrightarrow> path_ok (vaddr_to_index (vpage_at v i)) (kmem s) 3 root"
  shows "\<exists>s'. vmm_request_at s root v n flags = Some s' \<and> paging_ok s' root \<and>
    backed s root v flags (unat n) s'"
  by (rule vmm_request_at_spec [OF assms, of flags]) blast+

theorem vmm_request_at_correct_witness:
  "\<exists>s'. vmm_request_at vm_example 0xffff800000001000 0x400000 1 2 = Some s' \<and>
    present (paging_get s' 0xffff800000001000 0x400000)"
proof -
  have "4 * unat (1 :: u64) \<le> frames_avail vm_example" by (simp add: vm_example_avail)
  from vmm_request_at_correct [OF vm_example_ok this vm_example_path, of "0x400000" 2]
  show ?thesis by (auto simp: backed_def vpage_at_def)
qed

text \<open>The number of the frame an entry points to.\<close>

definition frame_number :: "u64 \<Rightarrow> nat" where
  "frame_number e = unat (e AND NOT 0xfff) div 4096"

text \<open>C39: Releasing \<open>n\<close> pages gives back the frame of the first page and the \<open>n - 1\<close> frames that
  follow it in memory, whether or not the range is mapped to them, and unmaps the first page only.
  Every other page keeps its translation, also a page that maps one of the frames given back, as the
  other pages of a range with neighbouring frames do: it then maps a frame that is free.\<close>

theorem vmm_release_at_leaves_mappings:
  assumes ok: "paging_ok s root" and path: "path_ok (vaddr_to_index v) (kmem s) 3 root"
    and pres: "present (paging_get s root v)"
    and p: "p = paging_get s root v AND NOT 0xfff"
    and fit: "unat p div 4096 + unat n \<le> pmm_pages s"
    and no_table: "\<And>x. x \<in> tabs 3 (kmem s) root \<Longrightarrow> page_of x \<notin> released p n"
    and no_bitmap: "\<And>a. \<not> outside_bitmap s a \<Longrightarrow> page_of a \<notin> released p n"
  shows "\<exists>s'. vmm_release_at s root v n = Some s' \<and> paging_get s' root v = 0 \<and>
    (\<forall>w. vpage w \<noteq> vpage v \<longrightarrow> paging_get s' root w = paging_get s root w) \<and>
    (\<forall>j\<in>released p n. \<not> page_locked s' j) \<and>
    (\<forall>w. vpage w \<noteq> vpage v \<longrightarrow> frame_number (paging_get s root w) \<in> released p n \<longrightarrow>
       \<not> page_locked s' (frame_number (paging_get s' root w)))"
proof -
  obtain s1 where s1: "pmm_release_pages s p n = Some s1" "paging_ok s1 root"
    "\<And>idx. indices_ok idx \<Longrightarrow> get_walk idx (kmem s1) 3 root = get_walk idx (kmem s) 3 root"
    "path_kept 3 (kmem s) (kmem s1) root" "\<And>j. j \<in> released p n \<Longrightarrow> \<not> page_locked s1 j"
    "total_memory s1 = total_memory s"
    by (rule tables_ok_release [OF ok _ fit no_table no_bitmap]) simp_all
  have path1: "path_ok (vaddr_to_index v) (kmem s1) 3 root"
    using s1(4) path by (simp add: path_kept_def)
  have get1: "paging_get s1 root w = paging_get s root w" for w
    using s1(3) by (simp add: paging_get_def)
  have eq: "vmm_release_at s root v n = Some (paging_unmap s1 root v)"
    using pres s1(1) by (simp add: vmm_release_at_def Let_def present_def p)
  have "\<not> page_locked (paging_unmap s1 root v) j" if "j \<in> released p n" for j
    using that fit paging_unmap_locked [OF s1(2) path1, of j] s1(5,6) by (simp add: released_def)
  then show ?thesis
    using eq paging_unmap_spec(2,3) [OF s1(2) path1] get1 by auto
qed


lemma vm_example_data:
  assumes "table_ptr x" and "page_of x = 14 \<or> page_of x = 15"
  shows "frame_owned vm_example x"
proof -
  have "outside_bitmap vm_example a" if "a \<in> frame x" for a
  proof (rule ccontr)
    assume "\<not> outside_bitmap vm_example a"
    then have "page_of a = 0" by (rule vm_example_bitmap(2))
    with that assms high_same_page [of x a] show False by (simp add: table_ptr_def)
  qed
  then show ?thesis
    using assms vm_example_locked [of "page_of x"]
    by (auto simp: frame_owned_def) (simp_all add: vm_example_def)
qed

text \<open>Two neighbouring pages are mapped to the frames 14 and 15 and released together.\<close>

theorem vmm_release_at_leaves_mappings_witness:
  "\<exists>(s :: vm) s'. vmm_release_at s 0xffff800000001000 0x400000 2 = Some s' \<and>
    paging_get s' 0xffff800000001000 0x400000 = 0 \<and>
    paging_get s' 0xffff800000001000 0x401000 = 0xf003 \<and>
    \<not> page_locked s' (frame_number (paging_get s' 0xffff800000001000 0x401000))"
proof -
  let ?r = "0xffff800000001000 :: ptr"
  have av: "3 \<le> frames_avail vm_example" by (simp add: vm_example_avail)
  obtain s1 :: vm where s1: "paging_ok s1 ?r"
    "paging_get s1 ?r 0x400000 = 0xe000 OR ucast (3 :: u8) OR PAGING_PRESENT"
    "\<And>x. frame_owned vm_example x \<Longrightarrow> frame_owned s1 x"
    "\<And>x. x \<in> tabs 3 (kmem s1) ?r \<Longrightarrow> frame_owned vm_example x \<Longrightarrow> x \<in> tabs 3 (kmem vm_example) ?r"
    "frames_avail vm_example \<le> frames_avail s1 + 3" "path_kept 3 (kmem vm_example) (kmem s1) ?r"
    "total_memory s1 = total_memory vm_example"
    by (rule paging_map_spec [OF vm_example_ok vm_example_path av, of "0x400000" "0xe000" 3]) blast
  have path1: "path_ok (vaddr_to_index v) (kmem s1) 3 ?r" for v
    using s1(6) vm_example_path by (simp add: path_kept_def)
  have av1: "3 \<le> frames_avail s1" using s1(5) by (simp add: vm_example_avail)
  obtain s2 :: vm where s2: "paging_ok s2 ?r"
    "paging_get s2 ?r 0x401000 = 0xf000 OR ucast (3 :: u8) OR PAGING_PRESENT"
    "\<And>w. vpage w \<noteq> vpage 0x401000 \<Longrightarrow> paging_get s2 ?r w = paging_get s1 ?r w"
    "\<And>x. x \<in> tabs 3 (kmem s2) ?r \<Longrightarrow> frame_owned s1 x \<Longrightarrow> x \<in> tabs 3 (kmem s1) ?r"
    "path_kept 3 (kmem s1) (kmem s2) ?r" "total_memory s2 = total_memory s1"
    "\<And>x. frame_owned s1 x \<Longrightarrow> frame_owned s2 x"
    by (rule paging_map_spec [OF s1(1) path1 av1, of "0x401000" "0xf000" 3]) blast
  have ne: "vpage 0x400000 \<noteq> vpage 0x401000" by (simp add: vpage_def)
  have get: "paging_get s2 ?r 0x400000 = 0xe003" "paging_get s2 ?r 0x401000 = 0xf003"
    using s1(2) s2(2) s2(3) [OF ne] by (simp_all add: PAGING_PRESENT_def)
  have data: "x \<notin> tabs 3 (kmem s2) ?r" if "page_of x = 14 \<or> page_of x = 15" for x
  proof
    assume x: "x \<in> tabs 3 (kmem s2) ?r"
    then have "table_ptr x" using s2(1) tabs_table_ptr by (auto simp: tables_ok_def)
    then have own: "frame_owned vm_example x" using that by (rule vm_example_data)
    with s1(3) x s2(4) s1(4) have "x \<in> tabs 3 (kmem vm_example) ?r" by blast
    then have "x = ?r" using zero_table(1) [OF vm_example_root(1) vm_example_zero, where l = 3] by simp
    with that vm_example_root(2) show False by simp
  qed
  have p: "0xe000 = paging_get s2 ?r 0x400000 AND NOT 0xfff" by (simp add: get)
  have rel: "released 0xe000 2 = {14, 15}" by (auto simp: released_def)
  have no_bitmap: "page_of a \<notin> released 0xe000 2" if a: "\<not> outside_bitmap s2 a" for a
  proof
    assume "page_of a \<in> released 0xe000 2"
    then have pg: "page_of a = 14 \<or> page_of a = 15" by (simp add: rel)
    have high: "VADDR_HIGHER \<le> a"
      using a s2(1) by (simp add: tables_ok_def palloc_ok_def bitmap_safe_def)
    define x where "x = addr_offset_higher (page_addr (page_of a))"
    have x: "table_ptr x" "page_of x = page_of a"
      using page_of_window [of "page_of a"] page_of_lt by (simp_all add: x_def)
    then have "frame_owned s2 x" using vm_example_data pg s1(3) s2(7) by simp
    moreover have "a \<in> frame x" using high x high_same_page [of x a] by (simp add: table_ptr_def)
    ultimately show False using a by (simp add: frame_owned_def)
  qed
  have "\<exists>s'. vmm_release_at s2 ?r 0x400000 2 = Some s' \<and> paging_get s' ?r 0x400000 = 0 \<and>
    (\<forall>w. vpage w \<noteq> vpage 0x400000 \<longrightarrow> paging_get s' ?r w = paging_get s2 ?r w) \<and>
    (\<forall>j\<in>released 0xe000 2. \<not> page_locked s' j) \<and>
    (\<forall>w. vpage w \<noteq> vpage 0x400000 \<longrightarrow> frame_number (paging_get s2 ?r w) \<in> released 0xe000 2 \<longrightarrow>
       \<not> page_locked s' (frame_number (paging_get s' ?r w)))"
  proof (rule vmm_release_at_leaves_mappings [OF s2(1) _ _ p])
    show "path_ok (vaddr_to_index 0x400000) (kmem s2) 3 ?r"
      using s2(5) path1 by (simp add: path_kept_def)
    show "present (paging_get s2 ?r 0x400000)" by (simp add: get present_bit)
    show "unat (0xe000 :: u64) div 4096 + unat (2 :: u64) \<le> pmm_pages s2"
      by (simp add: s2(6) s1(7)) (simp add: vm_example_def)
    show "page_of x \<notin> released 0xe000 2" if "x \<in> tabs 3 (kmem s2) ?r" for x
      using data that by (auto simp: rel)
  qed (rule no_bitmap)
  then obtain s' where s': "vmm_release_at s2 ?r 0x400000 2 = Some s'"
    "paging_get s' ?r 0x400000 = 0"
    "\<And>w. vpage w \<noteq> vpage 0x400000 \<Longrightarrow> paging_get s' ?r w = paging_get s2 ?r w"
    "\<And>w. vpage w \<noteq> vpage 0x400000 \<Longrightarrow> frame_number (paging_get s2 ?r w) \<in> released 0xe000 2 \<Longrightarrow>
       \<not> page_locked s' (frame_number (paging_get s' ?r w))" by blast
  have "paging_get s' ?r 0x401000 = 0xf003" using s'(3) [of "0x401000"] ne get(2) by simp
  moreover have "frame_number (paging_get s2 ?r 0x401000) \<in> released 0xe000 2"
    by (simp add: get frame_number_def rel)
  then have "\<not> page_locked s' (frame_number (paging_get s' ?r 0x401000))"
    using s'(4) [of "0x401000"] ne by simp
  ultimately show ?thesis using s'(1,2) by blast
qed

end
