(* ===== verification/Kalloc.thy ===== *)
theory Kalloc
  imports Vmm
begin

text \<open>
  The kernel heap (\<^verbatim>\<open>malloc\<close>, \<^verbatim>\<open>zmalloc\<close>, \<^verbatim>\<open>mfree\<close> of \<^verbatim>\<open>libk/alloc.c\<close>): a
  list of chunks, each behind a header of 24 bytes with the fields \<^verbatim>\<open>in_use\<close> (a byte at offset
  0), \<^verbatim>\<open>size\<close> (offset 8) and \<^verbatim>\<open>size_prev\<close> (offset 16); a header of size 0 ends the list. The
  static \<^verbatim>\<open>struct alloc\<close> is never written, so its two fields are constants.
\<close>

definition KERNEL_HEAP_VIRTUAL_START :: u64 where
  "KERNEL_HEAP_VIRTUAL_START = 0xffff810000000000"

definition KERNEL_HEAP_VIRTUAL_END :: u64 where
  "KERNEL_HEAP_VIRTUAL_END = 0xffff810200000000"

definition alloc_start :: u64 where "alloc_start = KERNEL_HEAP_VIRTUAL_START"
definition alloc_size :: u64 where "alloc_size = 0x1000"

section \<open>Chunk headers\<close>

definition hdr_in_use :: "mem \<Rightarrow> ptr \<Rightarrow> bool" where
  "hdr_in_use m h \<longleftrightarrow> m h \<noteq> 0"

definition hdr_size :: "mem \<Rightarrow> ptr \<Rightarrow> u64" where
  "hdr_size m h = load64 m (h + 8)"

definition hdr_size_prev :: "mem \<Rightarrow> ptr \<Rightarrow> u64" where
  "hdr_size_prev m h = load64 m (h + 16)"

definition set_in_use :: "ptr \<Rightarrow> bool \<Rightarrow> mem \<Rightarrow> mem" where
  "set_in_use h b m = m(h := if b then 1 else 0)"

definition set_size :: "ptr \<Rightarrow> u64 \<Rightarrow> mem \<Rightarrow> mem" where
  "set_size h v m = store64 m (h + 8) v"

definition set_size_prev :: "ptr \<Rightarrow> u64 \<Rightarrow> mem \<Rightarrow> mem" where
  "set_size_prev h v m = store64 m (h + 16) v"

definition CHUNK_HDR :: "ptr \<Rightarrow> ptr" where
  "CHUNK_HDR addr = addr - 24"

definition NEXT_HDR :: "mem \<Rightarrow> ptr \<Rightarrow> ptr" where
  "NEXT_HDR m hdr = hdr + hdr_size m hdr + 24"

definition PREV_HDR :: "mem \<Rightarrow> ptr \<Rightarrow> ptr" where
  "PREV_HDR m hdr = hdr - hdr_size m hdr - 24"

section \<open>The operations\<close>

definition malloc_init :: "'z vm_scheme \<Rightarrow> 'z vm_scheme option" where
  "malloc_init s =
     do { s1 \<leftarrow> vmm_request_at s (kernel_table s) alloc_start (alloc_size div 0x1000)
                  (ucast PAGING_WRITABLE);
          let head = alloc_start;
          let m1 = set_size_prev head 0 (set_in_use head False
                     (set_size head (alloc_size - 2 * 24) (kmem s1)));
          let tail = NEXT_HDR m1 head;
          let m2 = set_size tail 0 m1;
          let m3 = set_in_use tail True m2;
          Some (s1\<lparr>kmem := set_size_prev tail (hdr_size m3 head) m3\<rparr>) }"

text \<open>The search for a chunk; it does not end when the list of chunks runs in a circle.\<close>

partial_function (option) find_chunk :: "mem \<Rightarrow> u64 \<Rightarrow> ptr \<Rightarrow> ptr option" where
  "find_chunk m sz hdr =
     (if hdr_size m hdr \<noteq> 0 \<and> (hdr_in_use m hdr \<or> hdr_size m hdr < sz)
      then find_chunk m sz (NEXT_HDR m hdr)
      else Some hdr)"

definition append_memory :: "ptr \<Rightarrow> u64 \<Rightarrow> mem \<Rightarrow> mem" where
  "append_memory hdr new_page_count m =
     (let m1 = set_size hdr (new_page_count * 0x1000 - 24) m;
          new_tail = NEXT_HDR m1 hdr;
          m2 = set_size new_tail 0 m1;
          m3 = set_in_use new_tail True m2
      in set_size_prev new_tail (hdr_size m3 hdr) m3)"

definition split_chunk :: "ptr \<Rightarrow> u64 \<Rightarrow> mem \<Rightarrow> mem" where
  "split_chunk hdr sz m =
     (let size_old = hdr_size m hdr;
          m1 = set_size hdr (sz - 24) m;
          m2 = set_in_use hdr True m1;
          hdr_new = NEXT_HDR m2 hdr;
          m3 = set_size hdr_new (size_old - sz) m2;
          m4 = set_in_use hdr_new False m3
      in set_size_prev hdr_new (hdr_size m4 hdr) m4)"

definition malloc :: "'z vm_scheme \<Rightarrow> u64 \<Rightarrow> u64 \<Rightarrow> (ptr \<times> 'z vm_scheme) option" where
  "malloc s n alignment =
     (if n = 0 then Some (0, s)
      else
        let size = n + 24 in
        do { hdr \<leftarrow> find_chunk (kmem s) size alloc_start;
             if hdr_size (kmem s) hdr = 0 then
               let new_page_count = addr_page_align_up size div 0x1000;
                   region_end = hdr + 24
               in if region_end > KERNEL_HEAP_VIRTUAL_END then Some (0, s)
                  else do { s1 \<leftarrow> vmm_request_at s (kernel_table s) region_end new_page_count
                                   (ucast PAGING_WRITABLE);
                            let m = append_memory hdr new_page_count (kmem s1);
                            Some (hdr + 24, s1\<lparr>kmem := split_chunk hdr size m\<rparr>) }
             else Some (hdr + 24, s\<lparr>kmem := split_chunk hdr size (kmem s)\<rparr>) })"

definition zmalloc :: "'z vm_scheme \<Rightarrow> u64 \<Rightarrow> (ptr \<times> 'z vm_scheme) option" where
  "zmalloc s n =
     do { (mem, s1) \<leftarrow> malloc s n 0;
          Some (mem, s1\<lparr>kmem := memset (kmem s1) mem 0 n\<rparr>) }"

definition mfree :: "'z vm_scheme \<Rightarrow> ptr \<Rightarrow> 'z vm_scheme" where
  "mfree s addr =
     (let hdr = CHUNK_HDR addr;
          m1 = set_in_use hdr False (kmem s);
          (hdr, m2) =
            (if hdr_size_prev m1 hdr \<noteq> 0 then
               let hdr_prev = PREV_HDR m1 hdr in
               if \<not> hdr_in_use m1 hdr_prev
               then (hdr_prev, set_size hdr_prev (hdr_size m1 hdr_prev + (hdr_size m1 hdr + 24)) m1)
               else (hdr, m1)
             else (hdr, m1));
          hdr_next = NEXT_HDR m2 hdr
      in if \<not> hdr_in_use m2 hdr_next \<and> hdr_size m2 hdr_next \<noteq> 0 then
           let m3 = set_size hdr (hdr_size m2 hdr + (hdr_size m2 hdr_next + 24)) m2;
               nextnext = NEXT_HDR m3 hdr_next
           in s\<lparr>kmem := set_size_prev nextnext (hdr_size m3 hdr_next) m3\<rparr>
         else s\<lparr>kmem := m2\<rparr>)"

section \<open>Heap addresses\<close>

text \<open>Headers are reasoned about by their offset from the start of the heap.\<close>

definition heap_at :: "nat \<Rightarrow> ptr" where
  "heap_at off = alloc_start + of_nat off"

lemma heap_at_0: "heap_at 0 = alloc_start"
  by (simp add: heap_at_def)

lemma heap_at_add: "heap_at off + of_nat k = heap_at (off + k)"
  by (simp add: heap_at_def)

lemma heap_at_fields: "heap_at off + 8 = heap_at (off + 8)" "heap_at off + 16 = heap_at (off + 16)"
  "heap_at off + 24 = heap_at (off + 24)"
  using heap_at_add [of off 8] heap_at_add [of off 16] heap_at_add [of off 24] by simp_all

lemma unat_heap_at:
  "off < 1099511627776 \<Longrightarrow> unat (heap_at off) = 18446604435732824064 + off"
  by (simp add: heap_at_def alloc_start_def KERNEL_HEAP_VIRTUAL_START_def unat_word_ariths unat_of_nat)

lemma heap_at_eq:
  "a < 1099511627776 \<Longrightarrow> b < 1099511627776 \<Longrightarrow> heap_at a = heap_at b \<longleftrightarrow> a = b"
  by (simp add: u64_eq_iff_unat unat_heap_at)

lemma heap_at_diff:
  assumes "a < 1099511627776" and "b < 1099511627776"
  shows "unat (heap_at b - heap_at a) = (if a \<le> b then b - a else 18446744073709551616 + b - a)"
proof (cases "a \<le> b")
  case True
  then have "heap_at b - heap_at a = of_nat (b - a)" by (simp add: heap_at_def)
  moreover have "unat (of_nat (b - a) :: u64) = b - a" using assms by (intro unat_of_nat_u64) simp
  ultimately show ?thesis using True by (simp only: if_True)
next
  case False
  then show ?thesis
    using unat_heap_at [OF assms(1)] unat_heap_at [OF assms(2)] by (simp add: unat_sub_if')
qed

lemma load64_store64_heap [mem_simps]:
  assumes "a < 1099511627776" and "b < 1099511627776" and "a + 8 \<le> b \<or> b + 8 \<le> a"
  shows "load64 (store64 m (heap_at a) v) (heap_at b) = load64 m (heap_at b)"
  using assms heap_at_diff [of a b] heap_at_diff [of b a]
  by (intro load64_store64_other) (auto simp: word_le_nat_alt)

lemma store64_heap_byte [mem_simps]:
  assumes "a < 1099511627776" and "b < 1099511627776" and "a + 8 \<le> b \<or> b < a"
  shows "store64 m (heap_at a) v (heap_at b) = m (heap_at b)"
  using assms heap_at_diff [of a b]
  by (intro store64_other) (auto simp: word_less_nat_alt)

lemma load64_upd_heap [mem_simps]:
  assumes "a < 1099511627776" and "b + 8 < 1099511627776" and "a < b \<or> b + 8 \<le> a"
  shows "load64 (m(heap_at a := v)) (heap_at b) = load64 m (heap_at b)"
proof (rule load64_cong)
  fix k :: u64 assume "k < 8"
  then have k: "unat k < 8" by (simp add: word_less_nat_alt)
  have "heap_at b + k = heap_at (b + unat k)" using heap_at_add [of b "unat k"] by simp
  moreover have "heap_at (b + unat k) \<noteq> heap_at a" using assms k by (subst heap_at_eq) auto
  ultimately show "(m(heap_at a := v)) (heap_at b + k) = m (heap_at b + k)" by simp
qed

lemma upd_heap_byte [mem_simps]:
  assumes "a < 1099511627776" and "b < 1099511627776" and "a \<noteq> b"
  shows "(m(heap_at a := v)) (heap_at b) = m (heap_at b)"
  using assms by (simp add: heap_at_eq)


lemma store64_heap_other:
  assumes "a \<notin> heap_at ` {x..<x + 8}"
  shows "store64 m (heap_at x) v a = m a"
proof (rule store64_other, rule notI)
  assume "a - heap_at x < 8"
  then have "unat (a - heap_at x) < 8" by (simp add: word_less_nat_alt)
  moreover have "a = heap_at (x + unat (a - heap_at x))"
    using heap_at_add [of x "unat (a - heap_at x)"] by simp
  ultimately have "a \<in> heap_at ` {x..<x + 8}" by (intro image_eqI [of _ _ "x + unat (a - heap_at x)"]) auto
  with assms show False ..
qed

section \<open>The list of chunks\<close>

text \<open>
  A chunk is its size and whether it is in use. \<open>seg m off cs\<close> says that headers for
  \<open>cs\<close> follow each other from offset \<open>off\<close> on; the heap is such a list with a terminator.
\<close>

fun seg :: "mem \<Rightarrow> nat \<Rightarrow> (nat \<times> bool) list \<Rightarrow> bool" where
  "seg m off [] = True"
| "seg m off ((n, u) # cs) \<longleftrightarrow> 0 < n \<and> hdr_size m (heap_at off) = of_nat n \<and>
     hdr_in_use m (heap_at off) = u \<and> seg m (off + 24 + n) cs"

fun span :: "(nat \<times> bool) list \<Rightarrow> nat" where
  "span [] = 0"
| "span ((n, u) # cs) = 24 + n + span cs"

definition heap_ok :: "mem \<Rightarrow> (nat \<times> bool) list \<Rightarrow> bool" where
  "heap_ok m cs \<longleftrightarrow> seg m 0 cs \<and> hdr_size m (heap_at (span cs)) = 0 \<and> span cs < 549755813888"

lemma span_append [simp]: "span (xs @ ys) = span xs + span ys"
  by (induction xs rule: span.induct) simp_all

lemma seg_append [simp]: "seg m off (xs @ ys) \<longleftrightarrow> seg m off xs \<and> seg m (off + span xs) ys"
  by (induction m off xs rule: seg.induct) (auto simp: add.assoc)

lemma hdr_cong:
  assumes "\<And>k. off \<le> k \<Longrightarrow> k < off + 24 \<Longrightarrow> m' (heap_at k) = m (heap_at k)"
  shows "hdr_size m' (heap_at off) = hdr_size m (heap_at off)"
    and "hdr_in_use m' (heap_at off) = hdr_in_use m (heap_at off)"
    and "hdr_size_prev m' (heap_at off) = hdr_size_prev m (heap_at off)"
proof -
  have word: "load64 m' (heap_at (off + d)) = load64 m (heap_at (off + d))" if "d \<le> 16" for d
  proof (rule load64_cong)
    fix k :: u64 assume "k < 8"
    then have "unat k < 8" by (simp add: word_less_nat_alt)
    with assms [of "off + d + unat k"] that
    show "m' (heap_at (off + d) + k) = m (heap_at (off + d) + k)"
      using heap_at_add [of "off + d" "unat k"] by simp
  qed
  show "hdr_size m' (heap_at off) = hdr_size m (heap_at off)"
    using word [of 8] by (simp add: hdr_size_def heap_at_fields)
  show "hdr_size_prev m' (heap_at off) = hdr_size_prev m (heap_at off)"
    using word [of 16] by (simp add: hdr_size_prev_def heap_at_fields)
  show "hdr_in_use m' (heap_at off) = hdr_in_use m (heap_at off)"
    using assms [of off] by (simp add: hdr_in_use_def)
qed

lemma seg_cong:
  "(\<And>k. off \<le> k \<Longrightarrow> k < off + span cs \<Longrightarrow> m' (heap_at k) = m (heap_at k)) \<Longrightarrow>
   seg m off cs \<Longrightarrow> seg m' off cs"
proof (induction m off cs rule: seg.induct)
  case (2 m off n u cs)
  have "hdr_size m' (heap_at off) = hdr_size m (heap_at off)"
    "hdr_in_use m' (heap_at off) = hdr_in_use m (heap_at off)"
    by (rule hdr_cong, simp add: 2(2))+
  with 2 show ?case by simp
qed simp

lemma next_hdr_heap:
  "hdr_size m (heap_at off) = of_nat n \<Longrightarrow> NEXT_HDR m (heap_at off) = heap_at (off + 24 + n)"
  by (simp add: NEXT_HDR_def heap_at_def)

section \<open>Finding a chunk\<close>

definition fits :: "nat \<Rightarrow> nat \<times> bool \<Rightarrow> bool" where
  "fits n c \<longleftrightarrow> \<not> snd c \<and> n \<le> fst c"

lemma find_chunk_skip:
  assumes sz: "sz < 18446744073709551616"
  shows "seg m off pre \<Longrightarrow> span pre < 18446744073709551616 \<Longrightarrow> \<forall>c\<in>set pre. \<not> fits sz c \<Longrightarrow>
    find_chunk m (of_nat sz) (heap_at off) = find_chunk m (of_nat sz) (heap_at (off + span pre))"
proof (induction m off pre rule: seg.induct)
  case (2 m off n u cs)
  have n: "0 < n" "n < 18446744073709551616" "hdr_size m (heap_at off) = of_nat n"
    "hdr_in_use m (heap_at off) = u" using 2(2,3) by simp_all
  have un: "unat (of_nat n :: u64) = n" "unat (of_nat sz :: u64) = sz"
    using n(2) sz by (simp_all only: unat_of_nat_u64)
  have "hdr_size m (heap_at off) \<noteq> 0" using n un(1) by (metis unat_0 less_irrefl)
  moreover have "hdr_in_use m (heap_at off) \<or> hdr_size m (heap_at off) < of_nat sz"
    using 2(4) un by (auto simp: fits_def n(3,4) word_less_nat_alt)
  ultimately have "find_chunk m (of_nat sz) (heap_at off) =
      find_chunk m (of_nat sz) (NEXT_HDR m (heap_at off))"
    by (subst find_chunk.simps) simp
  also have "\<dots> = find_chunk m (of_nat sz) (heap_at (off + 24 + n))"
    using n(3) by (simp add: next_hdr_heap)
  also have "\<dots> = find_chunk m (of_nat sz) (heap_at (off + 24 + n + span cs))"
    using 2 by simp
  finally show ?case by (simp add: add.assoc)
qed simp

lemma find_chunk_stop:
  assumes "hdr_size m h = 0 \<or> \<not> hdr_in_use m h \<and> sz \<le> hdr_size m h"
  shows "find_chunk m sz h = Some h"
  using assms by (subst find_chunk.simps) auto

section \<open>Splitting a chunk\<close>

lemma split_chunk_eq:
  assumes "off + n + 48 < 1099511627776"
  shows "split_chunk (heap_at off) (of_nat (n + 24)) m =
    store64 ((store64 ((store64 m (heap_at (off + 8)) (of_nat n))(heap_at off := 1))
      (heap_at (off + n + 32)) (hdr_size m (heap_at off) - of_nat (n + 24)))
      (heap_at (off + n + 24) := 0)) (heap_at (off + n + 40)) (of_nat n)"
proof -
  have nxt: "heap_at off + of_nat n + 24 = heap_at (off + n + 24)"
    by (simp add: heap_at_def)
  have f: "heap_at (off + n + 24) + 8 = heap_at (off + n + 32)"
    "heap_at (off + n + 24) + 16 = heap_at (off + n + 40)"
    using heap_at_add [of "off + n + 24" 8] heap_at_add [of "off + n + 24" 16]
    by (simp_all add: ac_simps)
  have s: "of_nat (n + 24) - 24 = (of_nat n :: u64)" by simp
  show ?thesis
    unfolding split_chunk_def Let_def set_size_def set_in_use_def set_size_prev_def hdr_size_def
      NEXT_HDR_def s heap_at_fields
    using assms
    by (simp add: mem_simps nxt f del: fun_upd_apply of_nat_add)
qed


lemma hdr_defs_heap:
  "hdr_size m (heap_at off) = load64 m (heap_at (off + 8))"
  "hdr_size_prev m (heap_at off) = load64 m (heap_at (off + 16))"
  by (simp_all add: hdr_size_def hdr_size_prev_def heap_at_fields)

lemma split_chunk_hdrs:
  fixes m :: mem
  assumes bound: "off + n + 48 < 1099511627776" and n: "0 < n"
  defines "m' \<equiv> split_chunk (heap_at off) (of_nat (n + 24)) m"
  shows "hdr_size m' (heap_at off) = of_nat n" and "hdr_in_use m' (heap_at off)"
    and "hdr_size m' (heap_at (off + n + 24)) = hdr_size m (heap_at off) - of_nat (n + 24)"
    and "\<not> hdr_in_use m' (heap_at (off + n + 24))"
    and "hdr_size_prev m' (heap_at (off + n + 24)) = of_nat n"
    and "hdr_size_prev m' (heap_at off) = hdr_size_prev m (heap_at off)"
    and "a \<notin> heap_at ` ({off..<off + 24} \<union> {off + n + 24..<off + n + 48}) \<Longrightarrow> m' a = m a"
proof -
  note m' = m'_def [unfolded split_chunk_eq [OF bound]]
  have w: "off + n + 24 + 8 = off + n + 32" "off + n + 24 + 16 = off + n + 40" by simp_all
  show "hdr_size m' (heap_at off) = of_nat n"
    unfolding hdr_defs_heap m' using bound n by (simp add: mem_simps del: fun_upd_apply)
  show "hdr_in_use m' (heap_at off)"
    unfolding hdr_in_use_def m' using bound n
    by (simp add: mem_simps del: fun_upd_apply) (simp add: heap_at_eq)
  show "hdr_size m' (heap_at (off + n + 24)) = hdr_size m (heap_at off) - of_nat (n + 24)"
    unfolding hdr_defs_heap m' w using bound n
    by (simp add: mem_simps del: fun_upd_apply of_nat_add)
  show "\<not> hdr_in_use m' (heap_at (off + n + 24))"
    unfolding hdr_in_use_def m' using bound n
    by (simp add: mem_simps del: fun_upd_apply) (simp add: heap_at_eq)
  show "hdr_size_prev m' (heap_at (off + n + 24)) = of_nat n"
    unfolding hdr_defs_heap m' w by simp
  show "hdr_size_prev m' (heap_at off) = hdr_size_prev m (heap_at off)"
    unfolding hdr_defs_heap m' using bound n by (simp add: mem_simps del: fun_upd_apply)
  show "m' a = m a" if "a \<notin> heap_at ` ({off..<off + 24} \<union> {off + n + 24..<off + n + 48})"
  proof -
    have "a \<noteq> heap_at off" "a \<noteq> heap_at (off + n + 24)"
      using that by (auto simp: image_Un)
    moreover have "a \<notin> heap_at ` {off + 8..<off + 8 + 8}"
      "a \<notin> heap_at ` {off + n + 32..<off + n + 32 + 8}"
      "a \<notin> heap_at ` {off + n + 40..<off + n + 40 + 8}"
      using that by (auto simp: image_Un)
    ultimately show ?thesis unfolding m' by (simp add: store64_heap_other)
  qed
qed

lemma seg_bound_hdr: "seg m off cs \<Longrightarrow> c \<in> set cs \<Longrightarrow> 24 + fst c \<le> span cs"
  by (induction m off cs rule: seg.induct) auto

lemma heap_image_disjoint:
  assumes "k < 1099511627776" and "\<And>j. j \<in> J \<Longrightarrow> j < 1099511627776" and "k \<notin> J"
  shows "heap_at k \<notin> heap_at ` J"
  using assms heap_at_eq by auto

lemma heap_split:
  assumes ok: "heap_ok m (pre @ (c, u) # post)" and n: "0 < n" "n + 24 < c"
  defines "m' \<equiv> split_chunk (heap_at (span pre)) (of_nat (n + 24)) m"
  shows "heap_ok m' (pre @ (n, True) # (c - n - 24, False) # post)"
    and "a \<notin> heap_at ` ({span pre..<span pre + 24} \<union> {span pre + n + 24..<span pre + n + 48}) \<Longrightarrow>
      m' a = m a"
proof -
  let ?o = "span pre" and ?J = "{span pre..<span pre + 24} \<union> {span pre + n + 24..<span pre + n + 48}"
  have sp: "?o + 24 + c + span post < 549755813888"
    and sg: "seg m 0 pre" "hdr_size m (heap_at ?o) = of_nat c" "seg m (?o + 24 + c) post"
    and fin: "hdr_size m (heap_at (?o + 24 + c + span post)) = 0"
    using ok by (simp_all add: heap_ok_def add.assoc)
  have bound: "?o + n + 48 < 1099511627776" using sp n by simp
  note h = split_chunk_hdrs [OF bound n(1), where m = m, folded m'_def]
  have rest: "of_nat c - of_nat (n + 24) = (of_nat (c - n - 24) :: u64)" using n by simp
  have keep: "m' (heap_at k) = m (heap_at k)"
    if "k < ?o \<or> ?o + 24 + c \<le> k" "k < 1099511627776" for k
    using that n bound by (intro h(7) heap_image_disjoint) auto
  have s1: "seg m' 0 pre"
    by (rule seg_cong [OF _ sg(1)]) (use sp in \<open>auto intro: keep\<close>)
  have s2: "seg m' (?o + 24 + c) post"
    by (rule seg_cong [OF _ sg(3)]) (use sp in \<open>auto intro: keep\<close>)
  have e: "hdr_size m' (heap_at (?o + 24 + c + span post)) = 0"
    using fin hdr_cong(1) [of "?o + 24 + c + span post" m' m] keep sp by simp
  have eqs: "0 + ?o = ?o" "?o + 24 + n = ?o + n + 24" "?o + n + 24 + 24 + (c - n - 24) = ?o + 24 + c"
    "?o + (24 + n + (24 + (c - n - 24) + span post)) = ?o + 24 + c + span post"
    using n by simp_all
  have h3: "hdr_size m' (heap_at (?o + n + 24)) = of_nat (c - n - 24)"
    using h(3) by (simp only: sg(2) rest)
  show "heap_ok m' (pre @ (n, True) # (c - n - 24, False) # post)"
    unfolding heap_ok_def seg_append seg.simps span_append span.simps eqs
    using s1 s2 e h(1,2,4) h3 n sp by (intro conjI) (assumption | simp)+
  show "m' a = m a" if "a \<notin> heap_at ` ?J" using h(7) that .
qed

section \<open>First fit\<close>

lemma heap_ok_size_bound:
  assumes "heap_ok m (pre @ (c, u) # post)"
  shows "c < 549755813888" "span pre < 549755813888"
  using assms by (simp_all add: heap_ok_def)

lemma malloc_fit:
  assumes ok: "heap_ok (kmem s) (pre @ (c, False) # post)"
    and skip: "\<forall>d\<in>set pre. \<not> fits (n + 24) d" and n: "0 < n" "n + 24 \<le> c"
  shows "malloc s (of_nat n) al = Some (heap_at (span pre + 24),
    s\<lparr>kmem := split_chunk (heap_at (span pre)) (of_nat (n + 24)) (kmem s)\<rparr>)"
proof -
  have sg: "seg (kmem s) 0 pre" "hdr_size (kmem s) (heap_at (span pre)) = of_nat c"
    "\<not> hdr_in_use (kmem s) (heap_at (span pre))" "0 < c"
    using ok by (simp_all add: heap_ok_def)
  note b = heap_ok_size_bound [OF ok]
  have un: "unat (of_nat c :: u64) = c" "unat (of_nat (n + 24) :: u64) = n + 24"
    "unat (of_nat n :: u64) = n"
    using b n by (simp_all only: unat_of_nat_u64)
  have nz: "(of_nat c :: u64) \<noteq> 0" "(of_nat n :: u64) \<noteq> 0"
    using un n sg(4) by (metis unat_0 less_irrefl)+
  have "find_chunk (kmem s) (of_nat (n + 24)) alloc_start =
    find_chunk (kmem s) (of_nat (n + 24)) (heap_at (span pre))"
    using find_chunk_skip [OF _ sg(1) _ skip] b n by (simp only: heap_at_0 [symmetric] add_0)
  also have "\<dots> = Some (heap_at (span pre))"
  proof (rule find_chunk_stop)
    have "of_nat (n + 24) \<le> hdr_size (kmem s) (heap_at (span pre))"
      using n(2) by (simp only: sg(2) word_le_nat_alt un)
    with sg(3) show "hdr_size (kmem s) (heap_at (span pre)) = 0 \<or>
      \<not> hdr_in_use (kmem s) (heap_at (span pre)) \<and>
      of_nat (n + 24) \<le> hdr_size (kmem s) (heap_at (span pre))" by blast
  qed
  finally have "find_chunk (kmem s) (of_nat n + 24) alloc_start = Some (heap_at (span pre))" by simp
  then show ?thesis
    using nz by (simp add: malloc_def Let_def sg(2) heap_at_fields)
qed


section \<open>Growing the heap\<close>

lemma append_memory_hdrs:
  fixes m :: mem
  assumes bound: "off + c + 48 < 1099511627776" and p: "p * 0x1000 - 24 = of_nat c" and c: "0 < c"
  defines "m' \<equiv> append_memory (heap_at off) p m"
  shows "hdr_size m' (heap_at off) = of_nat c"
    and "hdr_in_use m' (heap_at off) = hdr_in_use m (heap_at off)"
    and "hdr_size m' (heap_at (off + c + 24)) = 0"
    and "a \<notin> heap_at ` ({off..<off + 24} \<union> {off + c + 24..<off + c + 48}) \<Longrightarrow> m' a = m a"
proof -
  have nxt: "heap_at off + of_nat c + 24 = heap_at (off + c + 24)"
    by (simp add: heap_at_def)
  have f: "heap_at (off + c + 24) + 8 = heap_at (off + c + 32)"
    "heap_at (off + c + 24) + 16 = heap_at (off + c + 40)"
    using heap_at_add [of "off + c + 24" 8] heap_at_add [of "off + c + 24" 16]
    by (simp_all add: ac_simps)
  have m': "m' = store64 ((store64 (store64 m (heap_at (off + 8)) (of_nat c))
      (heap_at (off + c + 32)) 0)(heap_at (off + c + 24) := 1)) (heap_at (off + c + 40)) (of_nat c)"
    unfolding m'_def append_memory_def Let_def set_size_def set_in_use_def set_size_prev_def
      hdr_size_def NEXT_HDR_def p heap_at_fields
    using bound by (simp add: mem_simps nxt f del: fun_upd_apply of_nat_add)
  have w: "off + c + 24 + 8 = off + c + 32" by simp
  show "hdr_size m' (heap_at off) = of_nat c"
    unfolding hdr_defs_heap m' using bound c by (simp add: mem_simps del: fun_upd_apply)
  show "hdr_in_use m' (heap_at off) = hdr_in_use m (heap_at off)"
    unfolding hdr_in_use_def m' using bound c by (simp add: mem_simps del: fun_upd_apply)
  show "hdr_size m' (heap_at (off + c + 24)) = 0"
    unfolding hdr_defs_heap m' w using bound c by (simp add: mem_simps del: fun_upd_apply)
  show "m' a = m a" if "a \<notin> heap_at ` ({off..<off + 24} \<union> {off + c + 24..<off + c + 48})"
  proof -
    have "a \<noteq> heap_at (off + c + 24)" using that by (auto simp: image_Un)
    moreover have "a \<notin> heap_at ` {off + 8..<off + 8 + 8}"
      "a \<notin> heap_at ` {off + c + 32..<off + c + 32 + 8}"
      "a \<notin> heap_at ` {off + c + 40..<off + c + 40 + 8}"
      using that by (auto simp: image_Un)
    ultimately show ?thesis unfolding m' by (simp add: store64_heap_other)
  qed
qed

lemma heap_append:
  assumes ok: "heap_ok m cs" and p: "p * 0x1000 - 24 = of_nat c" and c: "0 < c"
    and sp: "span cs + 24 + c < 549755813888"
  defines "m' \<equiv> append_memory (heap_at (span cs)) p m"
  shows "heap_ok m' (cs @ [(c, hdr_in_use m (heap_at (span cs)))])"
    and "a \<notin> heap_at ` ({span cs..<span cs + 24} \<union> {span cs + c + 24..<span cs + c + 48}) \<Longrightarrow>
      m' a = m a"
proof -
  have bound: "span cs + c + 48 < 1099511627776" using sp by simp
  note h = append_memory_hdrs [OF bound p c, where m = m, folded m'_def]
  have "m' (heap_at k) = m (heap_at k)" if "k < span cs" for k
    using that sp by (intro h(4) heap_image_disjoint) auto
  then have "seg m' 0 cs" using ok by (intro seg_cong [of 0 cs m' m]) (simp_all add: heap_ok_def)
  then show "heap_ok m' (cs @ [(c, hdr_in_use m (heap_at (span cs)))])"
    using h(1-3) c sp by (simp add: heap_ok_def ac_simps)
  show "m' a = m a"
    if "a \<notin> heap_at ` ({span cs..<span cs + 24} \<union> {span cs + c + 24..<span cs + c + 48})"
    using h(4) that .
qed

text \<open>
  The heap lies outside the window when the machine has at most 1 TiB, so a change of heap bytes
  does not touch tables or the bitmap.
\<close>

lemma heap_not_window:
  assumes "pmm_pages s \<le> 268435456" and "off < 1099511627776"
  shows "heap_at off \<notin> window s"
proof -
  have "unat (heap_at off) mod 140737488355328 = 1099511627776 + off"
  proof -
    have "unat (heap_at off) = 1099511627776 + off + 131071 * 140737488355328"
      using unat_heap_at [OF assms(2)] by simp
    then show ?thesis using assms(2) by (simp only: mod_mult_self1) simp
  qed
  then have "page_of (heap_at off) = (1099511627776 + off) div 4096"
    by (simp add: page_of_def unat_addr_ensure_lower)
  then have "268435456 \<le> page_of (heap_at off)" by simp
  with assms(1) show ?thesis by (simp add: window_def)
qed

lemma window_not_heap:
  assumes "a \<in> window s" and "pmm_pages s \<le> 268435456"
    and "\<And>x. x \<in> J \<Longrightarrow> x < 1099511627776"
  shows "a \<notin> heap_at ` J"
  using assms heap_not_window by blast

lemma tables_ok_outside:
  assumes ok: "tables_ok l s t" and m: "\<And>a. a \<in> window s \<Longrightarrow> m a = kmem s a"
  shows "tables_ok l (s\<lparr>kmem := m\<rparr>) t" and "frames_avail (s\<lparr>kmem := m\<rparr>) = frames_avail s"
    and "l < 4 \<Longrightarrow> indices_ok idx \<Longrightarrow> get_walk idx m l t = get_walk idx (kmem s) l t"
    and "l < 4 \<Longrightarrow> path_kept l (kmem s) m t"
proof -
  have pok: "palloc_ok s" and tr: "tree l (kmem s) t"
    and own: "\<And>x. x \<in> tabs l (kmem s) t \<Longrightarrow> frame_owned s x"
    using ok unfolding tables_ok_def by blast+
  have "m a = kmem s a" if "\<not> outside_bitmap s a" for a
    using that pok m by (simp add: palloc_ok_def bitmap_safe_def window_def)
  note w = write_outside_bitmap [OF pok this]
  have same: "same_on (tabs l (kmem s) t) (kmem s) m"
    using own m frame_owned_window unfolding same_on_def by blast
  show "get_walk idx m l t = get_walk idx (kmem s) l t" if "l < 4" "indices_ok idx"
    using walks_same [OF that(2,1) tr same] by simp
  show "path_kept l (kmem s) m t" if "l < 4"
    using walks_same [OF _ that tr same] by (simp add: path_kept_def)
  from same w own tabs_same [OF tr] tree_same [OF tr] show "tables_ok l (s\<lparr>kmem := m\<rparr>) t"
    unfolding tables_ok_def by simp
  show "frames_avail (s\<lparr>kmem := m\<rparr>) = frames_avail s" using w by simp
qed

lemma page_align_up_pages:
  assumes "0 < k" and "k < 4294967296"
  shows "addr_page_align_up (of_nat k) div 0x1000 = of_nat ((k + 4095) div 4096)"
    and "unat (addr_page_align_up (of_nat k) div 0x1000) = (k + 4095) div 4096"
proof -
  have un: "unat (of_nat k :: u64) = k" using assms by (intro unat_of_nat_u64) simp
  have e: "(0x1000 :: u64) = 2 ^ 12" by simp
  have "unat (addr_page_align_up (of_nat k)) = (k + 4095) div 4096 * 4096"
    unfolding addr_page_align_up_def e
    using addr_align_up_exp [of 12 "of_nat k"] assms un by simp
  then show u: "unat (addr_page_align_up (of_nat k) div 0x1000) = (k + 4095) div 4096"
    by (simp add: unat_div)
  have "addr_page_align_up (of_nat k) div 0x1000 =
      of_nat (unat (addr_page_align_up (of_nat k) div 0x1000))"
    by simp
  then show "addr_page_align_up (of_nat k) div 0x1000 = of_nat ((k + 4095) div 4096)"
    by (simp only: u)
qed


lemma malloc_grow:
  assumes ok: "heap_ok (kmem s) cs" and skip: "\<forall>d\<in>set cs. \<not> fits (n + 24) d"
    and n: "0 < n" "n + 24 < 4294967296" and room: "span cs + 24 \<le> 8589934592"
    and req: "vmm_request_at s (kernel_table s) (heap_at (span cs + 24))
      (of_nat ((n + 24 + 4095) div 4096)) (ucast PAGING_WRITABLE) = Some s1"
  shows "malloc s (of_nat n) al = Some (heap_at (span cs + 24),
    s1\<lparr>kmem := split_chunk (heap_at (span cs)) (of_nat (n + 24))
      (append_memory (heap_at (span cs)) (of_nat ((n + 24 + 4095) div 4096)) (kmem s1))\<rparr>)"
proof -
  have sg: "seg (kmem s) 0 cs" "hdr_size (kmem s) (heap_at (span cs)) = 0"
    "span cs < 18446744073709551616"
    using ok by (simp_all add: heap_ok_def)
  have nz: "(of_nat n :: u64) \<noteq> 0"
  proof
    assume "(of_nat n :: u64) = 0"
    moreover have "unat (of_nat n :: u64) = n" using n by (intro unat_of_nat_u64) simp
    ultimately show False using n(1) by simp
  qed
  have "find_chunk (kmem s) (of_nat (n + 24)) alloc_start =
    find_chunk (kmem s) (of_nat (n + 24)) (heap_at (span cs))"
    using find_chunk_skip [OF _ sg(1) sg(3) skip] n by (simp only: heap_at_0 [symmetric] add_0)
  also have "\<dots> = Some (heap_at (span cs))" using sg(2) by (intro find_chunk_stop) simp
  finally have find: "find_chunk (kmem s) (of_nat n + 24) alloc_start = Some (heap_at (span cs))"
    by simp
  have pages: "addr_page_align_up (of_nat n + 24) div 0x1000 =
      of_nat ((n + 24 + 4095) div 4096)"
    using page_align_up_pages(1) [of "n + 24"] n by simp
  have "\<not> heap_at (span cs) + 24 > KERNEL_HEAP_VIRTUAL_END"
    using room unat_heap_at [of "span cs + 24"]
    by (simp add: heap_at_fields word_less_nat_alt KERNEL_HEAP_VIRTUAL_END_def)
  then show ?thesis
    using nz find pages req
    by (simp add: malloc_def Let_def sg(2) heap_at_fields)
qed

section \<open>Initialisation\<close>

lemma malloc_init_spec:
  assumes ok: "paging_ok s (kernel_table s)" and av: "4 \<le> frames_avail s"
    and path: "path_ok (vaddr_to_index alloc_start) (kmem s) 3 (kernel_table s)"
    and win: "pmm_pages s \<le> 268435456"
  obtains s' where "malloc_init s = Some s'" "heap_ok (kmem s') [(4048, False)]"
    "paging_ok s' (kernel_table s')" "frames_avail s \<le> frames_avail s' + 4"
    "present (paging_get s' (kernel_table s') alloc_start)" "total_memory s' = total_memory s"
proof -
  let ?k = "kernel_table s"
  have pages: "unat (alloc_size div 0x1000) = 1" by (simp add: alloc_size_def)
  have av': "4 * unat (alloc_size div 0x1000) \<le> frames_avail s" using av by (simp add: pages)
  obtain s1 where s1: "vmm_request_at s ?k alloc_start (alloc_size div 0x1000)
      (ucast PAGING_WRITABLE) = Some s1"
    "paging_ok s1 ?k" "backed s ?k alloc_start (ucast PAGING_WRITABLE) 1 s1"
    "frames_avail s \<le> frames_avail s1 + 4" "total_memory s1 = total_memory s"
    "kernel_table s1 = ?k"
    by (rule vmm_request_at_spec [OF ok av', of alloc_start "ucast PAGING_WRITABLE"])
      (use path in \<open>auto simp: pages vpage_at_def\<close>)
  let ?m = "kmem s1"
  define m where "m = store64 ((store64 (store64 ((store64 ?m (heap_at 8) 4048)(heap_at 0 := 0))
    (heap_at 16) 0) (heap_at 4080) 0)(heap_at 4072 := 1)) (heap_at 4088) 4048"
  have h: "heap_at 0 + 8 = heap_at 8" "heap_at 0 + 16 = heap_at 16"
    "heap_at 0 + 4048 + 24 = heap_at 4072" "heap_at 4072 + 8 = heap_at 4080"
    "heap_at 4072 + 16 = heap_at 4088" "4080 + heap_at 0 = heap_at 4080"
    "4088 + heap_at 0 = heap_at 4088"
    by (simp_all add: heap_at_def)
  have size: "alloc_size - 2 * 24 = 4048" by (simp add: alloc_size_def)
  have eq: "malloc_init s = Some (s1\<lparr>kmem := m\<rparr>)"
    unfolding malloc_init_def heap_at_0 [symmetric] size
    using s1(1)
    by (simp add: Let_def set_size_def set_in_use_def set_size_prev_def hdr_size_def NEXT_HDR_def
        heap_at_0 [symmetric] h m_def mem_simps del: fun_upd_apply)
  have "load64 m (heap_at 8) = 4048" "m (heap_at 0) = 0" "load64 m (heap_at 4080) = 0"
    unfolding m_def by (simp_all add: mem_simps del: fun_upd_apply) (simp add: heap_at_eq)
  then have heap: "heap_ok m [(4048, False)]"
    by (simp add: heap_ok_def hdr_size_def hdr_in_use_def heap_at_fields)
  have win1: "pmm_pages s1 \<le> 268435456" using win s1(5) by simp
  have out: "m a = ?m a" if "a \<in> window s1" for a
  proof -
    have no: "a \<notin> heap_at ` J" if "\<And>x. x \<in> J \<Longrightarrow> x < 1099511627776" for J
      by (rule window_not_heap [OF \<open>a \<in> window s1\<close> win1 that])
    have "a \<noteq> heap_at 0" "a \<noteq> heap_at 4072" using no [of "{0}"] no [of "{4072}"] by simp_all
    moreover have "a \<notin> heap_at ` {8..<8 + 8}" "a \<notin> heap_at ` {16..<16 + 8}"
      "a \<notin> heap_at ` {4080..<4080 + 8}" "a \<notin> heap_at ` {4088..<4088 + 8}"
      by (rule no, simp)+
    ultimately show ?thesis by (simp add: m_def store64_heap_other)
  qed
  have "present (paging_get s1 ?k alloc_start)" using s1(3) by (simp add: backed_def vpage_at_def)
  then have pres: "present (paging_get (s1\<lparr>kmem := m\<rparr>) ?k alloc_start)"
    using tables_ok_outside(3) [OF s1(2) out _ indices_ok_vaddr] by (simp add: paging_get_def)
  show ?thesis
    using that [OF eq] heap tables_ok_outside [OF s1(2) out] s1(4-6) pres by simp
qed


section \<open>Allocating at the end of the heap\<close>

text \<open>The number of pages the heap grows by for a request of \<open>n\<close> bytes.\<close>

definition grow_pages :: "nat \<Rightarrow> nat" where
  "grow_pages n = (n + 24 + 4095) div 4096"

lemma grow_pages_bounds:
  assumes "0 < n"
  shows "n + 24 \<le> grow_pages n * 4096" "grow_pages n * 4096 < n + 24 + 4096" "1 \<le> grow_pages n"
  using assms unfolding grow_pages_def by simp_all

definition can_grow :: "'z vm_scheme \<Rightarrow> (nat \<times> bool) list \<Rightarrow> nat \<Rightarrow> bool" where
  "can_grow s cs n \<longleftrightarrow> heap_ok (kmem s) cs \<and> (\<forall>d\<in>set cs. \<not> fits (n + 24) d) \<and>
     0 < n \<and> n + 24 < 4294967296 \<and> span cs + 24 \<le> 8589934592 \<and>
     paging_ok s (kernel_table s) \<and> 4 * grow_pages n \<le> frames_avail s \<and>
     pmm_pages s \<le> 268435456 \<and>
     (\<forall>i<grow_pages n. path_ok (vaddr_to_index (vpage_at (heap_at (span cs + 24)) i)) (kmem s) 3
        (kernel_table s))"

text \<open>
  The heap grows: the terminator becomes a chunk of the new pages, and a new terminator is written
  behind it. Nothing in front of the old terminator changes.
\<close>

lemma malloc_grow_append:
  assumes g: "can_grow s cs n"
  defines "c \<equiv> grow_pages n * 4096 - 24"
  obtains s1 m where
    "malloc s (of_nat n) al = Some (heap_at (span cs + 24),
      s1\<lparr>kmem := split_chunk (heap_at (span cs)) (of_nat (n + 24)) m\<rparr>)"
    "heap_ok m (cs @ [(c, hdr_in_use (kmem s) (heap_at (span cs)))])"
    "\<And>k. k < span cs \<Longrightarrow> m (heap_at k) = kmem s (heap_at k)"
    "paging_ok s1 (kernel_table s)" "kernel_table s1 = kernel_table s"
    "total_memory s1 = total_memory s" "\<And>a. a \<in> window s \<Longrightarrow> m a = kmem s1 a"
    "\<And>i. i < grow_pages n \<Longrightarrow>
      present (paging_get s1 (kernel_table s) (vpage_at (heap_at (span cs + 24)) i))"
proof -
  let ?k = "kernel_table s" and ?P = "grow_pages n" and ?e = "span cs"
  have ok: "heap_ok (kmem s) cs" and skip: "\<forall>d\<in>set cs. \<not> fits (n + 24) d"
    and n: "0 < n" "n + 24 < 4294967296" and room: "?e + 24 \<le> 8589934592"
    and pg: "paging_ok s ?k" and av: "4 * ?P \<le> frames_avail s"
    and win: "pmm_pages s \<le> 268435456"
    and path: "\<And>i. i < ?P \<Longrightarrow>
      path_ok (vaddr_to_index (vpage_at (heap_at (?e + 24)) i)) (kmem s) 3 ?k"
    using g unfolding can_grow_def by blast+
  note pb = grow_pages_bounds [OF n(1)]
  have uP: "unat (of_nat ?P :: u64) = ?P" using pb(2) n(2) by (intro unat_of_nat_u64) simp
  obtain s1 where s1: "vmm_request_at s ?k (heap_at (?e + 24)) (of_nat ?P)
      (ucast PAGING_WRITABLE) = Some s1" "paging_ok s1 ?k"
    "backed s ?k (heap_at (?e + 24)) (ucast PAGING_WRITABLE) ?P s1"
    "total_memory s1 = total_memory s" "\<And>a. a \<notin> window s \<Longrightarrow> kmem s1 a = kmem s a"
    "kernel_table s1 = ?k"
    using vmm_request_at_spec [OF pg, of "of_nat ?P" "heap_at (?e + 24)" "ucast PAGING_WRITABLE"]
      av path uP by metis
  have keep: "kmem s1 (heap_at k) = kmem s (heap_at k)" if "k < 1099511627776" for k
    by (rule s1(5) [OF heap_not_window [OF win that]])
  have sp: "?e < 549755813888" using ok by (simp add: heap_ok_def)
  have ok1: "heap_ok (kmem s1) cs"
    using ok seg_cong [of 0 cs "kmem s1" "kmem s"] hdr_cong(1) [of ?e "kmem s1" "kmem s"] keep sp
    by (simp add: heap_ok_def)
  have use1: "hdr_in_use (kmem s1) (heap_at ?e) = hdr_in_use (kmem s) (heap_at ?e)"
    using keep [of ?e] sp by (simp add: hdr_in_use_def)
  have c: "0 < c" "c + 24 = ?P * 4096"
    using pb n(1) unfolding c_def by linarith+
  have "(of_nat ?P :: u64) * 0x1000 = of_nat (?P * 4096)" by simp
  then have pc: "(of_nat ?P :: u64) * 0x1000 - 24 = of_nat c" by (simp add: c(2) [symmetric])
  have spc: "?e + 24 + c < 549755813888" using room c pb(2) n(2) by linarith
  define m where "m = append_memory (heap_at ?e) (of_nat ?P) (kmem s1)"
  note ap = heap_append [OF ok1 pc c(1) spc, folded m_def]
  have out: "m a = kmem s1 a" if "a \<in> window s" for a
    using that spc by (intro ap(2) window_not_heap [OF _ win]) auto
  have low: "m (heap_at k) = kmem s (heap_at k)" if "k < ?e" for k
  proof -
    have "heap_at k \<notin> heap_at ` ({?e..<?e + 24} \<union> {?e + c + 24..<?e + c + 48})"
      using that spc by (intro heap_image_disjoint) auto
    with ap(2) keep [of k] that sp show ?thesis by simp
  qed
  have "malloc s (of_nat n) al = Some (heap_at (?e + 24),
      s1\<lparr>kmem := split_chunk (heap_at ?e) (of_nat (n + 24)) m\<rparr>)"
    using malloc_grow [OF ok skip n room] s1(1) by (simp add: grow_pages_def m_def)
  then show ?thesis
    using that ap(1) use1 low s1(2-4,6) out by (simp add: backed_def)
qed

section \<open>Freeing the first chunk\<close>

text \<open>The field \<^verbatim>\<open>size_prev\<close> of the first header does not take part in the list.\<close>

lemma seg_size_prev:
  fixes v :: u64
  assumes sg: "seg m off cs" and bound: "off + span cs + 48 < 1099511627776"
  defines "m' \<equiv> store64 m (heap_at (off + 16)) v"
  shows "seg m' off cs" and "hdr_size m' (heap_at (off + span cs)) = hdr_size m (heap_at (off + span cs))"
proof -
  have first: "hdr_size m' (heap_at off) = hdr_size m (heap_at off)"
    "hdr_in_use m' (heap_at off) = hdr_in_use m (heap_at off)"
    using bound unfolding m'_def hdr_defs_heap hdr_in_use_def by (simp_all add: mem_simps)
  have later: "m' (heap_at k) = m (heap_at k)" if "off + 24 \<le> k" "k < 1099511627776" for k
    using that bound unfolding m'_def by (simp add: mem_simps)
  show "seg m' off cs"
  proof (cases cs)
    case (Cons c rest)
    then obtain n u where c: "cs = (n, u) # rest" by (cases c) simp
    then have "seg m' (off + 24 + n) rest"
      using sg bound by (intro seg_cong [of _ rest m' m] later) simp_all
    with c sg first show ?thesis by simp
  qed simp
  show "hdr_size m' (heap_at (off + span cs)) = hdr_size m (heap_at (off + span cs))"
  proof (cases cs)
    case (Cons c rest)
    then have "off + 24 \<le> off + span cs" by (cases c) simp
    then show ?thesis using bound by (intro hdr_cong(1) later) simp_all
  qed (use first in simp)
qed

lemma mfree_first:
  assumes ok: "heap_ok (kmem s) ((n, u) # (r, False) # post)"
    and prev: "hdr_size_prev (kmem s) (heap_at 0) = 0"
  shows "heap_ok (kmem (mfree s (heap_at 24))) ((n + 24 + r, False) # post)"
proof -
  let ?m = "kmem s"
  have sp: "n + 24 + r + 24 + span post < 549755813888"
    and c: "0 < n" "0 < r" "load64 ?m (heap_at 8) = of_nat n"
      "load64 ?m (heap_at (n + 24 + 8)) = of_nat r" "?m (heap_at (n + 24)) = 0"
    and sg: "seg ?m (n + 24 + r + 24) post" "hdr_size ?m (heap_at (n + 24 + r + 24 + span post)) = 0"
    using ok by (simp_all add: heap_ok_def hdr_defs_heap hdr_in_use_def ac_simps)
  define m' where "m' = store64 (store64 (?m(heap_at 0 := 0)) (heap_at 8) (of_nat (n + 24 + r)))
    (heap_at (n + 24 + r + 24 + 16)) (of_nat r)"
  have r0: "(of_nat r :: u64) \<noteq> 0"
  proof
    assume "(of_nat r :: u64) = 0"
    moreover have "unat (of_nat r :: u64) = r" using sp by (intro unat_of_nat_u64) simp
    ultimately show False using c(2) by simp
  qed
  let ?m1 = "set_in_use (heap_at 0) False ?m" and ?nxt = "heap_at (n + 24)"
  let ?m3 = "set_size (heap_at 0) (of_nat n + (of_nat r + 24)) ?m1"
  have m1: "?m1 = ?m(heap_at 0 := 0)" by (simp add: set_in_use_def)
  have m3: "?m3 = store64 (?m(heap_at 0 := 0)) (heap_at 8) (of_nat (n + 24 + r))"
    by (simp add: set_size_def m1 heap_at_fields ac_simps)
  have f1: "hdr_size_prev ?m1 (heap_at 0) = 0" "hdr_size ?m1 (heap_at 0) = of_nat n"
    "hdr_size ?m1 ?nxt = of_nat r" "\<not> hdr_in_use ?m1 ?nxt"
    using prev c sp unfolding m1 hdr_defs_heap hdr_in_use_def
    by (simp_all add: mem_simps del: fun_upd_apply)
  have nxt: "NEXT_HDR ?m1 (heap_at 0) = ?nxt"
    using next_hdr_heap [OF f1(2)] by (simp add: add.commute)
  have f3: "hdr_size ?m3 ?nxt = of_nat r"
    using c sp unfolding m3 hdr_defs_heap by (simp add: mem_simps del: fun_upd_apply of_nat_add)
  have nn: "NEXT_HDR ?m3 ?nxt = heap_at (n + 24 + r + 24)"
    using next_hdr_heap [OF f3] by (simp add: ac_simps)
  have last: "set_size_prev (heap_at (n + 24 + r + 24)) (of_nat r) ?m3 = m'"
    by (simp add: m'_def m3 set_size_prev_def) (simp add: heap_at_def ac_simps)
  have chunk: "CHUNK_HDR (heap_at 24) = heap_at 0" by (simp add: CHUNK_HDR_def heap_at_def)
  have "mfree s (heap_at 24) = s\<lparr>kmem := m'\<rparr>"
    unfolding mfree_def Let_def chunk using f1 nxt f3 nn last r0 by simp
  moreover have "heap_ok m' ((n + 24 + r, False) # post)"
  proof -
    define m1 where "m1 = store64 (?m(heap_at 0 := 0)) (heap_at 8) (of_nat (n + 24 + r))"
    let ?nn = "n + 24 + r + 24"
    have m': "m' = store64 m1 (heap_at (?nn + 16)) (of_nat r)" by (simp add: m'_def m1_def)
    have keep: "m1 (heap_at k) = ?m (heap_at k)" if "?nn \<le> k" "k < 1099511627776" for k
      using that by (simp add: m1_def mem_simps del: fun_upd_apply)
    have "seg m1 ?nn post"
      by (rule seg_cong [OF _ sg(1)]) (use sp in \<open>auto intro: keep\<close>)
    moreover have "hdr_size m1 (heap_at (?nn + span post)) = 0"
      using sg(2) hdr_cong(1) [of "?nn + span post" m1 ?m] keep sp by simp
    moreover have "?nn + span post + 48 < 1099511627776" using sp by simp
    ultimately have "seg m' ?nn post" "hdr_size m' (heap_at (?nn + span post)) = 0"
      using seg_size_prev [of m1 ?nn post "of_nat r"] by (simp_all add: m')
    moreover have "load64 m' (heap_at 8) = of_nat (n + 24 + r)" "m' (heap_at 0) = 0"
      using sp unfolding m' m1_def by (simp_all add: mem_simps del: fun_upd_apply of_nat_add) simp
    ultimately show ?thesis
      using sp c by (simp add: heap_ok_def hdr_defs_heap hdr_in_use_def ac_simps)
  qed
  ultimately show ?thesis by simp
qed


section \<open>Freeing a later chunk\<close>

text \<open>
  \<^verbatim>\<open>PREV_HDR\<close> steps back by the size of the chunk itself, not by \<^verbatim>\<open>size_prev\<close>. When the
  chunk is smaller than its predecessor the "header" it finds lies in the predecessor's body.
\<close>

lemma mfree_inside_previous:
  assumes bound: "q + n + n + 72 < 1099511627776"
    and sz: "hdr_size (kmem s) (heap_at (q + n + 24)) = of_nat n"
    and prev: "hdr_size_prev (kmem s) (heap_at (q + n + 24)) \<noteq> 0"
    and zero: "kmem s (heap_at q) = 0" "load64 (kmem s) (heap_at (q + 8)) = 0"
    and body: "load64 (kmem s) (heap_at (q + n + 56)) = 0"
  shows "mfree s (heap_at (q + n + 48)) =
    s\<lparr>kmem := store64 ((kmem s)(heap_at (q + n + 24) := 0)) (heap_at (q + 8)) (of_nat (n + 24))\<rparr>"
proof -
  let ?h = "heap_at (q + n + 24)" and ?p = "heap_at q"
  let ?m1 = "set_in_use ?h False (kmem s)"
  let ?m2 = "set_size ?p (of_nat n + 24) ?m1"
  have m1: "?m1 = (kmem s)(?h := 0)" by (simp add: set_in_use_def)
  have w: "q + n + 24 + 8 = q + n + 32" "q + n + 24 + 16 = q + n + 40" "q + n + 48 + 8 = q + n + 56"
    by simp_all
  have f1: "hdr_size_prev ?m1 ?h \<noteq> 0" "hdr_size ?m1 ?h = of_nat n"
    "\<not> hdr_in_use ?m1 ?p" "hdr_size ?m1 ?p = 0"
    using sz prev zero bound unfolding m1 hdr_in_use_def hdr_defs_heap w
    by (simp_all add: mem_simps del: fun_upd_apply)
  have p: "PREV_HDR ?m1 ?h = ?p"
    unfolding PREV_HDR_def f1(2) by (simp add: heap_at_def)
  have m2: "?m2 = store64 ((kmem s)(?h := 0)) (heap_at (q + 8)) (of_nat (n + 24))"
    by (simp add: set_size_def m1 heap_at_fields)
  have "hdr_size ?m2 ?p = of_nat (n + 24)" by (simp add: m2 hdr_defs_heap)
  then have nxt: "NEXT_HDR ?m2 ?p = heap_at (q + n + 48)"
    using next_hdr_heap [of ?m2 q "n + 24"] by (simp add: ac_simps)
  have "hdr_size ?m2 (heap_at (q + n + 48)) = 0"
    using body bound unfolding m2 hdr_defs_heap w
    by (simp add: mem_simps del: fun_upd_apply of_nat_add)
  moreover have "CHUNK_HDR (heap_at (q + n + 48)) = ?h"
    by (simp add: CHUNK_HDR_def heap_at_def)
  ultimately show ?thesis
    unfolding mfree_def Let_def using f1 p nxt m2 by simp
qed

section \<open>An example heap\<close>

text \<open>Headers for a list of chunks, written into a memory of zeros.\<close>

fun heap_mem :: "nat \<Rightarrow> nat \<Rightarrow> (nat \<times> bool) list \<Rightarrow> mem" where
  "heap_mem off prev [] = store64 ((\<lambda>_. 0)(heap_at off := 1)) (heap_at (off + 16)) (of_nat prev)"
| "heap_mem off prev ((n, u) # cs) =
     store64 (store64 ((heap_mem (off + 24 + n) n cs)(heap_at off := if u then 1 else 0))
       (heap_at (off + 8)) (of_nat n)) (heap_at (off + 16)) (of_nat prev)"

lemma heap_mem_seg:
  "list_all (\<lambda>c. 0 < fst c) cs \<Longrightarrow> off + span cs + 48 < 1099511627776 \<Longrightarrow>
   seg (heap_mem off prev cs) off cs \<and> hdr_size (heap_mem off prev cs) (heap_at (off + span cs)) = 0"
proof (induction cs arbitrary: off prev)
  case Nil
  have "load64 (\<lambda>_. 0) (heap_at (off + 8)) = 0" by (rule load64_zero) simp
  with Nil show ?case by (simp add: hdr_defs_heap mem_simps del: fun_upd_apply)
next
  case (Cons c cs)
  obtain n u where c: "c = (n, u)" by (cases c) simp
  let ?m = "heap_mem (off + 24 + n) n cs" and ?m' = "heap_mem off prev (c # cs)"
  have IH: "seg ?m (off + 24 + n) cs" "hdr_size ?m (heap_at (off + 24 + n + span cs)) = 0"
    using Cons c by simp_all
  have keep: "?m' (heap_at k) = ?m (heap_at k)" if "off + 24 \<le> k" "k < 1099511627776" for k
    using that by (simp add: c mem_simps del: fun_upd_apply)
  have "seg ?m' (off + 24 + n) cs"
  proof (rule seg_cong [OF _ IH(1)])
    show "?m' (heap_at k) = ?m (heap_at k)" if "off + 24 + n \<le> k" "k < off + 24 + n + span cs" for k
      by (rule keep) (use that Cons.prems c in simp_all)
  qed
  moreover have "hdr_size ?m' (heap_at (off + 24 + n + span cs)) = 0"
    using IH(2) hdr_cong(1) [of "off + 24 + n + span cs" ?m' ?m] keep Cons.prems c by simp
  moreover have "hdr_size ?m' (heap_at off) = of_nat n" "hdr_in_use ?m' (heap_at off) = u"
    using Cons.prems c unfolding hdr_defs_heap hdr_in_use_def
    by (simp_all add: mem_simps del: fun_upd_apply) auto
  ultimately show ?case using Cons.prems c by (simp add: add.assoc)
qed

lemma heap_mem_ok:
  "list_all (\<lambda>c. 0 < fst c) cs \<Longrightarrow> span cs < 549755813888 \<Longrightarrow> heap_ok (heap_mem 0 0 cs) cs"
  using heap_mem_seg [of cs 0 0] by (simp add: heap_ok_def)

definition heap_example :: "(nat \<times> bool) list \<Rightarrow> vm" where
  "heap_example cs = vm_example\<lparr>kmem := heap_mem 0 0 cs\<rparr>"

text \<open>The example machine with one chunk in use on its heap.\<close>

definition grow_example :: vm where
  "grow_example = vm_example\<lparr>kmem := \<lambda>a.
     if a \<in> window vm_example then kmem vm_example a else heap_mem 0 0 [(4048, True)] a\<rparr>"

lemma grow_example_window: "pmm_pages vm_example \<le> 268435456"
  by (simp add: vm_example_def)

lemma grow_example_heap: "heap_ok (kmem grow_example) [(4048, True)]"
proof -
  let ?m = "heap_mem 0 0 [(4048, True)]"
  have ok: "heap_ok ?m [(4048, True)]" by (rule heap_mem_ok) simp_all
  have same: "kmem grow_example (heap_at k) = ?m (heap_at k)" if "k < 1099511627776" for k
    using heap_not_window [OF grow_example_window that] by (simp add: grow_example_def)
  have "seg (kmem grow_example) 0 [(4048, True)]"
    by (rule seg_cong [of 0 _ _ ?m]) (use ok same in \<open>simp_all add: heap_ok_def\<close>)
  moreover have "hdr_size (kmem grow_example) (heap_at 4072) = hdr_size ?m (heap_at 4072)"
    by (rule hdr_cong(1)) (simp add: same)
  ultimately show ?thesis using ok by (simp add: heap_ok_def)
qed

lemma grow_example_can_grow:
  assumes "grow_pages n \<le> 3" and "0 < n" and "n + 24 < 4294967296"
  shows "can_grow grow_example [(4048, True)] n"
proof -
  define m where "m = (\<lambda>a. if a \<in> window vm_example then kmem vm_example a
    else heap_mem 0 0 [(4048, True)] a)"
  have eq: "grow_example = vm_example\<lparr>kmem := m\<rparr>" by (simp add: grow_example_def m_def)
  have out: "m a = kmem vm_example a" if "a \<in> window vm_example" for a using that by (simp add: m_def)
  have k: "kernel_table grow_example = 0xffff800000001000"
    by (simp add: grow_example_def) (simp add: vm_example_def)
  note t = tables_ok_outside [OF vm_example_ok out, folded eq]
  have "path_ok (vaddr_to_index v) (kmem grow_example) 3 0xffff800000001000" for v
    using t(4) vm_example_path by (simp add: path_kept_def eq)
  moreover have "pmm_pages grow_example \<le> 268435456"
    using grow_example_window by (simp add: eq)
  ultimately show ?thesis
    using t(1,2) grow_example_heap assms
    by (simp add: can_grow_def k vm_example_avail fits_def)
qed

section \<open>Properties\<close>

text \<open>C12: Allocation is first fit: if the first unused chunk of at least \<open>n + 24\<close> bytes is
  larger than that, \<^verbatim>\<open>malloc\<close> answers the start of its body, splits it into a chunk of
  \<open>n\<close> bytes in use and the unused rest, keeps all other chunks, and writes only the two
  headers.\<close>

theorem malloc_first_fit:
  assumes "heap_ok (kmem s) (pre @ (c, False) # post)"
    and "\<forall>d\<in>set pre. \<not> fits (n + 24) d" and "0 < n" and "n + 24 < c"
  shows "\<exists>s'. malloc s (of_nat n) al = Some (heap_at (span pre + 24), s') \<and>
    heap_ok (kmem s') (pre @ (n, True) # (c - n - 24, False) # post) \<and>
    (\<forall>a. a \<notin> heap_at ` ({span pre..<span pre + 24} \<union> {span pre + n + 24..<span pre + n + 48}) \<longrightarrow>
      kmem s' a = kmem s a)"
  using malloc_fit [OF assms(1,2,3), of al] heap_split [OF assms(1,3,4)] assms(4) by auto

theorem malloc_first_fit_witness:
  "\<exists>s'. malloc (heap_example [(100, True), (40, False), (300, False)]) 64 0 =
      Some (heap_at (188 + 24), s') \<and>
    heap_ok (kmem s') [(100, True), (40, False), (64, True), (212, False)]"
proof -
  let ?s = "heap_example [(100, True), (40, False), (300, False)]"
  have ok: "heap_ok (kmem ?s) ([(100, True), (40, False)] @ (300, False) # [])"
    using heap_mem_ok [of "[(100, True), (40, False), (300, False)]"] by (simp add: heap_example_def)
  have skip: "\<forall>d\<in>set [(100, True), (40, False)]. \<not> fits (64 + 24) d" by (simp add: fits_def)
  from malloc_first_fit [OF ok skip, of 0] show ?thesis by auto
qed

text \<open>An exact fit loses every chunk behind it: when the first chunk that fits has exactly
  \<open>n + 24\<close> bytes, the header written for the empty rest has size 0, which the search takes for
  the end of the heap.\<close>

theorem malloc_exact_fit_loses_chunks:
  assumes ok: "heap_ok (kmem s) (pre @ (n + 24, False) # post)"
    and skip: "\<forall>d\<in>set pre. \<not> fits (n + 24) d" and n: "0 < n"
  shows "\<exists>s'. malloc s (of_nat n) al = Some (heap_at (span pre + 24), s') \<and>
    heap_ok (kmem s') (pre @ [(n, True)])"
proof -
  let ?m' = "split_chunk (heap_at (span pre)) (of_nat (n + 24)) (kmem s)"
  have sp: "span pre + n + 48 < 549755813888"
    and sg: "seg (kmem s) 0 pre" "hdr_size (kmem s) (heap_at (span pre)) = of_nat (n + 24)"
    using ok by (simp_all add: heap_ok_def)
  have bound: "span pre + n + 48 < 1099511627776" using sp by simp
  note h = split_chunk_hdrs [OF bound n, where m = "kmem s"]
  have "?m' (heap_at k) = kmem s (heap_at k)" if "k < span pre" for k
    using that bound by (intro h(7) heap_image_disjoint) auto
  then have "seg ?m' 0 pre" using sg(1) by (intro seg_cong [of 0 pre ?m' "kmem s"]) simp_all
  moreover have "hdr_size ?m' (heap_at (span pre + n + 24)) = 0"
    using h(3) by (simp only: sg(2)) simp
  ultimately have "heap_ok ?m' (pre @ [(n, True)])"
    using h(1,2) n sp by (simp add: heap_ok_def ac_simps)
  then show ?thesis using malloc_fit [OF ok skip n, of al] by simp
qed

theorem malloc_exact_fit_loses_chunks_witness:
  "\<exists>s'. malloc (heap_example [(100, False), (500, True)]) 76 0 = Some (heap_at 24, s') \<and>
    heap_ok (kmem s') [(76, True)]"
proof -
  have "heap_ok (kmem (heap_example [(100, False), (500, True)])) ([] @ (76 + 24, False) # [(500, True)])"
    using heap_mem_ok [of "[(100, False), (500, True)]"] by (simp add: heap_example_def)
  from malloc_exact_fit_loses_chunks [OF this, of 0] show ?thesis by auto
qed

text \<open>C13: Freeing the first chunk undoes its allocation: the unused rest is merged back and the
  list of chunks is the one before \<^verbatim>\<open>malloc\<close>.\<close>

theorem malloc_mfree_roundtrip:
  assumes ok: "heap_ok (kmem s) ((c, False) # post)"
    and prev: "hdr_size_prev (kmem s) (heap_at 0) = 0" and n: "0 < n" "n + 24 < c"
  shows "\<exists>p s'. malloc s (of_nat n) al = Some (p, s') \<and> heap_ok (kmem (mfree s' p)) ((c, False) # post)"
proof -
  have ok': "heap_ok (kmem s) ([] @ (c, False) # post)" using ok by simp
  let ?m' = "split_chunk (heap_at 0) (of_nat (n + 24)) (kmem s)"
  have "malloc s (of_nat n) al = Some (heap_at 24, s\<lparr>kmem := ?m'\<rparr>)"
    using malloc_fit [OF ok' _ n(1), of al] n(2) by simp
  moreover have "heap_ok ?m' ((n, True) # (c - n - 24, False) # post)"
    using heap_split(1) [OF ok' n] by simp
  moreover have "0 + n + 48 < 1099511627776"
    using heap_ok_size_bound(1) [OF ok'] n(2) by simp
  then have "hdr_size_prev ?m' (heap_at 0) = 0"
    using split_chunk_hdrs(6) [OF _ n(1), of 0 "kmem s"] prev by simp
  moreover have "n + 24 + (c - n - 24) = c" using n(2) by simp
  ultimately show ?thesis
    using mfree_first [of "s\<lparr>kmem := ?m'\<rparr>" n True "c - n - 24" post] by auto
qed

theorem malloc_mfree_roundtrip_witness:
  "\<exists>p s'. malloc (heap_example [(4048, False)]) 64 0 = Some (p, s') \<and>
    heap_ok (kmem (mfree s' p)) [(4048, False)]"
proof -
  have ok: "heap_ok (kmem (heap_example [(4048, False)])) [(4048, False)]"
    using heap_mem_ok [of "[(4048, False)]"] by (simp add: heap_example_def)
  have "hdr_size_prev (kmem (heap_example [(4048, False)])) (heap_at 0) = 0"
    by (simp add: heap_example_def hdr_defs_heap)
  from malloc_mfree_roundtrip [OF ok this, of 64 0] show ?thesis by simp
qed

text \<open>Freeing a chunk that is smaller than its predecessor writes into the predecessor's body,
  although that block is in use: when the body holds zeros where the mistaken header lies, eight of
  its bytes become \<open>n + 24\<close>.\<close>

theorem mfree_corrupts_previous:
  assumes ok: "heap_ok (kmem s) (pre @ (p, True) # (n, True) # post)"
    and q: "span pre + 24 + p = q + n + 24" and small: "n + 16 \<le> p"
    and prev: "hdr_size_prev (kmem s) (heap_at (q + n + 24)) = of_nat p"
    and zero: "kmem s (heap_at q) = 0" "load64 (kmem s) (heap_at (q + 8)) = 0"
    and body: "load64 (kmem s) (heap_at (q + n + 56)) = 0"
  shows "span pre + 24 \<le> q + 8 \<and> q + 16 \<le> span pre + 24 + p \<and>
    load64 (kmem (mfree s (heap_at (q + n + 48)))) (heap_at (q + 8)) = of_nat (n + 24)"
proof -
  have sp: "span pre + 24 + p + 24 + n < 549755813888"
    and sz: "hdr_size (kmem s) (heap_at (q + n + 24)) = of_nat n"
    using ok by (simp_all add: heap_ok_def q [symmetric])
  then have "p < 18446744073709551616" by simp
  then have "unat (of_nat p :: u64) = p" by (rule unat_of_nat_u64)
  moreover have "p \<noteq> 0" using small by simp
  ultimately have "hdr_size_prev (kmem s) (heap_at (q + n + 24)) \<noteq> 0" using prev by (metis unat_0)
  moreover have "q + n + n + 72 < 1099511627776" using sp q by linarith
  ultimately have "load64 (kmem (mfree s (heap_at (q + n + 48)))) (heap_at (q + 8)) = of_nat (n + 24)"
    using mfree_inside_previous [OF _ sz _ zero body] by simp
  moreover have "span pre + 24 \<le> q + 8" "q + 16 \<le> span pre + 24 + p" using small q by linarith+
  ultimately show ?thesis by blast
qed

theorem mfree_corrupts_previous_witness:
  "load64 (kmem (mfree (heap_example [(100, True), (50, True), (70, False)]) (heap_at 148)))
     (heap_at 58) = 74"
proof -
  let ?s = "heap_example [(100, True), (50, True), (70, False)]"
  have z: "load64 (\<lambda>_. 0) a = 0" for a by (rule load64_zero) simp
  have ok: "heap_ok (kmem ?s) ([] @ (100, True) # (50, True) # [(70, False)])"
    using heap_mem_ok [of "[(100, True), (50, True), (70, False)]"] by (simp add: heap_example_def)
  have q: "span [] + 24 + 100 = 50 + 50 + 24" by simp
  have prev: "hdr_size_prev (kmem ?s) (heap_at (50 + 50 + 24)) = of_nat 100"
    by (simp add: heap_example_def hdr_defs_heap mem_simps del: fun_upd_apply)
  have zero: "kmem ?s (heap_at 50) = 0" "load64 (kmem ?s) (heap_at (50 + 8)) = 0"
    "load64 (kmem ?s) (heap_at (50 + 50 + 56)) = 0"
    by (simp_all add: heap_example_def mem_simps z del: fun_upd_apply)
  from mfree_corrupts_previous [OF ok q _ prev zero] show ?thesis by simp
qed


text \<open>C3: When no chunk fits, the heap grows by the pages that hold the request and its header,
  if the kernel has four frames for each: the new block is the old terminator's, the rest of the
  new pages becomes an unused chunk behind it, all pages are mapped, and the chunks before it keep
  their contents. This needs room for the header of the rest in the new pages.\<close>

theorem malloc_grow_correct:
  assumes g: "can_grow s cs n" and room: "n + 48 < grow_pages n * 4096"
  shows "\<exists>s'. malloc s (of_nat n) al = Some (heap_at (span cs + 24), s') \<and>
    heap_ok (kmem s') (cs @ [(n, True), (grow_pages n * 4096 - 48 - n, False)]) \<and>
    paging_ok s' (kernel_table s) \<and>
    (\<forall>i<grow_pages n.
      present (paging_get s' (kernel_table s) (vpage_at (heap_at (span cs + 24)) i))) \<and>
    (\<forall>k. k < span cs \<longrightarrow> kmem s' (heap_at k) = kmem s (heap_at k))"
proof -
  let ?c = "grow_pages n * 4096 - 24" and ?k = "kernel_table s"
  have n: "0 < n" "n + 24 < ?c" and win: "pmm_pages s \<le> 268435456"
    using g room by (simp_all add: can_grow_def)
  obtain s1 m where a: "malloc s (of_nat n) al = Some (heap_at (span cs + 24),
      s1\<lparr>kmem := split_chunk (heap_at (span cs)) (of_nat (n + 24)) m\<rparr>)"
    "heap_ok m (cs @ [(?c, hdr_in_use (kmem s) (heap_at (span cs)))])"
    "\<And>k. k < span cs \<Longrightarrow> m (heap_at k) = kmem s (heap_at k)"
    "paging_ok s1 ?k" "kernel_table s1 = ?k" "total_memory s1 = total_memory s"
    "\<And>a. a \<in> window s \<Longrightarrow> m a = kmem s1 a"
    "\<And>i. i < grow_pages n \<Longrightarrow> present (paging_get s1 ?k (vpage_at (heap_at (span cs + 24)) i))"
    by (rule malloc_grow_append [OF g, of al]) blast
  let ?m' = "split_chunk (heap_at (span cs)) (of_nat (n + 24)) m"
  note h = heap_split [OF a(2) n]
  have sp: "span cs + 24 + ?c < 549755813888"
    using a(2) unfolding heap_ok_def span_append span.simps by linarith
  have out: "?m' a = kmem s1 a" if "a \<in> window s1" for a
  proof -
    have "a \<in> window s" using that window_cong [OF a(6)] by simp
    moreover from this have "a \<notin> heap_at ` ({span cs..<span cs + 24} \<union>
        {span cs + n + 24..<span cs + n + 48})"
      by (rule window_not_heap [OF _ win]) (use sp n in auto)
    ultimately show ?thesis using h(2) a(7) by simp
  qed
  have low: "?m' (heap_at k) = kmem s (heap_at k)" if "k < span cs" for k
  proof -
    have "heap_at k \<notin> heap_at ` ({span cs..<span cs + 24} \<union> {span cs + n + 24..<span cs + n + 48})"
      using that sp n by (intro heap_image_disjoint) auto
    with h(2) a(3) [OF that] show ?thesis by simp
  qed
  have "?c - n - 24 = grow_pages n * 4096 - 48 - n" by simp
  then show ?thesis
    using a(1,8) h(1) tables_ok_outside(1) [OF a(4) out]
      tables_ok_outside(3) [OF a(4) out _ indices_ok_vaddr] low
    by (simp add: paging_get_def)
qed

theorem malloc_grow_correct_witness:
  "\<exists>s'. malloc grow_example 100 0 = Some (heap_at 4096, s') \<and>
    heap_ok (kmem s') [(4048, True), (100, True), (3948, False)]"
proof -
  have p: "grow_pages 100 = 1" by (simp add: grow_pages_def)
  have "can_grow grow_example [(4048, True)] 100"
    by (rule grow_example_can_grow) (simp_all add: p)
  from malloc_grow_correct [OF this, of 0] show ?thesis by (auto simp: p)
qed

text \<open>The number of pages leaves out the header of the rest. When the request and its header
  fill the new pages up to fewer than 24 bytes, the size of the rest wraps around below zero: the
  heap ends in an unused chunk of nearly \<open>2 ^ 64\<close> bytes, which starts behind the mapped
  pages.\<close>

theorem malloc_grow_underflow:
  assumes g: "can_grow s cs n" and full: "grow_pages n * 4096 < n + 48"
  shows "\<exists>s'. malloc s (of_nat n) al = Some (heap_at (span cs + 24), s') \<and>
    \<not> hdr_in_use (kmem s') (heap_at (span cs + n + 24)) \<and>
    hdr_size (kmem s') (heap_at (span cs + n + 24)) = - of_nat (n + 48 - grow_pages n * 4096)"
proof -
  let ?c = "grow_pages n * 4096 - 24" and ?k = "kernel_table s"
  have n: "0 < n" "n + 24 < 4294967296" "span cs + 24 \<le> 8589934592"
    using g by (simp_all add: can_grow_def)
  obtain s1 m where a: "malloc s (of_nat n) al = Some (heap_at (span cs + 24),
      s1\<lparr>kmem := split_chunk (heap_at (span cs)) (of_nat (n + 24)) m\<rparr>)"
    "heap_ok m (cs @ [(?c, hdr_in_use (kmem s) (heap_at (span cs)))])"
    by (rule malloc_grow_append [OF g, of al]) blast
  have sz: "hdr_size m (heap_at (span cs)) = of_nat ?c" using a(2) by (simp add: heap_ok_def)
  have bound: "span cs + n + 48 < 1099511627776" using n by simp
  have "?c + (n + 48 - grow_pages n * 4096) = n + 24"
    using full grow_pages_bounds(1) [OF n(1)] n(1) by simp
  then have "(of_nat ?c :: u64) + of_nat (n + 48 - grow_pages n * 4096) = of_nat (n + 24)"
    by (metis of_nat_add)
  then have "(of_nat ?c :: u64) - of_nat (n + 24) = - of_nat (n + 48 - grow_pages n * 4096)"
    by (metis add_diff_cancel_left' minus_diff_eq)
  then show ?thesis
    using a(1) split_chunk_hdrs(3,4) [OF bound n(1), where m = m] by (simp add: sz del: of_nat_add)
qed

theorem malloc_grow_underflow_witness:
  "\<exists>s'. malloc grow_example 4072 0 = Some (heap_at 4096, s') \<and>
    hdr_size (kmem s') (heap_at 8168) = 0xffffffffffffffe8"
proof -
  have p: "grow_pages 4072 = 1" by (simp add: grow_pages_def)
  have "can_grow grow_example [(4048, True)] 4072"
    by (rule grow_example_can_grow) (simp_all add: p)
  from malloc_grow_underflow [OF this, of 0] show ?thesis by (auto simp: p)
qed

text \<open>Initialisation maps the first page of the heap and makes it one unused chunk of 4048
  bytes.\<close>

theorem malloc_init_correct:
  assumes "paging_ok s (kernel_table s)" and "4 \<le> frames_avail s"
    and "path_ok (vaddr_to_index alloc_start) (kmem s) 3 (kernel_table s)"
    and "pmm_pages s \<le> 268435456"
  shows "\<exists>s'. malloc_init s = Some s' \<and> heap_ok (kmem s') [(4048, False)] \<and>
    paging_ok s' (kernel_table s') \<and> present (paging_get s' (kernel_table s') alloc_start)"
  by (rule malloc_init_spec [OF assms]) blast

theorem malloc_init_correct_witness:
  "\<exists>s'. malloc_init vm_example = Some s' \<and> heap_ok (kmem s') [(4048, False)]"
proof -
  have k: "kernel_table vm_example = 0xffff800000001000" by (simp add: vm_example_def)
  have "pmm_pages vm_example \<le> 268435456" by (simp add: vm_example_def)
  with malloc_init_correct [of vm_example] vm_example_ok vm_example_path vm_example_avail
  show ?thesis by (auto simp: k)
qed

end
