(* ===== verification/Strutil.thy ===== *)
theory Strutil
  imports Prelude
begin

text \<open>
  The string routines of \<^verbatim>\<open>libk/strutil.c\<close> on the byte memory. \<^verbatim>\<open>char\<close> is a signed byte on
  x86-64, so comparisons of characters are signed. Loops that run to a terminating zero are partial
  functions: without a zero they may not return. \<open>cstring m p xs\<close> says that the bytes
  \<open>xs\<close> and a zero lie at \<open>p\<close>.
\<close>

definition NPOS :: u64 where "NPOS = - 1"

section \<open>The operations\<close>

partial_function (option) strlen_from :: "mem \<Rightarrow> ptr \<Rightarrow> u64 \<Rightarrow> u64 option" where
  "strlen_from m str len = (if m (str + len) \<noteq> 0 then strlen_from m str (len + 1) else Some len)"

definition strlen :: "mem \<Rightarrow> ptr \<Rightarrow> u64 option" where
  "strlen m str = strlen_from m str 0"

text \<open>
  The do-while loop that counts the digits. A base of 0 divides by zero; with base 1 and a nonzero
  number the loop does not end.
\<close>

partial_function (option) utos_digits :: "u64 \<Rightarrow> u64 \<Rightarrow> u64 \<Rightarrow> u64 option" where
  "utos_digits i base val_len =
     (if base = 0 then None
      else if i div base > 0 then utos_digits (i div base) base (val_len + 1)
      else Some (val_len + 1))"

text \<open>
  The character table is a string of sixteen digits: a digit 16 reads its final zero, a larger one
  reads behind it, which is undefined.
\<close>

definition digit_char :: "u64 \<Rightarrow> u8" where
  "digit_char d = (if d < 10 then 48 + ucast d else if d < 16 then 55 + ucast d else 0)"

fun utos_store :: "ptr \<Rightarrow> u64 \<Rightarrow> u64 \<Rightarrow> nat list \<Rightarrow> u64 \<times> mem \<Rightarrow> (u64 \<times> mem) option" where
  "utos_store buf base str_len [] (i, m) = Some (i, m)"
| "utos_store buf base str_len (n # ns) (i, m) =
     (if i mod base > 16 then None
      else utos_store buf base str_len ns
             (i div base, m(buf + (str_len - of_nat n - 1) := digit_char (i mod base))))"

definition utos :: "mem \<Rightarrow> u64 \<Rightarrow> u64 \<Rightarrow> ptr \<Rightarrow> u64 \<Rightarrow> (u64 \<times> mem) option" where
  "utos m i base buf min_len =
     do { digits \<leftarrow> utos_digits i base 0;
          let val_len = (if digits < min_len then min_len else digits);
          let str_len = (if base = 16 then val_len + 2 else val_len);
          let m1 = (if base = 16 then m(buf := 0x30, buf + 1 := 0x78) else m);
          let m2 = m1(buf + str_len := 0);
          (_, m3) \<leftarrow> utos_store buf base str_len [0..<unat val_len] (i, m2);
          Some (str_len, m3) }"

definition char_value :: "u8 \<Rightarrow> u8" where
  "char_value c =
     (if word_sless 0x39 c then
        (if word_sless 0x5a c then c - 0x61 else c - 0x7a)
      else c - 0x30)"

fun stou_loop :: "mem \<Rightarrow> ptr \<Rightarrow> u64 \<Rightarrow> u64 \<Rightarrow> nat list \<Rightarrow> u64 \<Rightarrow> u64 \<Rightarrow> u64" where
  "stou_loop m str base len [] value digit = value"
| "stou_loop m str base len (i # is) value digit =
     (let v = char_value (m (str + (len - of_nat i - 1))) in
      if ucast v \<ge> base then 0
      else stou_loop m str base len is (value + ucast v * digit) (digit * base))"

definition stou :: "mem \<Rightarrow> ptr \<Rightarrow> u64 \<Rightarrow> u64 option" where
  "stou m str base =
     do { len \<leftarrow> strlen m str;
          Some (stou_loop m str base len [0..<unat len] 0 1) }"

text \<open>\<^verbatim>\<open>strtok\<close> keeps its place in the static variable \<^verbatim>\<open>strtok_s\<close>, here passed and returned.\<close>

partial_function (option) strtok_scan :: "mem \<Rightarrow> u8 \<Rightarrow> ptr \<Rightarrow> ptr option" where
  "strtok_scan m delim p =
     (if m p \<noteq> 0 \<and> m p \<noteq> delim then strtok_scan m delim (p + 1) else Some p)"

definition strtok :: "mem \<Rightarrow> ptr \<Rightarrow> ptr \<Rightarrow> u8 \<Rightarrow> (ptr \<times> ptr \<times> mem) option" where
  "strtok m strtok_s s delim =
     (if strtok_s = 0 \<and> s = 0 then Some (0, strtok_s, m)
      else
        let begin = (if strtok_s = 0 then s else strtok_s) in
        do { p \<leftarrow> strtok_scan m delim begin;
             if m p = 0 then Some (begin, 0, m)
             else Some (begin, p + 1, m(p := 0)) })"

partial_function (option) strcmp :: "mem \<Rightarrow> ptr \<Rightarrow> ptr \<Rightarrow> int option" where
  "strcmp m s1 s2 =
     (if m s1 \<noteq> 0 \<and> m s1 = m s2 then strcmp m (s1 + 1) (s2 + 1)
      else Some (uint (m s1) - uint (m s2)))"

partial_function (option) strncmp :: "mem \<Rightarrow> ptr \<Rightarrow> ptr \<Rightarrow> u64 \<Rightarrow> int option" where
  "strncmp m s1 s2 n =
     (if m s1 \<noteq> 0 \<and> m s1 = m s2 \<and> n - 1 \<noteq> 0 then strncmp m (s1 + 1) (s2 + 1) (n - 1)
      else Some (sint (m s1) - sint (m s2)))"

partial_function (option) strfind_from :: "mem \<Rightarrow> ptr \<Rightarrow> u8 \<Rightarrow> u64 \<Rightarrow> u64 option" where
  "strfind_from m s c i =
     (if m (s + i) \<noteq> 0 then
        (if m (s + i) = c then Some i else strfind_from m s c (i + 1))
      else Some NPOS)"

definition strfind :: "mem \<Rightarrow> ptr \<Rightarrow> u8 \<Rightarrow> u64 option" where
  "strfind m s c = strfind_from m s c 0"

partial_function (option) strcpy :: "mem \<Rightarrow> ptr \<Rightarrow> ptr \<Rightarrow> mem option" where
  "strcpy m dst src =
     (if m src \<noteq> 0 then strcpy (m(dst := m src)) (dst + 1) (src + 1) else Some (m(dst := 0)))"

partial_function (option) strncpy :: "mem \<Rightarrow> ptr \<Rightarrow> ptr \<Rightarrow> u64 \<Rightarrow> mem option" where
  "strncpy m dst src n =
     (if m src \<noteq> 0 \<and> n - 1 \<noteq> 0 then strncpy (m(dst := m src)) (dst + 1) (src + 1) (n - 1)
      else Some (m(dst := 0)))"

fun trim_loop :: "mem \<Rightarrow> ptr \<Rightarrow> u64 \<Rightarrow> nat list \<Rightarrow> u64 \<times> mem" where
  "trim_loop m src max_n [] = (0, m)"
| "trim_loop m src max_n (i # is) =
     (if of_nat i = max_n - 1 \<or> m (src + of_nat i) = 0x20 \<and> m (src + of_nat i + 1) = 0x20
      then (of_nat i, m(src + of_nat i := 0))
      else trim_loop m src max_n is)"

definition trim_and_terminate :: "mem \<Rightarrow> ptr \<Rightarrow> u64 \<Rightarrow> u64 \<times> mem" where
  "trim_and_terminate m src max_n = trim_loop m src max_n [0..<unat max_n]"

definition isdigit :: "u8 \<Rightarrow> bool" where
  "isdigit c \<longleftrightarrow> word_sle 0x30 c \<and> word_sle c 0x39"

section \<open>Strings in memory\<close>

definition cstring :: "mem \<Rightarrow> ptr \<Rightarrow> u8 list \<Rightarrow> bool" where
  "cstring m p xs \<longleftrightarrow> (\<forall>i<length xs. m (p + of_nat i) = xs ! i) \<and> 0 \<notin> set xs \<and>
     m (p + of_nat (length xs)) = 0 \<and> length xs < 18446744073709551616"

lemma cstring_nth: "cstring m p xs \<Longrightarrow> i < length xs \<Longrightarrow> m (p + of_nat i) = xs ! i \<and> xs ! i \<noteq> 0"
  unfolding cstring_def by (metis nth_mem)

lemma cstring_Nil: "cstring m p [] \<longleftrightarrow> m p = 0"
  by (simp add: cstring_def)

lemma cstring_Cons:
  "cstring m p (x # xs) \<longleftrightarrow> m p = x \<and> x \<noteq> 0 \<and> cstring m (p + 1) xs \<and>
     Suc (length xs) < 18446744073709551616"
  unfolding cstring_def by (auto simp: less_Suc_eq_0_disj add.assoc all_conj_distrib)

lemma strlen_from_cstring:
  "cstring m (p + k) xs \<Longrightarrow> strlen_from m p k = Some (k + of_nat (length xs))"
proof (induction xs arbitrary: k)
  case Nil
  then show ?case by (subst strlen_from.simps) (simp add: cstring_Nil)
next
  case (Cons x xs)
  then have "m (p + k) \<noteq> 0" and c: "cstring m (p + (k + 1)) xs"
    by (simp_all add: cstring_Cons add.assoc)
  then show ?case using Cons.IH [OF c] by (subst strlen_from.simps) (simp add: add.assoc)
qed

lemma strlen_cstring: "cstring m p xs \<Longrightarrow> strlen m p = Some (of_nat (length xs))"
  using strlen_from_cstring [of m p 0 xs] by (simp add: strlen_def)


section \<open>Comparing and copying\<close>

lemma strcmp_cstring:
  "cstring m p xs \<Longrightarrow> cstring m q ys \<Longrightarrow>
   \<exists>r. strcmp m p q = Some r \<and> (r = 0 \<longleftrightarrow> xs = ys) \<and>
     (r < 0 \<longleftrightarrow> (xs, ys) \<in> lexord {(a, b). a < b})"
proof (induction xs arbitrary: p q ys)
  case Nil
  then show ?case
    by (subst strcmp.simps, cases ys)
      (auto simp: cstring_Nil cstring_Cons uint_0_iff word_less_def word_neq_0_conv)
next
  case (Cons x xs)
  show ?case
  proof (cases ys)
    case Nil
    with Cons.prems show ?thesis
      by (subst strcmp.simps) (auto simp: cstring_Nil cstring_Cons uint_0_iff)
  next
    case (Cons y zs)
    have c: "m p = x" "x \<noteq> 0" "cstring m (p + 1) xs" "m q = y" "y \<noteq> 0" "cstring m (q + 1) zs"
      using Cons.prems(1) Cons.prems(2) \<open>ys = y # zs\<close> by (simp_all add: cstring_Cons)
    show ?thesis
    proof (cases "x = y")
      case True
      from Cons.IH [OF c(3,6)] show ?thesis
        using True c \<open>ys = y # zs\<close> by (subst strcmp.simps) auto
    next
      case False
      then show ?thesis
        using c \<open>ys = y # zs\<close> by (subst strcmp.simps) (auto simp: word_less_def word_uint_eq_iff)
    qed
  qed
qed

lemma cstring_unwritten:
  assumes "cstring m p xs" and "\<And>i. i \<le> length xs \<Longrightarrow> p + of_nat i \<noteq> a"
  shows "cstring (m(a := v)) p xs"
  using assms unfolding cstring_def by (simp add: less_imp_le)

text \<open>Two regions of \<open>n\<close> bytes without a common address.\<close>

definition apart :: "ptr \<Rightarrow> ptr \<Rightarrow> nat \<Rightarrow> bool" where
  "apart p q n \<longleftrightarrow> (\<forall>i<n. \<forall>j<n. p + of_nat i \<noteq> q + of_nat j)"

lemma apart_Suc:
  assumes "apart p q (Suc n)"
  shows "apart (p + 1) (q + 1) n"
  unfolding apart_def
proof (intro allI impI)
  fix i j assume "i < n" "j < n"
  then have "p + of_nat (Suc i) \<noteq> q + of_nat (Suc j)" using assms unfolding apart_def by blast
  then show "p + 1 + of_nat i \<noteq> q + 1 + of_nat j" by (simp add: add.assoc)
qed

text \<open>The memory after the bytes \<open>xs\<close> and a zero are written at \<open>p\<close>.\<close>

definition put_string :: "ptr \<Rightarrow> u8 list \<Rightarrow> mem \<Rightarrow> mem" where
  "put_string p xs m = (\<lambda>a. let k = unat (a - p) in
     if k < length xs then xs ! k else if k = length xs then 0 else m a)"

lemma unat_diff_zero: "unat (a - p) = 0 \<longleftrightarrow> a = p" for a p :: ptr
  using word_unat_eq_iff [of "a - p" 0] by simp

lemma unat_minus_1_u64: "unat (- 1 :: u64) = 18446744073709551615"
  by (simp add: unsigned_minus_1_eq_mask mask_eq_exp_minus_1)

lemma unat_pred_ptr: "a \<noteq> p \<Longrightarrow> unat (a - p) = Suc (unat (a - (p + 1)))" for a p :: ptr
proof -
  assume "a \<noteq> p"
  then have "a - p \<noteq> 0" by simp
  then have "unat (a - p - 1) = unat (a - p) - 1" by (rule unat_minus_one)
  moreover have "unat (a - p) \<noteq> 0" using \<open>a \<noteq> p\<close> by (simp add: unat_diff_zero)
  moreover have "a - (p + 1) = a - p - 1" by simp
  ultimately show ?thesis by (simp only:)
qed

lemma put_string_Nil: "put_string p [] m = m(p := 0)"
  by (auto simp: put_string_def Let_def fun_eq_iff unat_diff_zero)

lemma put_string_Cons:
  assumes "Suc (length xs) < 18446744073709551616"
  shows "put_string p (x # xs) m = put_string (p + 1) xs (m(p := x))"
proof
  fix a
  show "put_string p (x # xs) m a = put_string (p + 1) xs (m(p := x)) a"
  proof (cases "a = p")
    case True
    have "unat (p - (p + 1)) = 18446744073709551615" using unat_minus_1_u64 by simp
    with True assms show ?thesis by (simp add: put_string_def Let_def)
  next
    case False
    then show ?thesis by (simp add: put_string_def Let_def unat_pred_ptr)
  qed
qed

lemma strcpy_put:
  "cstring m src xs \<Longrightarrow> apart dst src (Suc (length xs)) \<Longrightarrow>
   strcpy m dst src = Some (put_string dst xs m)"
proof (induction xs arbitrary: m dst src)
  case Nil
  then show ?case by (subst strcpy.simps) (simp add: cstring_Nil put_string_Nil)
next
  case (Cons x xs)
  let ?m = "m(dst := x)"
  have c: "m src = x" "x \<noteq> 0" "cstring m (src + 1) xs" "Suc (length xs) < 18446744073709551616"
    using Cons.prems(1) by (simp_all add: cstring_Cons)
  have "src + of_nat (Suc j) \<noteq> dst" if "j \<le> length xs" for j
  proof -
    have "0 < Suc (length (x # xs))" "Suc j < Suc (length (x # xs))" using that by simp_all
    then have "dst + of_nat 0 \<noteq> src + of_nat (Suc j)"
      using Cons.prems(2) unfolding apart_def by blast
    then show ?thesis by auto
  qed
  then have "cstring ?m (src + 1) xs"
    by (intro cstring_unwritten c(3)) (simp add: add.assoc)
  moreover have "apart (dst + 1) (src + 1) (Suc (length xs))"
    using Cons.prems(2) by (intro apart_Suc) simp
  ultimately have "strcpy ?m (dst + 1) (src + 1) = Some (put_string (dst + 1) xs ?m)"
    by (rule Cons.IH)
  then show ?case
    using c by (subst strcpy.simps) (simp add: put_string_Cons)
qed

lemma put_string_cstring:
  assumes "0 \<notin> set xs" and "length xs < 18446744073709551616"
  shows "cstring (put_string p xs m) p xs"
proof -
  have "unat (p + of_nat i - p) = i" if "i \<le> length xs" for i
    using that assms(2) by (simp add: unat_of_nat_u64)
  then show ?thesis using assms by (simp add: cstring_def put_string_def Let_def)
qed

section \<open>Numbers\<close>

lemma unat_div_u64: "unat (i div b :: u64) = unat i div unat b"
  by (fact unat_div)

lemma utos_digits_spec:
  assumes base: "2 \<le> unat base"
  shows "\<exists>L. utos_digits i base v = Some (v + of_nat L) \<and> 1 \<le> L \<and> unat i < unat base ^ L \<and>
    (L = 1 \<or> unat base ^ (L - 1) \<le> unat i)"
proof (induction "unat i" arbitrary: i v rule: less_induct)
  case less
  have b0: "base \<noteq> 0" using base by auto
  show ?case
  proof (cases "i div base > 0")
    case False
    then have "unat i div unat base = 0" by (metis unat_0 unat_div_u64 word_neq_0_conv)
    then have "unat i < unat base" using base by (simp add: div_eq_0_iff)
    with False b0 show ?thesis
      by (intro exI [of _ 1]) (subst utos_digits.simps, simp)
  next
    case True
    then have q: "0 < unat (i div base)" by (simp add: word_less_nat_alt)
    then have "unat (i div base) < unat i"
      using base by (simp add: unat_div_u64 div_greater_zero_iff)
    from less [OF this, of "v + 1"] obtain L where L:
      "utos_digits (i div base) base (v + 1) = Some (v + 1 + of_nat L)" "1 \<le> L"
      "unat i div unat base < unat base ^ L"
      "L = 1 \<or> unat base ^ (L - 1) \<le> unat i div unat base"
      by (auto simp: unat_div_u64)
    have "unat i < unat base ^ Suc L"
      using L(3) base by (simp add: div_less_iff_less_mult mult.commute)
    moreover have "unat base ^ L \<le> unat i"
    proof (cases "L = 1")
      case True
      then show ?thesis using q base by (simp add: unat_div_u64 div_greater_zero_iff)
    next
      case False
      with L(4) have "unat base ^ (L - 1) * unat base \<le> unat i div unat base * unat base" by simp
      also have "\<dots> \<le> unat i" by (rule div_times_less_eq_dividend)
      finally show ?thesis using power_minus_mult [of L "unat base"] L(2) by simp
    qed
    ultimately show ?thesis
      using True b0 L(1) by (intro exI [of _ "Suc L"]) (subst utos_digits.simps, simp)
  qed
qed

lemma utos_digits_length:
  assumes "2 \<le> b" and "L = 1 \<or> b ^ (L - 1) \<le> unat (i :: u64)"
  shows "L \<le> 64"
proof (rule ccontr)
  assume "\<not> L \<le> 64"
  then have "(2 :: nat) ^ 64 \<le> 2 ^ (L - 1)" by (intro power_increasing) simp_all
  also have "\<dots> \<le> b ^ (L - 1)" using assms(1) by (rule power_mono) simp
  also have "\<dots> \<le> unat i" using assms(2) \<open>\<not> L \<le> 64\<close> by auto
  finally show False using unat_u64_lt [of i] by simp
qed

lemma utos_store_append:
  "utos_store buf base S (xs @ ys) st = Option.bind (utos_store buf base S xs st) (utos_store buf base S ys)"
  by (induction buf base S xs st rule: utos_store.induct) simp_all

lemma utos_store_spec:
  assumes "V \<le> S" and "S < 18446744073709551616" and b: "1 \<le> unat base" "unat base \<le> 16"
  obtains i' m' where "utos_store buf base (of_nat S) [0..<V] (i, m) = Some (i', m')"
    "unat i' = unat i div unat base ^ V"
    "\<And>n. n < V \<Longrightarrow> m' (buf + of_nat (S - n - 1)) = digit_char (of_nat (unat i div unat base ^ n) mod base)"
    "\<And>a. (\<And>n. n < V \<Longrightarrow> a \<noteq> buf + of_nat (S - n - 1)) \<Longrightarrow> m' a = m a"
proof -
  have "\<exists>i' m'. utos_store buf base (of_nat S) [0..<V] (i, m) = Some (i', m') \<and>
      unat i' = unat i div unat base ^ V \<and>
      (\<forall>n<V. m' (buf + of_nat (S - n - 1)) = digit_char (of_nat (unat i div unat base ^ n) mod base)) \<and>
      (\<forall>a. (\<forall>n<V. a \<noteq> buf + of_nat (S - n - 1)) \<longrightarrow> m' a = m a)"
    using assms(1)
  proof (induction V)
    case 0
    then show ?case by simp
  next
    case (Suc V)
    from Suc obtain i' m' where IH: "utos_store buf base (of_nat S) [0..<V] (i, m) = Some (i', m')"
      "unat i' = unat i div unat base ^ V"
      "\<And>n. n < V \<Longrightarrow> m' (buf + of_nat (S - n - 1)) = digit_char (of_nat (unat i div unat base ^ n) mod base)"
      "\<And>a. (\<And>n. n < V \<Longrightarrow> a \<noteq> buf + of_nat (S - n - 1)) \<Longrightarrow> m' a = m a"
      by auto
    have "unat (i' mod base) < unat base" using b by (simp add: unat_mod)
    then have small: "\<not> i' mod base > 16" using b by (simp add: word_less_nat_alt)
    have "(of_nat S - of_nat V - 1 :: u64) = of_nat (S - V - 1)" using Suc.prems by simp
    then have new: "utos_store buf base (of_nat S) [0..<Suc V] (i, m) =
        Some (i' div base, m'(buf + of_nat (S - V - 1) := digit_char (i' mod base)))"
      using small by (simp add: utos_store_append IH(1))
    have ne: "buf + of_nat (S - n - 1) \<noteq> buf + of_nat (S - V - 1)" if "n < V" for n
    proof
      assume "buf + of_nat (S - n - 1) = buf + of_nat (S - V - 1)"
      then have "(of_nat (S - n - 1) :: u64) = of_nat (S - V - 1)" by simp
      then have "unat (of_nat (S - n - 1) :: u64) = unat (of_nat (S - V - 1) :: u64)" by simp
      moreover have "unat (of_nat (S - n - 1) :: u64) = S - n - 1"
        "unat (of_nat (S - V - 1) :: u64) = S - V - 1"
        using assms(2) by (simp_all only: unat_of_nat_u64)
      ultimately show False using that Suc.prems by simp
    qed
    have "i' = of_nat (unat i div unat base ^ V)" by (simp add: IH(2) [symmetric])
    then show ?case
      unfolding new using IH(2-4) ne
      by (auto simp: unat_div_u64 div_mult2_eq power_Suc2 less_Suc_eq simp del: power_Suc)
  qed
  then show ?thesis using that by blast
qed

lemma u64_less_10:
  assumes "(d :: u64) < 10"
  shows "d \<in> {0, 1, 2, 3, 4, 5, 6, 7, 8, 9}"
proof -
  have "unat d < 10" using assms by (simp add: word_less_nat_alt)
  then have "unat d \<in> {0, 1, 2, 3, 4, 5, 6, 7, 8, 9}" by auto
  moreover have "d = of_nat (unat d)" by simp
  ultimately show ?thesis by (elim insertE emptyE) simp_all
qed

lemma digit_char_value:
  assumes "(d :: u64) < 10"
  shows "ucast (char_value (digit_char d)) = d" and "digit_char d \<noteq> 0"
  using u64_less_10 [OF assms]
  by (elim insertE emptyE; simp add: digit_char_def char_value_def word_sless_alt)+

lemma stou_loop_spec:
  assumes b: "0 < unat base"
    and dig: "\<And>n. n < V \<Longrightarrow> ucast (char_value (m (p + (of_nat V - of_nat n - 1)))) =
      (of_nat (I div unat base ^ n mod unat base) :: u64)"
  shows "k \<le> V \<Longrightarrow> stou_loop m p base (of_nat V) [k..<V] (of_nat (I mod unat base ^ k))
    (of_nat (unat base ^ k)) = of_nat (I mod unat base ^ V)"
proof (induction "V - k" arbitrary: k)
  case 0
  then show ?case by simp
next
  case (Suc d)
  then have k: "k < V" by simp
  let ?b = "unat base"
  have lt: "I div ?b ^ k mod ?b < ?b" using b by simp
  then have "I div ?b ^ k mod ?b < 18446744073709551616" using unat_u64_lt [of base] by simp
  then have "unat (of_nat (I div ?b ^ k mod ?b) :: u64) = I div ?b ^ k mod ?b"
    by (rule unat_of_nat_u64)
  with lt have small: "\<not> of_nat (I div ?b ^ k mod ?b) \<ge> base"
    by (simp only: word_le_nat_alt)
  have "I mod ?b ^ Suc k = ?b ^ k * (I div ?b ^ k mod ?b) + I mod ?b ^ k"
    using mod_mult2_eq [of I "?b ^ k" ?b] by (simp only: power_Suc2)
  then have val: "of_nat (I mod ?b ^ k) + of_nat (I div ?b ^ k mod ?b) * of_nat (?b ^ k) =
      (of_nat (I mod ?b ^ Suc k) :: u64)"
    by (simp only: of_nat_add of_nat_mult mult.commute add.commute)
  have dg: "(of_nat (?b ^ k) :: u64) * base = of_nat (?b ^ Suc k)"
    by (simp add: mult.commute)
  have "stou_loop m p base (of_nat V) [Suc k..<V] (of_nat (I mod ?b ^ Suc k))
    (of_nat (?b ^ Suc k)) = of_nat (I mod ?b ^ V)"
    using Suc by (intro Suc.hyps(1)) simp_all
  then show ?case
    using k small dig [OF k]
    by (simp only: upt_conv_Cons stou_loop.simps Let_def val dg if_False)
qed

lemma digit_char_nonzero:
  assumes "(d :: u64) < 16"
  shows "digit_char d \<noteq> 0"
proof -
  have d: "unat d < 16" using assms by (simp add: word_less_nat_alt)
  then have "unat (48 + ucast d :: u8) = 48 + unat d" "unat (55 + ucast d :: u8) = 55 + unat d"
    by (simp_all add: unat_word_ariths unsigned_ucast_eq take_bit_eq_mod)
  then have "48 + ucast d \<noteq> (0 :: u8)" "55 + ucast d \<noteq> (0 :: u8)" by auto
  then show ?thesis using assms by (simp add: digit_char_def)
qed

text \<open>
  The text \<^verbatim>\<open>utos\<close> writes: the prefix of base 16 and \<open>L\<close> digits, \<open>D\<close> of which the number needs.
\<close>

definition base_prefix :: "u64 \<Rightarrow> u8 list" where
  "base_prefix base = (if base = 16 then [0x30, 0x78] else [])"

lemma utos_text:
  assumes base: "2 \<le> base" "base \<le> 16" and len: "unat min_len < 9223372036854775808"
  obtains D L S m' where "utos m i base buf min_len = Some (of_nat S, m')"
    "S = length (base_prefix base) + L" "L = max D (unat min_len)" "1 \<le> D" "D \<le> 64"
    "unat i < unat base ^ D" "D = 1 \<or> unat base ^ (D - 1) \<le> unat i" "S < 18446744073709551616"
    "cstring m' buf (base_prefix base @
       map (\<lambda>j. digit_char (of_nat (unat i div unat base ^ (L - 1 - j)) mod base)) [0..<L])"
    "\<And>a. (\<And>j. j \<le> S \<Longrightarrow> a \<noteq> buf + of_nat j) \<Longrightarrow> m' a = m a"
proof -
  let ?pre = "base_prefix base"
  have ub: "2 \<le> unat base" "unat base \<le> 16" using base by (simp_all add: word_le_nat_alt)
  from utos_digits_spec [OF ub(1), of i 0] obtain D where
    D: "utos_digits i base 0 = Some (of_nat D)" "1 \<le> D" "unat i < unat base ^ D"
      "D = 1 \<or> unat base ^ (D - 1) \<le> unat i" by auto
  have "D \<le> 64" by (rule utos_digits_length [OF ub(1) D(4)])
  define L where "L = max D (unat min_len)"
  define S where "S = length ?pre + L"
  have pre: "length ?pre \<le> 2" by (simp add: base_prefix_def)
  have L: "1 \<le> L" "S < 18446744073709551615" "L \<le> S"
    using D(2) \<open>D \<le> 64\<close> len pre by (simp_all add: L_def S_def)
  have uD: "unat (of_nat D :: u64) = D" using \<open>D \<le> 64\<close> by (intro unat_of_nat_u64) simp
  have val: "(if of_nat D < min_len then min_len else of_nat D) = (of_nat L :: u64)"
    using uD by (auto simp: word_less_nat_alt L_def max_def)
  have uL: "unat (of_nat L :: u64) = L" using L(2,3) by (intro unat_of_nat_u64) simp
  have str: "(if base = 16 then of_nat L + 2 else of_nat L) = (of_nat S :: u64)"
    by (simp add: S_def base_prefix_def)
  define m1 where "m1 = (if base = 16 then m(buf := 0x30, buf + 1 := 0x78) else m)"
  define m2 where "m2 = m1(buf + of_nat S := 0)"
  have "1 \<le> unat base" "S < 18446744073709551616" using ub L by simp_all
  from utos_store_spec [OF L(3) this(2,1) ub(2), of buf i m2] obtain i' m' where
    st: "utos_store buf base (of_nat S) [0..<L] (i, m2) = Some (i', m')"
      "\<And>n. n < L \<Longrightarrow> m' (buf + of_nat (S - n - 1)) = digit_char (of_nat (unat i div unat base ^ n) mod base)"
      "\<And>a. (\<And>n. n < L \<Longrightarrow> a \<noteq> buf + of_nat (S - n - 1)) \<Longrightarrow> m' a = m2 a" by metis
  have eq: "utos m i base buf min_len = Some (of_nat S, m')"
    unfolding utos_def Let_def
    by (simp only: D(1) val uL str m1_def [symmetric] m2_def [symmetric] st(1) bind.bind_lunit prod.case)
  have off: "buf + of_nat j \<noteq> buf + of_nat k" if "j \<le> S" "k \<le> S" "j \<noteq> k" for j k
  proof
    assume "buf + of_nat j = buf + of_nat k"
    then have "(of_nat j :: u64) = of_nat k" by simp
    then have "unat (of_nat j :: u64) = unat (of_nat k :: u64)" by simp
    then show False using that L(2) by (simp only: unat_of_nat_u64)
  qed
  let ?xs = "map (\<lambda>j. digit_char (of_nat (unat i div unat base ^ (L - 1 - j)) mod base)) [0..<L]"
  have small: "(x :: u64) mod base < 16" for x
  proof -
    have "unat (x mod base) < unat base" using ub by (simp add: unat_mod)
    then show ?thesis using ub by (simp add: word_less_nat_alt)
  qed
  have digits: "m' (buf + of_nat (length ?pre + j)) = ?xs ! j" if "j < L" for j
  proof -
    have "S - (L - 1 - j) - 1 = length ?pre + j" using that by (simp add: S_def)
    moreover have "L - 1 - j < L" using that by simp
    ultimately have "m' (buf + of_nat (length ?pre + j)) =
        digit_char (of_nat (unat i div unat base ^ (L - 1 - j)) mod base)"
      using st(2) by metis
    then show ?thesis using that by simp
  qed
  have keep: "m' (buf + of_nat k) = m2 (buf + of_nat k)" if "k < length ?pre \<or> k = S" for k
  proof (rule st(3))
    fix n assume "n < L"
    then show "buf + of_nat k \<noteq> buf + of_nat (S - n - 1)"
      using that by (intro off) (auto simp: S_def)
  qed
  have pfx: "m2 (buf + of_nat k) = ?pre ! k" if "k < length ?pre" for k
  proof -
    have "base = 16" "k \<in> {0, 1}" using that by (auto simp: base_prefix_def split: if_splits)
    moreover have "2 \<le> S" using \<open>base = 16\<close> by (simp add: S_def base_prefix_def)
    moreover have "buf + of_nat k \<noteq> buf + of_nat S" using that L(1) by (intro off) (simp_all add: S_def)
    ultimately show ?thesis by (auto simp: m2_def m1_def base_prefix_def)
  qed
  have nth: "m' (buf + of_nat k) = (?pre @ ?xs) ! k" if "k < S" for k
  proof (cases "k < length ?pre")
    case True
    then show ?thesis using keep [of k] pfx [of k] by (simp add: nth_append)
  next
    case False
    then have "k - length ?pre < L" using that by (simp add: S_def)
    from digits [OF this] False show ?thesis by (simp add: nth_append)
  qed
  have "m' (buf + of_nat S) = 0" using keep [of S] by (simp add: m2_def)
  moreover have "0 \<notin> set (?pre @ ?xs)" using digit_char_nonzero [OF small] by (auto simp: base_prefix_def)
  moreover have "length (?pre @ ?xs) = S" by (simp add: S_def)
  ultimately have "cstring m' buf (?pre @ ?xs)" using nth L(2) by (simp only: cstring_def) simp
  moreover have "m' a = m a" if "\<And>j. j \<le> S \<Longrightarrow> a \<noteq> buf + of_nat j" for a
  proof -
    have "m' a = m2 a" using that by (intro st(3)) simp
    also have "\<dots> = m1 a" using that [of S] by (simp add: m2_def)
    also have "\<dots> = m a"
      using that [of 0] that [of 1] L(1) by (auto simp: m1_def S_def base_prefix_def)
    finally show ?thesis .
  qed
  ultimately show ?thesis
    using that [OF eq S_def L_def D(2) \<open>D \<le> 64\<close> D(3,4)] L(2) by simp
qed

lemma utos_decimal:
  assumes base: "2 \<le> base" "base \<le> 10" and len: "unat min_len < 9223372036854775808"
  obtains L m' where "utos m i base buf min_len = Some (of_nat L, m')" "unat min_len \<le> L"
    "1 \<le> L" "L < 18446744073709551616" "unat i < unat base ^ L"
    "cstring m' buf (map (\<lambda>j. digit_char (of_nat (unat i div unat base ^ (L - 1 - j)) mod base)) [0..<L])"
    "\<And>a. (\<And>j. j \<le> L \<Longrightarrow> a \<noteq> buf + of_nat j) \<Longrightarrow> m' a = m a"
proof -
  have b: "base \<le> 16" "base \<noteq> 16" "1 \<le> unat base" using base by (auto simp: word_le_nat_alt)
  obtain D L S m' where t: "utos m i base buf min_len = Some (of_nat S, m')"
    "S = length (base_prefix base) + L" "L = max D (unat min_len)" "1 \<le> D" "D \<le> 64"
    "unat i < unat base ^ D" "D = 1 \<or> unat base ^ (D - 1) \<le> unat i" "S < 18446744073709551616"
    "cstring m' buf (base_prefix base @
       map (\<lambda>j. digit_char (of_nat (unat i div unat base ^ (L - 1 - j)) mod base)) [0..<L])"
    "\<And>a. (\<And>j. j \<le> S \<Longrightarrow> a \<noteq> buf + of_nat j) \<Longrightarrow> m' a = m a"
    by (rule utos_text [OF base(1) b(1) len, of m i buf]) blast
  have S: "S = L" "base_prefix base = []" using t(2) b(2) by (simp_all add: base_prefix_def)
  have "unat base ^ D \<le> unat base ^ L" using b(3) t(3) by (intro power_increasing) simp_all
  with t(6) have "unat i < unat base ^ L" by linarith
  with t S show ?thesis by (intro that [of L m']) simp_all
qed


lemma cstring_digit:
  assumes base: "2 \<le> base" "base \<le> 10"
  shows "ucast (char_value (digit_char (of_nat x mod base))) = (of_nat x mod base :: u64)"
proof (rule digit_char_value(1))
  have "unat ((of_nat x :: u64) mod base) < unat base"
    using base by (simp add: unat_mod word_le_nat_alt)
  then show "of_nat x mod base < 10" using base by (simp add: word_less_nat_alt word_le_nat_alt)
qed

section \<open>Properties\<close>

text \<open>C36: Writing a number to any base from 2 to 10 and reading it back gives the number, whatever
  minimal length is asked for; the text is at least that long, and nothing outside its bytes and
  the final zero is written.\<close>

theorem utos_stou_roundtrip:
  assumes base: "2 \<le> base" "base \<le> 10" and len: "unat min_len < 9223372036854775808"
  shows "\<exists>n m'. utos m i base buf min_len = Some (n, m') \<and> min_len \<le> n \<and>
    stou m' buf base = Some i \<and>
    (\<forall>a. (\<forall>j\<le>unat n. a \<noteq> buf + of_nat j) \<longrightarrow> m' a = m a)"
proof -
  obtain L m' where L: "utos m i base buf min_len = Some (of_nat L, m')" "unat min_len \<le> L"
    "1 \<le> L" "L < 18446744073709551616" "unat i < unat base ^ L"
    "cstring m' buf (map (\<lambda>j. digit_char (of_nat (unat i div unat base ^ (L - 1 - j)) mod base)) [0..<L])"
    "\<And>a. (\<And>j. j \<le> L \<Longrightarrow> a \<noteq> buf + of_nat j) \<Longrightarrow> m' a = m a"
    by (rule utos_decimal [OF assms, of m i buf]) blast
  have uL: "unat (of_nat L :: u64) = L" using L(4) by (rule unat_of_nat_u64)
  have b0: "0 < unat base" using base by (auto simp: word_le_nat_alt)
  have len': "strlen m' buf = Some (of_nat L)" using strlen_cstring [OF L(6)] by simp
  have dig: "ucast (char_value (m' (buf + (of_nat L - of_nat n - 1)))) =
      (of_nat (unat i div unat base ^ n mod unat base) :: u64)" if "n < L" for n
  proof -
    let ?xs = "map (\<lambda>j. digit_char (of_nat (unat i div unat base ^ (L - 1 - j)) mod base)) [0..<L]"
    have k: "L - n - 1 < length ?xs" using that by simp
    have "(of_nat L - of_nat n - 1 :: u64) = of_nat (L - n - 1)" using that by simp
    moreover have "m' (buf + of_nat (L - n - 1)) = ?xs ! (L - n - 1)"
      using cstring_nth [OF L(6) k] by (rule conjunct1)
    moreover have "?xs ! (L - n - 1) = digit_char (of_nat (unat i div unat base ^ n) mod base)"
      using that by simp
    ultimately have "m' (buf + (of_nat L - of_nat n - 1)) =
        digit_char (of_nat (unat i div unat base ^ n) mod base)"
      by (simp only:)
    moreover have "(of_nat (unat i div unat base ^ n) mod base :: u64) =
        of_nat (unat i div unat base ^ n mod unat base)"
    proof -
      have "unat i div unat base ^ n < 18446744073709551616"
        using unat_u64_lt [of i] div_le_dividend [of "unat i" "unat base ^ n"] by linarith
      then have "unat (of_nat (unat i div unat base ^ n) mod base :: u64) =
          unat i div unat base ^ n mod unat base"
        by (simp only: unat_mod unat_of_nat_u64)
      moreover have "unat i div unat base ^ n mod unat base < 18446744073709551616"
        using unat_u64_lt [of base] mod_less_divisor [OF b0] less_trans by blast
      ultimately show ?thesis by (simp only: u64_eq_iff_unat unat_of_nat_u64)
    qed
    ultimately show ?thesis using cstring_digit [OF base, of "unat i div unat base ^ n"] by (simp only:)
  qed
  have "stou m' buf base = Some (of_nat (unat i mod unat base ^ L))"
    using stou_loop_spec [OF b0 dig, of 0] len' by (simp add: stou_def uL)
  then have "stou m' buf base = Some i" using L(5) by simp
  moreover have "min_len \<le> of_nat L" using L(2) uL by (simp add: word_le_nat_alt)
  ultimately show ?thesis using L(1,7) uL by (intro exI [of _ "of_nat L"] exI [of _ m']) simp
qed

theorem utos_stou_roundtrip_witness:
  "\<exists>n m'. utos (\<lambda>_. 0) 1234 10 0x1000 6 = Some (n, m') \<and> 6 \<le> n \<and> stou m' 0x1000 10 = Some 1234"
proof -
  have "(2 :: u64) \<le> 10" "(10 :: u64) \<le> 10" "unat (6 :: u64) < 9223372036854775808" by simp_all
  from utos_stou_roundtrip [OF this, of "\<lambda>_. 0" 1234 "0x1000"] show ?thesis by blast
qed

text \<open>\<^verbatim>\<open>stou\<close> does not read the hexadecimal digits \<^verbatim>\<open>utos\<close> writes: it subtracts
  the wrong letters, so an upper case digit is out of range and makes the result 0, and a lower
  case one counts ten too little.\<close>

theorem stou_hex_digits_wrong:
  assumes str: "cstring m p [c]" and c: "0x41 \<le> c \<and> c \<le> 0x46 \<or> 0x61 \<le> c \<and> c \<le> 0x66"
  shows "stou m p 16 = Some (if c \<le> 0x46 then 0 else ucast (c - 0x61))"
proof -
  have "stou m p 16 = Some (stou_loop m p 16 1 [0] 0 1)" and mp: "m p = c"
    using strlen_cstring [OF str] str by (simp_all add: stou_def cstring_Cons)
  then have eq: "stou m p 16 =
      Some (if ucast (char_value c) \<ge> (16 :: u64) then 0 else ucast (char_value c))"
    by (simp add: Let_def)
  have "unat c \<in> {65, 66, 67, 68, 69, 70, 97, 98, 99, 100, 101, 102}"
    using c by (auto simp: word_le_nat_alt)
  moreover have "c = of_nat (unat c)" by simp
  ultimately have "c \<in> {65, 66, 67, 68, 69, 70, 97, 98, 99, 100, 101, 102}"
    by (elim insertE emptyE) simp_all
  then show ?thesis
    unfolding eq by (elim insertE emptyE) (simp_all add: char_value_def word_sless_alt word_le_nat_alt)
qed

theorem stou_hex_digits_wrong_witness:
  "stou ((\<lambda>_. 0)(0x1000 := 0x41)) 0x1000 16 = Some 0"
  using stou_hex_digits_wrong [of "(\<lambda>_. 0)(0x1000 := 0x41)" "0x1000" "0x41"]
  by (simp add: cstring_def)

text \<open>\<^verbatim>\<open>strcmp\<close> compares the strings of bytes: it returns 0 exactly for equal strings, and
  a negative number exactly when the first is lexicographically smaller.\<close>

theorem strcmp_correct:
  assumes "cstring m p xs" and "cstring m q ys"
  shows "\<exists>r. strcmp m p q = Some r \<and> (r = 0 \<longleftrightarrow> xs = ys) \<and>
    (r < 0 \<longleftrightarrow> (xs, ys) \<in> lexord {(a, b). a < b})"
  using assms by (rule strcmp_cstring)

theorem strcmp_correct_witness:
  "\<exists>r. strcmp ((\<lambda>_. 0)(0x1000 := 0x41, 0x2000 := 0x42)) 0x1000 0x2000 = Some r \<and> r < 0"
proof -
  let ?m = "(\<lambda>_. 0)(0x1000 := 0x41, 0x2000 := 0x42) :: mem"
  have "cstring ?m 0x1000 [0x41]" "cstring ?m 0x2000 [0x42]" by (simp_all add: cstring_def)
  from strcmp_correct [OF this] show ?thesis by auto
qed

text \<open>\<^verbatim>\<open>strcpy\<close> to a place that does not overlap the source puts the string and its
  final zero there and changes nothing else.\<close>

theorem strcpy_correct:
  assumes src: "cstring m src xs" and ap: "apart dst src (Suc (length xs))"
  shows "\<exists>m'. strcpy m dst src = Some m' \<and> cstring m' dst xs \<and> cstring m' src xs \<and>
    (\<forall>a. length xs < unat (a - dst) \<longrightarrow> m' a = m a)"
proof -
  have xs: "0 \<notin> set xs" "length xs < 18446744073709551616" using src by (simp_all add: cstring_def)
  have same: "put_string dst xs m (src + of_nat j) = m (src + of_nat j)" if "j \<le> length xs" for j
  proof (rule ccontr)
    assume "\<not> ?thesis"
    then have "unat (src + of_nat j - dst) \<le> length xs"
      by (auto simp: put_string_def Let_def split: if_splits)
    moreover have "dst + of_nat (unat (src + of_nat j - dst)) = src + of_nat j" by simp
    ultimately show False using ap that unfolding apart_def by (metis less_Suc_eq_le)
  qed
  have "cstring (put_string dst xs m) src xs"
    using src same by (simp add: cstring_def less_imp_le)
  then show ?thesis
    using strcpy_put [OF src ap] put_string_cstring [OF xs]
    by (intro exI [of _ "put_string dst xs m"]) (auto simp: put_string_def Let_def)
qed

theorem strcpy_correct_witness:
  "\<exists>m'. strcpy ((\<lambda>_. 0)(0x1000 := 0x41)) 0x2000 0x1000 = Some m' \<and> cstring m' 0x2000 [0x41]"
proof -
  have "cstring ((\<lambda>_. 0)(0x1000 := 0x41)) 0x1000 [0x41]" by (simp add: cstring_def)
  moreover have "apart 0x2000 0x1000 (Suc (length [0x41]))"
    by (auto simp: apart_def less_Suc_eq)
  ultimately show ?thesis using strcpy_correct by blast
qed

end
