(* ===== verification/Terminal.thy ===== *)
theory Terminal
  imports Font "HOL-Library.Signed_Division"
begin

text \<open>
  The framebuffer and the text terminal on it (\<^verbatim>\<open>terminal/framebuffer.c\<close>,
  \<^verbatim>\<open>terminal/terminal.c\<close>). The state holds the static variables of both files. The buffer
  allocated for the framebuffer and the mapped framebuffer are arrays of 32-bit pixels of
  \<^verbatim>\<open>fb_height * fb_pitch\<close> bytes; an access outside of them is undefined and the model returns
  \<open>None\<close>. An \<^verbatim>\<open>int\<close> has 32 bits: its variables are integers, and each computed value goes
  through \<open>int32\<close>, which is \<open>None\<close> when the value does not fit, where C leaves the
  behaviour undefined. C rounds a quotient towards zero, as \<open>sdiv\<close> and \<open>smod\<close> do.
\<close>

record console =
  fb_width :: int
  fb_height :: int
  fb_pitch :: u16
  fb_buffer :: "int \<Rightarrow> u32"
  fb_mmio :: "int \<Rightarrow> u32"
  width :: int
  height :: int
  chr_index :: int
  fg :: u32
  bg :: u32
  isready :: bool

section \<open>Signed 32-bit arithmetic\<close>

definition int32 :: "int \<Rightarrow> int option" where
  "int32 v = (if - 2147483648 \<le> v \<and> v < 2147483648 then Some v else None)"

lemma int32_fits [simp]: "- 2147483648 \<le> v \<Longrightarrow> v < 2147483648 \<Longrightarrow> int32 v = Some v"
  by (simp add: int32_def)

text \<open>A quotient by zero, and the one quotient that does not fit, are undefined, for the remainder too.\<close>

definition int32_div :: "int \<Rightarrow> int \<Rightarrow> int option" where
  "int32_div a b = (if b = 0 then None else int32 (a sdiv b))"

definition int32_rem :: "int \<Rightarrow> int \<Rightarrow> int option" where
  "int32_rem a b = (if b = 0 \<or> int32 (a sdiv b) = None then None else Some (a smod b))"

section \<open>The framebuffer\<close>

definition fb_len :: "'z console_scheme \<Rightarrow> int" where
  "fb_len s = fb_height s * uint (fb_pitch s) div 4"

definition fb_index :: "'z console_scheme \<Rightarrow> int \<Rightarrow> int \<Rightarrow> int option" where
  "fb_index s x y =
     do { p \<leftarrow> int32 (y * uint (fb_pitch s));
          int32 (p sdiv 4 + x) }"

definition framebuffer_putpixel ::
  "int \<Rightarrow> int \<Rightarrow> u32 \<Rightarrow> 'z console_scheme \<Rightarrow> 'z console_scheme option" where
  "framebuffer_putpixel x y px s =
     do { x \<leftarrow> int32 (x + 8);
          y \<leftarrow> int32 (y + 8);
          i \<leftarrow> fb_index s x y;
          if 0 \<le> i \<and> i < fb_len s
          then Some (s\<lparr>fb_buffer := (fb_buffer s)(i := px), fb_mmio := (fb_mmio s)(i := px)\<rparr>)
          else None }"

definition framebuffer_getpixel :: "int \<Rightarrow> int \<Rightarrow> 'z console_scheme \<Rightarrow> u32 option" where
  "framebuffer_getpixel x y s =
     do { x \<leftarrow> int32 (x + 8);
          y \<leftarrow> int32 (y + 8);
          i \<leftarrow> fb_index s x y;
          if 0 \<le> i \<and> i < fb_len s then Some (fb_buffer s i) else None }"

text \<open>The pixel of the second call of each round lies at a computed place.\<close>

definition framebuffer_drawborder ::
  "u32 \<Rightarrow> 'z console_scheme \<Rightarrow> 'z console_scheme option" where
  "framebuffer_drawborder color s =
     do { s1 \<leftarrow> for_each (\<lambda>x. for_each (\<lambda>y s.
            do { s' \<leftarrow> framebuffer_putpixel (x - 8) (y - 8) color s;
                 y' \<leftarrow> int32 (y - 16 + fb_height s');
                 framebuffer_putpixel (x - 8) y' color s' })
            [0..7]) [0..fb_width s - 1] s;
          for_each (\<lambda>y. for_each (\<lambda>x s.
            do { s' \<leftarrow> framebuffer_putpixel (x - 8) (y - 8) color s;
                 x' \<leftarrow> int32 (x - 16 + fb_width s');
                 framebuffer_putpixel x' (y - 8) color s' })
            [0..7]) [0..fb_height s1 - 1] s1 }"

text \<open>The tag of the boot protocol that describes the framebuffer.\<close>

record stivale2_struct_tag_framebuffer =
  framebuffer_addr :: u64
  framebuffer_width :: u16
  framebuffer_height :: u16
  framebuffer_pitch :: u16
  framebuffer_bpp :: u16
  memory_model :: u8
  red_mask_size :: u8
  red_mask_shift :: u8
  green_mask_size :: u8
  green_mask_shift :: u8
  blue_mask_size :: u8
  blue_mask_shift :: u8
  unused :: u8

text \<open>
  \<open>buf\<close> and \<open>screen\<close> are the contents of the fresh allocation, of
  \<^verbatim>\<open>fb_height * fb_pitch\<close> bytes, and of the mapped screen.
\<close>

definition framebuffer_initialize ::
  "stivale2_struct_tag_framebuffer \<Rightarrow> (int \<Rightarrow> u32) \<Rightarrow> (int \<Rightarrow> u32) \<Rightarrow>
    'z console_scheme \<Rightarrow> 'z console_scheme option" where
  "framebuffer_initialize fb buf screen s =
     do { size \<leftarrow> int32 (uint (framebuffer_height fb) * uint (framebuffer_pitch fb));
          framebuffer_drawborder 0x1c8aa6
            (s\<lparr>fb_width := uint (framebuffer_width fb), fb_height := uint (framebuffer_height fb),
               fb_pitch := framebuffer_pitch fb, fb_buffer := buf, fb_mmio := screen\<rparr>) }"

section \<open>The terminal\<close>

definition terminal_setcolor :: "u32 \<Rightarrow> u32 \<Rightarrow> 'z console_scheme \<Rightarrow> 'z console_scheme" where
  "terminal_setcolor new_fg new_bg s = s\<lparr>fg := new_fg, bg := new_bg\<rparr>"

definition terminal_clear :: "'z console_scheme \<Rightarrow> 'z console_scheme option" where
  "terminal_clear s =
     (if \<not> isready s then Some s
      else
        do { w \<leftarrow> int32 (8 * width s);
             h \<leftarrow> (if 0 < w then int32 (16 * height s) else Some 0);
             s1 \<leftarrow> for_each (\<lambda>x. for_each (\<lambda>y. framebuffer_putpixel x y 0)
                    [0..h - 1]) [0..w - 1] s;
             Some (s1\<lparr>chr_index := 0\<rparr>) })"

text \<open>The sums in the loop bodies stay below the bounds of the loops, rounded up to a line of text.\<close>

definition scroll_pixel :: "int \<Rightarrow> int \<Rightarrow> 'z console_scheme \<Rightarrow> 'z console_scheme option" where
  "scroll_pixel py px s =
     do { color \<leftarrow> framebuffer_getpixel px (py + 16) s;
          framebuffer_putpixel px py color s }"

definition terminal_scroll :: "'z console_scheme \<Rightarrow> 'z console_scheme option" where
  "terminal_scroll s =
     (if \<not> isready s then Some s
      else
        do { h \<leftarrow> int32 (height s - 1);
             h \<leftarrow> int32 (h * 16);
             w \<leftarrow> int32 (width s * 8);
             s1 \<leftarrow> for_each (\<lambda>py. for_each (scroll_pixel py) [0..w - 1]) [0..h - 1] s;
             s2 \<leftarrow> for_each (\<lambda>py. for_each (\<lambda>px. framebuffer_putpixel px (h + py) 0)
                      [0..w - 1]) [0..15] s1;
             i \<leftarrow> int32 (chr_index s2 - width s2);
             Some (s2\<lparr>chr_index := i\<rparr>) })"

definition draw_pixel :: "u8 \<Rightarrow> int \<Rightarrow> int \<Rightarrow> int \<Rightarrow> int \<Rightarrow>
    'z console_scheme \<Rightarrow> 'z console_scheme option" where
  "draw_pixel c ci_x ci_y ix iy s =
     do { x0 \<leftarrow> int32 (ci_x * 8);
          x \<leftarrow> int32 (x0 + ix);
          y0 \<leftarrow> int32 (ci_y * 16);
          y \<leftarrow> int32 (y0 + iy);
          framebuffer_putpixel x y (if font_is_set c ix (iy sdiv 2) then fg s else bg s) s }"

text \<open>The rest of \<^verbatim>\<open>terminal_putchar\<close> once the cursor is in the text area.\<close>

definition put_at :: "u8 \<Rightarrow> 'z console_scheme \<Rightarrow> 'z console_scheme option" where
  "put_at c s =
     (if c = 10 then
        do { r \<leftarrow> int32_rem (chr_index s) (width s);
             d \<leftarrow> int32 (width s - r);
             i \<leftarrow> int32 (chr_index s + d);
             Some (s\<lparr>chr_index := i\<rparr>) }
      else
        do { ci_x \<leftarrow> int32_rem (chr_index s) (width s);
             ci_y \<leftarrow> int32_div (chr_index s) (width s);
             for_each (\<lambda>ix. for_each (draw_pixel c ci_x ci_y ix) [0..15]) [0..7] s })"

definition terminal_putchar :: "u8 \<Rightarrow> 'z console_scheme \<Rightarrow> 'z console_scheme option" where
  "terminal_putchar c s =
     (if \<not> isready s then Some s
      else
        do { i \<leftarrow> int32 (chr_index s + 1);
             let s1 = s\<lparr>chr_index := i\<rparr>;
             n \<leftarrow> int32 (width s1 * height s1);
             s2 \<leftarrow> (if n \<le> chr_index s1 then terminal_scroll s1 else Some s1);
             put_at c s2 })"

text \<open>
  \<^verbatim>\<open>terminal_initialize\<close> up to its two messages. It clears the screen before it sets
  \<open>isready\<close>, which \<^verbatim>\<open>terminal_clear\<close> waits for.
\<close>

definition terminal_initialize ::
  "int \<Rightarrow> int \<Rightarrow> 'z console_scheme \<Rightarrow> 'z console_scheme option" where
  "terminal_initialize w h s =
     do { s1 \<leftarrow> terminal_clear (s\<lparr>width := w, height := h, chr_index := 0,
                                   fg := 0xffffff, bg := 0\<rparr>);
          Some (s1\<lparr>isready := True\<rparr>) }"

partial_function (option) terminal_puts_from ::
  "mem \<Rightarrow> ptr \<Rightarrow> 'z console_scheme \<Rightarrow> 'z console_scheme option" where
  "terminal_puts_from m str s =
     (if m str \<noteq> 0
      then Option.bind (terminal_putchar (m str) s) (terminal_puts_from m (str + 1))
      else Some s)"

definition terminal_puts ::
  "mem \<Rightarrow> ptr \<Rightarrow> 'z console_scheme \<Rightarrow> 'z console_scheme option" where
  "terminal_puts m str s =
     (if \<not> isready s then Some s else if str = 0 then Some s else terminal_puts_from m str s)"

section \<open>Pixels\<close>

lemma sdiv_smod_nonneg: "0 \<le> a \<Longrightarrow> 0 < b \<Longrightarrow> a sdiv b = a div b \<and> a smod b = a mod b" for a b :: int
  by (cases "a = 0") (simp_all add: signed_divide_int_def signed_modulo_int_def)

lemma int32_div_rem:
  assumes "0 \<le> a" "a < 2147483648" "0 < b"
  shows "int32_div a b = Some (a div b)" "int32_rem a b = Some (a mod b)"
proof -
  have "a div b \<le> a" using assms zdiv_mono2 [of a 1 b] by simp
  moreover have "0 \<le> a div b" using assms by (simp add: pos_imp_zdiv_nonneg_iff)
  ultimately have "int32 (a div b) = Some (a div b)" using assms(2) by (intro int32_fits) linarith+
  then show "int32_div a b = Some (a div b)" "int32_rem a b = Some (a mod b)"
    using assms by (simp_all add: int32_div_def int32_rem_def sdiv_smod_nonneg)
qed

text \<open>
  Pixels are counted from the inside of the border of 8 pixels, as \<^verbatim>\<open>framebuffer_putpixel\<close>
  does. \<open>fb_ok\<close> is what the code assumes of the mode: 32 bits per pixel, lines that hold
  all their pixels, and a size in bytes that an \<^verbatim>\<open>int\<close> holds.
\<close>

definition fb_ok :: "'z console_scheme \<Rightarrow> bool" where
  "fb_ok s \<longleftrightarrow> 4 dvd uint (fb_pitch s) \<and> 4 * fb_width s \<le> uint (fb_pitch s) \<and> 0 \<le> fb_height s \<and>
     fb_height s * uint (fb_pitch s) < 2147483648"

definition in_screen :: "'z console_scheme \<Rightarrow> int \<Rightarrow> int \<Rightarrow> bool" where
  "in_screen s x y \<longleftrightarrow> - 8 \<le> x \<and> x < fb_width s - 8 \<and> - 8 \<le> y \<and> y < fb_height s - 8"

text \<open>The place of a pixel without the limits of 32 bits.\<close>

definition pix_at :: "'z console_scheme \<Rightarrow> int \<Rightarrow> int \<Rightarrow> int" where
  "pix_at s x y = (y * uint (fb_pitch s)) sdiv 4 + x"

definition pix :: "'z console_scheme \<Rightarrow> int \<Rightarrow> int \<Rightarrow> u32" where
  "pix s x y = fb_buffer s (pix_at s (x + 8) (y + 8))"

definition mpix :: "'z console_scheme \<Rightarrow> int \<Rightarrow> int \<Rightarrow> u32" where
  "mpix s x y = fb_mmio s (pix_at s (x + 8) (y + 8))"

lemma pix_at_eq:
  assumes "fb_ok s" and "0 \<le> y"
  shows "pix_at s x y = y * (uint (fb_pitch s) div 4) + x"
proof -
  obtain k where k: "uint (fb_pitch s) = 4 * k" using assms(1) unfolding fb_ok_def by (elim conjE dvdE)
  then have "0 \<le> k" using unsigned_greater_eq [of "fb_pitch s", where 'a = int] by simp
  then have "(y * uint (fb_pitch s)) sdiv 4 = (y * uint (fb_pitch s)) div 4"
    using assms(2) k by (intro sdiv_smod_nonneg [THEN conjunct1]) simp_all
  then show ?thesis unfolding pix_at_def k by simp
qed

lemma pix_at_bounds:
  assumes ok: "fb_ok s" and "in_screen s x y"
  shows "0 \<le> pix_at s (x + 8) (y + 8)" and "pix_at s (x + 8) (y + 8) < fb_len s"
proof -
  obtain k where k: "uint (fb_pitch s) = 4 * k" using ok unfolding fb_ok_def by (elim conjE dvdE)
  have b: "0 \<le> x + 8" "x + 8 < k" "0 \<le> y + 8" "y + 8 < fb_height s" "0 \<le> k"
    using assms k by (auto simp: fb_ok_def in_screen_def)
  have eq: "pix_at s (x + 8) (y + 8) = (y + 8) * k + (x + 8)"
    using pix_at_eq [OF ok b(3)] k by simp
  have len: "fb_len s = fb_height s * k" unfolding fb_len_def k by simp
  have "(y + 8 + 1) * k \<le> fb_height s * k" using b by (intro mult_right_mono) simp_all
  then show "pix_at s (x + 8) (y + 8) < fb_len s"
    unfolding eq len using b(2) by (simp add: algebra_simps)
  show "0 \<le> pix_at s (x + 8) (y + 8)" unfolding eq using b by simp
qed

text \<open>On the screen the code's arithmetic does not overflow.\<close>

lemma fb_index_in_screen:
  assumes ok: "fb_ok s" and xy: "in_screen s x y"
  shows "x + 8 < 65536" "y + 8 < 2147483648"
    "int32 (x + 8) = Some (x + 8)" "int32 (y + 8) = Some (y + 8)"
    "fb_index s (x + 8) (y + 8) = Some (pix_at s (x + 8) (y + 8))"
proof -
  let ?p = "uint (fb_pitch s)"
  have p: "?p < 65536" using unsigned_less [of "fb_pitch s", where 'a = int] by simp
  have b: "0 \<le> x + 8" "x + 8 < fb_width s" "0 \<le> y + 8" "y + 8 < fb_height s"
    using xy by (simp_all add: in_screen_def)
  have w: "4 * fb_width s \<le> ?p" "fb_height s * ?p < 2147483648" using ok by (simp_all add: fb_ok_def)
  have p1: "1 \<le> ?p" using b w by linarith
  have row: "(y + 8) * ?p \<le> fb_height s * ?p" using b p1 by (intro mult_right_mono) simp_all
  have "(y + 8) * 1 \<le> (y + 8) * ?p" using b p1 by (intro mult_left_mono) simp_all
  from order_trans [OF this row] have y: "y + 8 < 2147483648" using w(2) by simp
  have nn: "0 \<le> (y + 8) * ?p" using b p1 by simp
  have "fb_len s \<le> fb_height s * ?p" unfolding fb_len_def using b p1 zdiv_mono2 [of "fb_height s * ?p" 1 4] by simp
  then have at: "pix_at s (x + 8) (y + 8) < 2147483648" using pix_at_bounds(2) [OF assms] w by linarith
  show "x + 8 < 65536" "y + 8 < 2147483648" "int32 (x + 8) = Some (x + 8)" "int32 (y + 8) = Some (y + 8)"
    using b w p y by simp_all
  have "int32 ((y + 8) * ?p) = Some ((y + 8) * ?p)" using nn row w by (intro int32_fits) linarith+
  moreover have "int32 (pix_at s (x + 8) (y + 8)) = Some (pix_at s (x + 8) (y + 8))"
    using at pix_at_bounds(1) [OF assms] by (intro int32_fits) linarith+
  ultimately show "fb_index s (x + 8) (y + 8) = Some (pix_at s (x + 8) (y + 8))"
    by (simp add: fb_index_def pix_at_def)
qed

lemma pix_at_inj:
  assumes ok: "fb_ok s" and a: "in_screen s x y" and b: "in_screen s x' y'"
    and eq: "pix_at s (x + 8) (y + 8) = pix_at s (x' + 8) (y' + 8)"
  shows "x = x' \<and> y = y'"
proof -
  define k where "k = uint (fb_pitch s) div 4"
  have x: "0 \<le> x + 8" "x + 8 < k" "0 \<le> x' + 8" "x' + 8 < k" "0 \<le> y + 8" "0 \<le> y' + 8"
    using ok a b by (auto simp: fb_ok_def in_screen_def k_def)
  have eq2: "(y + 8) * k + (x + 8) = (y' + 8) * k + (x' + 8)"
    using eq by (simp only: pix_at_eq [OF ok x(5)] pix_at_eq [OF ok x(6)] k_def)
  have "((y + 8) * k + (x + 8)) div k = y + 8" "((y' + 8) * k + (x' + 8)) div k = y' + 8"
    using x by (simp_all only: div_mult_self3 div_pos_pos_trivial add_0_right)
  with eq2 have "y + 8 = y' + 8" by metis
  then have "y = y'" by simp
  with eq2 show ?thesis by simp
qed

text \<open>
  \<open>drawn D f s t\<close>: \<open>t\<close> is \<open>s\<close> with the pixels of \<open>D\<close> set to \<open>f\<close>, in the buffer and on
  the screen.
\<close>

definition drawn :: "(int \<times> int) set \<Rightarrow> (int \<Rightarrow> int \<Rightarrow> u32) \<Rightarrow>
    'z console_scheme \<Rightarrow> 'z console_scheme \<Rightarrow> bool" where
  "drawn D f s t \<longleftrightarrow> t = s\<lparr>fb_buffer := fb_buffer t, fb_mmio := fb_mmio t\<rparr> \<and>
     (\<forall>x y. in_screen s x y \<longrightarrow>
       pix t x y = (if (x, y) \<in> D then f x y else pix s x y) \<and>
       mpix t x y = (if (x, y) \<in> D then f x y else mpix s x y))"

lemma drawn_geometry:
  assumes "drawn D f s t"
  shows "fb_width t = fb_width s" "fb_height t = fb_height s" "fb_pitch t = fb_pitch s"
    "width t = width s" "height t = height s" "chr_index t = chr_index s" "fg t = fg s"
    "bg t = bg s" "isready t = isready s" "fb_ok t = fb_ok s" "in_screen t = in_screen s"
proof -
  obtain u v where t: "t = s\<lparr>fb_buffer := u, fb_mmio := v\<rparr>"
    using assms unfolding drawn_def by metis
  show "fb_width t = fb_width s" "fb_height t = fb_height s" "fb_pitch t = fb_pitch s"
    "width t = width s" "height t = height s" "chr_index t = chr_index s" "fg t = fg s"
    "bg t = bg s" "isready t = isready s" "fb_ok t = fb_ok s" "in_screen t = in_screen s"
    by (simp_all add: t fb_ok_def in_screen_def fun_eq_iff)
qed

lemma drawn_refl: "drawn {} f s s"
  by (simp add: drawn_def)

lemma drawn_trans: "drawn D f s t \<Longrightarrow> drawn E f t u \<Longrightarrow> drawn (D \<union> E) f s u"
proof -
  assume st: "drawn D f s t" and tu: "drawn E f t u"
  obtain b c where t: "t = s\<lparr>fb_buffer := b, fb_mmio := c\<rparr>" using st unfolding drawn_def by metis
  have "u = t\<lparr>fb_buffer := fb_buffer u, fb_mmio := fb_mmio u\<rparr>" using tu unfolding drawn_def by blast
  then have "u = s\<lparr>fb_buffer := fb_buffer u, fb_mmio := fb_mmio u\<rparr>" unfolding t by simp
  with st tu drawn_geometry(11) [OF st] show ?thesis unfolding drawn_def by auto
qed

lemma drawn_pix:
  "drawn D f s t \<Longrightarrow> in_screen s x y \<Longrightarrow> pix t x y = (if (x, y) \<in> D then f x y else pix s x y)"
  by (simp add: drawn_def)

lemma putpixel_drawn:
  assumes ok: "fb_ok s" and xy: "in_screen s x y"
  shows "\<exists>t. framebuffer_putpixel x y (f x y) s = Some t \<and> drawn {(x, y)} f s t"
proof -
  let ?i = "pix_at s (x + 8) (y + 8)"
  define t where "t = s\<lparr>fb_buffer := (fb_buffer s)(?i := f x y), fb_mmio := (fb_mmio s)(?i := f x y)\<rparr>"
  have put: "framebuffer_putpixel x y (f x y) s = Some t"
    using pix_at_bounds [OF assms]
    by (simp add: framebuffer_putpixel_def fb_index_in_screen(3-5) [OF assms] t_def)
  have "pix_at t a b = pix_at s a b" for a b by (simp add: pix_at_def t_def)
  then have px: "pix t a b = (if pix_at s (a + 8) (b + 8) = ?i then f x y else pix s a b)"
    "mpix t a b = (if pix_at s (a + 8) (b + 8) = ?i then f x y else mpix s a b)" for a b
    by (simp_all add: pix_def mpix_def t_def)
  have "pix_at s (a + 8) (b + 8) = ?i \<longleftrightarrow> a = x \<and> b = y" if "in_screen s a b" for a b
    using pix_at_inj [OF ok that xy] by auto
  moreover have "t = s\<lparr>fb_buffer := fb_buffer t, fb_mmio := fb_mmio t\<rparr>" by (simp add: t_def)
  ultimately have "drawn {(x, y)} f s t" unfolding drawn_def px by simp
  with put show ?thesis by blast
qed

lemma getpixel_pix:
  "fb_ok s \<Longrightarrow> in_screen s x y \<Longrightarrow> framebuffer_getpixel x y s = Some (pix s x y)"
  by (simp add: framebuffer_getpixel_def fb_index_in_screen(3-5) pix_def pix_at_bounds)

section \<open>Loops over pixels\<close>

lemma for_each_upto:
  fixes n :: int
  assumes n: "0 \<le> n" and "P 0 s"
    and step: "\<And>k t. 0 \<le> k \<Longrightarrow> k < n \<Longrightarrow> P k t \<Longrightarrow> \<exists>t'. f k t = Some t' \<and> P (k + 1) t'"
  shows "\<exists>t. for_each f [0..n - 1] s = Some t \<and> P n t"
proof -
  have len: "length [0..n - 1] = nat n" by simp
  have "\<exists>t. for_each f [0..n - 1] s = Some t \<and> P (int (length [0..n - 1])) t"
  proof (rule for_each_invariant [where P = "\<lambda>k. P (int k)"])
    show "P (int 0) s" using assms(2) by simp
  next
    fix k t assume k: "k < length [0..n - 1]" and P: "P (int k) t"
    from k have nth: "[0..n - 1] ! k = int k" by (subst nth_upto) auto
    have "int k < n" using k n by simp
    with step [of "int k" t] P show "\<exists>t'. f ([0..n - 1] ! k) t = Some t' \<and> P (int (Suc k)) t'"
      unfolding nth by (simp add: add.commute)
  qed
  then show ?thesis using n by simp
qed

text \<open>Two nested loops, whose round \<open>(i, j)\<close> draws the pixel \<open>pt i j\<close>.\<close>

definition rounds :: "int \<Rightarrow> int \<Rightarrow> int \<Rightarrow> (int \<times> int) set" where
  "rounds n i j = {(a, b). 0 \<le> a \<and> 0 \<le> b \<and> b < n \<and> (a < i \<or> a = i \<and> b < j)}"

lemma rounds_empty [simp]: "rounds n 0 0 = {}"
  by (auto simp: rounds_def)

lemma rounds_step: "0 \<le> i \<Longrightarrow> 0 \<le> j \<Longrightarrow> j < n \<Longrightarrow> rounds n i (j + 1) = insert (i, j) (rounds n i j)"
  by (auto simp: rounds_def)

lemma rounds_next: "rounds n i n = rounds n (i + 1) 0"
  by (auto simp: rounds_def)

lemma for_each_rect:
  assumes mn: "0 \<le> m" "0 \<le> n"
    and step: "\<And>i j t. 0 \<le> i \<Longrightarrow> i < m \<Longrightarrow> 0 \<le> j \<Longrightarrow> j < n \<Longrightarrow>
      drawn ((\<lambda>(a, b). pt a b) ` rounds n i j) f s t \<Longrightarrow>
      \<exists>t'. g i j t = Some t' \<and> drawn {pt i j} f t t'"
  shows "\<exists>t. for_each (\<lambda>i. for_each (g i) [0..n - 1]) [0..m - 1] s = Some t \<and>
    drawn ((\<lambda>(a, b). pt a b) ` rounds n m 0) f s t"
proof (rule for_each_upto [OF mn(1)])
  show "drawn ((\<lambda>(a, b). pt a b) ` rounds n 0 0) f s s"
    by (simp add: drawn_refl)
next
  fix i t assume i: "0 \<le> i" "i < m" and P: "drawn ((\<lambda>(a, b). pt a b) ` rounds n i 0) f s t"
  have "\<exists>t'. for_each (g i) [0..n - 1] t = Some t' \<and>
    drawn ((\<lambda>(a, b). pt a b) ` rounds n i n) f s t'"
  proof (rule for_each_upto [where P = "\<lambda>j. drawn ((\<lambda>(a, b). pt a b) ` rounds n i j) f s", OF mn(2) P])
    fix j u assume j: "0 \<le> j" "j < n" and Q: "drawn ((\<lambda>(a, b). pt a b) ` rounds n i j) f s u"
    from step [OF i j Q] obtain u' where u': "g i j u = Some u'" "drawn {pt i j} f u u'" by blast
    from drawn_trans [OF Q u'(2)]
    show "\<exists>u'. g i j u = Some u' \<and> drawn ((\<lambda>(a, b). pt a b) ` rounds n i (j + 1)) f s u'"
      using u'(1) i j by (simp add: rounds_step)
  qed
  then show "\<exists>t'. for_each (g i) [0..n - 1] t = Some t' \<and>
      drawn ((\<lambda>(a, b). pt a b) ` rounds n (i + 1) 0) f s t'"
    by (simp only: rounds_next)
qed

section \<open>The terminal as a grid of images\<close>

text \<open>
  What a terminal shows: a grid of cells of 8x16 pixels, a cursor that counts cells, and the two
  colours. \<open>tty_put\<close> is the specification of writing a character.
\<close>

record tty =
  cols :: int
  rows :: int
  cursor :: int
  ink :: u32
  paper :: u32
  cell :: "int \<Rightarrow> int \<Rightarrow> int \<Rightarrow> int \<Rightarrow> u32"

definition glyph :: "u32 \<Rightarrow> u32 \<Rightarrow> u8 \<Rightarrow> int \<Rightarrow> int \<Rightarrow> u32" where
  "glyph f b c ix iy =
     (if ix \<in> {0..<8} \<and> iy \<in> {0..<16} then if font_is_set c ix (iy div 2) then f else b else 0)"

definition tty_scroll :: "tty \<Rightarrow> tty" where
  "tty_scroll t = t\<lparr>cursor := cursor t - cols t,
     cell := (\<lambda>cx cy. if 0 \<le> cy \<and> cy + 1 < rows t then cell t cx (cy + 1) else (\<lambda>_ _. 0))\<rparr>"

definition tty_put :: "u8 \<Rightarrow> tty \<Rightarrow> tty" where
  "tty_put c t =
     (let t1 = t\<lparr>cursor := cursor t + 1\<rparr>;
          t2 = (if cursor t1 < cols t1 * rows t1 then t1 else tty_scroll t1)
      in if c = 10 then t2\<lparr>cursor := (cursor t2 div cols t2 + 1) * cols t2\<rparr>
         else t2\<lparr>cell := (\<lambda>cx cy.
                if cx = cursor t2 mod cols t2 \<and> cy = cursor t2 div cols t2
                then glyph (ink t2) (paper t2) c else cell t2 cx cy)\<rparr>)"

definition tty_abs :: "'z console_scheme \<Rightarrow> tty" where
  "tty_abs s = \<lparr>cols = width s, rows = height s, cursor = chr_index s, ink = fg s, paper = bg s,
     cell = (\<lambda>cx cy ix iy.
       if cx \<in> {0..<width s} \<and> cy \<in> {0..<height s} \<and> ix \<in> {0..<8} \<and> iy \<in> {0..<16}
       then pix s (cx * 8 + ix) (cy * 16 + iy) else 0)\<rparr>"

lemma tty_abs_simps [simp]:
  "cols (tty_abs s) = width s" "rows (tty_abs s) = height s" "cursor (tty_abs s) = chr_index s"
  "ink (tty_abs s) = fg s" "paper (tty_abs s) = bg s"
  by (simp_all add: tty_abs_def)

text \<open>The invariant: the cells fit inside the border, and the cursor is at most one cell behind the last.\<close>

definition tty_ok :: "'z console_scheme \<Rightarrow> bool" where
  "tty_ok s \<longleftrightarrow> isready s \<and> fb_ok s \<and> 2 \<le> width s \<and> 1 \<le> height s \<and>
     8 * width s + 16 \<le> fb_width s \<and> 16 * height s + 16 \<le> fb_height s \<and>
     0 \<le> chr_index s \<and> chr_index s \<le> width s * height s"

definition mirrored :: "'z console_scheme \<Rightarrow> bool" where
  "mirrored s \<longleftrightarrow> (\<forall>x y. in_screen s x y \<longrightarrow> mpix s x y = pix s x y)"

lemma drawn_mirrored: "drawn D f s t \<Longrightarrow> mirrored s \<Longrightarrow> mirrored t"
  using drawn_geometry(11) [of D f s t] unfolding drawn_def mirrored_def by auto

lemma cell_in_screen:
  "8 * width s + 16 \<le> fb_width s \<Longrightarrow> 16 * height s + 16 \<le> fb_height s \<Longrightarrow>
   0 \<le> x \<Longrightarrow> x < 8 * width s \<Longrightarrow> 0 \<le> y \<Longrightarrow> y < 16 * height s \<Longrightarrow> in_screen s x y"
  by (simp add: in_screen_def)

text \<open>A text area inside of a framebuffer of that size has less than \<open>2 ^ 22\<close> cells.\<close>

lemma text_size:
  assumes ok: "fb_ok s" and fit: "8 * width s + 16 \<le> fb_width s" "16 * height s + 16 \<le> fb_height s"
    and dim: "0 \<le> width s" "0 \<le> height s"
  shows "8 * width s < 65536" "16 * height s < 2147483648" "width s * height s < 4194304"
proof -
  let ?p = "uint (fb_pitch s)"
  have p: "?p < 65536" using unsigned_less [of "fb_pitch s", where 'a = int] by simp
  have w: "4 * fb_width s \<le> ?p" "fb_height s * ?p < 2147483648" using ok by (simp_all add: fb_ok_def)
  have p2: "32 * width s \<le> ?p" "1 \<le> ?p" using fit dim w by linarith+
  then show "8 * width s < 65536" using p by simp
  have "16 * height s * (32 * width s) \<le> fb_height s * ?p"
    using p2 fit dim by (intro mult_mono) simp_all
  then have "512 * (width s * height s) \<le> fb_height s * ?p" by (simp add: algebra_simps)
  then show "width s * height s < 4194304" using w(2) by linarith
  have "16 * height s * 1 \<le> fb_height s * ?p" using p2 fit dim by (intro mult_mono) simp_all
  then show "16 * height s < 2147483648" using w(2) by simp
qed

lemma in_rounds:
  "(x, y) \<in> (\<lambda>(a, b). (a, b)) ` rounds n m 0 \<longleftrightarrow> 0 \<le> x \<and> x < m \<and> 0 \<le> y \<and> y < n"
  by (auto simp: rounds_def)

text \<open>Drawing a character, and scrolling, as effects on pixels.\<close>

lemma draw_glyph:
  assumes ok: "fb_ok s" and fit: "8 * width s + 16 \<le> fb_width s" "16 * height s + 16 \<le> fb_height s"
    and cell: "0 \<le> cx" "cx < width s" "0 \<le> cy" "cy < height s"
  shows "\<exists>t. for_each (\<lambda>ix. for_each (draw_pixel c cx cy ix) [0..15]) [0..7] s = Some t \<and>
    drawn {(x, y). x div 8 = cx \<and> y div 16 = cy}
      (\<lambda>x y. glyph (fg s) (bg s) c (x mod 8) (y mod 16)) s t"
proof -
  let ?pt = "\<lambda>a b. (cx * 8 + a, cy * 16 + b)"
  let ?f = "\<lambda>x y. glyph (fg s) (bg s) c (x mod 8) (y mod 16)"
  have "\<exists>t. for_each (\<lambda>ix. for_each (draw_pixel c cx cy ix) [0..16 - 1]) [0..8 - 1] s = Some t \<and>
    drawn ((\<lambda>(a, b). ?pt a b) ` rounds 16 8 0) ?f s t"
  proof (rule for_each_rect)
    fix i j t assume ij: "0 \<le> i" "i < (8 :: int)" "0 \<le> j" "j < (16 :: int)"
      and d: "drawn ((\<lambda>(a, b). ?pt a b) ` rounds 16 i j) ?f s t"
    note g = drawn_geometry [OF d]
    have scr: "in_screen t (cx * 8 + i) (cy * 16 + j)"
      unfolding g by (rule cell_in_screen) (use fit cell ij in auto)
    have "?f (cx * 8 + i) (cy * 16 + j) = (if font_is_set c i (j sdiv 2) then fg t else bg t)"
      using ij by (simp add: glyph_def g sdiv_smod_nonneg)
    moreover have "cx * 8 + i + 8 < 65536" "cy * 16 + j + 8 < 2147483648"
      using fb_index_in_screen(1,2) [of s] scr ok by (simp_all add: g)
    then have "int32 (cx * 8) = Some (cx * 8)" "int32 (cx * 8 + i) = Some (cx * 8 + i)"
      "int32 (cy * 16) = Some (cy * 16)" "int32 (cy * 16 + j) = Some (cy * 16 + j)"
      using cell ij by simp_all
    ultimately show "\<exists>t'. draw_pixel c cx cy i j t = Some t' \<and> drawn {?pt i j} ?f t t'"
      using putpixel_drawn [of t "cx * 8 + i" "cy * 16 + j" ?f] scr ok
      by (simp add: draw_pixel_def g)
  qed simp_all
  moreover have "(\<lambda>(a, b). ?pt a b) ` rounds 16 8 0 = {(x, y). x div 8 = cx \<and> y div 16 = cy}"
  proof (intro set_eqI iffI)
    fix p assume "p \<in> {(x, y). x div 8 = cx \<and> y div 16 = cy}"
    then obtain x y where p: "p = (x, y)" "x div 8 = cx" "y div 16 = cy" by blast
    have "x = cx * 8 + x mod 8" "y = cy * 16 + y mod 16" using p by auto
    then show "p \<in> (\<lambda>(a, b). ?pt a b) ` rounds 16 8 0"
      unfolding p(1) by (intro image_eqI [of _ _ "(x mod 8, y mod 16)"]) (auto simp: rounds_def)
  qed (auto simp: rounds_def)
  ultimately show ?thesis by simp
qed

lemma scroll_rows:
  assumes ok: "fb_ok s" and fit: "8 * width s + 16 \<le> fb_width s" "16 * height s + 16 \<le> fb_height s"
    and dim: "0 \<le> width s" "1 \<le> height s"
  shows "\<exists>t. for_each (\<lambda>py. for_each (scroll_pixel py) [0..width s * 8 - 1])
      [0..(height s - 1) * 16 - 1] s = Some t \<and>
    drawn {(x, y). 0 \<le> x \<and> x < width s * 8 \<and> 0 \<le> y \<and> y < (height s - 1) * 16}
      (\<lambda>x y. pix s x (y + 16)) s t"
proof -
  let ?pt = "\<lambda>py px. (px, py)" and ?f = "\<lambda>x y. pix s x (y + 16)"
  have "\<exists>t. for_each (\<lambda>py. for_each (scroll_pixel py) [0..width s * 8 - 1])
      [0..(height s - 1) * 16 - 1] s = Some t \<and>
    drawn ((\<lambda>(a, b). ?pt a b) ` rounds (width s * 8) ((height s - 1) * 16) 0) ?f s t"
  proof (rule for_each_rect)
    fix i j t assume ij: "0 \<le> i" "i < (height s - 1) * 16" "0 \<le> j" "j < width s * 8"
      and d: "drawn ((\<lambda>(a, b). ?pt a b) ` rounds (width s * 8) i j) ?f s t"
    note g = drawn_geometry [OF d]
    have scr: "in_screen s j i" "in_screen s j (i + 16)"
      by (rule cell_in_screen; use fit ij in simp)+
    have "(j, i + 16) \<notin> (\<lambda>(a, b). ?pt a b) ` rounds (width s * 8) i j" by (auto simp: rounds_def)
    then have "framebuffer_getpixel j (i + 16) t = Some (?f j i)"
      using getpixel_pix [of t j "i + 16"] drawn_pix [OF d scr(2)] scr ok by (simp add: g)
    with putpixel_drawn [of t j i ?f] scr ok
    show "\<exists>t'. scroll_pixel i j t = Some t' \<and> drawn {?pt i j} ?f t t'"
      by (simp add: scroll_pixel_def g)
  qed (use dim in simp_all)
  moreover have "(\<lambda>(a, b). ?pt a b) ` rounds (width s * 8) ((height s - 1) * 16) 0 =
      {(x, y). 0 \<le> x \<and> x < width s * 8 \<and> 0 \<le> y \<and> y < (height s - 1) * 16}"
    by (auto simp: rounds_def)
  ultimately show ?thesis by simp
qed

lemma clear_last_line:
  assumes ok: "fb_ok s" and fit: "8 * width s + 16 \<le> fb_width s" "16 * height s + 16 \<le> fb_height s"
    and dim: "0 \<le> width s" "1 \<le> height s"
  shows "\<exists>t. for_each (\<lambda>py. for_each (\<lambda>px. framebuffer_putpixel px ((height s - 1) * 16 + py) 0)
      [0..width s * 8 - 1]) [0..15] s = Some t \<and>
    drawn {(x, y). 0 \<le> x \<and> x < width s * 8 \<and> (height s - 1) * 16 \<le> y \<and> y < height s * 16}
      (\<lambda>_ _. 0) s t"
proof -
  let ?pt = "\<lambda>py px. (px, (height s - 1) * 16 + py)"
  have "\<exists>t. for_each (\<lambda>py. for_each (\<lambda>px. framebuffer_putpixel px ((height s - 1) * 16 + py) 0)
      [0..width s * 8 - 1]) [0..16 - 1] s = Some t \<and>
    drawn ((\<lambda>(a, b). ?pt a b) ` rounds (width s * 8) 16 0) (\<lambda>_ _. 0) s t"
  proof (rule for_each_rect)
    fix i j t assume ij: "0 \<le> i" "i < (16 :: int)" "0 \<le> j" "j < width s * 8"
      and d: "drawn ((\<lambda>(a, b). ?pt a b) ` rounds (width s * 8) i j) (\<lambda>_ _. 0) s t"
    note g = drawn_geometry [OF d]
    have "in_screen s j ((height s - 1) * 16 + i)"
      by (rule cell_in_screen) (use fit ij dim in simp_all)
    with putpixel_drawn [of t j "(height s - 1) * 16 + i" "\<lambda>_ _. 0"] ok
    show "\<exists>t'. framebuffer_putpixel j ((height s - 1) * 16 + i) 0 t = Some t' \<and>
        drawn {?pt i j} (\<lambda>_ _. 0) t t'" by (simp add: g)
  qed (use dim in simp_all)
  moreover have "(\<lambda>(a, b). ?pt a b) ` rounds (width s * 8) 16 0 =
      {(x, y). 0 \<le> x \<and> x < width s * 8 \<and> (height s - 1) * 16 \<le> y \<and> y < height s * 16}"
  proof (intro set_eqI iffI)
    fix p assume "p \<in> {(x, y). 0 \<le> x \<and> x < width s * 8 \<and>
      (height s - 1) * 16 \<le> y \<and> y < height s * 16}"
    then show "p \<in> (\<lambda>(a, b). ?pt a b) ` rounds (width s * 8) 16 0"
      by (intro image_eqI [of _ _ "(snd p - (height s - 1) * 16, fst p)"]) (auto simp: rounds_def)
  qed (auto simp: rounds_def)
  ultimately show ?thesis by simp
qed

lemma terminal_scroll_spec:
  assumes rd: "isready s" and ok: "fb_ok s"
    and fit: "8 * width s + 16 \<le> fb_width s" "16 * height s + 16 \<le> fb_height s"
    and dim: "2 \<le> width s" "1 \<le> height s" and ci: "0 \<le> chr_index s" "chr_index s < 2147483648"
  shows "\<exists>t. terminal_scroll s = Some t \<and> tty_abs t = tty_scroll (tty_abs s) \<and>
    chr_index t = chr_index s - width s \<and> width t = width s \<and> height t = height s \<and>
    fb_width t = fb_width s \<and> fb_height t = fb_height s \<and> fb_ok t \<and> isready t \<and>
    (mirrored s \<longrightarrow> mirrored t)"
proof -
  have dim': "0 \<le> width s" using dim by simp
  let ?A = "{(x, y). 0 \<le> x \<and> x < width s * 8 \<and> 0 \<le> y \<and> y < (height s - 1) * 16}"
    and ?B = "{(x, y). 0 \<le> x \<and> x < width s * 8 \<and> (height s - 1) * 16 \<le> y \<and> y < height s * 16}"
  from scroll_rows [OF ok fit dim' dim(2)] obtain u where
    u: "for_each (\<lambda>py. for_each (scroll_pixel py) [0..width s * 8 - 1])
      [0..(height s - 1) * 16 - 1] s = Some u" "drawn ?A (\<lambda>x y. pix s x (y + 16)) s u" by blast
  note g = drawn_geometry [OF u(2)]
  from clear_last_line [of u] ok fit dim dim' obtain v where
    v: "for_each (\<lambda>py. for_each (\<lambda>px. framebuffer_putpixel px ((height s - 1) * 16 + py) 0)
      [0..width s * 8 - 1]) [0..15] u = Some v" "drawn ?B (\<lambda>_ _. 0) u v" by (auto simp: g)
  note h = drawn_geometry [OF v(2)]
  define t where "t = v\<lparr>chr_index := chr_index v - width v\<rparr>"
  have sz: "8 * width s < 65536" "16 * height s < 2147483648"
    using text_size [OF ok fit] dim by simp_all
  have "int32 (height s - 1) = Some (height s - 1)" "int32 ((height s - 1) * 16) = Some ((height s - 1) * 16)"
    "int32 (width s * 8) = Some (width s * 8)" "int32 (chr_index v - width v) = Some (chr_index v - width v)"
    using sz dim ci by (simp_all add: g h)
  then have "terminal_scroll s = Some t" using rd u(1) v(1) by (simp add: terminal_scroll_def t_def)
  moreover have pt: "pix t x y = (if y < (height s - 1) * 16 then pix s x (y + 16) else 0)"
    if "0 \<le> x" "x < width s * 8" "0 \<le> y" "y < height s * 16" for x y
  proof -
    have scr: "in_screen s x y" by (rule cell_in_screen) (use fit that in simp_all)
    have "pix t x y = pix v x y" by (simp add: t_def pix_def pix_at_def)
    then show ?thesis
      using drawn_pix [OF u(2) scr] drawn_pix [OF v(2)] scr that by (simp add: g)
  qed
  have "tty_abs t = tty_scroll (tty_abs s)"
  proof (rule tty.equality)
    show "cell (tty_abs t) = cell (tty_scroll (tty_abs s))"
    proof (intro ext)
      fix cx cy ix iy
      show "cell (tty_abs t) cx cy ix iy = cell (tty_scroll (tty_abs s)) cx cy ix iy"
        using pt [of "cx * 8 + ix" "cy * 16 + iy"]
        by (auto simp: tty_abs_def tty_scroll_def t_def g h algebra_simps)
    qed
  qed (simp_all add: tty_abs_def tty_scroll_def t_def g h)
  moreover have "mirrored t" if "mirrored s"
    using drawn_mirrored [OF v(2) drawn_mirrored [OF u(2) that]]
    by (simp add: mirrored_def t_def pix_def mpix_def pix_at_def in_screen_def)
  ultimately show ?thesis using ok rd by (auto simp: t_def g h fb_ok_def)
qed

text \<open>Writing a character implements the specification, stays in the framebuffer and keeps the invariant.\<close>

lemma draw_cell_abs:
  assumes "drawn {(x, y). x div 8 = cx \<and> y div 16 = cy}
      (\<lambda>x y. glyph (fg s) (bg s) c (x mod 8) (y mod 16)) s t"
    and fit: "8 * width s + 16 \<le> fb_width s" "16 * height s + 16 \<le> fb_height s"
    and c: "0 \<le> cx" "cx < width s" "0 \<le> cy" "cy < height s"
  shows "tty_abs t = (tty_abs s)\<lparr>cell := (\<lambda>a b. if a = cx \<and> b = cy
    then glyph (fg s) (bg s) c else cell (tty_abs s) a b)\<rparr>"
proof (rule tty.equality)
  note g = drawn_geometry [OF assms(1)]
  show "cell (tty_abs t) = cell ((tty_abs s)\<lparr>cell := (\<lambda>a b. if a = cx \<and> b = cy
    then glyph (fg s) (bg s) c else cell (tty_abs s) a b)\<rparr>)"
  proof (intro ext)
    fix a b ix iy
    show "cell (tty_abs t) a b ix iy = cell ((tty_abs s)\<lparr>cell := (\<lambda>a b. if a = cx \<and> b = cy
      then glyph (fg s) (bg s) c else cell (tty_abs s) a b)\<rparr>) a b ix iy"
    proof (cases "a \<in> {0..<width s} \<and> b \<in> {0..<height s} \<and> ix \<in> {0..<8} \<and> iy \<in> {0..<16}")
      case True
      then have "in_screen s (a * 8 + ix) (b * 16 + iy)"
        by (intro cell_in_screen fit) auto
      then have "pix t (a * 8 + ix) (b * 16 + iy) = (if a = cx \<and> b = cy
          then glyph (fg s) (bg s) c ix iy else pix s (a * 8 + ix) (b * 16 + iy))"
        using drawn_pix [OF assms(1)] True by (simp add: div_add1_eq)
      with True show ?thesis by (simp add: tty_abs_def g)
    next
      case False
      with c show ?thesis by (auto simp: tty_abs_def g glyph_def)
    qed
  qed
qed (use drawn_geometry [OF assms(1)] in \<open>simp_all add: tty_abs_def\<close>)

lemma cell_of_index:
  assumes "0 \<le> i" and "i < w * h" and w: "0 < (w :: int)"
  shows "0 \<le> i mod w" "i mod w < w" "0 \<le> i div w" "i div w < h"
proof -
  have "w * (i div w) \<le> i" using w mult_div_mod_eq [of w i] pos_mod_sign [OF w, of i] by linarith
  with assms(2) have "w * (i div w) < w * h" by linarith
  with w show "i div w < h" by simp
qed (use assms in \<open>simp_all add: pos_imp_zdiv_nonneg_iff\<close>)

lemma terminal_putchar_spec:
  assumes ok: "tty_ok s"
  shows "\<exists>t. terminal_putchar c s = Some t \<and> tty_abs t = tty_put c (tty_abs s) \<and> tty_ok t \<and>
    (mirrored s \<longrightarrow> mirrored t)"
proof -
  note k = ok [unfolded tty_ok_def]
  define s1 where "s1 = s\<lparr>chr_index := chr_index s + 1\<rparr>"
  have ok1: "isready s1" "fb_ok s1" "8 * width s1 + 16 \<le> fb_width s1"
    "16 * height s1 + 16 \<le> fb_height s1" "2 \<le> width s1" "1 \<le> height s1"
    using k by (simp_all add: s1_def fb_ok_def)
  have sz: "width s * height s < 4194304" "8 * width s < 65536" using text_size [of s] k by auto
  have ci: "0 \<le> chr_index s1" "chr_index s1 < 2147483648" using k sz by (auto simp: s1_def)
  have m1: "mirrored s \<Longrightarrow> mirrored s1"
    by (simp add: mirrored_def s1_def pix_def mpix_def pix_at_def in_screen_def)
  have a1: "tty_abs s1 = (tty_abs s)\<lparr>cursor := cursor (tty_abs s) + 1\<rparr>"
    by (rule tty.equality) (simp_all add: tty_abs_def s1_def pix_def pix_at_def fun_eq_iff)
  obtain s2 where s2: "(if width s1 * height s1 \<le> chr_index s1 then terminal_scroll s1 else Some s1) = Some s2"
    and a2: "tty_abs s2 = (if chr_index s1 < width s1 * height s1 then tty_abs s1 else tty_scroll (tty_abs s1))"
    and g2: "isready s2" "fb_ok s2" "8 * width s2 + 16 \<le> fb_width s2" "16 * height s2 + 16 \<le> fb_height s2"
      "width s2 = width s" "height s2 = height s" and m2: "mirrored s \<Longrightarrow> mirrored s2"
    and i2: "0 \<le> chr_index s2" "chr_index s2 < width s * height s"
  proof (cases "chr_index s1 < width s1 * height s1")
    case True
    then show thesis using that [of s1] ok1 k m1 by (auto simp: s1_def)
  next
    case False
    with terminal_scroll_spec [OF ok1 ci] obtain u where u: "terminal_scroll s1 = Some u"
      "tty_abs u = tty_scroll (tty_abs s1)" "chr_index u = chr_index s1 - width s1"
      "width u = width s1" "height u = height s1" "fb_width u = fb_width s1"
      "fb_height u = fb_height s1" "fb_ok u" "isready u" "mirrored s1 \<longrightarrow> mirrored u" by blast
    have "chr_index s1 = width s * height s + 1 \<or> chr_index s1 = width s * height s"
      using False k by (auto simp: s1_def)
    moreover have "width s * 1 \<le> width s * height s" using k by (intro mult_left_mono) auto
    moreover have "2 \<le> width s" "width s1 = width s" using k by (simp_all add: s1_def)
    ultimately have "0 \<le> chr_index u \<and> chr_index u < width s * height s" using u(3,4) by linarith
    moreover have "width s1 = width s" "height s1 = height s" by (simp_all add: s1_def)
    ultimately show thesis using that [of u] False u ok1 m1 by simp
  qed
  have w: "0 < width s2" using k g2 by simp
  note cell = cell_of_index [OF i2 [folded g2(5,6)] w]
  have sm: "int32_rem (chr_index s2) (width s2) = Some (chr_index s2 mod width s2)"
    "int32_div (chr_index s2) (width s2) = Some (chr_index s2 div width s2)"
    using int32_div_rem [OF i2(1) _ w] i2(2) sz by simp_all
  have nl: "int32 (width s2 - chr_index s2 mod width s2) = Some (width s2 - chr_index s2 mod width s2)"
    "int32 (chr_index s2 + (width s2 - chr_index s2 mod width s2)) =
      Some (chr_index s2 + (width s2 - chr_index s2 mod width s2))"
    using cell(1,2) sz i2 g2(5) by simp_all
  have ar: "int32 (chr_index s + 1) = Some (chr_index s + 1)"
    "int32 (width s1 * height s1) = Some (width s1 * height s1)"
    using k sz by (auto simp: s1_def)
  have eq2: "tty_put c (tty_abs s) =
      (if c = 10 then (tty_abs s2)\<lparr>cursor := (chr_index s2 div width s2 + 1) * width s2\<rparr>
       else (tty_abs s2)\<lparr>cell := (\<lambda>a b. if a = chr_index s2 mod width s2 \<and> b = chr_index s2 div width s2
         then glyph (fg s2) (bg s2) c else cell (tty_abs s2) a b)\<rparr>)"
    (is "_ = (if c = 10 then ?nl else ?ch)")
  proof -
    have "tty_put c (tty_abs s) = (let t2 = tty_abs s2 in
        if c = 10 then t2\<lparr>cursor := (cursor t2 div cols t2 + 1) * cols t2\<rparr>
        else t2\<lparr>cell := (\<lambda>cx cy. if cx = cursor t2 mod cols t2 \<and> cy = cursor t2 div cols t2
             then glyph (ink t2) (paper t2) c else cell t2 cx cy)\<rparr>)"
      unfolding tty_put_def a1 [symmetric] Let_def a2 by simp
    then show ?thesis by (simp add: Let_def cong: if_cong)
  qed
  have put: "terminal_putchar c s =
      (if c = 10 then Some (s2\<lparr>chr_index := chr_index s2 + (width s2 - chr_index s2 mod width s2)\<rparr>)
       else for_each (\<lambda>ix. for_each (draw_pixel c (chr_index s2 mod width s2) (chr_index s2 div width s2) ix)
         [0..15]) [0..7] s2)"
    using k by (simp only: terminal_putchar_def put_at_def Let_def ar s1_def [symmetric] s2 bind.bind_lunit sm nl
      not_True_eq_False if_False)
  show ?thesis
  proof (cases "c = 10")
    case True
    define t where "t = s2\<lparr>chr_index := chr_index s2 + (width s2 - chr_index s2 mod width s2)\<rparr>"
    have e: "chr_index t = (chr_index s2 div width s2 + 1) * width s2"
      unfolding t_def using mult_div_mod_eq [of "width s2" "chr_index s2"] by (simp add: algebra_simps)
    have "terminal_putchar c s = Some t" unfolding put t_def using True by simp
    moreover have "tty_abs t = ?nl"
      by (rule tty.equality) (simp_all add: tty_abs_def e, simp_all add: t_def pix_def pix_at_def fun_eq_iff)
    moreover have "(chr_index s2 div width s2 + 1) * width s2 \<le> height s2 * width s2"
      using cell w by (intro mult_right_mono) auto
    then have "tty_ok t"
      unfolding tty_ok_def e using g2 k cell(3) w by (auto simp: t_def fb_ok_def mult.commute)
    moreover have "mirrored s \<Longrightarrow> mirrored t"
      using m2 by (simp add: mirrored_def t_def pix_def mpix_def pix_at_def in_screen_def)
    ultimately show ?thesis unfolding eq2 using True by auto
  next
    case False
    from draw_glyph [OF g2(2-4) cell, of c] obtain t where
      t: "for_each (\<lambda>ix. for_each (draw_pixel c (chr_index s2 mod width s2) (chr_index s2 div width s2) ix)
        [0..15]) [0..7] s2 = Some t"
      and d: "drawn {(x, y). x div 8 = chr_index s2 mod width s2 \<and> y div 16 = chr_index s2 div width s2}
        (\<lambda>x y. glyph (fg s2) (bg s2) c (x mod 8) (y mod 16)) s2 t" by blast
    have "terminal_putchar c s = Some t" using t False by (simp add: put)
    moreover have "tty_ok t"
      unfolding tty_ok_def drawn_geometry [OF d] using g2 k i2 by (auto simp: fb_ok_def)
    ultimately show ?thesis
      unfolding eq2 using False draw_cell_abs [OF d g2(3,4) cell] drawn_mirrored [OF d] m2 by auto
  qed
qed

lemma terminal_clear_spec:
  assumes ok: "tty_ok s"
  shows "\<exists>t. terminal_clear s = Some t \<and> tty_ok t \<and> (mirrored s \<longrightarrow> mirrored t) \<and>
    tty_abs t = (tty_abs s)\<lparr>cursor := 0, cell := (\<lambda>_ _ _ _. 0)\<rparr>"
proof -
  note k = ok [unfolded tty_ok_def]
  let ?pt = "\<lambda>x y. (x, y)"
  have "\<exists>u. for_each (\<lambda>x. for_each (\<lambda>y. framebuffer_putpixel x y 0) [0..16 * height s - 1])
      [0..8 * width s - 1] s = Some u \<and>
    drawn ((\<lambda>(a, b). ?pt a b) ` rounds (16 * height s) (8 * width s) 0) (\<lambda>_ _. 0) s u"
  proof (rule for_each_rect)
    fix i j t assume ij: "0 \<le> i" "i < 8 * width s" "0 \<le> j" "j < 16 * height s"
      and d: "drawn ((\<lambda>(a, b). ?pt a b) ` rounds (16 * height s) i j) (\<lambda>_ _. 0) s t"
    note g = drawn_geometry [OF d]
    have "in_screen s i j" by (rule cell_in_screen) (use k ij in simp_all)
    with putpixel_drawn [of t i j "\<lambda>_ _. 0"] k
    show "\<exists>t'. framebuffer_putpixel i j 0 t = Some t' \<and> drawn {?pt i j} (\<lambda>_ _. 0) t t'"
      by (simp add: g)
  qed (use k in simp_all)
  then obtain u where u: "for_each (\<lambda>x. for_each (\<lambda>y. framebuffer_putpixel x y 0)
      [0..16 * height s - 1]) [0..8 * width s - 1] s = Some u"
    and d: "drawn ((\<lambda>(a, b). ?pt a b) ` rounds (16 * height s) (8 * width s) 0) (\<lambda>_ _. 0) s u" by blast
  note g = drawn_geometry [OF d]
  define t where "t = u\<lparr>chr_index := 0\<rparr>"
  have px: "pix t x y = 0" if "0 \<le> x" "x < 8 * width s" "0 \<le> y" "y < 16 * height s" for x y
  proof -
    have scr: "in_screen s x y" by (rule cell_in_screen) (use k that in simp_all)
    have "pix u x y = 0" using drawn_pix [OF d scr] that by (simp add: rounds_def)
    moreover have "pix t x y = pix u x y" by (simp add: t_def pix_def pix_at_def)
    ultimately show ?thesis by simp
  qed
  have "8 * width s < 65536" "16 * height s < 2147483648" using text_size [of s] k by auto
  then have "int32 (8 * width s) = Some (8 * width s)" "int32 (16 * height s) = Some (16 * height s)"
    using k by simp_all
  then have "terminal_clear s = Some t" using k u by (simp add: terminal_clear_def t_def)
  moreover have "tty_ok t" using k unfolding tty_ok_def t_def by (simp add: g fb_ok_def)
  moreover have "mirrored t" if "mirrored s"
    using drawn_mirrored [OF d that]
    by (simp add: mirrored_def t_def pix_def mpix_def pix_at_def in_screen_def)
  moreover have "cell (tty_abs t) = (\<lambda>_ _ _ _. 0)"
    by (intro ext) (use px in \<open>auto simp: tty_abs_def t_def g\<close>)
  then have "tty_abs t = (tty_abs s)\<lparr>cursor := 0, cell := (\<lambda>_ _ _ _. 0)\<rparr>"
    by (intro tty.equality) (simp_all add: t_def g)
  ultimately show ?thesis by blast
qed

section \<open>Runs of the terminal\<close>

inductive tty_step :: "console \<Rightarrow> console \<Rightarrow> bool" where
  put: "terminal_putchar c s = Some t \<Longrightarrow> tty_step s t"
| color: "tty_step s (terminal_setcolor f b s)"
| clear: "terminal_clear s = Some t \<Longrightarrow> tty_step s t"

inductive_cases tty_stepE: "tty_step s t"

lemma setcolor_ok: "tty_ok (terminal_setcolor f b s) = tty_ok s"
    "mirrored (terminal_setcolor f b s) = mirrored s"
  by (simp_all add: tty_ok_def terminal_setcolor_def fb_ok_def mirrored_def in_screen_def
    pix_def mpix_def pix_at_def)

lemma tty_step_ok: "tty_step s t \<Longrightarrow> tty_ok s \<Longrightarrow> tty_ok t \<and> (mirrored s \<longrightarrow> mirrored t)"
proof (induction rule: tty_step.induct)
  case (put c s t)
  then show ?case using terminal_putchar_spec [of s c] by auto
next
  case (color s f b)
  then show ?case by (simp add: setcolor_ok)
next
  case (clear s t)
  then show ?case using terminal_clear_spec [of s] by auto
qed

lemma for_each_upto_keeps:
  assumes "P s" and "\<And>k t. 0 \<le> k \<Longrightarrow> k < n \<Longrightarrow> P t \<Longrightarrow> \<exists>t'. f k t = Some t' \<and> P t'"
  shows "\<exists>t. for_each f [0..n - 1] s = Some t \<and> P t"
proof (cases "0 \<le> n")
  case True
  from for_each_upto [where P = "\<lambda>_. P", OF this assms] show ?thesis .
qed (use assms(1) in simp)

definition same_mode :: "'z console_scheme \<Rightarrow> 'z console_scheme \<Rightarrow> bool" where
  "same_mode s t \<longleftrightarrow> t = s\<lparr>fb_buffer := fb_buffer t, fb_mmio := fb_mmio t\<rparr>"

lemma same_modeE:
  assumes "same_mode s t" obtains b m where "t = s\<lparr>fb_buffer := b, fb_mmio := m\<rparr>"
  using assms unfolding same_mode_def by metis

lemma same_mode_put:
  assumes "fb_ok s" and "same_mode s t" and "in_screen s x y"
  shows "\<exists>u. framebuffer_putpixel x y px t = Some u \<and> same_mode s u"
proof -
  from assms(2) obtain b m where t: "t = s\<lparr>fb_buffer := b, fb_mmio := m\<rparr>" by (rule same_modeE)
  have "fb_ok t" "in_screen t x y" using assms by (simp_all add: t fb_ok_def in_screen_def)
  from putpixel_drawn [OF this, of "\<lambda>_ _. px"] obtain u
    where "framebuffer_putpixel x y px t = Some u" "drawn {(x, y)} (\<lambda>_ _. px) t u" by blast
  then show ?thesis unfolding drawn_def same_mode_def t by auto
qed

lemma drawborder_ok:
  assumes ok: "fb_ok s" and dim: "8 \<le> fb_width s" "8 \<le> fb_height s"
  shows "\<exists>t. framebuffer_drawborder color s = Some t \<and> same_mode s t"
proof -
  have dims: "fb_width t = fb_width s \<and> fb_height t = fb_height s" if "same_mode s t" for t
    using that by (elim same_modeE) simp
  have twice: "\<exists>u. do { s' \<leftarrow> framebuffer_putpixel x y color t; v \<leftarrow> int32 (a + f s');
        framebuffer_putpixel (x' v) (y' v) color s' } = Some u \<and> same_mode s u"
    if m: "same_mode s t" and xy: "in_screen s x y" and f: "\<And>s'. same_mode s s' \<Longrightarrow> f s' = f s"
      and v: "int32 (a + f s) = Some (a + f s)" "in_screen s (x' (a + f s)) (y' (a + f s))" for x y x' y' t a f
  proof -
    from same_mode_put [OF ok m xy] obtain s' where s': "framebuffer_putpixel x y color t = Some s'"
      "same_mode s s'" by blast
    with same_mode_put [OF ok s'(2) v(2)] f [OF s'(2)] v(1) show ?thesis by simp
  qed
  let ?row = "\<lambda>x y s. do { s' \<leftarrow> framebuffer_putpixel (x - 8) (y - 8) color s;
      y' \<leftarrow> int32 (y - 16 + fb_height s'); framebuffer_putpixel (x - 8) y' color s' }"
  let ?col = "\<lambda>y x s. do { s' \<leftarrow> framebuffer_putpixel (x - 8) (y - 8) color s;
      x' \<leftarrow> int32 (x - 16 + fb_width s'); framebuffer_putpixel x' (y - 8) color s' }"
  have row: "\<exists>t'. for_each (?row x) [0..7] t = Some t' \<and> same_mode s t'"
    if x: "0 \<le> x" "x < fb_width s" and m: "same_mode s t" for x t
  proof -
    have "\<exists>t'. for_each (?row x) [0..8 - 1] t = Some t' \<and> same_mode s t'"
    proof (rule for_each_upto_keeps [where P = "same_mode s", OF m])
      fix y u assume "0 \<le> y" "y < (8 :: int)" and m: "same_mode s u"
      then have i: "in_screen s (x - 8) (y - 8)" "in_screen s (x - 8) (y - 16 + fb_height s)"
        using x dim by (simp_all add: in_screen_def)
      have "int32 (y - 16 + fb_height s) = Some (y - 16 + fb_height s)"
        using fb_index_in_screen(2) [OF ok i(2)] \<open>0 \<le> y\<close> dim by (intro int32_fits) linarith+
      with i dims show "\<exists>u'. ?row x y u = Some u' \<and> same_mode s u'"
        by (intro twice [OF m, where f = fb_height]) simp_all
    qed
    then show ?thesis by simp
  qed
  have col: "\<exists>t'. for_each (?col y) [0..7] t = Some t' \<and> same_mode s t'"
    if y: "0 \<le> y" "y < fb_height s" and m: "same_mode s t" for y t
  proof -
    have "\<exists>t'. for_each (?col y) [0..8 - 1] t = Some t' \<and> same_mode s t'"
    proof (rule for_each_upto_keeps [where P = "same_mode s", OF m])
      fix x u assume "0 \<le> x" "x < (8 :: int)" and m: "same_mode s u"
      then have i: "in_screen s (x - 8) (y - 8)" "in_screen s (x - 16 + fb_width s) (y - 8)"
        using y dim by (simp_all add: in_screen_def)
      have "int32 (x - 16 + fb_width s) = Some (x - 16 + fb_width s)"
        using fb_index_in_screen(1) [OF ok i(2)] \<open>0 \<le> x\<close> dim by (intro int32_fits) linarith+
      with i dims show "\<exists>u'. ?col y x u = Some u' \<and> same_mode s u'"
        by (intro twice [OF m, where f = fb_width]) simp_all
    qed
    then show ?thesis by simp
  qed
  have "same_mode s s" by (simp add: same_mode_def)
  from for_each_upto_keeps [where P = "same_mode s" and f = "\<lambda>x. for_each (?row x) [0..7]"
      and n = "fb_width s", OF this row] obtain t where
    t: "for_each (\<lambda>x. for_each (?row x) [0..7]) [0..fb_width s - 1] s = Some t" "same_mode s t"
    by blast
  from for_each_upto_keeps [where P = "same_mode s" and f = "\<lambda>y. for_each (?col y) [0..7]"
      and n = "fb_height s", OF t(2) col] obtain u where
    u: "for_each (\<lambda>y. for_each (?col y) [0..7]) [0..fb_height s - 1] t = Some u" "same_mode s u"
    by blast
  show ?thesis using t u dims [OF t(2)] by (simp add: framebuffer_drawborder_def)
qed

section \<open>Properties\<close>

text \<open>C11: Writing a character to a terminal that fits its framebuffer, in a mode of less than
  \<open>2 ^ 31\<close> bytes, draws only inside of the framebuffer without an overflow of the 32-bit arithmetic
  and shows what the grid of images specifies: the character in the next cell, after the lines have
  moved up when the screen is full; the screen keeps showing the buffer.\<close>

theorem terminal_putchar_refines:
  assumes "tty_ok s"
  shows "\<exists>t. terminal_putchar c s = Some t \<and> tty_abs t = tty_put c (tty_abs s) \<and>
    (mirrored s \<longrightarrow> mirrored t)"
  using terminal_putchar_spec [OF assms, of c] by blast

definition console_example :: console where
  "console_example = \<lparr>fb_width = 32, fb_height = 32, fb_pitch = 128, fb_buffer = (\<lambda>_. 0),
     fb_mmio = (\<lambda>_. 0), width = 2, height = 1, chr_index = 1, fg = 7, bg = 3, isready = True\<rparr>"

lemma console_example_ok: "tty_ok console_example" "mirrored console_example"
  by (simp_all add: console_example_def tty_ok_def fb_ok_def mirrored_def pix_def mpix_def pix_at_def)

theorem terminal_putchar_refines_witness:
  "\<exists>t. terminal_putchar 0x41 console_example = Some t \<and> chr_index t = 0 \<and> pix t 2 0 = 7 \<and>
    pix t 0 0 = 3 \<and> mirrored t"
proof -
  from terminal_putchar_refines [OF console_example_ok(1), of "0x41"] console_example_ok(2) obtain t
    where t: "terminal_putchar 0x41 console_example = Some t"
      "tty_abs t = tty_put 0x41 (tty_abs console_example)" "mirrored t" by blast
  have abs: "cols (tty_abs t) = 2" "rows (tty_abs t) = 1" "cursor (tty_abs t) = 0"
      "cell (tty_abs t) 0 0 2 0 = 7" "cell (tty_abs t) 0 0 0 0 = 3"
    unfolding t(2)
    by (simp_all add: tty_put_def tty_scroll_def Let_def console_example_def tty_abs_def glyph_def
      font_is_set_def font8x8_basic_def char_control_iff)
  have w: "width t = 2" "height t = 1" using abs(1,2) by simp_all
  have "pix t 2 0 = 7" "pix t 0 0 = 3"
    using abs(4,5) unfolding tty_abs_def by (simp_all add: w)
  moreover have "chr_index t = 0" using abs(3) by simp
  ultimately show ?thesis using t by blast
qed



text \<open>In a mode of \<open>2 ^ 31\<close> bytes or more the size of the buffer overflows an \<^verbatim>\<open>int\<close>.\<close>

lemma framebuffer_size_overflow:
  assumes "2147483648 \<le> uint (framebuffer_height fb) * uint (framebuffer_pitch fb)"
  shows "framebuffer_initialize fb buf screen s = None"
  using assms by (simp add: framebuffer_initialize_def int32_def)

text \<open>A 32-bit mode of at least 32 columns and rows of pixels is initialised without leaving the
  framebuffer, and the terminal of the size \<^verbatim>\<open>_start\<close> computes for it fits. The screen is not
  cleared: \<^verbatim>\<open>terminal_clear\<close> returns at once, as the terminal is not ready yet.\<close>

theorem terminal_boot_fits:
  assumes mode: "32 \<le> framebuffer_width fb" "32 \<le> framebuffer_height fb"
    "4 dvd uint (framebuffer_pitch fb)" "4 * uint (framebuffer_width fb) \<le> uint (framebuffer_pitch fb)"
    and size: "uint (framebuffer_height fb) * uint (framebuffer_pitch fb) < 2147483648"
    and ready: "\<not> isready s"
  shows "\<exists>t u. framebuffer_initialize fb buf screen s = Some t \<and>
    terminal_initialize ((uint (framebuffer_width fb) - 16) sdiv 8)
      ((uint (framebuffer_height fb) - 16) sdiv 16) t = Some u \<and>
    tty_ok u \<and> fb_buffer u = fb_buffer t \<and> fb_mmio u = fb_mmio t"
proof -
  define s1 where "s1 = s\<lparr>fb_width := uint (framebuffer_width fb),
    fb_height := uint (framebuffer_height fb), fb_pitch := framebuffer_pitch fb,
    fb_buffer := buf, fb_mmio := screen\<rparr>"
  define w h where "w = uint (framebuffer_width fb)" and "h = uint (framebuffer_height fb)"
  have wh: "32 \<le> w" "32 \<le> h" using mode(1,2) by (simp_all add: w_def h_def word_le_def)
  have ok1: "fb_ok s1" using mode size wh by (simp add: fb_ok_def s1_def w_def h_def)
  have "8 \<le> fb_width s1" "8 \<le> fb_height s1" using wh by (simp_all add: s1_def w_def h_def)
  moreover have "int32 (uint (framebuffer_height fb) * uint (framebuffer_pitch fb)) =
      Some (uint (framebuffer_height fb) * uint (framebuffer_pitch fb))"
  proof -
    have "0 \<le> uint (framebuffer_height fb) * uint (framebuffer_pitch fb)" by simp
    with size show ?thesis by (intro int32_fits) linarith+
  qed
  ultimately obtain t where t: "framebuffer_initialize fb buf screen s = Some t"
    "same_mode s1 t"
    using drawborder_ok [OF ok1] unfolding framebuffer_initialize_def s1_def by fastforce
  from t(2) obtain b m where tb: "t = s1\<lparr>fb_buffer := b, fb_mmio := m\<rparr>" by (rule same_modeE)
  define u where "u = t\<lparr>width := (w - 16) sdiv 8, height := (h - 16) sdiv 16, chr_index := 0,
    fg := 0xffffff, bg := 0, isready := True\<rparr>"
  have dims: "(w - 16) sdiv 8 = (w - 16) div 8" "(h - 16) sdiv 16 = (h - 16) div 16"
    using wh by (intro sdiv_smod_nonneg [THEN conjunct1]; simp)+
  have "terminal_initialize ((w - 16) sdiv 8) ((h - 16) sdiv 16) t = Some u"
    using ready by (simp add: terminal_initialize_def terminal_clear_def u_def tb s1_def)
  moreover have "tty_ok u"
  proof -
    have "2 \<le> (w - 16) div 8" "1 \<le> (h - 16) div 16" "8 * ((w - 16) div 8) + 16 \<le> w"
      "16 * ((h - 16) div 16) + 16 \<le> h" using wh by presburger+
    then show ?thesis
      unfolding tty_ok_def using ok1
      by (simp add: u_def tb dims) (simp add: s1_def fb_ok_def w_def h_def)
  qed
  ultimately show ?thesis using t(1) by (auto simp: w_def h_def u_def)
qed

theorem terminal_boot_fits_witness:
  "\<exists>t u. framebuffer_initialize \<lparr>framebuffer_addr = 0, framebuffer_width = 64, framebuffer_height = 48,
      framebuffer_pitch = 256, framebuffer_bpp = 32, memory_model = 1, red_mask_size = 8,
      red_mask_shift = 16, green_mask_size = 8, green_mask_shift = 8, blue_mask_size = 8,
      blue_mask_shift = 0, unused = 0\<rparr> (\<lambda>_. 0) (\<lambda>_. 5) (console_example\<lparr>isready := False\<rparr>) = Some t \<and>
    terminal_initialize 6 2 t = Some u \<and> tty_ok u"
  using terminal_boot_fits [of "\<lparr>framebuffer_addr = 0, framebuffer_width = 64, framebuffer_height = 48,
      framebuffer_pitch = 256, framebuffer_bpp = 32, memory_model = 1, red_mask_size = 8,
      red_mask_shift = 16, green_mask_size = 8, green_mask_shift = 8, blue_mask_size = 8,
      blue_mask_shift = 0, unused = 0\<rparr>" "console_example\<lparr>isready := False\<rparr>" "\<lambda>_. 0" "\<lambda>_. 5"]
  by (auto simp: sdiv_smod_nonneg)

end
