(* ===== verification/Printf.thy ===== *)
theory Printf
  imports Terminal Strutil
begin

text \<open>
  Formatted output (\<^verbatim>\<open>libk/printf.c\<close>) and the time stamp in front of it
  (\<^verbatim>\<open>timer_format\<close> of \<^verbatim>\<open>interrupts/timer.c\<close>). The console state gains the
  memory the strings are in. Where the linker puts the two static buffers and the string literals,
  and where \<^verbatim>\<open>tmp\<close> is on the stack, are parameters. \<^verbatim>\<open>va_arg\<close> takes the next of a
  list of 64-bit arguments; taking one that is not there is undefined (\<open>None\<close>).
\<close>

record printer = console +
  omem :: mem

datatype loglevel = KMSG_LOGLEVEL_INFO | KMSG_LOGLEVEL_OKAY | KMSG_LOGLEVEL_WARN
  | KMSG_LOGLEVEL_CRIT | KMSG_LOGLEVEL_NONE

record statics =
  buf :: ptr
  timestamp_buf :: ptr
  tmp_buf :: ptr
  lit_time :: ptr
  lit_open :: ptr
  lit_level :: "loglevel \<Rightarrow> ptr"
  lit_close :: ptr

section \<open>The operations\<close>

definition putchar :: "u8 \<Rightarrow> 'z printer_scheme \<Rightarrow> 'z printer_scheme option" where
  "putchar c s = terminal_putchar c s"

partial_function (option) putsn_from ::
  "ptr \<Rightarrow> u64 \<Rightarrow> u64 \<Rightarrow> 'z printer_scheme \<Rightarrow> 'z printer_scheme option" where
  "putsn_from str n i s =
     (if omem s (str + i) \<noteq> 0 \<and> i < n
      then Option.bind (putchar (omem s (str + i)) s) (putsn_from str n (i + 1))
      else Some s)"

definition putsn :: "ptr \<Rightarrow> u64 \<Rightarrow> 'z printer_scheme \<Rightarrow> 'z printer_scheme option" where
  "putsn str n s = putsn_from str n 0 s"

definition puts :: "ptr \<Rightarrow> 'z printer_scheme \<Rightarrow> 'z printer_scheme option" where
  "puts str s = putsn str (- 1) s"

text \<open>\<^verbatim>\<open>va_arg(args, int)\<close>: the low 32 bits, extended by their sign.\<close>

definition va_int :: "u64 \<Rightarrow> u64" where
  "va_int a = scast (ucast a :: u32)"

text \<open>The copy of a string of 16-bit characters, low bytes only.\<close>

definition load16 :: "mem \<Rightarrow> ptr \<Rightarrow> u16" where
  "load16 m p = ucast (m p) OR push_bit 8 (ucast (m (p + 1)))"

partial_function (option) copy_wide :: "ptr \<Rightarrow> ptr \<Rightarrow> u64 \<Rightarrow> mem \<Rightarrow> mem option" where
  "copy_wide dst str i m =
     (if load16 m (str + 2 * i) \<noteq> 0
      then copy_wide dst str (i + 1) (m(dst + i := ucast (load16 m (str + 2 * i))))
      else Some (m(dst + i := 0)))"

text \<open>One conversion into the buffer; an unknown one takes no argument and leaves the buffer as it is.\<close>

definition format_into ::
  "ptr \<Rightarrow> u8 \<Rightarrow> u64 list \<Rightarrow> mem \<Rightarrow> (u64 list \<times> mem) option" where
  "format_into b fmtc args m =
     (if fmtc \<in> set [0x61, 0x64, 0x62, 0x78, 0x63, 0x73, 0x53] then
        case args of
          [] \<Rightarrow> None
        | a # args' \<Rightarrow>
            map_option (Pair args')
             (if fmtc = 0x61 then map_option snd (utos m a 16 b 16)
              else if fmtc = 0x64 then map_option snd (utos m (va_int a) 10 b 0)
              else if fmtc = 0x62 then map_option snd (utos m (va_int a) 2 b 0)
              else if fmtc = 0x78 then map_option snd (utos m a 16 b 0)
              else if fmtc = 0x63 then Some (m(b := ucast a, b + 1 := 0))
              else if fmtc = 0x73 then strcpy m b a
              else copy_wide b a 0 m)
      else Some (args, m))"

definition printf_conv ::
  "ptr \<Rightarrow> u8 \<Rightarrow> u64 list \<Rightarrow> 'z printer_scheme \<Rightarrow> (u64 list \<times> 'z printer_scheme) option" where
  "printf_conv b fmtc args s =
     do { (args', m) \<leftarrow> format_into b fmtc args (omem s);
          s' \<leftarrow> puts b (s\<lparr>omem := m\<rparr>);
          Some (args', s') }"

partial_function (option) printf_loop ::
  "ptr \<Rightarrow> ptr \<Rightarrow> u64 list \<Rightarrow> 'z printer_scheme \<Rightarrow> 'z printer_scheme option" where
  "printf_loop b fmt args s =
     (if omem s fmt \<noteq> 0 then
        if omem s fmt = 0x25 then
          do { (args', s') \<leftarrow> printf_conv b (omem s (fmt + 1)) args s;
               printf_loop b (if omem s' (fmt + 1) \<noteq> 0 then fmt + 2 else fmt + 1) args' s' }
        else
          do { s' \<leftarrow> putchar (omem s fmt) s;
               printf_loop b (if omem s' fmt \<noteq> 0 then fmt + 1 else fmt) args s' }
      else Some s)"

definition printf_plain ::
  "statics \<Rightarrow> ptr \<Rightarrow> u64 list \<Rightarrow> 'z printer_scheme \<Rightarrow> 'z printer_scheme option" where
  "printf_plain st fmt args s =
     map_option (terminal_setcolor 0xffffff 0) (printf_loop (buf st) fmt args s)"

text \<open>The time since boot (a conversion to \<^verbatim>\<open>int\<close> and back is \<open>va_int\<close>) as \<^verbatim>\<open>seconds.fraction\<close>, right aligned in nine characters.\<close>

definition timer_format :: "ptr \<Rightarrow> ptr \<Rightarrow> u64 \<Rightarrow> mem \<Rightarrow> mem option" where
  "timer_format tmp b elapsed m =
     (let seconds = va_int (elapsed div 1000000);
          milliseconds = va_int (elapsed mod 1000000 div 100);
          m1 = fold (\<lambda>i m. m(b + of_nat i := 0x20)) [0..<4] m;
          m2 = fold (\<lambda>i m. m(b + of_nat i := 0x30)) [5..<9] m1
      in do { (_, m3) \<leftarrow> utos m2 seconds 10 tmp 0;
              n \<leftarrow> strlen m3 tmp;
              m4 \<leftarrow> strcpy m3 (b + 4 - n) tmp;
              (_, m5) \<leftarrow> utos m4 milliseconds 10 tmp 0;
              let m6 = m5(b + 4 := 0x2e);
              k \<leftarrow> strlen m6 tmp;
              strcpy m6 (b + 9 - k) tmp })"

definition level_color :: "loglevel \<Rightarrow> u32" where
  "level_color l = (case l of KMSG_LOGLEVEL_INFO \<Rightarrow> 0x0000ff | KMSG_LOGLEVEL_OKAY \<Rightarrow> 0x00ff00
     | KMSG_LOGLEVEL_WARN \<Rightarrow> 0xfff000 | KMSG_LOGLEVEL_CRIT \<Rightarrow> 0xff0000 | KMSG_LOGLEVEL_NONE \<Rightarrow> 0)"

definition printf_header ::
  "statics \<Rightarrow> u64 \<Rightarrow> loglevel \<Rightarrow> 'z printer_scheme \<Rightarrow> 'z printer_scheme option" where
  "printf_header st elapsed level s =
     do { m \<leftarrow> timer_format (tmp_buf st) (timestamp_buf st) elapsed (omem s);
          s1 \<leftarrow> printf_plain st (lit_time st) [timestamp_buf st] (s\<lparr>omem := m\<rparr>);
          s2 \<leftarrow> puts (lit_open st) s1;
          s3 \<leftarrow> puts (lit_level st level) (terminal_setcolor (level_color level) 0 s2);
          puts (lit_close st) (terminal_setcolor 0xffffff 0 s3) }"

definition printf ::
  "statics \<Rightarrow> u64 \<Rightarrow> loglevel \<Rightarrow> ptr \<Rightarrow> u64 list \<Rightarrow> 'z printer_scheme \<Rightarrow> 'z printer_scheme option" where
  "printf st elapsed level fmt args s =
     do { s1 \<leftarrow> (if level = KMSG_LOGLEVEL_NONE then Some s else printf_header st elapsed level s);
          printf_plain st fmt args s1 }"

section \<open>Output leaves the strings alone\<close>

lemma for_each_commute:
  assumes "\<And>x t. g x (h t) = map_option h (g x t)"
  shows "for_each g xs (h s) = map_option h (for_each g xs s)"
proof (induction xs arbitrary: s)
  case (Cons x xs)
  then show ?case by (cases "g x s") (simp_all add: assms)
qed simp

lemma omem_chr_index: "(omem_update f s)\<lparr>chr_index := v\<rparr> = omem_update f (s\<lparr>chr_index := v\<rparr>)"
  by simp

lemma omem_pixels: "(omem_update f s)\<lparr>fb_buffer := a, fb_mmio := b\<rparr> = omem_update f (s\<lparr>fb_buffer := a, fb_mmio := b\<rparr>)"
  by simp

lemma putpixel_omem:
  "framebuffer_putpixel x y px (omem_update f s) = map_option (omem_update f) (framebuffer_putpixel x y px s)"
  by (simp add: framebuffer_putpixel_def fb_index_def fb_len_def omem_pixels map_option_bind comp_def
      if_distrib [of "map_option (omem_update f)"] cong: if_cong)

lemma scroll_pixel_omem:
  "scroll_pixel py px (omem_update f s) = map_option (omem_update f) (scroll_pixel py px s)"
proof -
  have "framebuffer_getpixel px (py + 16) (omem_update f s) = framebuffer_getpixel px (py + 16) s"
    by (simp add: framebuffer_getpixel_def fb_index_def fb_len_def cong: if_cong)
  then show ?thesis
    by (cases "framebuffer_getpixel px (py + 16) s") (simp_all add: scroll_pixel_def putpixel_omem)
qed

lemma scroll_omem:
  "terminal_scroll (omem_update f s) = map_option (omem_update f) (terminal_scroll s)"
  unfolding terminal_scroll_def
  by (simp add: for_each_commute [where h = "omem_update f"] scroll_pixel_omem putpixel_omem
      bind_map_option map_option_bind comp_def omem_chr_index)

lemma put_at_omem: "put_at c (omem_update f s) = map_option (omem_update f) (put_at c s)"
proof -
  have "draw_pixel c x y i j (omem_update f t) = map_option (omem_update f) (draw_pixel c x y i j t)"
    for x y i j and t :: "'a printer_scheme"
    by (simp add: draw_pixel_def putpixel_omem map_option_bind comp_def)
  then show ?thesis
    by (simp add: put_at_def for_each_commute [where h = "omem_update f"] omem_chr_index
        map_option_bind comp_def)
qed

lemma terminal_putchar_omem:
  "terminal_putchar c (omem_update f s) = map_option (omem_update f) (terminal_putchar c s)"
proof -
  let ?h = "omem_update f"
  define rest where "rest t = Option.bind (int32 (width t * height t))
    (\<lambda>n. Option.bind (if n \<le> chr_index t then terminal_scroll t else Some t) (put_at c))"
    for t :: "'a printer_scheme"
  have "rest (?h t) = map_option ?h (rest t)" for t
    by (cases "int32 (width t * height t)")
      (simp_all add: rest_def scroll_omem put_at_omem map_option_bind bind_map_option comp_def)
  moreover have "terminal_putchar c t =
      (if \<not> isready t then Some t else Option.bind (int32 (chr_index t + 1)) (\<lambda>i. rest (t\<lparr>chr_index := i\<rparr>)))"
    for t :: "'a printer_scheme"
    by (simp add: terminal_putchar_def Let_def rest_def)
  ultimately show ?thesis
    by (simp add: omem_chr_index map_option_bind comp_def)
qed

lemma putchar_omem_eq:
  assumes "putchar c s = Some t"
  shows "omem t = omem s"
proof -
  have "s = omem_update (\<lambda>_. omem s) s" by simp
  then have "putchar c s = map_option (omem_update (\<lambda>_. omem s)) (putchar c s)"
    unfolding putchar_def by (metis terminal_putchar_omem)
  with assms have "t = omem_update (\<lambda>_. omem s) t" by simp
  then show ?thesis by (metis printer.select_convs(1) printer.surjective printer.update_convs(1))
qed

lemma for_each_putchar_omem: "for_each putchar xs s = Some t \<Longrightarrow> omem t = omem s"
proof (induction xs arbitrary: s)
  case (Cons x xs)
  then show ?case by (cases "putchar x s") (auto dest: putchar_omem_eq)
qed simp

lemma putsn_from_cstring:
  "cstring (omem s) (p + of_nat i) xs \<Longrightarrow> i + length xs < 18446744073709551616 \<Longrightarrow>
   putsn_from p n (of_nat i) s = for_each putchar (take (unat n - i) xs) s"
proof (induction xs arbitrary: i s)
  case Nil
  then show ?case by (subst putsn_from.simps) (simp add: cstring_Nil)
next
  case (Cons x xs)
  have c: "omem s (p + of_nat i) = x" "x \<noteq> 0" "cstring (omem s) (p + of_nat (Suc i)) xs"
    using Cons.prems(1) by (simp_all add: cstring_Cons ac_simps)
  have lt: "of_nat i < n \<longleftrightarrow> i < unat n"
    using Cons.prems(2) by (simp add: word_less_nat_alt unat_of_nat_u64)
  show ?case
  proof (cases "i < unat n")
    case False
    with lt show ?thesis by (subst putsn_from.simps) simp
  next
    case True
    then obtain d where d: "unat n - i = Suc d" "unat n - Suc i = d" by (cases "unat n - i") auto
    have "(of_nat i :: u64) + 1 = of_nat (Suc i)" by simp
    then have eq: "putsn_from p n (of_nat i) s = Option.bind (putchar x s) (putsn_from p n (of_nat (Suc i)))"
      using c True lt by (subst putsn_from.simps) (simp del: of_nat_Suc)
    show ?thesis
    proof (cases "putchar x s")
      case None
      with eq d show ?thesis by simp
    next
      case (Some t)
      then have "omem t = omem s" by (rule putchar_omem_eq)
      with Cons.IH [of t "Suc i"] c(3) Cons.prems(2) eq d Some show ?thesis by (simp del: of_nat_Suc)
    qed
  qed
qed

lemma puts_cstring: "cstring (omem s) p xs \<Longrightarrow> puts p s = for_each putchar xs s"
proof -
  assume c: "cstring (omem s) p xs"
  then have len: "length xs < 18446744073709551616" by (simp add: cstring_def)
  with putsn_from_cstring [of s p 0 xs "- 1"] c show ?thesis
    by (simp add: puts_def putsn_def unat_minus_1_u64)
qed

section \<open>Numbers as text\<close>

function digits :: "nat \<Rightarrow> nat \<Rightarrow> u8 list" where
  "digits b n = (if b < 2 \<or> n < b then [digit_char (of_nat n)]
     else digits b (n div b) @ [digit_char (of_nat (n mod b))])"
  by auto
termination by (relation "measure snd") auto

declare digits.simps [simp del]

text \<open>A number with at least \<open>k\<close> digits, and the prefix of base 16.\<close>

definition number_text :: "nat \<Rightarrow> nat \<Rightarrow> nat \<Rightarrow> u8 list" where
  "number_text b k n =
     (if b = 16 then [0x30, 0x78] else []) @ replicate (k - length (digits b n)) 0x30 @ digits b n"

lemma digits_map:
  assumes b: "2 \<le> b"
  shows "1 \<le> L \<Longrightarrow> n < b ^ L \<Longrightarrow> L = 1 \<or> b ^ (L - 1) \<le> n \<Longrightarrow>
    map (\<lambda>j. digit_char (of_nat (n div b ^ (L - 1 - j) mod b))) [0..<L] = digits b n"
proof (induction L arbitrary: n)
  case (Suc L)
  show ?case
  proof (cases "L = 0")
    case True
    with Suc.prems b show ?thesis by (subst digits.simps) simp
  next
    case False
    then have le: "b ^ L \<le> n" using Suc.prems by simp
    moreover have "b ^ 1 \<le> b ^ L" using False b by (intro power_increasing) simp_all
    ultimately have big: "\<not> n < b" by simp
    have "n div b < b ^ L" using Suc.prems(2) b by (simp add: div_less_iff_less_mult mult.commute)
    moreover have "L = 1 \<or> b ^ (L - 1) \<le> n div b"
    proof -
      have "b ^ L div b \<le> n div b" using le by (rule div_le_mono)
      moreover have "b ^ L = b * b ^ (L - 1)" using False power_eq_if [of b L] by simp
      ultimately show ?thesis using b by simp
    qed
    ultimately have IH: "map (\<lambda>j. digit_char (of_nat (n div b div b ^ (L - 1 - j) mod b))) [0..<L] = digits b (n div b)"
      using Suc.IH [of "n div b"] False by simp
    have "n div b ^ (L - j) = n div b div b ^ (L - 1 - j)" if "j < L" for j
    proof -
      have "b ^ (L - j) = b * b ^ (L - 1 - j)" using that power_eq_if [of b "L - j"] by simp
      then show ?thesis by (simp add: div_mult2_eq)
    qed
    then have "map (\<lambda>j. digit_char (of_nat (n div b ^ (Suc L - 1 - j) mod b))) [0..<Suc L] =
        map (\<lambda>j. digit_char (of_nat (n div b div b ^ (L - 1 - j) mod b))) [0..<L] @ [digit_char (of_nat (n mod b))]"
      by simp
    also have "\<dots> = digits b n" unfolding IH digits.simps [of b n] using big b by simp
    finally show ?thesis .
  qed
qed simp

text \<open>Positions above the digits of a number hold zeros.\<close>

lemma digits_padded:
  assumes b: "2 \<le> b" and D: "1 \<le> D" "n < b ^ D" "D = 1 \<or> b ^ (D - 1) \<le> n" and L: "D \<le> L"
  shows "map (\<lambda>j. digit_char (of_nat (n div b ^ (L - 1 - j) mod b))) [0..<L] =
    replicate (L - D) 0x30 @ digits b n"
proof -
  let ?f = "\<lambda>L j. digit_char (of_nat (n div b ^ (L - 1 - j) mod b))"
  have "[0..<L] = [0..<L - D] @ [L - D..<L]" using L upt_add_eq_append [of 0 "L - D" D] by simp
  moreover have "map (?f L) [0..<L - D] = replicate (L - D) 0x30"
  proof (intro nth_equalityI)
    fix j assume "j < length (map (?f L) [0..<L - D])"
    then have j: "j < L - D" by simp
    then have "b ^ D \<le> b ^ (L - 1 - j)" using b by (intro power_increasing) simp_all
    then have "n < b ^ (L - 1 - j)" using D(2) by linarith
    then show "map (?f L) [0..<L - D] ! j = replicate (L - D) 0x30 ! j"
      using j by (simp add: digit_char_def)
  qed simp
  moreover have "map (?f L) [L - D..<L] = map (?f D) [0..<D]"
    using L by (intro nth_equalityI) (simp_all add: algebra_simps)
  ultimately show ?thesis using digits_map [OF b D] by simp
qed

lemma utos_number:
  assumes base: "2 \<le> base" "base \<le> 16" and k: "unat min_len < 64"
  obtains m' where "map_option snd (utos m i base p min_len) = Some m'"
    "cstring m' p (number_text (unat base) (unat min_len) (unat i))"
    "\<And>a. (\<And>j. j \<le> length (number_text (unat base) (unat min_len) (unat i)) \<Longrightarrow> a \<noteq> p + of_nat j) \<Longrightarrow> m' a = m a"
proof -
  have ub: "2 \<le> unat base" using base by (simp add: word_le_nat_alt)
  have k': "unat min_len < 9223372036854775808" using k by simp
  obtain D L S m' where t: "utos m i base p min_len = Some (of_nat S, m')"
    "S = length (base_prefix base) + L" "L = max D (unat min_len)" "1 \<le> D" "D \<le> 64"
    "unat i < unat base ^ D" "D = 1 \<or> unat base ^ (D - 1) \<le> unat i" "S < 18446744073709551616"
    "cstring m' p (base_prefix base @
       map (\<lambda>j. digit_char (of_nat (unat i div unat base ^ (L - 1 - j)) mod base)) [0..<L])"
    "\<And>a. (\<And>j. j \<le> S \<Longrightarrow> a \<noteq> p + of_nat j) \<Longrightarrow> m' a = m a"
    by (rule utos_text [OF base k', of m i p]) blast
  have dig: "(of_nat x mod base :: u64) = of_nat (x mod unat base)" if "x < 18446744073709551616" for x
  proof -
    have "unat (of_nat x mod base) = x mod unat base" using that by (simp only: unat_mod unat_of_nat_u64)
    then show ?thesis by (metis of_nat_unat ucast_id)
  qed
  have lt: "unat i div x < 18446744073709551616" for x
    using unat_u64_lt [of i] div_le_dividend [of "unat i" x] by linarith
  have "length (digits (unat base) (unat i)) = D"
    using arg_cong [OF digits_map [OF ub t(4,6,7)], of length] by simp
  moreover have "(unat base = 16) = (base = 16)" by (auto simp: u64_eq_iff_unat)
  moreover have "L - D = unat min_len - D" using t(3) by simp
  moreover have "D \<le> L" using t(3) by simp
  ultimately have tx: "base_prefix base @
      map (\<lambda>j. digit_char (of_nat (unat i div unat base ^ (L - 1 - j)) mod base)) [0..<L] =
      number_text (unat base) (unat min_len) (unat i)"
    using digits_padded [OF ub t(4,6,7), of L] by (simp add: dig [OF lt] number_text_def base_prefix_def)
  have "length (number_text (unat base) (unat min_len) (unat i)) = S"
    unfolding tx [symmetric] using t(2) by simp
  then show ?thesis using that [of m'] t(1,10) t(9) [unfolded tx] by simp
qed

lemma digits_length: "2 \<le> b \<Longrightarrow> 1 \<le> L \<Longrightarrow> n < b ^ L \<Longrightarrow> length (digits b n) \<le> L \<and> digits b n \<noteq> []"
proof (induction L arbitrary: n)
  case (Suc L)
  show ?case
  proof (cases "n < b")
    case True
    then show ?thesis by (subst (1 2) digits.simps) simp
  next
    case False
    with Suc.prems have "L \<noteq> 0" by (intro notI) simp
    moreover have "n div b < b ^ L" using Suc.prems by (simp add: div_less_iff_less_mult mult.commute)
    ultimately have "length (digits b (n div b)) \<le> L" using Suc.IH Suc.prems(1) by simp
    then show ?thesis unfolding digits.simps [of b n] using False Suc.prems(1) by simp
  qed
qed simp

text \<open>What the conversions write fits into the buffer of 64 bytes, the zero included.\<close>

lemma number_text_length:
  "n < 18446744073709551616 \<Longrightarrow> k \<le> 16 \<Longrightarrow> length (number_text 16 k n) < 64"
  "n < 18446744073709551616 \<Longrightarrow> length (number_text 10 0 n) < 64"
  "n < 2147483648 \<Longrightarrow> length (number_text 2 0 n) < 64"
  using digits_length [of 16 16 n] digits_length [of 10 20 n] digits_length [of 2 31 n]
  by (auto simp: number_text_def)

section \<open>What a format string prints\<close>

text \<open>
  The text of one conversion, and of a whole format string, where \<open>str\<close> and \<open>wstr\<close> give the
  strings that the arguments of \<^verbatim>\<open>%s\<close> and \<^verbatim>\<open>%S\<close> point to. \<^verbatim>\<open>%d\<close> prints a negative
  number as the 64-bit number it converts to; a wide string ends at its first character with a low
  byte of zero. The rendering is undefined where the code misbehaves or where its result depends on
  earlier output: a missing argument, \<^verbatim>\<open>%b\<close> of a negative number, whose 64 digits and zero do not
  fit into the buffer, an unknown conversion, a percent sign at the end.
\<close>

definition upto_zero :: "u8 list \<Rightarrow> u8 list" where
  "upto_zero xs = takeWhile (\<lambda>c. c \<noteq> 0) xs"

definition conv_text ::
  "(ptr \<Rightarrow> u8 list option) \<Rightarrow> (ptr \<Rightarrow> u16 list option) \<Rightarrow> u8 \<Rightarrow> u64 \<Rightarrow> u8 list option" where
  "conv_text str wstr k a =
     (if k = 0x61 then Some (number_text 16 16 (unat a))
      else if k = 0x64 then Some (number_text 10 0 (unat (va_int a)))
      else if k = 0x62 then (if unat (va_int a) < 2147483648 then Some (number_text 2 0 (unat (va_int a))) else None)
      else if k = 0x78 then Some (number_text 16 0 (unat a))
      else if k = 0x63 then Some (upto_zero [ucast a])
      else if k = 0x73 then str a
      else if k = 0x53 then map_option (\<lambda>ws. upto_zero (map ucast ws)) (wstr a)
      else None)"

fun render ::
  "(ptr \<Rightarrow> u8 list option) \<Rightarrow> (ptr \<Rightarrow> u16 list option) \<Rightarrow> u8 list \<Rightarrow> u64 list \<Rightarrow> u8 list option" where
  "render str wstr [] args = Some []"
| "render str wstr [c] args = (if c = 0x25 then None else Some [c])"
| "render str wstr (c # k # cs) args =
     (if c \<noteq> 0x25 then map_option (Cons c) (render str wstr (k # cs) args)
      else case args of
        [] \<Rightarrow> None
      | a # args' \<Rightarrow>
          do { xs \<leftarrow> conv_text str wstr k a;
               ys \<leftarrow> render str wstr cs args';
               Some (xs @ ys) })"

text \<open>
  \<open>S\<close> is the scratch memory that printing may write: the strings lie beside it.
\<close>

definition in_buf :: "ptr \<Rightarrow> ptr \<Rightarrow> bool" where
  "in_buf b a \<longleftrightarrow> unat (a - b) < 64"

definition beside :: "(ptr \<Rightarrow> bool) \<Rightarrow> ptr \<Rightarrow> nat \<Rightarrow> bool" where
  "beside S p n \<longleftrightarrow> (\<forall>i\<le>n. \<not> S (p + of_nat i))"

definition agree :: "(ptr \<Rightarrow> bool) \<Rightarrow> mem \<Rightarrow> mem \<Rightarrow> bool" where
  "agree S m m' \<longleftrightarrow> (\<forall>a. \<not> S a \<longrightarrow> m' a = m a)"

definition wstring :: "mem \<Rightarrow> ptr \<Rightarrow> u16 list \<Rightarrow> bool" where
  "wstring m p ws \<longleftrightarrow> (\<forall>i<length ws. load16 m (p + 2 * of_nat i) = ws ! i) \<and> 0 \<notin> set ws \<and>
     load16 m (p + 2 * of_nat (length ws)) = 0"

definition strings_ok ::
  "(ptr \<Rightarrow> u8 list option) \<Rightarrow> (ptr \<Rightarrow> u16 list option) \<Rightarrow> (ptr \<Rightarrow> bool) \<Rightarrow> mem \<Rightarrow> bool" where
  "strings_ok str wstr S m \<longleftrightarrow>
     (\<forall>p xs. str p = Some xs \<longrightarrow> cstring m p xs \<and> length xs < 64 \<and> beside S p (length xs)) \<and>
     (\<forall>p ws. wstr p = Some ws \<longrightarrow> wstring m p ws \<and> length ws < 64 \<and> beside S p (2 * length ws + 1))"

lemma cstring_agree: "agree S m m' \<Longrightarrow> beside S p (length xs) \<Longrightarrow> cstring m p xs \<Longrightarrow> cstring m' p xs"
  by (simp add: cstring_def agree_def beside_def)

lemma load16_agree:
  assumes "agree S m m'" and "beside S p (2 * n + 1)" and "i \<le> n"
  shows "load16 m' (p + 2 * of_nat i) = load16 m (p + 2 * of_nat i)"
proof -
  have "\<not> S (p + of_nat (2 * i))" "\<not> S (p + of_nat (2 * i + 1))"
    using assms(3) assms(2) [unfolded beside_def, THEN spec, of "2 * i"]
      assms(2) [unfolded beside_def, THEN spec, of "2 * i + 1"] by simp_all
  then have "m' (p + 2 * of_nat i) = m (p + 2 * of_nat i)"
    "m' (p + 2 * of_nat i + 1) = m (p + 2 * of_nat i + 1)"
    using assms(1) by (simp_all add: agree_def ac_simps)
  then show ?thesis by (simp add: load16_def)
qed

lemma wstring_agree:
  "agree S m m' \<Longrightarrow> beside S p (2 * length ws + 1) \<Longrightarrow> wstring m p ws \<Longrightarrow> wstring m' p ws"
  using load16_agree [of S m m' p "length ws"] by (simp add: wstring_def)

lemma strings_ok_agree: "agree S m m' \<Longrightarrow> strings_ok str wstr S m \<Longrightarrow> strings_ok str wstr S m'"
  using cstring_agree wstring_agree unfolding strings_ok_def by blast

lemma beside_less: "(\<And>a. S' a \<Longrightarrow> S a) \<Longrightarrow> beside S p n \<Longrightarrow> beside S' p n"
  by (auto simp: beside_def)

lemma strings_ok_less: "(\<And>a. S' a \<Longrightarrow> S a) \<Longrightarrow> strings_ok str wstr S m \<Longrightarrow> strings_ok str wstr S' m"
  using beside_less [of S' S] unfolding strings_ok_def by blast

lemma agree_trans: "agree S m m' \<Longrightarrow> agree S m' m'' \<Longrightarrow> agree S m m''"
  by (simp add: agree_def)

lemma agree_more: "(\<And>a. S' a \<Longrightarrow> S a) \<Longrightarrow> agree S' m m' \<Longrightarrow> agree S m m'"
  by (auto simp: agree_def)

lemma in_buf_add: "i < 64 \<Longrightarrow> in_buf b (b + of_nat i)"
  by (simp add: in_buf_def unat_of_nat_u64)

lemma offset_eq: "j < 64 \<Longrightarrow> k < 64 \<Longrightarrow> b + of_nat j = (b + of_nat k :: ptr) \<longleftrightarrow> j = k"
  unfolding add_left_cancel by (simp add: u64_eq_iff_unat unat_of_nat_u64)

lemma va_int_small:
  assumes "unat a < 2147483648"
  shows "va_int a = a"
proof -
  have "take_bit 31 a = a"
    using assms by (simp add: u64_eq_iff_unat take_bit_eq_mod unat_mod)
  then have low: "bit a n \<Longrightarrow> n < 31" for n by (metis bit_take_bit_iff)
  show ?thesis
    unfolding va_int_def by (rule bit_word_eqI) (use low in \<open>auto simp: bit_simps min_def dest: low\<close>)
qed

lemma not_in_buf_neq: "\<not> in_buf b a \<Longrightarrow> j < 64 \<Longrightarrow> a \<noteq> b + of_nat j"
  using in_buf_add by blast

lemma format_number:
  assumes base: "2 \<le> base" "base \<le> 16" "unat k < 64"
    and len: "length (number_text (unat base) (unat k) (unat a)) < 64"
  shows "\<exists>m'. map_option snd (utos m a base b k) = Some m' \<and>
    cstring m' b (number_text (unat base) (unat k) (unat a)) \<and> agree (in_buf b) m m'"
proof -
  obtain m' where m': "map_option snd (utos m a base b k) = Some m'"
      "cstring m' b (number_text (unat base) (unat k) (unat a))"
      "\<And>x. (\<And>j. j \<le> length (number_text (unat base) (unat k) (unat a)) \<Longrightarrow> x \<noteq> b + of_nat j) \<Longrightarrow> m' x = m x"
    by (rule utos_number [OF base, of m a b]) blast
  have "m' x = m x" if "\<not> in_buf b x" for x
    by (rule m'(3)) (use len not_in_buf_neq [OF that] in auto)
  with m' show ?thesis by (intro exI [of _ m']) (simp add: agree_def)
qed

lemma put_string_agree: "length xs < 64 \<Longrightarrow> agree (in_buf b) m (put_string b xs m)"
  by (auto simp: agree_def in_buf_def put_string_def Let_def)

text \<open>A zero-terminated run of bytes is a string up to its first zero.\<close>

lemma cstring_upto_zero:
  assumes "\<And>i. i < length xs \<Longrightarrow> m (p + of_nat i) = xs ! i" and "m (p + of_nat (length xs)) = 0"
    and "length xs < 64"
  shows "cstring m p (upto_zero xs)"
proof -
  let ?t = "takeWhile (\<lambda>c. c \<noteq> 0) xs"
  have le: "length ?t \<le> length xs" by (rule length_takeWhile_le)
  have "m (p + of_nat (length ?t)) = 0"
  proof (cases "length ?t < length xs")
    case True
    then show ?thesis using assms(1) nth_length_takeWhile [OF True] by simp
  next
    case False
    then show ?thesis using le assms(2) by simp
  qed
  moreover have "m (p + of_nat i) = ?t ! i" if "i < length ?t" for i
    using that le assms(1) by (simp add: takeWhile_nth)
  moreover have "0 \<notin> set ?t" using set_takeWhileD by force
  ultimately show ?thesis using le assms(3) by (simp add: cstring_def upto_zero_def)
qed

lemma copy_wide_from:
  assumes "n < 64" and w: "\<And>j. j < n \<Longrightarrow> load16 m (str + 2 * of_nat j) \<noteq> 0" "load16 m (str + 2 * of_nat n) = 0"
    and bes: "beside (in_buf b) str (2 * n + 1)"
  shows "i \<le> n \<Longrightarrow> agree (in_buf b) m m1 \<Longrightarrow>
    (\<And>j. j < i \<Longrightarrow> m1 (b + of_nat j) = ucast (load16 m (str + 2 * of_nat j))) \<Longrightarrow>
    \<exists>m'. copy_wide b str (of_nat i) m1 = Some m' \<and> agree (in_buf b) m m' \<and> m' (b + of_nat n) = 0 \<and>
      (\<forall>j<n. m' (b + of_nat j) = ucast (load16 m (str + 2 * of_nat j)))"
proof (induction "n - i" arbitrary: i m1)
  case 0
  then have i: "i = n" by simp
  have eq: "load16 m1 (str + 2 * of_nat n) = load16 m (str + 2 * of_nat n)"
    using load16_agree [OF 0(3) bes, of n] by simp
  have ne: "b + of_nat j \<noteq> b + of_nat n" if "j < n" for j
    using that \<open>n < 64\<close> offset_eq [of j n b] by simp
  show ?case
    using 0(3,4) w(2) eq ne in_buf_add [OF \<open>n < 64\<close>] i
    by (subst copy_wide.simps) (auto simp: agree_def)
next
  case (Suc d)
  then have i: "i < n" by simp
  have eq: "load16 m1 (str + 2 * of_nat i) = load16 m (str + 2 * of_nat i)"
    using load16_agree [OF Suc(4) bes, of i] i by simp
  let ?m = "m1(b + of_nat i := ucast (load16 m (str + 2 * of_nat i)))"
  have ne: "b + of_nat j \<noteq> b + of_nat i" if "j < i" for j
    using that i \<open>n < 64\<close> offset_eq [of j i b] by simp
  have "agree (in_buf b) m ?m" using Suc(4) in_buf_add [of i b] i \<open>n < 64\<close> by (auto simp: agree_def)
  moreover have "?m (b + of_nat j) = ucast (load16 m (str + 2 * of_nat j))" if "j < Suc i" for j
    using that Suc(5) ne by (cases "j = i") auto
  ultimately have "\<exists>m'. copy_wide b str (of_nat (Suc i)) ?m = Some m' \<and> agree (in_buf b) m m' \<and>
      m' (b + of_nat n) = 0 \<and> (\<forall>j<n. m' (b + of_nat j) = ucast (load16 m (str + 2 * of_nat j)))"
    using Suc(2) i by (intro Suc(1)) simp_all
  moreover have "copy_wide b str (of_nat i) m1 = copy_wide b str (of_nat (Suc i)) ?m"
    using w(1) [OF i] eq by (subst copy_wide.simps) (simp add: add.commute)
  ultimately show ?case by simp
qed

lemma copy_wide_text:
  assumes ws: "wstring m str ws" "length ws < 64" "beside (in_buf b) str (2 * length ws + 1)"
  shows "\<exists>m'. copy_wide b str 0 m = Some m' \<and> cstring m' b (upto_zero (map ucast ws)) \<and> agree (in_buf b) m m'"
proof -
  have w: "load16 m (str + 2 * of_nat j) = ws ! j" "ws ! j \<noteq> 0" if "j < length ws" for j
    using ws(1) that unfolding wstring_def by (simp, metis nth_mem)
  have "load16 m (str + 2 * of_nat (length ws)) = 0" using ws(1) by (simp add: wstring_def)
  from copy_wide_from [OF ws(2) _ this ws(3), of 0 m] w obtain m' where
    m': "copy_wide b str 0 m = Some m'" "agree (in_buf b) m m'" "m' (b + of_nat (length ws)) = 0"
      "\<And>j. j < length ws \<Longrightarrow> m' (b + of_nat j) = ucast (ws ! j)"
    by (auto simp: agree_def)
  have "cstring m' b (upto_zero (map ucast ws))"
    using m'(3,4) ws(2) by (intro cstring_upto_zero) simp_all
  with m' show ?thesis by blast
qed

lemma format_into_text:
  assumes tx: "conv_text str wstr k a = Some xs" and ok: "strings_ok str wstr (in_buf b) m"
  shows "\<exists>m'. format_into b k (a # as) m = Some (as, m') \<and> cstring m' b xs \<and> agree (in_buf b) m m'"
proof -
  note len = number_text_length(1,2) [OF unat_u64_lt]
  consider (p) "k = 0x61" "xs = number_text 16 16 (unat a)"
    | (d) "k = 0x64" "xs = number_text 10 0 (unat (va_int a))"
    | (b) "k = 0x62" "unat (va_int a) < 2147483648" "xs = number_text 2 0 (unat (va_int a))"
    | (x) "k = 0x78" "xs = number_text 16 0 (unat a)"
    | (c) "k = 0x63" "xs = upto_zero [ucast a]"
    | (s) "k = 0x73" "str a = Some xs"
    | (w) ws where "k = 0x53" "wstr a = Some ws" "xs = upto_zero (map ucast ws)"
    using tx by (auto simp: conv_text_def split: if_splits)
  then show ?thesis
  proof cases
    case p
    from format_number [of 16 16 a m b] len(1) [of 16 a] p show ?thesis by (auto simp: format_into_def)
  next
    case d
    from format_number [of 10 0 "va_int a" m b] len(2) [of "va_int a"] d show ?thesis by (auto simp: format_into_def)
  next
    case b
    from format_number [of 2 0 "va_int a" m b] number_text_length(3) b show ?thesis by (auto simp: format_into_def)
  next
    case x
    from format_number [of 16 0 a m b] len(1) [of 0 a] x show ?thesis by (auto simp: format_into_def)
  next
    case c
    let ?m = "m(b := ucast a, b + 1 := 0)"
    have "b + 1 \<noteq> b" by simp
    then have "cstring ?m b xs" unfolding c(2) by (intro cstring_upto_zero) simp_all
    moreover have "agree (in_buf b) m ?m"
      using not_in_buf_neq [of b _ 0] not_in_buf_neq [of b _ 1] by (auto simp: agree_def)
    ultimately show ?thesis using c by (simp add: format_into_def)
  next
    case s
    then have str: "cstring m a xs" "length xs < 64" "beside (in_buf b) a (length xs)"
      using ok unfolding strings_ok_def by blast+
    have "apart b a (Suc (length xs))"
      unfolding apart_def
    proof (intro allI impI)
      fix i j assume "i < Suc (length xs)" "j < Suc (length xs)"
      then have "\<not> in_buf b (a + of_nat j)" "i < 64" using str by (auto simp: beside_def)
      then show "b + of_nat i \<noteq> a + of_nat j" using not_in_buf_neq by metis
    qed
    from strcpy_put [OF str(1) this] have "strcpy m b a = Some (put_string b xs m)" .
    moreover have "cstring (put_string b xs m) b xs"
      using str(1) by (intro put_string_cstring) (simp_all add: cstring_def)
    ultimately show ?thesis using s put_string_agree [OF str(2)] by (simp add: format_into_def)
  next
    case w
    then have "wstring m a ws" "length ws < 64" "beside (in_buf b) a (2 * length ws + 1)"
      using ok unfolding strings_ok_def by blast+
    from copy_wide_text [OF this] w show ?thesis by (auto simp: format_into_def)
  qed
qed

lemma cstring_head: "cstring m p xs \<Longrightarrow> m p = (case xs of [] \<Rightarrow> 0 | x # _ \<Rightarrow> x)"
  by (cases xs) (simp_all add: cstring_Nil cstring_Cons)

lemma beside_Cons: "beside S p (Suc n) \<Longrightarrow> beside S (p + 1) n"
  unfolding beside_def
proof (intro allI impI)
  fix i assume *: "\<forall>i\<le>Suc n. \<not> S (p + of_nat i)" and "i \<le> n"
  then have "\<not> S (p + of_nat (Suc i))" by blast
  then show "\<not> S (p + 1 + of_nat i)" by (simp add: add.assoc)
qed

text \<open>Printing is total on a terminal that fits.\<close>

lemma putchar_tty: "tty_ok s \<Longrightarrow> \<exists>t. putchar c s = Some t \<and> tty_ok t \<and> omem t = omem s"
  using terminal_putchar_spec [of s c] putchar_omem_eq [of c s] by (auto simp: putchar_def)

lemma for_each_putchar_tty:
  "tty_ok s \<Longrightarrow> \<exists>t. for_each putchar xs s = Some t \<and> tty_ok t \<and> omem t = omem s"
proof (induction xs arbitrary: s)
  case (Cons x xs)
  from putchar_tty [OF Cons.prems] obtain u where "putchar x s = Some u" "tty_ok u" "omem u = omem s" by blast
  with Cons.IH [of u] show ?case by auto
qed simp

lemma for_each_putchar_upd:
  "for_each putchar xs (s\<lparr>omem := m\<rparr>) = map_option (\<lambda>t. t\<lparr>omem := m\<rparr>) (for_each putchar xs s)"
  by (rule for_each_commute) (simp add: putchar_def terminal_putchar_omem)

lemma printf_loop_render:
  "render str wstr fs args = Some out \<Longrightarrow> cstring (omem s) fmt fs \<Longrightarrow> beside (in_buf b) fmt (length fs) \<Longrightarrow>
   strings_ok str wstr (in_buf b) (omem s) \<Longrightarrow> tty_ok s \<Longrightarrow>
   \<exists>t u m. printf_loop b fmt args s = Some t \<and> for_each putchar out s = Some u \<and>
     t = u\<lparr>omem := m\<rparr> \<and> agree (in_buf b) (omem s) m"
proof (induction str wstr fs args arbitrary: out s fmt rule: render.induct)
  case (1 str wstr args)
  then have "omem s fmt = 0" by (simp add: cstring_Nil)
  then have "printf_loop b fmt args s = Some s" by (subst printf_loop.simps) simp
  with 1 show ?case by (intro exI [of _ s] exI [of _ "omem s"]) (auto simp: agree_def)
next
  case (2 str wstr c args)
  then have c: "c \<noteq> 0x25" "out = [c]" "omem s fmt = c" "c \<noteq> 0" "omem s (fmt + 1) = 0"
    by (auto simp: cstring_Cons cstring_Nil split: if_splits)
  from putchar_tty [OF 2(5)] obtain t where t: "putchar c s = Some t" "omem t = omem s" by blast
  have "printf_loop b (fmt + 1) args t = Some t" using c(5) t(2) by (subst printf_loop.simps) simp
  then have "printf_loop b fmt args s = Some t" using c t by (subst printf_loop.simps) simp
  with t c(2) show ?case by (intro exI [of _ t] exI [of _ "omem t"]) (auto simp: agree_def)
next
  case (3 str wstr c k cs args)
  have m: "omem s fmt = c" "c \<noteq> 0" "omem s (fmt + 1) = k" "k \<noteq> 0"
    "cstring (omem s) (fmt + 1) (k # cs)" "cstring (omem s) (fmt + 2) cs"
    using 3(4) by (simp_all add: cstring_Cons add.assoc)
  have bes: "beside (in_buf b) (fmt + 1) (length (k # cs))" "beside (in_buf b) (fmt + 2) (length cs)"
    using beside_Cons [of "in_buf b" fmt "length (k # cs)"] beside_Cons [of "in_buf b" "fmt + 1" "length cs"] 3(5)
    by (simp_all add: add.assoc)
  show ?case
  proof (cases "c = 0x25")
    case False
    then obtain out' where o: "render str wstr (k # cs) args = Some out'" "out = c # out'"
      using 3(3) by auto
    from putchar_tty [OF 3(7), of c] obtain u where
      u: "putchar c s = Some u" "tty_ok u" "omem u = omem s" by blast
    have "printf_loop b fmt args s = printf_loop b (fmt + 1) args u"
      using False m u by (subst printf_loop.simps) simp
    with 3(1) [OF False o(1), of u "fmt + 1"] m(5) bes(1) 3(6) u o(2) show ?thesis by auto
  next
    case True
    from 3(3) True obtain a as xs ys where a: "args = a # as" "conv_text str wstr k a = Some xs"
      "render str wstr cs as = Some ys" "out = xs @ ys"
      by (auto split: list.splits simp: Option.bind_eq_Some_conv)
    from format_into_text [OF a(2) 3(6), of as] obtain m' where
      m': "format_into b k args (omem s) = Some (as, m')" "cstring m' b xs" "agree (in_buf b) (omem s) m'"
      unfolding a(1) by blast
    from for_each_putchar_tty [OF 3(7), of xs] obtain w where
      w: "for_each putchar xs s = Some w" "tty_ok w" "omem w = omem s" by blast
    define s1 where "s1 = w\<lparr>omem := m'\<rparr>"
    have "puts b (s\<lparr>omem := m'\<rparr>) = Some s1"
      using puts_cstring [of "s\<lparr>omem := m'\<rparr>" b xs] m'(2) w(1) by (simp add: for_each_putchar_upd s1_def)
    then have conv: "printf_conv b k args s = Some (as, s1)" using m'(1) by (simp add: printf_conv_def)
    have "omem s1 (fmt + 1) = k"
      using m'(3) 3(5) m(3) beside_def [of "in_buf b" fmt "Suc (Suc (length cs))"]
      by (auto simp: s1_def agree_def dest: spec [of _ 1])
    then have step: "printf_loop b fmt args s = printf_loop b (fmt + 2) as s1"
      using True m conv by (subst printf_loop.simps) simp
    have "tty_ok s1" using w(2) by (simp add: s1_def tty_ok_def fb_ok_def)
    moreover have "cstring (omem s1) (fmt + 2) cs" "strings_ok str wstr (in_buf b) (omem s1)"
      using cstring_agree [OF m'(3) bes(2) m(6)] strings_ok_agree [OF m'(3) 3(6)]
      by (simp_all add: s1_def)
    ultimately have "\<exists>t u m. printf_loop b (fmt + 2) as s1 = Some t \<and>
        for_each putchar ys s1 = Some u \<and> t = u\<lparr>omem := m\<rparr> \<and> agree (in_buf b) (omem s1) m"
      using True by (intro 3(2) [OF _ a(1,2,3)] bes(2)) simp_all
    moreover have "omem s1 = m'" by (simp add: s1_def)
    ultimately obtain t u m2 where t: "printf_loop b (fmt + 2) as s1 = Some t"
      "for_each putchar ys s1 = Some u" "t = u\<lparr>omem := m2\<rparr>" "agree (in_buf b) m' m2" by metis
    from for_each_putchar_tty [OF w(2), of ys] obtain v where v: "for_each putchar ys w = Some v" by blast
    then have "u = v\<lparr>omem := m'\<rparr>" using t(2) by (simp add: s1_def for_each_putchar_upd)
    then have "t = v\<lparr>omem := m2\<rparr>" using t(3) by simp
    moreover have "for_each putchar out s = Some v" using w(1) v a(4) by (simp add: for_each_append)
    moreover have "agree (in_buf b) (omem s) m2" using m'(3) t(4) by (simp add: agree_def)
    ultimately show ?thesis using step t(1) by auto
  qed
qed

section \<open>The time stamp\<close>

lemma unat_offset_diff:
  assumes "k < 64" and "d < 64"
  shows "unat ((b + of_nat k) - (b + of_nat d) :: u64) =
    (if d \<le> k then k - d else 18446744073709551616 + k - d)"
proof (cases "d \<le> k")
  case True
  then have "(b + of_nat k) - (b + of_nat d) = (of_nat (k - d) :: u64)" by simp
  moreover have "unat (of_nat (k - d) :: u64) = k - d" using assms by (intro unat_of_nat_u64) simp
  ultimately show ?thesis using True by (simp only: if_True)
next
  case False
  have u: "unat (of_nat k :: u64) = k" "unat (of_nat d :: u64) = d" using assms by (intro unat_of_nat_u64; simp)+
  have "(b + of_nat k) - (b + of_nat d) = (of_nat k - of_nat d :: u64)" by simp
  then show ?thesis using False u by (simp add: unat_sub_if')
qed

lemma put_string_at:
  assumes "k < 64" and "d < 64" and "length xs < 64"
  shows "put_string (b + of_nat d) xs m (b + of_nat k) =
    (if k < d then m (b + of_nat k) else if k < d + length xs then xs ! (k - d)
     else if k = d + length xs then 0 else m (b + of_nat k))"
  unfolding put_string_def Let_def unat_offset_diff [OF assms(1,2)] using assms by auto

lemma put_string_outside:
  assumes "d + length xs < 16" and "\<And>k. k < 16 \<Longrightarrow> a \<noteq> b + of_nat k"
  shows "put_string (b + of_nat d) xs m a = m a"
proof -
  define k where "k = unat (a - (b + of_nat d))"
  have "a = b + of_nat (d + k)" by (simp add: k_def)
  then have "\<not> d + k < 16" using assms(2) by blast
  then show ?thesis using assms(1) by (simp add: put_string_def Let_def k_def [symmetric])
qed

text \<open>Writing a number to \<^verbatim>\<open>tmp\<close> and copying it so that it ends before the position \<open>e\<close>.\<close>

lemma place_number:
  assumes apart: "apart b tmp 16" and n: "unat n < 10000" and e: "4 \<le> e" "e \<le> 9"
  obtains m1 where "map_option snd (utos m (va_int n) 10 tmp 0) = Some m1"
    "\<And>a. (\<And>k. k < 16 \<Longrightarrow> a \<noteq> tmp + of_nat k) \<Longrightarrow> m1 a = m a"
    "\<And>k. k < 16 \<Longrightarrow> m1 (b + of_nat k) = m (b + of_nat k)"
    "\<And>m2. (\<And>k. k < 16 \<Longrightarrow> m2 (tmp + of_nat k) = m1 (tmp + of_nat k)) \<Longrightarrow>
      strlen m2 tmp = Some (of_nat (length (digits 10 (unat n)))) \<and>
      strcpy m2 (b + of_nat e - of_nat (length (digits 10 (unat n)))) tmp =
        Some (put_string (b + of_nat (e - length (digits 10 (unat n)))) (digits 10 (unat n)) m2)"
proof -
  let ?ds = "digits 10 (unat n)"
  have len: "length ?ds \<le> 4" "?ds \<noteq> []" using digits_length [of 10 4 "unat n"] n by simp_all
  have small: "unat n < 2147483648" using n by simp
  have ten: "2 \<le> (10 :: u64)" "(10 :: u64) \<le> 16" "unat (0 :: u64) < 64" by simp_all
  have tx: "number_text (unat (10 :: u64)) (unat (0 :: u64)) (unat n) = ?ds" by (simp add: number_text_def)
  obtain m1 where m1: "map_option snd (utos m n 10 tmp 0) = Some m1" "cstring m1 tmp ?ds"
      "\<And>a. (\<And>j. j \<le> length ?ds \<Longrightarrow> a \<noteq> tmp + of_nat j) \<Longrightarrow> m1 a = m a"
    by (rule utos_number [OF ten, of m n tmp, unfolded tx]) blast
  have neq: "b + of_nat i \<noteq> tmp + of_nat j" if "i < 16" "j < 16" for i j
    using apart that unfolding apart_def by blast
  show ?thesis
  proof (rule that)
    show "map_option snd (utos m (va_int n) 10 tmp 0) = Some m1"
      using m1(1) by (simp only: va_int_small [OF small])
    show "m1 a = m a" if "\<And>k. k < 16 \<Longrightarrow> a \<noteq> tmp + of_nat k" for a
      by (rule m1(3)) (use that len in auto)
    show "m1 (b + of_nat k) = m (b + of_nat k)" if "k < 16" for k
      by (rule m1(3)) (use neq that len in auto)
    fix m2 assume same: "\<And>k. k < 16 \<Longrightarrow> m2 (tmp + of_nat k) = m1 (tmp + of_nat k)"
    have cs: "cstring m2 tmp ?ds"
      using m1(2) same len unfolding cstring_def by auto
    have pos: "b + of_nat e - of_nat (length ?ds) = b + of_nat (e - length ?ds)"
      using len e by (simp add: algebra_simps)
    have "apart (b + of_nat (e - length ?ds)) tmp (Suc (length ?ds))"
      unfolding apart_def
    proof (intro allI impI)
      fix i j assume ij: "i < Suc (length ?ds)" "j < Suc (length ?ds)"
      have "b + of_nat (e - length ?ds) + of_nat i = b + of_nat (e - length ?ds + i)" by simp
      moreover have "e - length ?ds + i < 16" "j < 16" using ij len e by auto
      ultimately show "b + of_nat (e - length ?ds) + of_nat i \<noteq> tmp + of_nat j" using neq by metis
    qed
    then show "strlen m2 tmp = Some (of_nat (length ?ds)) \<and>
        strcpy m2 (b + of_nat e - of_nat (length ?ds)) tmp =
        Some (put_string (b + of_nat (e - length ?ds)) ?ds m2)"
      unfolding pos using strcpy_put [OF cs] strlen_cstring [OF cs] by simp
  qed
qed

text \<open>The parts of a time stamp: a number padded on the left to four characters.\<close>

definition padded :: "u8 \<Rightarrow> nat \<Rightarrow> u8 list" where
  "padded fill n = replicate (4 - length (digits 10 n)) fill @ digits 10 n"

lemma padded_nth:
  assumes "n < 10000"
  shows "length (padded fill n) = 4"
    and "k < 4 \<Longrightarrow> padded fill n ! k =
      (if k < 4 - length (digits 10 n) then fill else digits 10 n ! (k - (4 - length (digits 10 n))))"
  using digits_length [of 10 4 n] assms by (auto simp: padded_def nth_append)

lemma digits_nonzero: "0 \<notin> set (digits 10 n)"
proof (induction n rule: less_induct)
  case (less n)
  have z: "digit_char (of_nat k) \<noteq> 0" if "k < 10" for k
    using that by (intro digit_char_nonzero) (simp add: word_less_nat_alt unat_of_nat_u64)
  show ?case
  proof (cases "n < 10")
    case True
    then show ?thesis using z [of n] by (subst digits.simps) auto
  next
    case False
    then show ?thesis
      using less [of "n div 10"] z [of "n mod 10"] by (subst digits.simps) auto
  qed
qed

lemma stamp_fill:
  assumes "k < 16"
  shows "fold (\<lambda>i m. m(b + of_nat i := 0x30)) [5..<9]
      (fold (\<lambda>i m. m(b + of_nat i := 0x20)) [0..<4] m) (b + of_nat k :: ptr) =
    (if k < 4 then 0x20 else if 5 \<le> k \<and> k < 9 then 0x30 else m (b + of_nat k))"
proof -
  have eq: "b + of_nat k = b + of_nat i \<longleftrightarrow> k = i" if "i < 64" for i :: nat
  proof -
    have "unat (of_nat k :: u64) = k" "unat (of_nat i :: u64) = i"
      using assms that by (intro unat_of_nat_u64; simp)+
    moreover have "b + of_nat k = b + of_nat i \<longleftrightarrow> (of_nat k :: u64) = of_nat i" by simp
    ultimately show ?thesis by metis
  qed
  have l: "[5..<9] = [5, 6, 7, 8 :: nat]" "[0..<4] = [0, 1, 2, 3 :: nat]"
    by (simp_all add: upt_rec)
  show ?thesis
    unfolding l fold_simps comp_apply fun_upd_apply id_apply by (simp only: eq) auto
qed

lemma stamp_fill_other:
  assumes "\<And>k. k < 16 \<Longrightarrow> a \<noteq> b + of_nat k"
  shows "fold (\<lambda>i m. m(b + of_nat i := 0x30)) [5..<9]
      (fold (\<lambda>i m. m(b + of_nat i := 0x20)) [0..<4] m) a = m (a :: ptr)"
proof -
  have l: "[5..<9] = [5, 6, 7, 8 :: nat]" "[0..<4] = [0, 1, 2, 3 :: nat]"
    by (simp_all add: upt_rec)
  show ?thesis
    unfolding l fold_simps comp_apply fun_upd_apply id_apply
    using assms [of 0] assms [of 1] assms [of 2] assms [of 3] assms [of 5] assms [of 6]
      assms [of 7] assms [of 8] by simp
qed

lemma cstringI:
  assumes "0 \<notin> set xs" and "length xs < 18446744073709551616"
    and b: "\<And>k. k \<le> length xs \<Longrightarrow> m (p + of_nat k) = (xs @ [0]) ! k"
  shows "cstring m p xs"
  using assms(1,2) b by (auto simp: cstring_def nth_append)

lemma timer_format_text:
  assumes apart: "apart b tmp 16" and time: "unat t < 10000000000"
  shows "\<exists>m'. timer_format tmp b t m = Some m' \<and>
    cstring m' b (padded 0x20 (unat t div 1000000) @ [0x2e] @ padded 0x30 (unat t mod 1000000 div 100)) \<and>
    (\<forall>a. (\<forall>k<16. a \<noteq> b + of_nat k \<and> a \<noteq> tmp + of_nat k) \<longrightarrow> m' a = m a)"
proof -
  define s f where "s = t div 1000000" and "f = t mod 1000000 div 100"
  have us: "unat s = unat t div 1000000" "unat f = unat t mod 1000000 div 100"
    by (simp_all add: s_def f_def unat_div unat_mod)
  have small: "unat s < 10000" "unat f < 10000" using time unfolding us by simp_all
  let ?ds = "digits 10 (unat s)" and ?fs = "digits 10 (unat f)"
  have len: "length ?ds \<le> 4" "length ?fs \<le> 4"
    using digits_length [of 10 4 "unat s"] digits_length [of 10 4 "unat f"] small by simp_all
  have neq: "tmp + of_nat j \<noteq> b + of_nat i" if "i < 16" "j < 16" for i j
    using apart that unfolding apart_def by metis
  define m2 where "m2 = fold (\<lambda>i m. m(b + of_nat i := 0x30)) [5..<9]
    (fold (\<lambda>i m. m(b + of_nat i := 0x20)) [0..<4] m)"
  obtain m3 where m3: "map_option snd (utos m2 (va_int s) 10 tmp 0) = Some m3"
      "\<And>a. (\<And>k. k < 16 \<Longrightarrow> a \<noteq> tmp + of_nat k) \<Longrightarrow> m3 a = m2 a"
      "\<And>k. k < 16 \<Longrightarrow> m3 (b + of_nat k) = m2 (b + of_nat k)"
      "\<And>m2. (\<And>k. k < 16 \<Longrightarrow> m2 (tmp + of_nat k) = m3 (tmp + of_nat k)) \<Longrightarrow>
        strlen m2 tmp = Some (of_nat (length ?ds)) \<and>
        strcpy m2 (b + of_nat 4 - of_nat (length ?ds)) tmp =
          Some (put_string (b + of_nat (4 - length ?ds)) ?ds m2)"
    using place_number [OF apart small(1), of 4 m2] by auto
  have m3': "strlen m3 tmp = Some (of_nat (length ?ds))"
      "strcpy m3 (b + of_nat 4 - of_nat (length ?ds)) tmp =
        Some (put_string (b + of_nat (4 - length ?ds)) ?ds m3)"
    using m3(4) [of m3] by simp_all
  define m4 where "m4 = put_string (b + of_nat (4 - length ?ds)) ?ds m3"
  have m4: "m4 (b + of_nat k) = (if k < 4 - length ?ds then 0x20 else if k < 4 then ?ds ! (k - (4 - length ?ds))
      else if k = 4 then 0 else if k < 9 then 0x30 else m (b + of_nat k))" if "k < 16" for k
    unfolding m4_def using that len m3(3) [OF that] stamp_fill [OF that, of b m]
    by (subst put_string_at) (auto simp: m2_def)
  obtain m5 where m5: "map_option snd (utos m4 (va_int f) 10 tmp 0) = Some m5"
      "\<And>a. (\<And>k. k < 16 \<Longrightarrow> a \<noteq> tmp + of_nat k) \<Longrightarrow> m5 a = m4 a"
      "\<And>k. k < 16 \<Longrightarrow> m5 (b + of_nat k) = m4 (b + of_nat k)"
      "\<And>m2. (\<And>k. k < 16 \<Longrightarrow> m2 (tmp + of_nat k) = m5 (tmp + of_nat k)) \<Longrightarrow>
        strlen m2 tmp = Some (of_nat (length ?fs)) \<and>
        strcpy m2 (b + of_nat 9 - of_nat (length ?fs)) tmp =
          Some (put_string (b + of_nat (9 - length ?fs)) ?fs m2)"
    using place_number [OF apart small(2), of 9 m4] by auto
  define m6 where "m6 = m5(b + of_nat 4 := 0x2e)"
  have "m6 (tmp + of_nat k) = m5 (tmp + of_nat k)" if "k < 16" for k
    unfolding m6_def using neq [OF _ that, of 4] by simp
  note m6 = m5(4) [of m6, OF this]
  define m' where "m' = put_string (b + of_nat (9 - length ?fs)) ?fs m6"
  obtain x y where xy: "utos m2 (va_int s) 10 tmp 0 = Some (x, m3)"
    "utos m4 (va_int f) 10 tmp 0 = Some (y, m5)" using m3(1) m5(1) by auto
  have m4': "strcpy m3 (b + 4 - of_nat (length ?ds)) tmp = Some m4"
    using m3'(2) by (simp add: m4_def)
  have m6': "m5(b + 4 := 0x2e) = m6" "strlen m6 tmp = Some (of_nat (length ?fs))"
    "strcpy m6 (b + 9 - of_nat (length ?fs)) tmp = Some m'"
    using m6 by (simp_all add: m6_def m'_def)
  have "timer_format tmp b t m = Some m'"
    unfolding timer_format_def Let_def s_def [symmetric] f_def [symmetric] m2_def [symmetric]
    by (simp only: xy m3'(1) m4' m6' bind.bind_lunit prod.case)
  moreover have bytes: "m' (b + of_nat k) = (padded 0x20 (unat s) @ [0x2e] @ padded 0x30 (unat f) @ [0]) ! k"
    if "k < 10" for k
  proof -
    have eq4: "b + of_nat k = b + of_nat 4 \<longleftrightarrow> k = 4"
    proof -
      have "unat (of_nat k :: u64) = k" using that by (intro unat_of_nat_u64) simp
      moreover have "unat (of_nat 4 :: u64) = 4" by simp
      moreover have "b + of_nat k = b + of_nat 4 \<longleftrightarrow> (of_nat k :: u64) = of_nat 4" by simp
      ultimately show ?thesis by metis
    qed
    have "m6 (b + of_nat k) = (if k = 4 then 0x2e else m4 (b + of_nat k))"
      using m5(3) [of k] that unfolding m6_def fun_upd_apply eq4 by simp
    then have "m' (b + of_nat k) = (if k < 4 then padded 0x20 (unat s) ! k else if k = 4 then 0x2e
        else if k < 9 then padded 0x30 (unat f) ! (k - 5) else 0)"
      unfolding m'_def using that len m4 [of k] padded_nth [OF small(1)] padded_nth [OF small(2)]
      by (subst put_string_at) auto
    then show ?thesis
      using that padded_nth(1) [OF small(1)] padded_nth(1) [OF small(2)]
      by (auto simp: nth_append nth_Cons' )
  qed
  have "cstring m' b (padded 0x20 (unat s) @ [0x2e] @ padded 0x30 (unat f))"
  proof (rule cstringI)
    show "0 \<notin> set (padded 0x20 (unat s) @ [0x2e] @ padded 0x30 (unat f))"
      using digits_nonzero by (auto simp: padded_def)
  qed (use bytes padded_nth(1) [OF small(1)] padded_nth(1) [OF small(2)] in simp_all)
  moreover have "m' a = m a" if a: "\<And>k. k < 16 \<Longrightarrow> a \<noteq> b + of_nat k \<and> a \<noteq> tmp + of_nat k" for a
  proof -
    have "m' a = m6 a" unfolding m'_def using len(2) a by (intro put_string_outside) auto
    also have "\<dots> = m4 a" using m5(2) [of a] a [of 4] a by (simp add: m6_def)
    also have "\<dots> = m3 a" unfolding m4_def using len(1) a by (intro put_string_outside) auto
    also have "\<dots> = m a" using m3(2) [of a] a stamp_fill_other [of a b m] by (simp add: m2_def)
    finally show ?thesis .
  qed
  ultimately show ?thesis by (auto simp: us)
qed

section \<open>Messages\<close>

text \<open>
  What appears on the terminal: texts and changes of the colour. A message of a level starts with the
  time stamp and the name of the level in its colour.
\<close>

datatype item = Text "u8 list" | Colour u32

fun shown :: "item list \<Rightarrow> 'z printer_scheme \<Rightarrow> 'z printer_scheme option" where
  "shown [] s = Some s"
| "shown (Text xs # ms) s = Option.bind (for_each putchar xs s) (shown ms)"
| "shown (Colour c # ms) s = shown ms (terminal_setcolor c 0 s)"

definition time_stamp :: "nat \<Rightarrow> u8 list" where
  "time_stamp t = padded 0x20 (t div 1000000) @ [0x2e] @ padded 0x30 (t mod 1000000 div 100)"

definition level_name :: "loglevel \<Rightarrow> u8 list" where
  "level_name l = (case l of KMSG_LOGLEVEL_INFO \<Rightarrow> [0x49, 0x4e, 0x46, 0x4f]
     | KMSG_LOGLEVEL_OKAY \<Rightarrow> [0x4f, 0x4b, 0x41, 0x59] | KMSG_LOGLEVEL_WARN \<Rightarrow> [0x57, 0x41, 0x52, 0x4e]
     | KMSG_LOGLEVEL_CRIT \<Rightarrow> [0x43, 0x52, 0x49, 0x54] | KMSG_LOGLEVEL_NONE \<Rightarrow> [])"

definition printed_head :: "loglevel \<Rightarrow> nat \<Rightarrow> item list" where
  "printed_head level t =
     (if level = KMSG_LOGLEVEL_NONE then []
      else [Text (0x28 # time_stamp t @ [0x29, 0x20]), Colour 0xffffff, Text [0x5b],
            Colour (level_color level), Text (level_name level), Colour 0xffffff, Text [0x5d, 0x20]])"

definition printed_message :: "loglevel \<Rightarrow> nat \<Rightarrow> u8 list \<Rightarrow> item list" where
  "printed_message level t out = printed_head level t @ [Text out, Colour 0xffffff]"

text \<open>The memory that a message may write, and where its strings and buffers have to be.\<close>

definition scratch :: "statics \<Rightarrow> loglevel \<Rightarrow> ptr \<Rightarrow> bool" where
  "scratch st level a \<longleftrightarrow> in_buf (buf st) a \<or>
     level \<noteq> KMSG_LOGLEVEL_NONE \<and> (unat (a - timestamp_buf st) < 16 \<or> unat (a - tmp_buf st) < 16)"

definition statics_ok :: "statics \<Rightarrow> loglevel \<Rightarrow> mem \<Rightarrow> bool" where
  "statics_ok st level m \<longleftrightarrow>
     cstring m (lit_time st) [0x28, 0x25, 0x73, 0x29, 0x20] \<and> beside (scratch st level) (lit_time st) 5 \<and>
     cstring m (lit_open st) [0x5b] \<and> beside (scratch st level) (lit_open st) 1 \<and>
     cstring m (lit_level st level) (level_name level) \<and> beside (scratch st level) (lit_level st level) 4 \<and>
     cstring m (lit_close st) [0x5d, 0x20] \<and> beside (scratch st level) (lit_close st) 2 \<and>
     beside (in_buf (buf st)) (timestamp_buf st) 15 \<and> apart (timestamp_buf st) (tmp_buf st) 16"

lemma shown_append: "shown (ms @ ns) s = Option.bind (shown ms s) (shown ns)"
proof (induction ms s rule: shown.induct)
  case (2 xs ms s)
  then show ?case by (cases "for_each putchar xs s") simp_all
qed simp_all

lemma shown_omem:
  "shown ms (s\<lparr>omem := m\<rparr>) = map_option (\<lambda>t. t\<lparr>omem := m\<rparr>) (shown ms s)"
proof (induction ms s rule: shown.induct)
  case (2 xs ms s)
  then show ?case by (cases "for_each putchar xs s") (simp_all add: for_each_putchar_upd)
next
  case (3 c ms s)
  have "terminal_setcolor c 0 (s\<lparr>omem := m\<rparr>) = (terminal_setcolor c 0 s)\<lparr>omem := m\<rparr>"
    by (simp add: terminal_setcolor_def)
  with 3 show ?case by simp
qed simp

lemma tty_ok_omem [simp]: "tty_ok (s\<lparr>omem := m\<rparr>) = tty_ok s"
  by (simp add: tty_ok_def fb_ok_def)

lemma omem_setcolor [simp]: "omem (terminal_setcolor f b s) = omem s"
  by (simp add: terminal_setcolor_def)

lemma shown_tty: "tty_ok s \<Longrightarrow> \<exists>t. shown ms s = Some t \<and> tty_ok t \<and> omem t = omem s"
proof (induction ms s rule: shown.induct)
  case (2 xs ms s)
  from for_each_putchar_tty [OF 2(2), of xs] obtain t where
    "for_each putchar xs s = Some t" "tty_ok t" "omem t = omem s" by blast
  with 2(1) [of t] show ?case by simp
qed (simp_all add: setcolor_ok)

text \<open>\<open>r\<close> shows \<open>ms\<close> on the terminal \<open>s\<close> and writes scratch memory only.\<close>

definition prints ::
  "(ptr \<Rightarrow> bool) \<Rightarrow> 'z printer_scheme option \<Rightarrow> item list \<Rightarrow> 'z printer_scheme \<Rightarrow> bool" where
  "prints S r ms s \<longleftrightarrow> (\<exists>t u m. r = Some t \<and> shown ms s = Some u \<and> t = u\<lparr>omem := m\<rparr> \<and> agree S (omem s) m)"

lemma prints_bind:
  assumes r: "prints S r ms s" and ok: "tty_ok s"
    and g: "\<And>t. tty_ok t \<Longrightarrow> agree S (omem s) (omem t) \<Longrightarrow> prints S (g t) ns t"
  shows "prints S (Option.bind r g) (ms @ ns) s"
proof -
  from r obtain u m where u: "r = Some (u\<lparr>omem := m\<rparr>)" "shown ms s = Some u" "agree S (omem s) m"
    by (auto simp: prints_def)
  have "tty_ok u" using shown_tty [OF ok, of ms] u(2) by auto
  then have "prints S (g (u\<lparr>omem := m\<rparr>)) ns (u\<lparr>omem := m\<rparr>)" using u(3) by (intro g) simp_all
  then obtain v n where v: "g (u\<lparr>omem := m\<rparr>) = Some (v\<lparr>omem := n\<rparr>)"
    "shown ns (u\<lparr>omem := m\<rparr>) = Some v" "agree S m n"
    by (auto simp: prints_def)
  from v(2) obtain w where w: "shown ns u = Some w" "v = w\<lparr>omem := m\<rparr>" by (auto simp: shown_omem)
  have "agree S (omem s) n" using u(3) v(3) by (rule agree_trans)
  then show ?thesis
    unfolding prints_def using u(1,2) v(1) w by (auto simp: shown_append)
qed

lemma prints_colour: "prints S r ms (terminal_setcolor c 0 s) \<Longrightarrow> prints S r (Colour c # ms) s"
  by (simp add: prints_def)

lemma prints_write:
  assumes "prints S r ms (s\<lparr>omem := m\<rparr>)" and a: "agree S (omem s) m"
  shows "prints S r ms s"
proof -
  from assms(1) obtain z n where z: "r = Some (z\<lparr>omem := n\<rparr>)" "shown ms s = Some z" "agree S m n"
    by (auto simp: prints_def shown_omem)
  show ?thesis unfolding prints_def using z agree_trans [OF a z(3)] by blast
qed

lemma prints_more: "(\<And>a. S' a \<Longrightarrow> S a) \<Longrightarrow> prints S' r ms s \<Longrightarrow> prints S r ms s"
  unfolding prints_def using agree_more [of S' S] by blast

lemma prints_puts:
  assumes "cstring (omem s) p xs" and "tty_ok s"
  shows "prints S (puts p s) [Text xs] s"
proof -
  obtain t where "for_each putchar xs s = Some t" "omem t = omem s"
    using for_each_putchar_tty [OF assms(2), of xs] by blast
  moreover from this have "t = t\<lparr>omem := omem s\<rparr>" by simp
  ultimately show ?thesis
    unfolding prints_def puts_cstring [OF assms(1)]
    by (intro exI [of _ t] exI [of _ "omem s"]) (simp add: agree_def)
qed

lemma prints_plain:
  assumes "render str wstr fs args = Some out" and "cstring (omem s) fmt fs"
    and "beside (in_buf (buf st)) fmt (length fs)" and "strings_ok str wstr (in_buf (buf st)) (omem s)"
    and "tty_ok s"
  shows "prints (in_buf (buf st)) (printf_plain st fmt args s) [Text out, Colour 0xffffff] s"
proof -
  obtain t u m where t: "printf_loop (buf st) fmt args s = Some t" "for_each putchar out s = Some u"
    "t = u\<lparr>omem := m\<rparr>" "agree (in_buf (buf st)) (omem s) m"
    using printf_loop_render [OF assms] by blast
  have "terminal_setcolor 0xffffff 0 t = (terminal_setcolor 0xffffff 0 u)\<lparr>omem := m\<rparr>"
    by (simp add: t(3) terminal_setcolor_def)
  then show ?thesis using t by (auto simp: prints_def printf_plain_def)
qed

lemma prints_header:
  fixes s :: "'z printer_scheme"
  assumes ok: "tty_ok s" and time: "unat elapsed < 10000000000" and level: "level \<noteq> KMSG_LOGLEVEL_NONE"
    and st: "statics_ok st level (omem s)"
  shows "prints (scratch st level) (printf_header st elapsed level s) (printed_head level (unat elapsed)) s"
proof -
  let ?S = "scratch st level" and ?ts = "timestamp_buf st" and ?stamp = "time_stamp (unat elapsed)"
  note k = st [unfolded statics_ok_def]
  obtain m where m: "timer_format (tmp_buf st) ?ts elapsed (omem s) = Some m" "cstring m ?ts ?stamp"
    "\<And>a. (\<And>k. k < 16 \<Longrightarrow> a \<noteq> ?ts + of_nat k \<and> a \<noteq> tmp_buf st + of_nat k) \<Longrightarrow> m a = omem s a"
    using timer_format_text [of ?ts "tmp_buf st" elapsed "omem s"] k time unfolding time_stamp_def by blast
  have in16: "unat (p + of_nat i - p) < 16" if "i < 16" for p :: ptr and i
    using that by (simp add: unat_of_nat_u64)
  have agr: "agree ?S (omem s) m"
    unfolding agree_def
  proof (intro allI impI)
    fix a assume "\<not> ?S a"
    then have "\<not> unat (a - ?ts) < 16" "\<not> unat (a - tmp_buf st) < 16"
      using level by (simp_all add: scratch_def)
    then show "m a = omem s a" using in16 by (intro m(3)) blast
  qed
  have len: "length ?stamp = 9"
    using padded_nth(1) time by (simp add: time_stamp_def less_mult_imp_div_less)
  let ?str = "\<lambda>p. if p = ?ts then Some ?stamp else None"
  have "beside (in_buf (buf st)) ?ts 9" using k by (simp add: beside_def)
  then have strs: "strings_ok ?str (\<lambda>_. None) (in_buf (buf st)) m"
    using m(2) len by (simp add: strings_ok_def)
  have lit: "prints ?S (puts p t) [Text xs] t"
    if "tty_ok t" "agree ?S (omem s) (omem t)" "cstring (omem s) p xs" "beside ?S p (length xs)" for p xs and t :: "'z printer_scheme"
    using cstring_agree [OF that(2,4,3)] that(1) by (rule prints_puts)
  have sub: "in_buf (buf st) a \<Longrightarrow> ?S a" for a by (simp add: scratch_def)
  have fmt: "cstring m (lit_time st) [0x28, 0x25, 0x73, 0x29, 0x20]"
    by (rule cstring_agree [OF agr]) (use k in \<open>simp_all add: eval_nat_numeral\<close>)
  have rd: "render ?str (\<lambda>_. None) [0x28, 0x25, 0x73, 0x29, 0x20] [?ts] = Some (0x28 # ?stamp @ [0x29, 0x20])"
    by (simp add: conv_text_def)
  have bes: "beside (in_buf (buf st)) (lit_time st) (length [0x28, 0x25, 0x73, 0x29, 0x20 :: u8])"
    using k by (intro beside_less [of "in_buf (buf st)" ?S, OF sub]) (simp_all add: eval_nat_numeral)
  have "prints (in_buf (buf st)) (printf_plain st (lit_time st) [?ts] (s\<lparr>omem := m\<rparr>))
      [Text (0x28 # ?stamp @ [0x29, 0x20]), Colour 0xffffff] (s\<lparr>omem := m\<rparr>)"
    by (rule prints_plain [OF rd _ bes]) (use fmt strs ok in simp_all)
  then have p1: "prints ?S (printf_plain st (lit_time st) [?ts] (s\<lparr>omem := m\<rparr>))
      [Text (0x28 # ?stamp @ [0x29, 0x20]), Colour 0xffffff] s"
    by (intro prints_write [OF _ agr] prints_more [of "in_buf (buf st)" ?S, OF sub])
  have ln: "length (level_name level) = 4" using level by (cases level) (simp_all add: level_name_def)
  have lits: "prints ?S (puts (lit_open st) t) [Text [0x5b]] t"
    "prints ?S (puts (lit_level st level) t) [Text (level_name level)] t"
    "prints ?S (puts (lit_close st) t) [Text [0x5d, 0x20]] t"
    if "tty_ok t" "agree ?S (omem s) (omem t)" for t :: "'z printer_scheme"
    by (rule lit [OF that]; use k ln in \<open>simp add: eval_nat_numeral\<close>)+
  have tail: "prints ?S (do { s2 \<leftarrow> puts (lit_open st) s1;
       s3 \<leftarrow> puts (lit_level st level) (terminal_setcolor (level_color level) 0 s2);
       puts (lit_close st) (terminal_setcolor 0xffffff 0 s3) })
     ([Text [0x5b]] @ (Colour (level_color level) # [Text (level_name level)]) @ (Colour 0xffffff # [Text [0x5d, 0x20]])) s1"
    if "tty_ok s1" "agree ?S (omem s) (omem s1)" for s1 :: "'z printer_scheme"
    using that by (intro prints_bind prints_colour lits) (auto simp: setcolor_ok intro: agree_trans)
  have "prints ?S (Option.bind (printf_plain st (lit_time st) [?ts] (s\<lparr>omem := m\<rparr>)) (\<lambda>s1.
      do { s2 \<leftarrow> puts (lit_open st) s1;
           s3 \<leftarrow> puts (lit_level st level) (terminal_setcolor (level_color level) 0 s2);
           puts (lit_close st) (terminal_setcolor 0xffffff 0 s3) })) (printed_head level (unat elapsed)) s"
    using prints_bind [OF p1 ok tail] level by (simp add: printed_head_def)
  then show ?thesis by (simp add: printf_header_def m(1))
qed

lemma apart_ranges:
  assumes "unat p + n \<le> unat q" and "unat q + n < 18446744073709551616"
  shows "apart p q n"
  unfolding apart_def
proof (intro allI impI notI)
  fix i j assume ij: "i < n" "j < n" and eq: "p + of_nat i = q + of_nat j"
  have "unat (p + of_nat i) = unat p + i" "unat (q + of_nat j) = unat q + j"
    using ij assms by (simp_all add: unat_word_ariths unat_of_nat)
  with eq ij assms show False by simp
qed

lemma beside_simps:
  "beside S p 0 \<longleftrightarrow> \<not> S p" "beside S p (Suc n) \<longleftrightarrow> \<not> S p \<and> beside S (p + 1) n"
proof -
  show "beside S p 0 \<longleftrightarrow> \<not> S p" by (simp add: beside_def)
  show "beside S p (Suc n) \<longleftrightarrow> \<not> S p \<and> beside S (p + 1) n"
  proof
    assume *: "beside S p (Suc n)"
    then have "\<not> S (p + of_nat 0)" unfolding beside_def by blast
    with beside_Cons [OF *] show "\<not> S p \<and> beside S (p + 1) n" by simp
  next
    assume *: "\<not> S p \<and> beside S (p + 1) n"
    show "beside S p (Suc n)" unfolding beside_def
    proof (intro allI impI)
      fix i assume "i \<le> Suc n"
      then show "\<not> S (p + of_nat i)" using * by (cases i) (auto simp: beside_def add.assoc)
    qed
  qed
qed

lemma beside_numeral:
  "beside S p (Suc 0) \<longleftrightarrow> (\<forall>i \<in> set [0, 1]. \<not> S (p + i))"
  "beside S p 2 \<longleftrightarrow> (\<forall>i \<in> set [0, 1, 2]. \<not> S (p + i))"
  "beside S p 4 \<longleftrightarrow> (\<forall>i \<in> set [0, 1, 2, 3, 4]. \<not> S (p + i))"
  "beside S p 5 \<longleftrightarrow> (\<forall>i \<in> set [0, 1, 2, 3, 4, 5]. \<not> S (p + i))"
  "beside S p 15 \<longleftrightarrow> (\<forall>i \<in> set [0, 1, 2, 3, 4, 5, 6, 7, 8, 9, 10, 11, 12, 13, 14, 15]. \<not> S (p + i))"
  by (simp_all add: eval_nat_numeral beside_simps add.assoc)

section \<open>Properties\<close>

text \<open>C24: Printing at any log level. The conversions are \<^verbatim>\<open>%a\<close>, \<^verbatim>\<open>%d\<close>, \<^verbatim>\<open>%x\<close>, \<^verbatim>\<open>%b\<close> of
  numbers that are not negative, \<^verbatim>\<open>%c\<close>, and \<^verbatim>\<open>%s\<close> and \<^verbatim>\<open>%S\<close> of strings shorter than the buffer;
  the format has no other conversion and does not end in a percent sign. On a terminal that fits its
  framebuffer, and with a level in the first ten thousand seconds, \<^verbatim>\<open>printf\<close> returns. What appears on
  the terminal is the message: with a level the time stamp in parentheses and the name of the level in
  its colour between brackets, then the rendered text, in white. Beside the terminal only the buffers
  of the conversions and, with a level, of the time stamp change.\<close>

theorem printf_prints_rendering:
  fixes s :: "'z printer_scheme"
  assumes "render str wstr fs args = Some out" and "cstring (omem s) fmt fs"
    and "beside (scratch st level) fmt (length fs)" and "strings_ok str wstr (scratch st level) (omem s)"
    and "level \<noteq> KMSG_LOGLEVEL_NONE \<Longrightarrow> unat elapsed < 10000000000 \<and> statics_ok st level (omem s)"
    and "tty_ok s"
  shows "\<exists>t u m. printf st elapsed level fmt args s = Some t \<and>
    shown (printed_message level (unat elapsed) out) s = Some u \<and> t = u\<lparr>omem := m\<rparr> \<and>
    agree (scratch st level) (omem s) m"
proof -
  let ?S = "scratch st level"
  have sub: "in_buf (buf st) a \<Longrightarrow> ?S a" for a by (simp add: scratch_def)
  have plain: "prints ?S (printf_plain st fmt args t) [Text out, Colour 0xffffff] t"
    if t: "tty_ok t" "agree ?S (omem s) (omem t)" for t :: "'z printer_scheme"
  proof (rule prints_more [OF sub])
    show "prints (in_buf (buf st)) (printf_plain st fmt args t) [Text out, Colour 0xffffff] t"
      by (rule prints_plain [OF assms(1) cstring_agree [OF t(2) assms(3,2)] beside_less [OF sub assms(3)]
          strings_ok_less [OF sub strings_ok_agree [OF t(2) assms(4)]] t(1)])
  qed
  have "prints ?S (printf st elapsed level fmt args s) (printed_message level (unat elapsed) out) s"
  proof (cases "level = KMSG_LOGLEVEL_NONE")
    case True
    then show ?thesis
      using plain [OF assms(6)] by (simp add: printf_def printed_message_def printed_head_def agree_def)
  next
    case False
    then show ?thesis
      using prints_bind [OF prints_header assms(6) plain] assms(5,6) by (simp add: printf_def printed_message_def)
  qed
  then show ?thesis unfolding prints_def .
qed

definition printer_example :: printer where
  "printer_example = \<lparr>fb_width = 96, fb_height = 48, fb_pitch = 384, fb_buffer = (\<lambda>_. 0),
     fb_mmio = (\<lambda>_. 0), width = 10, height = 2, chr_index = 0, fg = 7, bg = 0, isready = True,
     omem = (\<lambda>_. 0)(0x1000 := 0x6e, 0x1001 := 0x3d, 0x1002 := 0x25, 0x1003 := 0x64,
       0x5000 := 0x28, 0x5001 := 0x25, 0x5002 := 0x73, 0x5003 := 0x29, 0x5004 := 0x20, 0x5010 := 0x5b,
       0x5020 := 0x49, 0x5021 := 0x4e, 0x5022 := 0x46, 0x5023 := 0x4f, 0x5030 := 0x5d, 0x5031 := 0x20)\<rparr>"

definition statics_example :: statics where
  "statics_example = \<lparr>buf = 0x2000, timestamp_buf = 0x3000, tmp_buf = 0x4000, lit_time = 0x5000,
     lit_open = 0x5010, lit_level = (\<lambda>_. 0x5020), lit_close = 0x5030\<rparr>"

lemma statics_example_ok: "statics_ok statics_example KMSG_LOGLEVEL_INFO (omem printer_example)"
proof -
  have "apart 0x3000 0x4000 16" by (rule apart_ranges) simp_all
  then show ?thesis
    unfolding statics_ok_def
    by (simp add: statics_example_def printer_example_def cstring_Cons cstring_Nil level_name_def
        scratch_def in_buf_def beside_numeral)
qed

lemma printed_example:
  "printed_message KMSG_LOGLEVEL_INFO 12034500 [0x6e, 0x3d, 0x34, 0x32] =
    [Text [0x28, 0x20, 0x20, 0x31, 0x32, 0x2e, 0x30, 0x33, 0x34, 0x35, 0x29, 0x20], Colour 0xffffff,
     Text [0x5b], Colour 0xff, Text [0x49, 0x4e, 0x46, 0x4f], Colour 0xffffff, Text [0x5d, 0x20],
     Text [0x6e, 0x3d, 0x34, 0x32], Colour 0xffffff]"
proof -
  have r: "replicate 2 (0x20 :: u8) = [0x20, 0x20]" by (simp add: numeral_2_eq_2)
  show ?thesis
    by (simp add: printed_message_def printed_head_def time_stamp_def padded_def digits.simps digit_char_def
        level_color_def level_name_def r)
qed

theorem printf_prints_rendering_witness:
  "\<exists>t u. printf statics_example 12034500 KMSG_LOGLEVEL_INFO 0x1000 [42] printer_example = Some t \<and>
    shown [Text [0x28, 0x20, 0x20, 0x31, 0x32, 0x2e, 0x30, 0x33, 0x34, 0x35, 0x29, 0x20], Colour 0xffffff,
     Text [0x5b], Colour 0xff, Text [0x49, 0x4e, 0x46, 0x4f], Colour 0xffffff, Text [0x5d, 0x20],
     Text [0x6e, 0x3d, 0x34, 0x32], Colour 0xffffff] printer_example = Some u \<and> fb_mmio t = fb_mmio u"
proof -
  have d: "digits 10 42 = [0x34, 0x32]" by (simp add: digits.simps digit_char_def)
  have "va_int 42 = 42" by (simp add: va_int_small)
  then have r: "render (\<lambda>_. None) (\<lambda>_. None) [0x6e, 0x3d, 0x25, 0x64] [42] = Some [0x6e, 0x3d, 0x34, 0x32]"
    by (simp add: conv_text_def number_text_def d)
  have c: "cstring (omem printer_example) 0x1000 [0x6e, 0x3d, 0x25, 0x64]"
    by (simp add: cstring_Cons cstring_Nil printer_example_def)
  have b: "beside (scratch statics_example KMSG_LOGLEVEL_INFO) 0x1000 (length [0x6e, 0x3d, 0x25, 0x64 :: u8])"
    by (simp add: beside_simps scratch_def in_buf_def statics_example_def)
  have s: "strings_ok (\<lambda>_. None) (\<lambda>_. None) (scratch statics_example KMSG_LOGLEVEL_INFO) (omem printer_example)"
    by (simp add: strings_ok_def)
  have t: "tty_ok printer_example" by (simp add: tty_ok_def fb_ok_def printer_example_def)
  have e: "unat (12034500 :: u64) = 12034500" by simp
  have st: "unat (12034500 :: u64) < 10000000000 \<and> statics_ok statics_example KMSG_LOGLEVEL_INFO (omem printer_example)"
    using statics_example_ok by simp
  obtain t' u m where "printf statics_example 12034500 KMSG_LOGLEVEL_INFO 0x1000 [42] printer_example = Some t'"
    "shown (printed_message KMSG_LOGLEVEL_INFO 12034500 [0x6e, 0x3d, 0x34, 0x32]) printer_example = Some u"
    "t' = u\<lparr>omem := m\<rparr>"
    using printf_prints_rendering [OF r c b s st t] unfolding e by blast
  then show ?thesis unfolding printed_example by auto
qed

text \<open>For the first ten thousand seconds the time stamp is the number of seconds, padded with
  spaces, a dot, and the tenths of milliseconds, padded with zeros: nine characters.\<close>

theorem timer_format_correct:
  assumes "apart b tmp 16" and "unat t < 10000000000"
  shows "\<exists>m'. timer_format tmp b t m = Some m' \<and>
    cstring m' b (padded 0x20 (unat t div 1000000) @ [0x2e] @ padded 0x30 (unat t mod 1000000 div 100)) \<and>
    length (padded 0x20 (unat t div 1000000) @ [0x2e] @ padded 0x30 (unat t mod 1000000 div 100)) = 9"
proof -
  have "unat t div 1000000 < 10000" "unat t mod 1000000 div 100 < 10000" using assms(2) by simp_all
  then show ?thesis using timer_format_text [OF assms, of m] padded_nth(1) by auto
qed

theorem timer_format_correct_witness:
  "\<exists>m'. timer_format 0x2000 0x1000 12034500 (\<lambda>_. 0) = Some m' \<and>
    cstring m' 0x1000 [0x20, 0x20, 0x31, 0x32, 0x2e, 0x30, 0x33, 0x34, 0x35]"
proof -
  have a: "apart 0x1000 0x2000 16" by (rule apart_ranges) simp_all
  have t: "unat (12034500 :: u64) < 10000000000" by simp
  have r: "replicate 2 (0x20 :: u8) = [0x20, 0x20]" by (simp add: numeral_2_eq_2)
  have p: "padded 0x20 (unat (12034500 :: u64) div 1000000) = [0x20, 0x20, 0x31, 0x32]"
    "padded 0x30 (unat (12034500 :: u64) mod 1000000 div 100) = [0x30, 0x33, 0x34, 0x35]"
    by (simp_all add: padded_def digits.simps digit_char_def r)
  from timer_format_correct [OF a t, of "\<lambda>_. 0"] show ?thesis unfolding p by auto
qed

end
