(* ===== verification/Hw.thy ===== *)
theory Hw
  imports Kalloc Printf
begin

text \<open>
  The machine interface of the drivers: port and memory-mapped accesses (\<^verbatim>\<open>cpu/cpu.S\<close> and the
  volatile accesses of the drivers), and the messages of the kernel log. The state extends that of the
  memory manager by the accesses made so far and the messages logged so far, the latest first. The
  hardware is a parameter: \<open>dev t\<close> is its answer to the read at the head of the trace \<open>t\<close>.
  What a message looks like on the screen is the matter of the theories on \<^verbatim>\<open>printf\<close> and the
  terminal.
\<close>

datatype io = Out8 u16 u8 | In8 u16 | Read8 ptr | Read16 ptr | Write16 ptr u16 | Read32 ptr | Write32 ptr u32 | Read64 ptr | Write64 ptr u64

datatype kmsg = Printf loglevel string "u64 list" | Printf_at loglevel ptr | Puts string | Putsn ptr u64

type_synonym device = "io list \<Rightarrow> u64"

record hw = vm +
  io_trace :: "io list"
  klog :: "kmsg list"

section \<open>Accesses\<close>

definition io_write :: "io \<Rightarrow> 'z hw_scheme \<Rightarrow> 'z hw_scheme" where
  "io_write a s = s\<lparr>io_trace := a # io_trace s\<rparr>"

definition io_read :: "device \<Rightarrow> io \<Rightarrow> 'z hw_scheme \<Rightarrow> u64 \<times> 'z hw_scheme" where
  "io_read dev a s = (dev (a # io_trace s), io_write a s)"

text \<open>
  \<^verbatim>\<open>io_outb(port, value)\<close> is called with \<^verbatim>\<open>port\<close> in \<^verbatim>\<open>rdi\<close> and \<^verbatim>\<open>value\<close>
  in \<^verbatim>\<open>rsi\<close>; the routine takes the port from \<^verbatim>\<open>si\<close> and the value from \<^verbatim>\<open>dil\<close>.
  \<^verbatim>\<open>io_inb(port)\<close> takes the port from \<^verbatim>\<open>si\<close> too, which its caller has not set:
  \<open>rsi\<close> gives what the register holds.
\<close>

definition io_outb :: "u16 \<Rightarrow> u8 \<Rightarrow> 'z hw_scheme \<Rightarrow> 'z hw_scheme" where
  "io_outb port value s =
     (let rdi = ucast port :: u64; rsi = ucast value :: u64
      in io_write (Out8 (ucast rsi) (ucast rdi)) s)"

definition io_inb :: "device \<Rightarrow> (io list \<Rightarrow> u64) \<Rightarrow> u16 \<Rightarrow> 'z hw_scheme \<Rightarrow> u8 \<times> 'z hw_scheme" where
  "io_inb dev rsi port s =
     (let (v, s') = io_read dev (In8 (ucast (rsi (io_trace s)))) s in (ucast v, s'))"

definition io_wait :: "'z hw_scheme \<Rightarrow> 'z hw_scheme" where
  "io_wait s = io_write (Out8 0x80 0) s"

section \<open>The log\<close>

definition log_msg :: "kmsg \<Rightarrow> 'z hw_scheme \<Rightarrow> 'z hw_scheme" where
  "log_msg k s = s\<lparr>klog := k # klog s\<rparr>"

definition kprintf :: "loglevel \<Rightarrow> string \<Rightarrow> u64 list \<Rightarrow> 'z hw_scheme \<Rightarrow> 'z hw_scheme" where
  "kprintf l fmt args s = log_msg (Printf l fmt args) s"

lemma log_simps [simp]:
  "kmem (log_msg k s) = kmem s" "io_trace (log_msg k s) = io_trace s" "klog (log_msg k s) = k # klog s"
  "cr3 (log_msg k s) = cr3 s" "kernel_table (log_msg k s) = kernel_table s"
  "hw.more (log_msg k s) = hw.more s"
  by (simp_all add: log_msg_def)

lemma kprintf_simps [simp]:
  "kmem (kprintf l f a s) = kmem s" "io_trace (kprintf l f a s) = io_trace s"
  "klog (kprintf l f a s) = Printf l f a # klog s"
  "cr3 (kprintf l f a s) = cr3 s" "kernel_table (kprintf l f a s) = kernel_table s"
  "hw.more (kprintf l f a s) = hw.more s"
  by (simp_all add: kprintf_def)

lemma io_write_simps [simp]:
  "kmem (io_write a s) = kmem s" "io_trace (io_write a s) = a # io_trace s" "klog (io_write a s) = klog s"
  "cr3 (io_write a s) = cr3 s" "kernel_table (io_write a s) = kernel_table s"
  "hw.more (io_write a s) = hw.more s"
  by (simp_all add: io_write_def)

end
