(* ===== verification/Pic.thy ===== *)
theory Pic
  imports Hw
begin

text \<open>
  The legacy interrupt controllers (\<^verbatim>\<open>interrupts/pic.c\<close>), which the kernel means to remap and
  mask. Every access goes through \<^verbatim>\<open>io_outb\<close> and \<^verbatim>\<open>io_inb\<close>.
\<close>

definition PP_PIC1_Command :: u16 where "PP_PIC1_Command = 0x20"
definition PP_PIC1_Data :: u16 where "PP_PIC1_Data = 0x21"
definition PP_PIC2_Command :: u16 where "PP_PIC2_Command = 0xa0"
definition PP_PIC2_Data :: u16 where "PP_PIC2_Data = 0xa1"
definition PC_EOI :: u8 where "PC_EOI = 0x20"
definition PICW1_ICW4 :: u8 where "PICW1_ICW4 = 0x01"
definition PICW1_INIT :: u8 where "PICW1_INIT = 0x10"
definition PICW4_8086 :: u8 where "PICW4_8086 = 0x01"

lemmas pic_consts = PP_PIC1_Command_def PP_PIC1_Data_def PP_PIC2_Command_def PP_PIC2_Data_def
  PC_EOI_def PICW1_ICW4_def PICW1_INIT_def PICW4_8086_def

text \<open>A write followed by the short wait, as almost every write of the file is.\<close>

definition out_wait :: "u16 \<Rightarrow> u8 \<Rightarrow> 'z hw_scheme \<Rightarrow> 'z hw_scheme" where
  "out_wait port value s = io_wait (io_outb port value s)"

definition remap_pic :: "device \<Rightarrow> (io list \<Rightarrow> u64) \<Rightarrow> 'z hw_scheme \<Rightarrow> 'z hw_scheme" where
  "remap_pic dev rsi s =
     (let (a1, s) = io_inb dev rsi PP_PIC1_Data s; s = io_wait s;
          (a2, s) = io_inb dev rsi PP_PIC2_Data s; s = io_wait s;
          s = kprintf KMSG_LOGLEVEL_INFO ''PIC interrupt masks: %b/%b\<newline>'' [ucast a1, ucast a2] s;
          s = out_wait PP_PIC1_Command (PICW1_INIT OR PICW1_ICW4) s;
          s = out_wait PP_PIC2_Command (PICW1_INIT OR PICW1_ICW4) s;
          s = kprintf KMSG_LOGLEVEL_INFO ''Initialized PIC.\<newline>'' [] s;
          s = out_wait PP_PIC1_Data 0x20 s;
          s = out_wait PP_PIC2_Data 0x28 s;
          s = kprintf KMSG_LOGLEVEL_INFO ''PIC ICW2: vector offsets (%x/%x).\<newline>'' [0x20, 0x28] s;
          s = out_wait PP_PIC1_Data 4 s;
          s = out_wait PP_PIC2_Data 2 s;
          s = kprintf KMSG_LOGLEVEL_INFO ''PIC ICW3: wiring (%d/%d).\<newline>'' [4, 2] s;
          s = out_wait PP_PIC1_Data PICW4_8086 s;
          s = out_wait PP_PIC2_Data PICW4_8086 s;
          s = kprintf KMSG_LOGLEVEL_INFO ''PIC ICW4: use ICW4_8086.\<newline>'' [] s;
          s = out_wait PP_PIC1_Data a1 s;
          s = out_wait PP_PIC2_Data a2 s
      in kprintf KMSG_LOGLEVEL_INFO ''PIC bit mask restored.\<newline>'' [] s)"

definition mask_irqs :: "'z hw_scheme \<Rightarrow> 'z hw_scheme" where
  "mask_irqs s =
     kprintf KMSG_LOGLEVEL_INFO ''PIC IRQs masked.\<newline>'' []
       (out_wait PP_PIC2_Data 0xff (out_wait PP_PIC1_Data 0xff s))"

definition pic_initialize :: "device \<Rightarrow> (io list \<Rightarrow> u64) \<Rightarrow> 'z hw_scheme \<Rightarrow> 'z hw_scheme" where
  "pic_initialize dev rsi s =
     (let s = kprintf KMSG_LOGLEVEL_INFO ''Disabling pic...\<newline>'' [] s;
          s = mask_irqs (remap_pic dev rsi s);
          s = out_wait 0xa1 0xff s;
          s = out_wait 0x21 0xff s
      in kprintf KMSG_LOGLEVEL_OKAY ''Remapped, masked and disabled pic.\<newline>'' [] s)"

definition pic_send_eoi :: "bool \<Rightarrow> 'z hw_scheme \<Rightarrow> 'z hw_scheme" where
  "pic_send_eoi slave s =
     io_outb PP_PIC1_Command PC_EOI (if slave then io_outb PP_PIC2_Command PC_EOI s else s)"

section \<open>What reaches the ports\<close>

lemma ucast_via_64 [simp]:
  "ucast (ucast (v :: u8) :: u64) = (ucast v :: u16)" "ucast (ucast (p :: u16) :: u64) = (ucast p :: u8)"
  by (rule bit_word_eqI, auto simp: bit_simps)+

lemma out_wait_simps [simp]:
  "io_trace (out_wait port value s) = Out8 0x80 0 # Out8 (ucast value) (ucast port) # io_trace s"
  "kmem (out_wait port value s) = kmem s" "hw.more (out_wait port value s) = hw.more s"
  by (simp_all add: out_wait_def io_outb_def io_wait_def Let_def)

lemma io_inb_simps [simp]:
  "io_trace (snd (io_inb dev rsi port s)) = In8 (ucast (rsi (io_trace s))) # io_trace s"
  "kmem (snd (io_inb dev rsi port s)) = kmem s" "hw.more (snd (io_inb dev rsi port s)) = hw.more s"
  by (simp_all add: io_inb_def io_read_def)

lemma io_wait_simps [simp]:
  "io_trace (io_wait s) = Out8 0x80 0 # io_trace s"
  "kmem (io_wait s) = kmem s" "hw.more (io_wait s) = hw.more s"
  by (simp_all add: io_wait_def)

lemma pic_initialize_simps [simp]:
  "kmem (pic_initialize dev rsi s) = kmem s" "hw.more (pic_initialize dev rsi s) = hw.more s"
  by (simp_all add: pic_initialize_def mask_irqs_def remap_pic_def Let_def split_def)

section \<open>Properties\<close>

text \<open>\<^verbatim>\<open>pic_initialize\<close> leaves the interrupt controllers unmasked: as the port routines
  exchange port and value, the mask 0xff is never written to a data port; the port 0xff receives
  the numbers of the data ports instead.\<close>

theorem pic_never_masked:
  "\<exists>t. io_trace (pic_initialize dev rsi s) = t @ io_trace s \<and>
    Out8 PP_PIC1_Data 0xff \<notin> set t \<and> Out8 PP_PIC2_Data 0xff \<notin> set t \<and>
    Out8 0xff 0x21 \<in> set t \<and> Out8 0xff 0xa1 \<in> set t"
  by (simp add: pic_initialize_def mask_irqs_def remap_pic_def Let_def split_def pic_consts)

end
