(* ===== verification/Descriptors.thy ===== *)
theory Descriptors
  imports Hw
begin

text \<open>
  The descriptor tables of the processor: segments and task state (\<^verbatim>\<open>gdt/gdt.c\<close>) and
  interrupt gates (\<^verbatim>\<open>interrupts/idt.c\<close>). The records are the packed structures the
  processor reads; the functions that decode them state what it reads. The processor's own registers
  that the routines load are part of the state. Where the linker puts the tables and the entry points
  are parameters.
\<close>

section \<open>Segments\<close>

record gdt_entry =
  limit0 :: u16
  base0 :: u16
  base1 :: u8
  access :: u8
  limit1_flags :: u8
  base2 :: u8

record gdt_entry_x =
  lower_entry :: gdt_entry
  base3 :: u32
  reserved0 :: u32

record tss =
  tss_reserved0 :: u32
  rsp0 :: u64
  rsp1 :: u64
  rsp2 :: u64
  tss_reserved1 :: u64
  ist1 :: u64
  ist2 :: u64
  ist3 :: u64
  ist4 :: u64
  ist5 :: u64
  ist6 :: u64
  ist7 :: u64
  tss_reserved2 :: u32
  iopb_offset :: u32

record gdt =
  null :: gdt_entry
  kernel_code :: gdt_entry
  kernel_data :: gdt_entry
  user_code :: gdt_entry
  user_data :: gdt_entry
  gdt_tss :: gdt_entry_x

record gdt_descriptor =
  gdt_size :: u16
  gdt_offset :: u64

definition DA_ACCESSED :: u64 where "DA_ACCESSED = 0x01"
definition DA_RW :: u64 where "DA_RW = 0x02"
definition DA_EXE :: u64 where "DA_EXE = 0x08"
definition DA_CODE_DATA :: u64 where "DA_CODE_DATA = 0x10"
definition DA_RING_1 :: u64 where "DA_RING_1 = 0x20"
definition DA_RING_2 :: u64 where "DA_RING_2 = 0x40"
definition DA_RING_3 :: u64 where "DA_RING_3 = DA_RING_1 OR DA_RING_2"
definition DA_PRESENT :: u64 where "DA_PRESENT = 0x80"
definition DF_LONG_GRAN :: u64 where "DF_LONG_GRAN = 0x02"
definition DF_SIZE :: u64 where "DF_SIZE = 0x04"

lemmas descriptor_bits = DA_ACCESSED_def DA_RW_def DA_EXE_def DA_CODE_DATA_def DA_RING_1_def
  DA_RING_2_def DA_RING_3_def DA_PRESENT_def DF_LONG_GRAN_def DF_SIZE_def

definition GDT_ENTRY :: "u64 \<Rightarrow> u64 \<Rightarrow> u64 \<Rightarrow> u64 \<Rightarrow> gdt_entry" where
  "GDT_ENTRY base limit acc flags =
     \<lparr>limit0 = ucast (limit AND 0xffff), base0 = ucast (base AND 0xffff),
      base1 = ucast (drop_bit 16 base AND 0xff), access = ucast (acc OR DA_PRESENT),
      limit1_flags = ucast (drop_bit 16 limit OR push_bit 4 flags),
      base2 = ucast (drop_bit 24 base)\<rparr>"

definition gdt_initial :: gdt where
  "gdt_initial =
     \<lparr>null = GDT_ENTRY 0 0 0 0,
      kernel_code = GDT_ENTRY 0 0xfffff (DA_RW OR DA_CODE_DATA OR DA_EXE) DF_LONG_GRAN,
      kernel_data = GDT_ENTRY 0 0xfffff (DA_RW OR DA_CODE_DATA) 0,
      user_code = GDT_ENTRY 0 0xfffff (DA_RW OR DA_CODE_DATA OR DA_EXE OR DA_RING_3) DF_LONG_GRAN,
      user_data = GDT_ENTRY 0 0xfffff (DA_RW OR DA_CODE_DATA OR DA_RING_3) 0,
      gdt_tss = \<lparr>lower_entry = \<lparr>limit0 = 0, base0 = 0, base1 = 0, access = 0, limit1_flags = 0,
        base2 = 0\<rparr>, base3 = 0, reserved0 = 0\<rparr>\<rparr>"

definition sizeof_tss :: u64 where "sizeof_tss = 100"
definition sizeof_gdt :: u64 where "sizeof_gdt = 56"

definition tss_zero :: tss where
  "tss_zero = \<lparr>tss_reserved0 = 0, rsp0 = 0, rsp1 = 0, rsp2 = 0, tss_reserved1 = 0, ist1 = 0, ist2 = 0,
     ist3 = 0, ist4 = 0, ist5 = 0, ist6 = 0, ist7 = 0, tss_reserved2 = 0, iopb_offset = 0\<rparr>"

text \<open>The processor's segment registers, and the register that locates the segment table.\<close>

record cpu_segments =
  seg_gdt :: gdt
  seg_tss :: tss
  gdtr :: gdt_descriptor
  cs :: u16
  ds :: u16
  es :: u16
  fs :: u16
  gs :: u16
  ss :: u16
  tr :: u16

definition gdt_load :: "gdt_descriptor \<Rightarrow> cpu_segments \<Rightarrow> cpu_segments" where
  "gdt_load d c = c\<lparr>gdtr := d, ds := 0x10, es := 0x10, fs := 0x10, gs := 0x10, ss := 0x10, cs := 0x08\<rparr>"

definition tss_load :: "cpu_segments \<Rightarrow> cpu_segments" where
  "tss_load c = c\<lparr>tr := 0x28\<rparr>"

definition gdt_initialize :: "u64 \<Rightarrow> u64 \<Rightarrow> ptr \<Rightarrow> cpu_segments \<Rightarrow> cpu_segments" where
  "gdt_initialize addr_tss addr_gdt kernel_stack c =
     (let entry = \<lparr>lower_entry = GDT_ENTRY (addr_tss AND 0xffffffff) sizeof_tss
                                  (DA_EXE OR DA_ACCESSED) DF_SIZE,
                    base3 = ucast (drop_bit 32 addr_tss), reserved0 = 0\<rparr>;
          c1 = c\<lparr>seg_gdt := (seg_gdt c)\<lparr>gdt_tss := entry\<rparr>\<rparr>;
          c2 = gdt_load \<lparr>gdt_size = ucast (sizeof_gdt - 1), gdt_offset = addr_gdt\<rparr> c1;
          c3 = c2\<lparr>seg_tss := tss_zero\<lparr>rsp0 := kernel_stack, ist1 := 0,
                                      iopb_offset := ucast sizeof_tss\<rparr>\<rparr>
      in tss_load c3)"

text \<open>What the processor reads from an entry.\<close>

definition seg_base :: "gdt_entry \<Rightarrow> u32" where
  "seg_base e = ucast (base0 e) OR push_bit 16 (ucast (base1 e)) OR push_bit 24 (ucast (base2 e))"

definition entry_limit :: "gdt_entry \<Rightarrow> u32" where
  "entry_limit e = ucast (limit0 e) OR push_bit 16 (ucast (limit1_flags e AND 0x0f))"

definition entry_flags :: "gdt_entry \<Rightarrow> u8" where
  "entry_flags e = drop_bit 4 (limit1_flags e)"

definition entry_ring :: "gdt_entry \<Rightarrow> u8" where
  "entry_ring e = drop_bit 5 (access e) AND 3"

definition seg_base_x :: "gdt_entry_x \<Rightarrow> u64" where
  "seg_base_x e = ucast (seg_base (lower_entry e)) OR push_bit 32 (ucast (base3 e))"

lemma low_bits: "(0xffff :: u64) = mask 16" "(0xff :: u64) = mask 8" "(0x0f :: u8) = mask 4"
  "(0xffffffff :: u64) = mask 32"
  by (simp_all add: mask_eq_exp_minus_1)

lemma GDT_ENTRY_base: "seg_base (GDT_ENTRY base limit acc flags) = ucast base"
proof (rule bit_word_eqI)
  fix n assume "n < LENGTH(32)"
  then show "bit (seg_base (GDT_ENTRY base limit acc flags)) n = bit (ucast base :: u32) n"
    unfolding seg_base_def GDT_ENTRY_def low_bits
    by (cases "n < 16"; cases "n < 24") (auto simp: bit_simps not_less)
qed

lemma small_bit: "n < 2 ^ k \<Longrightarrow> bit (of_nat n :: u64) i \<Longrightarrow> i < k"
  by (metis bit_take_bit_iff take_bit_nat_eq_self bit_of_nat_iff)

lemma small_bits:
  assumes "unat (a :: u64) < 2 ^ k" shows "bit a i \<Longrightarrow> i < k"
  using small_bit [OF assms] by simp

lemma GDT_ENTRY_limit:
  assumes "unat limit < 2 ^ 20"
  shows "entry_limit (GDT_ENTRY base limit acc flags) = ucast limit"
  unfolding entry_limit_def GDT_ENTRY_def low_bits
  by (rule bit_word_eqI) (auto simp: bit_simps not_le dest: small_bits [OF assms])

lemma GDT_ENTRY_flags:
  assumes "unat limit < 2 ^ 20" and "unat flags < 2 ^ 4"
  shows "entry_flags (GDT_ENTRY base limit acc flags) = ucast flags"
  unfolding entry_flags_def GDT_ENTRY_def
  by (rule bit_word_eqI) (auto simp: bit_simps not_le dest: small_bits [OF assms(1)] small_bits [OF assms(2)])

section \<open>Interrupt gates\<close>

definition IDT_TA_Interrupt :: u8 where "IDT_TA_Interrupt = 0x8e"
definition IDT_TA_SystemCall :: u8 where "IDT_TA_SystemCall = 0xee"

record idt_desc =
  offset0 :: u16
  selector :: u16
  ist :: u8
  type_attr :: u8
  offset1 :: u16
  offset2 :: u32
  idt_reserved :: u32

record idt =
  idt_size :: u16
  idt_offset :: u64

record cpu_idt =
  idt_descriptors :: "u8 \<Rightarrow> idt_desc"
  idtr :: idt

definition load_interrupt :: "u8 \<Rightarrow> u64 \<Rightarrow> u8 \<Rightarrow> cpu_idt \<Rightarrow> cpu_idt" where
  "load_interrupt vector callback attr c =
     (if callback = 0 then c
      else c\<lparr>idt_descriptors := (idt_descriptors c)(vector := (idt_descriptors c vector)
        \<lparr>offset0 := ucast (drop_bit 0 callback AND 0xffff),
         offset1 := ucast (drop_bit 16 callback AND 0xffff),
         offset2 := ucast (drop_bit 32 callback AND 0xffffffff),
         ist := 0, type_attr := attr, selector := 0x08\<rparr>)\<rparr>)"

text \<open>
  \<open>excs\<close> is the table \<^verbatim>\<open>__exception_interrupts\<close>, \<open>isr34\<close> and \<open>isr128\<close> are
  the addresses of the two entry points, \<open>addr_idt\<close> that of the table of gates.
\<close>

definition idt_initialize :: "u64 list \<Rightarrow> u64 \<Rightarrow> u64 \<Rightarrow> u64 \<Rightarrow> cpu_idt \<Rightarrow> cpu_idt" where
  "idt_initialize excs isr34 isr128 addr_idt c =
     (let c1 = fold (\<lambda>i. load_interrupt (of_nat i) (excs ! i) IDT_TA_Interrupt) [0..<31] c;
          c2 = load_interrupt 34 isr34 IDT_TA_Interrupt c1;
          c3 = load_interrupt 128 isr128 IDT_TA_SystemCall c2
      in c3\<lparr>idtr := \<lparr>idt_size = 0x1000 - 1, idt_offset = addr_idt\<rparr>\<rparr>)"

definition gate_target :: "idt_desc \<Rightarrow> u64" where
  "gate_target d = ucast (offset0 d) OR push_bit 16 (ucast (offset1 d)) OR push_bit 32 (ucast (offset2 d))"

definition gate_present :: "idt_desc \<Rightarrow> bool" where
  "gate_present d \<longleftrightarrow> bit (type_attr d) 7"

definition gate_user :: "idt_desc \<Rightarrow> bool" where
  "gate_user d \<longleftrightarrow> drop_bit 5 (type_attr d) AND 3 = 3"

lemma gate_of_load:
  "gate_target (d\<lparr>offset0 := ucast (drop_bit 0 a AND 0xffff), offset1 := ucast (drop_bit 16 a AND 0xffff),
     offset2 := ucast (drop_bit 32 a AND 0xffffffff), ist := i, type_attr := t, selector := s\<rparr>) = a"
proof (rule bit_word_eqI)
  fix n assume "n < LENGTH(64)"
  then show "bit (gate_target (d\<lparr>offset0 := ucast (drop_bit 0 a AND 0xffff),
      offset1 := ucast (drop_bit 16 a AND 0xffff), offset2 := ucast (drop_bit 32 a AND 0xffffffff),
      ist := i, type_attr := t, selector := s\<rparr>)) n = bit a n"
    unfolding gate_target_def low_bits
    by (cases "n < 16"; cases "n < 32") (auto simp: bit_simps not_less)
qed

lemma seg_base_x_tss:
  "seg_base_x \<lparr>lower_entry = GDT_ENTRY (a AND 0xffffffff) limit acc flags,
     base3 = ucast (drop_bit 32 a), reserved0 = r\<rparr> = a"
proof (rule bit_word_eqI)
  fix n assume "n < LENGTH(64)"
  then show "bit (seg_base_x \<lparr>lower_entry = GDT_ENTRY (a AND 0xffffffff) limit acc flags,
     base3 = ucast (drop_bit 32 a), reserved0 = r\<rparr>) n = bit a n"
    by (cases "n < 32") (auto simp: seg_base_x_def GDT_ENTRY_base low_bits bit_simps not_less)
qed

lemma load_interrupt_other: "w \<noteq> v \<Longrightarrow> idt_descriptors (load_interrupt v a t c) w = idt_descriptors c w"
  by (simp add: load_interrupt_def)

lemma load_interrupt_same:
  assumes "a \<noteq> 0"
  shows "gate_target (idt_descriptors (load_interrupt v a t c) v) = a"
    and "type_attr (idt_descriptors (load_interrupt v a t c) v) = t"
    and "selector (idt_descriptors (load_interrupt v a t c) v) = 0x08"
  using assms by (simp_all add: load_interrupt_def gate_of_load [simplified])

lemma small_u8: "n < 256 \<Longrightarrow> unat (of_nat n :: u8) = n"
  by (simp add: unat_of_nat)

lemma load_exceptions:
  assumes "n \<le> 31" and "\<forall>i<31. excs ! i \<noteq> 0"
  shows "let c' = fold (\<lambda>i. load_interrupt (of_nat i) (excs ! i) t) [0..<n] c in
    (\<forall>i<n. gate_target (idt_descriptors c' (of_nat i)) = excs ! i \<and>
      type_attr (idt_descriptors c' (of_nat i)) = t) \<and>
    (\<forall>v. n \<le> unat v \<longrightarrow> idt_descriptors c' v = idt_descriptors c v)"
  using assms(1)
proof (induction n)
  case 0
  then show ?case by simp
next
  case (Suc n)
  let ?f = "\<lambda>k. fold (\<lambda>i. load_interrupt (of_nat i) (excs ! i) t) [0..<k] c"
  have step: "?f (Suc n) = load_interrupt (of_nat n) (excs ! n) t (?f n)" by simp
  have ne: "(of_nat i :: u8) \<noteq> of_nat n" if "i < n" for i
    using that Suc.prems small_u8 [of i] small_u8 [of n] by auto
  have v: "v \<noteq> of_nat n" if "Suc n \<le> unat v" for v :: u8
    using that Suc.prems small_u8 [of n] by auto
  have "excs ! n \<noteq> 0" using assms(2) Suc.prems by simp
  note same = load_interrupt_same [OF this, of "of_nat n" t "?f n"]
  show ?case
    unfolding Let_def step
  proof (intro conjI allI impI)
    fix i assume "i < Suc n"
    then consider "i = n" | "i < n" by linarith
    then show "gate_target (idt_descriptors (load_interrupt (of_nat n) (excs ! n) t (?f n)) (of_nat i)) = excs ! i"
      and "type_attr (idt_descriptors (load_interrupt (of_nat n) (excs ! n) t (?f n)) (of_nat i)) = t"
      using same Suc ne by (cases; simp add: load_interrupt_other Let_def)+
  next
    fix w :: u8 assume "Suc n \<le> unat w"
    with Suc v [OF this] show "idt_descriptors (load_interrupt (of_nat n) (excs ! n) t (?f n)) w = idt_descriptors c w"
      by (simp add: load_interrupt_other Let_def)
  qed
qed

section \<open>Properties\<close>

text \<open>A descriptor built by \<^verbatim>\<open>GDT_ENTRY\<close> is read back by the processor: the base, the
  20 bits of the limit and the flags are those given, and the entry is present; the descriptor of
  the task state holds all 64 bits of its address.\<close>

theorem gdt_entry_roundtrip:
  assumes "unat limit < 2 ^ 20" and "unat flags < 2 ^ 4"
  shows "seg_base (GDT_ENTRY base limit acc flags) = ucast base \<and>
    entry_limit (GDT_ENTRY base limit acc flags) = ucast limit \<and>
    entry_flags (GDT_ENTRY base limit acc flags) = ucast flags \<and>
    bit (access (GDT_ENTRY base limit acc flags)) 7 \<and>
    seg_base_x (gdt_tss (seg_gdt (gdt_initialize addr_tss addr_gdt stack c))) = addr_tss"
proof -
  have "bit (access (GDT_ENTRY base limit acc flags)) 7"
    by (simp add: GDT_ENTRY_def DA_PRESENT_def bit_simps)
  moreover have "seg_base_x (gdt_tss (seg_gdt (gdt_initialize addr_tss addr_gdt stack c))) = addr_tss"
    by (simp add: gdt_initialize_def Let_def gdt_load_def tss_load_def seg_base_x_tss)
  ultimately show ?thesis
    using GDT_ENTRY_base GDT_ENTRY_limit [OF assms(1)] GDT_ENTRY_flags [OF assms] by blast
qed

theorem gdt_entry_roundtrip_witness:
  "entry_limit (user_code gdt_initial) = 0xfffff \<and> entry_flags (user_code gdt_initial) = 2"
proof -
  have "unat (0xfffff :: u64) < 2 ^ 20" "unat DF_LONG_GRAN < 2 ^ 4" by (simp_all add: DF_LONG_GRAN_def)
  note g = gdt_entry_roundtrip [OF this, of 0 "DA_RW OR DA_CODE_DATA OR DA_EXE OR DA_RING_3"]
  have "user_code gdt_initial = GDT_ENTRY 0 0xfffff (DA_RW OR DA_CODE_DATA OR DA_EXE OR DA_RING_3) DF_LONG_GRAN"
    by (simp add: gdt_initial_def)
  with g show ?thesis by (simp add: DF_LONG_GRAN_def)
qed

text \<open>C37: After \<^verbatim>\<open>idt_initialize\<close> the gates of the 31 exceptions, of the timer and of system
  calls lead to their entry points; user code may use the system call gate only, and no other vector
  is touched.\<close>

theorem idt_initialize_correct:
  assumes "\<forall>i<31. excs ! i \<noteq> 0" and "isr34 \<noteq> 0" and "isr128 \<noteq> 0"
  shows "let d = idt_descriptors (idt_initialize excs isr34 isr128 a c) in
    (\<forall>i<31. gate_target (d (of_nat i)) = excs ! i \<and> gate_present (d (of_nat i)) \<and>
      \<not> gate_user (d (of_nat i))) \<and>
    gate_target (d 34) = isr34 \<and> gate_present (d 34) \<and> \<not> gate_user (d 34) \<and>
    gate_target (d 128) = isr128 \<and> gate_present (d 128) \<and> gate_user (d 128) \<and>
    (\<forall>v. 31 \<le> unat v \<and> v \<noteq> 34 \<and> v \<noteq> 128 \<longrightarrow> d v = idt_descriptors c v)"
proof -
  define c1 where "c1 = fold (\<lambda>i. load_interrupt (of_nat i) (excs ! i) IDT_TA_Interrupt) [0..<31] c"
  define c2 where "c2 = load_interrupt 34 isr34 IDT_TA_Interrupt c1"
  define c3 where "c3 = load_interrupt 128 isr128 IDT_TA_SystemCall c2"
  have d: "idt_descriptors (idt_initialize excs isr34 isr128 a c) = idt_descriptors c3"
    by (simp add: idt_initialize_def Let_def c1_def c2_def c3_def)
  have le: "31 \<le> (31 :: nat)" by simp
  from load_exceptions [OF le assms(1), of IDT_TA_Interrupt c]
  have c1: "\<And>i. i < 31 \<Longrightarrow> gate_target (idt_descriptors c1 (of_nat i)) = excs ! i"
    "\<And>i. i < 31 \<Longrightarrow> type_attr (idt_descriptors c1 (of_nat i)) = IDT_TA_Interrupt"
    "\<And>v. 31 \<le> unat v \<Longrightarrow> idt_descriptors c1 v = idt_descriptors c v"
    unfolding c1_def Let_def by blast+
  have ne: "(of_nat i :: u8) \<noteq> 34 \<and> (of_nat i :: u8) \<noteq> 128" if "i < 31" for i
    using small_u8 [of i] that by auto
  have other: "idt_descriptors c3 v = idt_descriptors c1 v" if "v \<noteq> 34" "v \<noteq> 128" for v
    using that by (simp add: c3_def c2_def load_interrupt_other)
  have at34: "idt_descriptors c3 34 = idt_descriptors c2 34" by (simp add: c3_def load_interrupt_other)
  have int: "gate_present e \<and> \<not> gate_user e" if "type_attr e = IDT_TA_Interrupt" for e
    using that by (simp add: gate_present_def gate_user_def IDT_TA_Interrupt_def bit_iff_odd)
  have sys: "gate_present e \<and> gate_user e" if "type_attr e = IDT_TA_SystemCall" for e
    using that by (simp add: gate_present_def gate_user_def IDT_TA_SystemCall_def bit_iff_odd)
  show ?thesis
    unfolding Let_def d at34
    using c1 ne other int sys load_interrupt_same [OF assms(2), of 34 IDT_TA_Interrupt c1, folded c2_def]
      load_interrupt_same [OF assms(3), of 128 IDT_TA_SystemCall c2, folded c3_def]
    by simp
qed

theorem idt_initialize_correct_witness:
  "\<forall>c. gate_target (idt_descriptors (idt_initialize (map (\<lambda>i. 0xffffffff80000000 + of_nat i) [0..<31])
     0xffffffff80001000 0xffffffff80002000 0 c) 14) = 0xffffffff8000000e"
proof
  fix c
  let ?e = "map (\<lambda>i. 0xffffffff80000000 + of_nat i :: u64) [0..<31]"
  have "?e ! i \<noteq> 0" if "i < 31" for i
  proof -
    have "unat (0xffffffff80000000 + of_nat i :: u64) = 0xffffffff80000000 + i"
      using that by (simp add: unat_word_ariths unat_of_nat)
    then show ?thesis using that by auto
  qed
  then have e: "\<forall>i<31. ?e ! i \<noteq> 0" by blast
  have h: "(0xffffffff80001000 :: u64) \<noteq> 0" "(0xffffffff80002000 :: u64) \<noteq> 0" by simp_all
  have "\<forall>i<31. gate_target (idt_descriptors (idt_initialize ?e 0xffffffff80001000 0xffffffff80002000 0 c)
      (of_nat i)) = ?e ! i"
    using idt_initialize_correct [OF e h, of 0 c, unfolded Let_def] by blast
  from this [rule_format, of 14]
  show "gate_target (idt_descriptors (idt_initialize ?e 0xffffffff80001000 0xffffffff80002000 0 c) 14) =
    0xffffffff8000000e" by (simp del: upt_rec_numeral)
qed

end
