(* ===== verification/Sdt.thy ===== *)
theory Sdt
  imports Hw
begin

text \<open>
  The ACPI tables (\<^verbatim>\<open>sdt/sdt.c\<close>): their packed layout (\<^verbatim>\<open>sdt/sdt_structs.h\<close>) as
  accessors on the byte memory, the checksums, and the search for a table by its signature. The
  state gains the static variables of the file. A failed assertion ends in \<^verbatim>\<open>kernel_panic\<close>,
  which does not return (\<open>None\<close>).
\<close>

record sdt = hw +
  use_xsdt :: bool
  rsdt :: ptr
  xsdt :: ptr
  madt :: ptr
  hpet :: ptr
  mcfg :: ptr

section \<open>Layout\<close>

definition sizeof_sdt_header :: u64 where "sizeof_sdt_header = 36"
definition hdr_length :: "mem \<Rightarrow> ptr \<Rightarrow> u32" where "hdr_length m p = load32 m (p + 4)"

definition sizeof_rsdp :: u64 where "sizeof_rsdp = 36"
definition sizeof_rsdp_rev1 :: u64 where "sizeof_rsdp_rev1 = 16"
definition rsdp_oem_id :: "ptr \<Rightarrow> ptr" where "rsdp_oem_id p = p + 9"
definition rsdp_revision :: "mem \<Rightarrow> ptr \<Rightarrow> u8" where "rsdp_revision m p = m (p + 15)"
definition rsdp_rsdt_addr :: "mem \<Rightarrow> ptr \<Rightarrow> u32" where "rsdp_rsdt_addr m p = load32 m (p + 16)"
definition rsdp_length :: "mem \<Rightarrow> ptr \<Rightarrow> u32" where "rsdp_length m p = load32 m (p + 20)"
definition rsdp_xsdt_addr :: "mem \<Rightarrow> ptr \<Rightarrow> u64" where "rsdp_xsdt_addr m p = load64 m (p + 24)"

section \<open>The operations\<close>

definition byte_sum :: "mem \<Rightarrow> ptr \<Rightarrow> nat \<Rightarrow> u8" where
  "byte_sum m p len = fold (\<lambda>i sum. sum + m (p + of_nat i)) [0..<len] 0"

definition do_checksum_rsdp :: "mem \<Rightarrow> bool \<Rightarrow> ptr \<Rightarrow> bool" where
  "do_checksum_rsdp m use rsdp =
     (let len = (if use then ucast (rsdp_length m rsdp) else sizeof_rsdp - sizeof_rsdp_rev1) :: u64
      in byte_sum m rsdp (unat len) = 0)"

definition do_checksum_sdt :: "mem \<Rightarrow> ptr \<Rightarrow> bool" where
  "do_checksum_sdt m hdr = (byte_sum m hdr (unat (hdr_length m hdr)) = 0)"

text \<open>The address of the \<open>i\<close>-th table, and the number of tables.\<close>

definition sdt_entry :: "mem \<Rightarrow> bool \<Rightarrow> ptr \<Rightarrow> nat \<Rightarrow> ptr" where
  "sdt_entry m use root i =
     (if use then addr_ensure_higher (load64 m (root + sizeof_sdt_header + 8 * of_nat i))
      else addr_ensure_higher (ucast (load32 m (root + sizeof_sdt_header + 4 * of_nat i))))"

definition num_sdts :: "mem \<Rightarrow> bool \<Rightarrow> ptr \<Rightarrow> u64" where
  "num_sdts m use root =
     (ucast (hdr_length m root) - sizeof_sdt_header) div (if use then 8 else 4)"

fun find_sdt_loop :: "mem \<Rightarrow> bool \<Rightarrow> ptr \<Rightarrow> ptr \<Rightarrow> nat list \<Rightarrow> ptr option" where
  "find_sdt_loop m use root signature [] = Some 0"
| "find_sdt_loop m use root signature (i # is) =
     (let hdr = sdt_entry m use root i in
      do { r \<leftarrow> strncmp m signature hdr 4;
           if r = 0 then Some hdr else find_sdt_loop m use root signature is })"

definition find_sdt :: "'z sdt_scheme \<Rightarrow> ptr \<Rightarrow> ptr option" where
  "find_sdt s signature =
     (let root = (if use_xsdt s then xsdt s else rsdt s);
          n = num_sdts (kmem s) (use_xsdt s) root
      in find_sdt_loop (kmem s) (use_xsdt s) root signature [0..<unat n])"

text \<open>\<open>lit\<close> gives the addresses of the string literals.\<close>

definition load_table ::
  "(string \<Rightarrow> ptr) \<Rightarrow> string \<Rightarrow> 'z sdt_scheme \<Rightarrow> ptr option" where
  "load_table lit name s =
     do { t \<leftarrow> find_sdt s (lit name);
          if t \<noteq> 0 \<and> do_checksum_sdt (kmem s) t then Some t else None }"

definition sdt_root :: "ptr \<Rightarrow> 'z sdt_scheme \<Rightarrow> 'z sdt_scheme option" where
  "sdt_root rsdp s =
     (if use_xsdt s then
        let x = addr_ensure_higher (rsdp_xsdt_addr (kmem s) rsdp) in
        if do_checksum_sdt (kmem s) x
        then Some (kprintf KMSG_LOGLEVEL_INFO ''Using xsdt at %a\<newline>'' [x] (s\<lparr>xsdt := x\<rparr>)) else None
      else
        let r = addr_ensure_higher (ucast (rsdp_rsdt_addr (kmem s) rsdp)) in
        if do_checksum_sdt (kmem s) r
        then Some (kprintf KMSG_LOGLEVEL_INFO ''Using rsdt at %a\<newline>'' [r] (s\<lparr>rsdt := r\<rparr>)) else None)"

definition sdt_initialize :: "(string \<Rightarrow> ptr) \<Rightarrow> ptr \<Rightarrow> 'z sdt_scheme \<Rightarrow> 'z sdt_scheme option" where
  "sdt_initialize lit rsdp s =
     (let s = kprintf KMSG_LOGLEVEL_INFO ''Reached target sdt.\<newline>'' [] s;
          s = kprintf KMSG_LOGLEVEL_INFO ''rsdp is at %a\<newline>'' [rsdp] s;
          s = s\<lparr>use_xsdt := rsdp_revision (kmem s) rsdp > 0\<rparr>
      in if \<not> do_checksum_rsdp (kmem s) (use_xsdt s) rsdp then None
      else
        let s = kprintf KMSG_LOGLEVEL_INFO ''rsdp signature='' [] s;
            s = log_msg (Putsn rsdp 7) s;
            s = log_msg (Puts '', oemid='') s;
            s = log_msg (Putsn (rsdp_oem_id rsdp) 5) s;
            s = kprintf KMSG_LOGLEVEL_NONE '', revision=%x\<newline>'' [ucast (rsdp_revision (kmem s) rsdp)] s
        in do { s \<leftarrow> sdt_root rsdp s;
                t \<leftarrow> load_table lit ''APIC'' s;
                let s = kprintf KMSG_LOGLEVEL_INFO ''MADT at %a\<newline>'' [t] (s\<lparr>madt := t\<rparr>);
                t \<leftarrow> load_table lit ''HPET'' s;
                let s = kprintf KMSG_LOGLEVEL_INFO ''HPET at %a\<newline>'' [t] (s\<lparr>hpet := t\<rparr>);
                t \<leftarrow> load_table lit ''MCFG'' s;
                let s = kprintf KMSG_LOGLEVEL_INFO ''MCFG at %a\<newline>'' [t] (s\<lparr>mcfg := t\<rparr>);
                Some (kprintf KMSG_LOGLEVEL_OKAY ''Finished target sdt.\<newline>'' [] s) })"

section \<open>Checksums\<close>

lemma byte_sum_eq: "byte_sum m p n = (\<Sum>i<n. m (p + of_nat i))"
  by (induction n) (simp_all add: byte_sum_def)

section \<open>Signatures\<close>

lemma unat_pred: "n \<noteq> 0 \<Longrightarrow> unat (n - 1 :: u64) = unat n - 1"
  by (rule unat_minus_one)

text \<open>Comparing as many characters as a string has compares just its bytes.\<close>

lemma strncmp_prefix:
  "cstring m p xs \<Longrightarrow> xs \<noteq> [] \<Longrightarrow> unat n = length xs \<Longrightarrow>
   \<exists>r. strncmp m p q n = Some r \<and> (r = 0 \<longleftrightarrow> (\<forall>i<length xs. m (q + of_nat i) = xs ! i))"
proof (induction xs arbitrary: p q n)
  case (Cons x xs)
  have c: "m p = x" "x \<noteq> 0" "cstring m (p + 1) xs" using Cons.prems(1) by (simp_all add: cstring_Cons)
  have n0: "n \<noteq> 0" using Cons.prems(3) by auto
  then have n: "n \<noteq> 0" "unat (n - 1) = length xs" using Cons.prems(3) unat_pred [of n] by simp_all
  have split: "(\<forall>i<length (x # xs). m (q + of_nat i) = (x # xs) ! i) \<longleftrightarrow>
      m q = x \<and> (\<forall>i<length xs. m (q + 1 + of_nat i) = xs ! i)"
    by (auto simp: less_Suc_eq_0_disj add.assoc all_conj_distrib)
  have sint: "sint (m p) - sint (m q) = 0 \<longleftrightarrow> m p = m q" by (auto intro: signed_word_eqI)
  show ?case
  proof (cases "m q = x \<and> xs \<noteq> []")
    case True
    then have "n - 1 \<noteq> 0" using n by auto
    then have "strncmp m p q n = strncmp m (p + 1) (q + 1) (n - 1)"
      using True c by (subst strncmp.simps) simp
    with Cons.IH [OF c(3) _ n(2), of "q + 1"] True split show ?thesis by simp
  next
    case False
    have "\<not> (m p \<noteq> 0 \<and> m p = m q \<and> n - 1 \<noteq> 0)"
    proof
      assume a: "m p \<noteq> 0 \<and> m p = m q \<and> n - 1 \<noteq> 0"
      with False c have "xs = []" by auto
      with n(2) have "n - 1 = 0" by (simp add: unat_eq_zero)
      with a show False by simp
    qed
    then have "strncmp m p q n = Some (sint (m p) - sint (m q))" by (subst strncmp.simps) auto
    moreover have "(m q = x \<and> (\<forall>i<length xs. m (q + 1 + of_nat i) = xs ! i)) \<longleftrightarrow> m p = m q"
      using False c by auto
    ultimately show ?thesis using sint split by simp
  qed
qed simp

text \<open>The search, by a reference definition: the first table whose signature is the one asked for.\<close>

definition signed :: "mem \<Rightarrow> u8 list \<Rightarrow> ptr \<Rightarrow> bool" where
  "signed m xs t \<longleftrightarrow> (\<forall>i<length xs. m (t + of_nat i) = xs ! i)"

definition table_of :: "mem \<Rightarrow> bool \<Rightarrow> ptr \<Rightarrow> u8 list \<Rightarrow> ptr" where
  "table_of m use root xs =
     (case find (\<lambda>i. signed m xs (sdt_entry m use root i)) [0..<unat (num_sdts m use root)] of
        None \<Rightarrow> 0 | Some i \<Rightarrow> sdt_entry m use root i)"

lemma find_sdt_loop_find:
  assumes "cstring m sig xs" and "length xs = 4"
  shows "find_sdt_loop m use root sig is =
    Some (case find (\<lambda>i. signed m xs (sdt_entry m use root i)) is of
      None \<Rightarrow> 0 | Some i \<Rightarrow> sdt_entry m use root i)"
proof (induction "is")
  case (Cons i "is")
  have "xs \<noteq> []" "unat (4 :: u64) = length xs" using assms(2) by auto
  from strncmp_prefix [OF assms(1) this, of "sdt_entry m use root i"] Cons
  show ?case by (auto simp: signed_def Let_def)
qed simp

definition root_of :: "'z sdt_scheme \<Rightarrow> ptr" where
  "root_of s = (if use_xsdt s then xsdt s else rsdt s)"

lemma find_sdt_table_of:
  assumes "cstring (kmem s) sig xs" and "length xs = 4"
  shows "find_sdt s sig = Some (table_of (kmem s) (use_xsdt s) (root_of s) xs)"
  using find_sdt_loop_find [OF assms]
  by (simp add: find_sdt_def Let_def table_of_def root_of_def)

definition good_table :: "mem \<Rightarrow> ptr \<Rightarrow> bool" where
  "good_table m t \<longleftrightarrow> t \<noteq> 0 \<and> (\<Sum>i<unat (hdr_length m t). m (t + of_nat i)) = 0"

lemma checksum_eq: "do_checksum_sdt m t \<longleftrightarrow> (\<Sum>i<unat (hdr_length m t). m (t + of_nat i)) = 0"
  by (simp add: do_checksum_sdt_def byte_sum_eq)

lemma load_table_eq:
  assumes "cstring (kmem s) (lit name) xs" and "length xs = 4"
  shows "load_table lit name s =
    (let t = table_of (kmem s) (use_xsdt s) (root_of s) xs in
     if good_table (kmem s) t then Some t else None)"
  using find_sdt_table_of [OF assms] by (simp add: load_table_def Let_def good_table_def checksum_eq)

text \<open>What the firmware must provide: a valid root pointer, a valid root table and the three tables.\<close>

definition root_table :: "mem \<Rightarrow> ptr \<Rightarrow> ptr" where
  "root_table m rsdp = (if rsdp_revision m rsdp > 0 then addr_ensure_higher (rsdp_xsdt_addr m rsdp)
     else addr_ensure_higher (ucast (rsdp_rsdt_addr m rsdp)))"

definition firmware_table :: "mem \<Rightarrow> ptr \<Rightarrow> u8 list \<Rightarrow> ptr" where
  "firmware_table m rsdp xs = table_of m (rsdp_revision m rsdp > 0) (root_table m rsdp) xs"

definition firmware_ok :: "mem \<Rightarrow> ptr \<Rightarrow> bool" where
  "firmware_ok m rsdp \<longleftrightarrow>
     (\<Sum>i<(if rsdp_revision m rsdp > 0 then unat (rsdp_length m rsdp) else 20). m (rsdp + of_nat i)) = 0 \<and>
     do_checksum_sdt m (root_table m rsdp) \<and>
     (\<forall>xs\<in>{[0x41, 0x50, 0x49, 0x43], [0x48, 0x50, 0x45, 0x54], [0x4d, 0x43, 0x46, 0x47]}.
       good_table m (firmware_table m rsdp xs))"

section \<open>Properties\<close>

text \<open>C29: Initialisation returns exactly when the firmware's root pointer, root table and the APIC,
  HPET and MCFG tables are there with valid checksums, and then the three pointers are the first
  tables with those signatures; in every other case the kernel panics.\<close>

theorem sdt_initialize_correct:
  assumes lits: "cstring (kmem s) (lit ''APIC'') [0x41, 0x50, 0x49, 0x43]"
      "cstring (kmem s) (lit ''HPET'') [0x48, 0x50, 0x45, 0x54]"
      "cstring (kmem s) (lit ''MCFG'') [0x4d, 0x43, 0x46, 0x47]"
  shows "if firmware_ok (kmem s) rsdp
    then \<exists>s'. sdt_initialize lit rsdp s = Some s' \<and> kmem s' = kmem s \<and>
      madt s' = firmware_table (kmem s) rsdp [0x41, 0x50, 0x49, 0x43] \<and>
      hpet s' = firmware_table (kmem s) rsdp [0x48, 0x50, 0x45, 0x54] \<and>
      mcfg s' = firmware_table (kmem s) rsdp [0x4d, 0x43, 0x46, 0x47]
    else sdt_initialize lit rsdp s = None"
proof -
  let ?use = "rsdp_revision (kmem s) rsdp > 0"
  have len: "unat (if use then ucast (rsdp_length (kmem s) rsdp) else sizeof_rsdp - sizeof_rsdp_rev1 :: u64) =
      (if use then unat (rsdp_length (kmem s) rsdp) else 20)" for use
    by (simp add: sizeof_rsdp_def sizeof_rsdp_rev1_def)
  have fields: "use_xsdt (log_msg k t) = use_xsdt t" "xsdt (log_msg k t) = xsdt t"
    "rsdt (log_msg k t) = rsdt t" "madt (log_msg k t) = madt t" "hpet (log_msg k t) = hpet t"
    "mcfg (log_msg k t) = mcfg t" for k and t :: "'a sdt_scheme"
    by (simp_all add: log_msg_def)
  have cs: "do_checksum_rsdp (kmem s) use rsdp \<longleftrightarrow>
      (\<Sum>i<(if use then unat (rsdp_length (kmem s) rsdp) else 20). kmem s (rsdp + of_nat i)) = 0" for use
    unfolding do_checksum_rsdp_def Let_def byte_sum_eq len ..
  have load: "load_table lit name t =
      (let u = firmware_table (kmem s) rsdp xs in if good_table (kmem s) u then Some u else None)"
    if "cstring (kmem s) (lit name) xs" "length xs = 4" "kmem t = kmem s" "use_xsdt t = ?use"
      "root_of t = root_table (kmem s) rsdp" for name xs and t :: "'a sdt_scheme"
    using load_table_eq [of t lit name xs] that by (simp add: firmware_table_def)
  show ?thesis
    unfolding sdt_initialize_def Let_def kprintf_def sdt_root_def firmware_ok_def
    using lits by (cases ?use) (auto simp: fields cs load root_of_def root_table_def)
qed

text \<open>A firmware image with a root pointer of revision 0, a root table and the three tables.\<close>

definition firmware_example :: "u8 list" where
  "firmware_example =
    [0, 0, 0, 0, 0, 0, 0, 0, 224, 0, 0, 0, 0, 0, 0, 0, 32, 0, 0, 0, 0, 0, 0, 0,
     0, 0, 0, 0, 0, 0, 0, 0, 0, 0, 0, 0, 48, 0, 0, 0, 0, 128, 0, 0, 0, 0, 0, 0,
     0, 0, 0, 0, 0, 0, 0, 0, 0, 0, 0, 0, 0, 0, 0, 0, 0, 0, 0, 0, 96, 0, 0, 0,
     112, 0, 0, 0, 128, 0, 0, 0, 0, 0, 0, 0, 0, 0, 0, 0, 0, 0, 0, 0, 0, 0, 0, 0,
     65, 80, 73, 67, 10, 0, 0, 0, 0, 217, 0, 0, 0, 0, 0, 0, 72, 80, 69, 84, 10, 0, 0, 0,
     0, 197, 0, 0, 0, 0, 0, 0, 77, 67, 70, 71, 10, 0, 0, 0, 0, 217, 0, 0, 0, 0, 0, 0,
     65, 80, 73, 67, 0, 0, 0, 0, 72, 80, 69, 84, 0, 0, 0, 0, 77, 67, 70, 71, 0, 0, 0, 0]"

definition firmware_mem :: mem where
  "firmware_mem a = (let k = unat (a - 0xffff800000000000) in
     if k < 168 then firmware_example ! k else 0)"

definition lit_example :: "string \<Rightarrow> ptr" where
  "lit_example name = (if name = ''APIC'' then 0xffff800000000090
     else if name = ''HPET'' then 0xffff800000000098 else 0xffff8000000000a0)"

lemma firmware_sums:
  "(\<Sum>i<20. firmware_mem (0xffff800000000000 + of_nat i)) = 0"
  "(\<Sum>i<48. firmware_mem (0xffff800000000020 + of_nat i)) = 0"
  "(\<Sum>i<10. firmware_mem (0xffff800000000060 + of_nat i)) = 0"
  "(\<Sum>i<10. firmware_mem (0xffff800000000070 + of_nat i)) = 0"
  "(\<Sum>i<10. firmware_mem (0xffff800000000080 + of_nat i)) = 0"
  by (simp_all add: firmware_mem_def firmware_example_def lessThan_nat_numeral)

definition sdt_example :: sdt where
  "sdt_example = \<lparr>kmem = firmware_mem, page_bitmap = \<lparr>bm_buf = 0, bm_len = 0\<rparr>, last_free = 0,
     free_memory = 0, total_memory = 0, kernel_table = 0, cr3 = 0, invlpg = [], io_trace = [], klog = [],
     use_xsdt = False, rsdt = 0, xsdt = 0, madt = 0, hpet = 0, mcfg = 0\<rparr>"

lemma firmware_tables:
  "root_table firmware_mem 0xffff800000000000 = 0xffff800000000020"
  "rsdp_revision firmware_mem 0xffff800000000000 = 0"
  "firmware_table firmware_mem 0xffff800000000000 [0x41, 0x50, 0x49, 0x43] = 0xffff800000000060"
  "firmware_table firmware_mem 0xffff800000000000 [0x48, 0x50, 0x45, 0x54] = 0xffff800000000070"
  "firmware_table firmware_mem 0xffff800000000000 [0x4d, 0x43, 0x46, 0x47] = 0xffff800000000080"
proof -
  show r: "root_table firmware_mem 0xffff800000000000 = 0xffff800000000020"
    "rsdp_revision firmware_mem 0xffff800000000000 = 0"
    by (simp_all add: root_table_def rsdp_revision_def rsdp_rsdt_addr_def load32_def firmware_mem_def
        firmware_example_def addr_ensure_higher_def VADDR_HIGHER_def)
  have n: "num_sdts firmware_mem False 0xffff800000000020 = 3"
    by (simp add: num_sdts_def hdr_length_def load32_def firmware_mem_def firmware_example_def sizeof_sdt_header_def)
  have e: "sdt_entry firmware_mem False 0xffff800000000020 0 = 0xffff800000000060"
    "sdt_entry firmware_mem False 0xffff800000000020 1 = 0xffff800000000070"
    "sdt_entry firmware_mem False 0xffff800000000020 2 = 0xffff800000000080"
    by (simp_all add: sdt_entry_def load32_def firmware_mem_def firmware_example_def
        sizeof_sdt_header_def addr_ensure_higher_def VADDR_HIGHER_def)
  have l: "[0..<3] = [0, 1, 2 :: nat]" by (simp add: upt_rec)
  have all4: "signed m [a, b, c, d] t \<longleftrightarrow> m t = a \<and> m (t + 1) = b \<and> m (t + 2) = c \<and> m (t + 3) = d"
    for m a b c d t
    by (auto simp: signed_def All_less_Suc numeral_eq_Suc)
  show "firmware_table firmware_mem 0xffff800000000000 [0x41, 0x50, 0x49, 0x43] = 0xffff800000000060"
    "firmware_table firmware_mem 0xffff800000000000 [0x48, 0x50, 0x45, 0x54] = 0xffff800000000070"
    "firmware_table firmware_mem 0xffff800000000000 [0x4d, 0x43, 0x46, 0x47] = 0xffff800000000080"
    by (simp_all add: firmware_table_def r table_of_def n l e e(2) [unfolded One_nat_def] all4
        firmware_mem_def firmware_example_def)
qed

lemma firmware_example_ok: "firmware_ok firmware_mem 0xffff800000000000"
proof -
  have len: "hdr_length firmware_mem 0xffff800000000020 = 48" "hdr_length firmware_mem 0xffff800000000060 = 10"
    "hdr_length firmware_mem 0xffff800000000070 = 10" "hdr_length firmware_mem 0xffff800000000080 = 10"
    by (simp_all add: hdr_length_def load32_def firmware_mem_def firmware_example_def)
  show ?thesis
    using firmware_sums by (simp add: firmware_ok_def firmware_tables checksum_eq good_table_def len)
qed

theorem sdt_initialize_correct_witness:
  "\<exists>s'. sdt_initialize lit_example 0xffff800000000000 sdt_example = Some s' \<and>
    madt s' = 0xffff800000000060 \<and> hpet s' = 0xffff800000000070 \<and> mcfg s' = 0xffff800000000080"
proof -
  have m: "kmem sdt_example = firmware_mem" by (simp add: sdt_example_def)
  have "cstring (kmem sdt_example) (lit_example ''APIC'') [0x41, 0x50, 0x49, 0x43]"
    "cstring (kmem sdt_example) (lit_example ''HPET'') [0x48, 0x50, 0x45, 0x54]"
    "cstring (kmem sdt_example) (lit_example ''MCFG'') [0x4d, 0x43, 0x46, 0x47]"
    by (simp_all add: m cstring_Cons cstring_Nil lit_example_def firmware_mem_def firmware_example_def)
  from sdt_initialize_correct [OF this, of "0xffff800000000000"] firmware_example_ok
  show ?thesis by (auto simp: m firmware_tables)
qed

end
