(* ===== verification/Apic.thy ===== *)
theory Apic
  imports Sdt Pic
begin

text \<open>
  The interrupt controllers (\<^verbatim>\<open>interrupts/apic.c\<close>): reading the controllers and source overrides
  from the MADT, programming the redirection table of the I/O APIC through its index and data
  registers, and the local APIC. The state gains the static variables of the file and
  \<^verbatim>\<open>cpuinfo.core_count\<close>. The arrays \<^verbatim>\<open>ioapics[8]\<close> and \<^verbatim>\<open>isos[24]\<close> with their counters
  are lists; a store behind their end is undefined (\<open>None\<close>).
\<close>

record madt_entry_ioapic =
  ioapic_id :: u8
  ioapic_addr :: u32
  gsib :: u32

record madt_entry_iso =
  bus_source :: u8
  irq_source :: u8
  gsi :: u32
  iso_flags :: u16

record apic = sdt +
  ioapics :: "madt_entry_ioapic list"
  isos :: "madt_entry_iso list"
  lapic_mmio_regs :: ptr
  core_count :: u16

definition LAPIC_REG_ID :: u64 where "LAPIC_REG_ID = 0x08"
definition LAPIC_REG_EOI :: u64 where "LAPIC_REG_EOI = 0x2c"
definition LAPIC_REG_SIVR :: u64 where "LAPIC_REG_SIVR = 0x3c"
definition MET_LAPIC :: u8 where "MET_LAPIC = 0x0"
definition MET_IOAPIC :: u8 where "MET_IOAPIC = 0x1"
definition MET_ISO :: u8 where "MET_ISO = 0x2"

definition load_ioapic :: "mem \<Rightarrow> ptr \<Rightarrow> madt_entry_ioapic" where
  "load_ioapic m p =
     \<lparr>ioapic_id = m (p + 2), ioapic_addr = load32 m (p + 4), gsib = load32 m (p + 8)\<rparr>"

definition load_iso :: "mem \<Rightarrow> ptr \<Rightarrow> madt_entry_iso" where
  "load_iso m p =
     \<lparr>bus_source = m (p + 2), irq_source = m (p + 3), gsi = load32 m (p + 4),
      iso_flags = load16 m (p + 8)\<rparr>"

definition madt_entry_type :: "mem \<Rightarrow> ptr \<Rightarrow> u8" where "madt_entry_type m p = m p"
definition madt_record_length :: "mem \<Rightarrow> ptr \<Rightarrow> u8" where "madt_record_length m p = m (p + 1)"
definition sizeof_madt :: u64 where "sizeof_madt = 44"
definition madt_local_apic :: "mem \<Rightarrow> ptr \<Rightarrow> u32" where "madt_local_apic m p = load32 m (p + 36)"
definition madt_flags :: "mem \<Rightarrow> ptr \<Rightarrow> u32" where "madt_flags m p = load32 m (p + 40)"

section \<open>Reading the MADT\<close>

definition parse_madt_entry :: "ptr \<Rightarrow> 'z apic_scheme \<Rightarrow> (u64 \<times> 'z apic_scheme) option" where
  "parse_madt_entry hdr s =
     (let t = madt_entry_type (kmem s) hdr; n = ucast (madt_record_length (kmem s) hdr) in
      if t = MET_LAPIC then Some (n, s\<lparr>core_count := core_count s + 1\<rparr>)
      else if t = MET_IOAPIC then
        (if length (ioapics s) < 8 then Some (n, s\<lparr>ioapics := ioapics s @ [load_ioapic (kmem s) hdr]\<rparr>)
         else None)
      else if t = MET_ISO then
        (if length (isos s) < 24 then Some (n, s\<lparr>isos := isos s @ [load_iso (kmem s) hdr]\<rparr>)
         else None)
      else Some (n, s))"

partial_function (option) parse_madt ::
  "ptr \<Rightarrow> u64 \<Rightarrow> u64 \<Rightarrow> 'z apic_scheme \<Rightarrow> 'z apic_scheme option" where
  "parse_madt tab record_size offset s =
     (if offset < record_size
      then Option.bind (parse_madt_entry (tab + sizeof_madt + offset) s)
             (\<lambda>(n, s'). parse_madt tab record_size (offset + n) s')
      else Some s)"

section \<open>The I/O APIC\<close>

text \<open>The index register selects the register that the data register accesses.\<close>

definition ioregsel :: "madt_entry_ioapic \<Rightarrow> ptr" where
  "ioregsel a = addr_ensure_higher (ucast (ioapic_addr a + 0x00))"

definition iowin :: "madt_entry_ioapic \<Rightarrow> ptr" where
  "iowin a = addr_ensure_higher (ucast (ioapic_addr a + 0x10))"

definition ioapic_register_write :: "u32 \<Rightarrow> u8 \<Rightarrow> u32 \<Rightarrow> 'z apic_scheme \<Rightarrow> 'z apic_scheme" where
  "ioapic_register_write aid off val s =
     fold (\<lambda>a s. if ucast (ioapic_id a) = aid
                 then io_write (Write32 (iowin a) val) (io_write (Write32 (ioregsel a) (ucast off)) s)
                 else s) (ioapics s) s"

definition ioapic_register_read ::
  "device \<Rightarrow> u32 \<Rightarrow> u8 \<Rightarrow> 'z apic_scheme \<Rightarrow> u32 \<times> 'z apic_scheme" where
  "ioapic_register_read dev aid off s =
     (case find (\<lambda>a. ucast (ioapic_id a) = aid) (ioapics s) of
        None \<Rightarrow> (0, s)
      | Some a \<Rightarrow>
          let (v, s') = io_read dev (Read32 (iowin a)) (io_write (Write32 (ioregsel a) (ucast off)) s)
          in (ucast v, s'))"

text \<open>
  \<^verbatim>\<open>struct ioredtbl\<close> is not packed: its fourth byte is padding and \<^verbatim>\<open>reserved0\<close> follows in
  bytes 4 to 7; \<^verbatim>\<open>destination\<close> is at byte 8, behind the eight bytes that are written.
\<close>

record ioredtbl =
  vector :: u8
  conf :: u8
  msk :: u8
  padding :: u8
  reserved0 :: u32
  destination :: u8

definition ioredtbl_word :: "ioredtbl \<Rightarrow> u64" where
  "ioredtbl_word t =
     ucast (vector t) OR push_bit 8 (ucast (conf t)) OR push_bit 16 (ucast (msk t)) OR
     push_bit 24 (ucast (padding t)) OR push_bit 32 (ucast (reserved0 t))"

definition IOREDTBL_OFFSET :: "u8 \<Rightarrow> u8" where
  "IOREDTBL_OFFSET n = 0x10 + n * 2"

definition ioapic_ioredtbl_write :: "u32 \<Rightarrow> u8 \<Rightarrow> ioredtbl \<Rightarrow> 'z apic_scheme \<Rightarrow> 'z apic_scheme" where
  "ioapic_ioredtbl_write aid irq tbl s =
     (let table = ioredtbl_word tbl;
          s1 = ioapic_register_write aid (IOREDTBL_OFFSET irq + 0) (ucast (drop_bit 0 table)) s
      in ioapic_register_write aid (IOREDTBL_OFFSET irq + 1) (ucast (drop_bit 32 table)) s1)"

section \<open>Initialisation\<close>

definition DEL_MODE_FIXED :: u64 where "DEL_MODE_FIXED = 0"
definition DEST_MODE_PHYSICAL :: u64 where "DEST_MODE_PHYSICAL = 0"
definition POLARITY_ACTIVE_HIGH :: u64 where "POLARITY_ACTIVE_HIGH = 0"
definition POLARITY_ACTIVE_LOW :: u64 where "POLARITY_ACTIVE_LOW = 0x20"
definition TRIGGER_EDGE :: u64 where "TRIGGER_EDGE = 0"
definition TRIGGER_LEVEL :: u64 where "TRIGGER_LEVEL = 0x80"

definition iso_conf :: "madt_entry_iso \<Rightarrow> u8" where
  "iso_conf ov =
     ucast (DEL_MODE_FIXED OR DEST_MODE_PHYSICAL OR
            (if iso_flags ov AND 0x2 \<noteq> 0 then POLARITY_ACTIVE_LOW else POLARITY_ACTIVE_HIGH) OR
            (if iso_flags ov AND 0x8 \<noteq> 0 then TRIGGER_LEVEL else TRIGGER_EDGE))"

text \<open>
  The local variable \<^verbatim>\<open>tbl\<close> is not initialised: \<open>junk i\<close> is what its padding byte and its
  reserved word hold in round \<open>i\<close>.
\<close>

definition iso_table :: "(nat \<Rightarrow> u8 \<times> u32) \<Rightarrow> u32 \<Rightarrow> nat \<Rightarrow> madt_entry_iso \<Rightarrow> ioredtbl" where
  "iso_table junk bsp i ov =
     \<lparr>vector = ucast (gsi ov + 32), conf = iso_conf ov, msk = 0, padding = fst (junk i),
      reserved0 = snd (junk i), destination = ucast bsp\<rparr>"

definition redirect ::
  "(nat \<Rightarrow> u8 \<times> u32) \<Rightarrow> u32 \<Rightarrow> nat \<Rightarrow> 'z apic_scheme \<Rightarrow> 'z apic_scheme" where
  "redirect junk bsp i s =
     (let ov = isos s ! i;
          s = kprintf KMSG_LOGLEVEL_INFO
            ''Setting up redirection entry in IOAPIC %d with IRQ source %d and GSI %d (flags %x)\<newline>''
            [ucast bsp, ucast (irq_source ov), ucast (gsi ov), ucast (iso_flags ov)] s
      in ioapic_ioredtbl_write (ucast (ioapic_id (ioapics s ! 0))) (ucast (gsi ov))
           (iso_table junk bsp i ov) s)"

definition lapic_or :: "device \<Rightarrow> u64 \<Rightarrow> u32 \<Rightarrow> 'z apic_scheme \<Rightarrow> 'z apic_scheme" where
  "lapic_or dev reg val s =
     (let (v, s') = io_read dev (Read32 (lapic_mmio_regs s + 4 * reg)) s
      in io_write (Write32 (lapic_mmio_regs s + 4 * reg) (ucast v OR val)) s')"

definition apic_initialize ::
  "device \<Rightarrow> (io list \<Rightarrow> u64) \<Rightarrow> (nat \<Rightarrow> u8 \<times> u32) \<Rightarrow> ptr \<Rightarrow> 'z apic_scheme \<Rightarrow> 'z apic_scheme option" where
  "apic_initialize dev rsi junk tab s =
     (let s = kprintf KMSG_LOGLEVEL_INFO ''Reached target apic.\<newline>'' [] s;
          s = s\<lparr>lapic_mmio_regs := addr_ensure_higher (ucast (madt_local_apic (kmem s) tab))\<rparr>;
          s = kprintf KMSG_LOGLEVEL_INFO ''madt at %a, lapic addr=%a, flags=%x\<newline>''
                [tab, lapic_mmio_regs s, ucast (madt_flags (kmem s) tab)] s;
          s = pic_initialize dev rsi s;
          record_size = ucast (hdr_length (kmem s) tab) - sizeof_madt;
          s = s\<lparr>core_count := 0\<rparr>
      in do { s \<leftarrow> parse_madt tab record_size 0 s;
              if ioapics s = [] then None
              else
                let (v, s) = io_read dev (Read32 (lapic_mmio_regs s + 4 * LAPIC_REG_ID)) s;
                    bsp = ucast v :: u32;
                    s = kprintf KMSG_LOGLEVEL_INFO ''%d cores detected. BSP lapic id=%d\<newline>''
                          [scast (core_count s), ucast bsp] s;
                    s = fold (redirect junk bsp) [0..<length (isos s)] s;
                    s = lapic_or dev LAPIC_REG_SIVR 0xff s;
                    s = lapic_or dev LAPIC_REG_SIVR 0x100 s
                in Some (kprintf KMSG_LOGLEVEL_OKAY ''Finished target apic.\<newline>'' [] s) })"

definition apic_send_eoi :: "'z apic_scheme \<Rightarrow> 'z apic_scheme" where
  "apic_send_eoi s = io_write (Write32 (lapic_mmio_regs s + 4 * LAPIC_REG_EOI) 0) s"

section \<open>The records of the MADT\<close>

text \<open>\<open>madt_chain m base off n xs\<close>: the records start at the offsets \<open>xs\<close>, and the last ends at \<open>n\<close>
  or behind it.\<close>

fun madt_chain :: "mem \<Rightarrow> ptr \<Rightarrow> u64 \<Rightarrow> u64 \<Rightarrow> u64 list \<Rightarrow> bool" where
  "madt_chain m base off n [] \<longleftrightarrow> \<not> off < n"
| "madt_chain m base off n (x # xs) \<longleftrightarrow> off < n \<and> x = off \<and>
     madt_chain m base (off + ucast (madt_record_length m (base + off))) n xs"

definition of_type :: "mem \<Rightarrow> ptr \<Rightarrow> u8 \<Rightarrow> u64 list \<Rightarrow> ptr list" where
  "of_type m base t xs = filter (\<lambda>p. madt_entry_type m p = t) (map (\<lambda>x. base + x) xs)"

definition madt_fits :: "ptr \<Rightarrow> u64 list \<Rightarrow> 'z apic_scheme \<Rightarrow> bool" where
  "madt_fits base xs s \<longleftrightarrow>
     length (ioapics s) + length (of_type (kmem s) base MET_IOAPIC xs) \<le> 8 \<and>
     length (isos s) + length (of_type (kmem s) base MET_ISO xs) \<le> 24"

definition madt_parsed :: "ptr \<Rightarrow> u64 list \<Rightarrow> 'z apic_scheme \<Rightarrow> 'z apic_scheme" where
  "madt_parsed base xs s = s\<lparr>
     ioapics := ioapics s @ map (load_ioapic (kmem s)) (of_type (kmem s) base MET_IOAPIC xs),
     isos := isos s @ map (load_iso (kmem s)) (of_type (kmem s) base MET_ISO xs),
     core_count := core_count s + of_nat (length (of_type (kmem s) base MET_LAPIC xs))\<rparr>"

lemma of_type_Nil [simp]: "of_type m base t [] = []"
  by (simp add: of_type_def)

lemma of_type_Cons: "of_type m base t (x # xs) =
    (if madt_entry_type m (base + x) = t then [base + x] else []) @ of_type m base t xs"
  by (simp add: of_type_def)

lemma parse_madt_entry_cases:
  "parse_madt_entry (base + x) s =
    (if madt_fits base [x] s
     then Some (ucast (madt_record_length (kmem s) (base + x)), madt_parsed base [x] s) else None)"
  if "length (ioapics s) \<le> 8" "length (isos s) \<le> 24"
  using that by (auto simp: parse_madt_entry_def Let_def madt_fits_def madt_parsed_def of_type_Cons
      MET_LAPIC_def MET_IOAPIC_def MET_ISO_def)

lemma madt_parsed_simps [simp]:
  "kmem (madt_parsed base xs s) = kmem s"
  by (simp add: madt_parsed_def)

lemma madt_parsed_Cons: "madt_parsed base (x # xs) s = madt_parsed base xs (madt_parsed base [x] s)"
  by (simp add: madt_parsed_def of_type_Cons)

lemma madt_fits_Cons:
  "madt_fits base (x # xs) s \<longleftrightarrow> madt_fits base [x] s \<and> madt_fits base xs (madt_parsed base [x] s)"
  by (auto simp: madt_fits_def madt_parsed_def of_type_Cons)

lemma madt_fits_room:
  "madt_fits base [x] s \<Longrightarrow> length (ioapics (madt_parsed base [x] s)) \<le> 8 \<and> length (isos (madt_parsed base [x] s)) \<le> 24"
  by (simp add: madt_fits_def madt_parsed_def)

lemma parse_madt_chain:
  "madt_chain (kmem s) (tab + sizeof_madt) off n xs \<Longrightarrow> madt_fits (tab + sizeof_madt) xs s \<Longrightarrow>
   parse_madt tab n off s = Some (madt_parsed (tab + sizeof_madt) xs s)"
proof (induction xs arbitrary: off s)
  case Nil
  then show ?case by (subst parse_madt.simps) (simp add: madt_parsed_def)
next
  case (Cons x xs)
  have room: "length (ioapics s) \<le> 8" "length (isos s) \<le> 24" using Cons.prems(2) by (auto simp: madt_fits_def)
  from Cons show ?case
    by (subst parse_madt.simps)
      (simp add: parse_madt_entry_cases [OF room] madt_fits_Cons [of _ off xs] madt_parsed_Cons [of _ off xs])
qed

lemma parse_madt_returns:
  assumes "parse_madt tab n off s = Some s'" and "length (ioapics s) \<le> 8" "length (isos s) \<le> 24"
  shows "\<exists>xs. madt_chain (kmem s) (tab + sizeof_madt) off n xs \<and> madt_fits (tab + sizeof_madt) xs s"
proof -
  have "length (ioapics s) \<le> 8 \<longrightarrow> length (isos s) \<le> 24 \<longrightarrow>
      (\<exists>xs. madt_chain (kmem s) (tab + sizeof_madt) off n xs \<and> madt_fits (tab + sizeof_madt) xs s)"
  proof (rule parse_madt.raw_induct [where P = "\<lambda>tab n off s s'.
      length (ioapics s) \<le> 8 \<longrightarrow> length (isos s) \<le> 24 \<longrightarrow>
      (\<exists>xs. madt_chain (kmem s) (tab + sizeof_madt) off n xs \<and> madt_fits (tab + sizeof_madt) xs s)",
      OF _ assms(1)])
    fix parse tab n off and s y :: "'a apic_scheme"
    assume IH: "\<And>tab n off s (y :: 'a apic_scheme). parse tab n off s = Some y \<Longrightarrow>
        length (ioapics s) \<le> 8 \<longrightarrow> length (isos s) \<le> 24 \<longrightarrow>
        (\<exists>xs. madt_chain (kmem s) (tab + sizeof_madt) off n xs \<and> madt_fits (tab + sizeof_madt) xs s)"
      and step: "(if off < n then Option.bind (parse_madt_entry (tab + sizeof_madt + off) s)
          (\<lambda>(k, s'). parse tab n (off + k) s') else Some s) = Some y"
    let ?b = "tab + sizeof_madt"
    show "length (ioapics s) \<le> 8 \<longrightarrow> length (isos s) \<le> 24 \<longrightarrow>
        (\<exists>xs. madt_chain (kmem s) ?b off n xs \<and> madt_fits ?b xs s)"
    proof (intro impI)
      assume room: "length (ioapics s) \<le> 8" "length (isos s) \<le> 24"
      show "\<exists>xs. madt_chain (kmem s) ?b off n xs \<and> madt_fits ?b xs s"
      proof (cases "off < n")
        case True
        with step parse_madt_entry_cases [OF room, of ?b off]
        have f: "madt_fits ?b [off] s" "parse tab n (off + ucast (madt_record_length (kmem s) (?b + off)))
            (madt_parsed ?b [off] s) = Some y"
          by (auto split: if_splits)
        from IH [OF f(2)] madt_fits_room [OF f(1)] obtain xs where
          "madt_chain (kmem s) ?b (off + ucast (madt_record_length (kmem s) (?b + off))) n xs"
          "madt_fits ?b xs (madt_parsed ?b [off] s)" by auto
        with f True show ?thesis by (intro exI [of _ "off # xs"]) (simp add: madt_fits_Cons [of _ off xs])
      next
        case False
        with room show ?thesis by (intro exI [of _ "[]"]) (simp add: madt_fits_def)
      qed
    qed
  qed
  with assms show ?thesis by blast
qed

section \<open>The registers of the I/O APIC\<close>

text \<open>What the controller does with the accesses of a trace: a store to the index register selects,
  a store to the data register sets the selected register.\<close>

fun ioapic_state :: "madt_entry_ioapic \<Rightarrow> io list \<Rightarrow> u32 \<times> (u32 \<rightharpoonup> u32)" where
  "ioapic_state a [] = (0, \<lambda>_. None)"
| "ioapic_state a (Write32 p v # t) =
     (let (sel, regs) = ioapic_state a t in
      if p = ioregsel a then (v, regs)
      else if p = iowin a then (sel, regs(sel \<mapsto> v))
      else (sel, regs))"
| "ioapic_state a (_ # t) = ioapic_state a t"

definition ioapic_regs :: "madt_entry_ioapic \<Rightarrow> io list \<Rightarrow> u32 \<rightharpoonup> u32" where
  "ioapic_regs a t = snd (ioapic_state a t)"

lemma higher_u32: "addr_ensure_higher (ucast (x :: u32)) = addr_ensure_higher (ucast y) \<longleftrightarrow> x = y"
proof
  assume eq: "addr_ensure_higher (ucast x) = addr_ensure_higher (ucast (y :: u32))"
  show "x = y"
  proof (rule bit_word_eqI)
    fix n assume "n < LENGTH(32)"
    then show "bit x n = bit y n"
      using arg_cong [OF eq, of "\<lambda>w. bit w n"]
      by (simp add: addr_ensure_higher_def VADDR_HIGHER_mask bit_simps)
  qed
qed simp

lemma iowin_neq_ioregsel [simp]: "iowin a \<noteq> ioregsel a" "ioregsel a \<noteq> iowin a"
  unfolding iowin_def ioregsel_def higher_u32 by simp_all

lemma ioapic_regs_write [simp]:
  "ioapic_regs a (Write32 (iowin a) v # Write32 (ioregsel a) r # t) = (ioapic_regs a t)(r \<mapsto> v)"
  by (simp add: ioapic_regs_def Let_def split: prod.split)

lemma ioapic_regs_other [simp]:
  "p \<noteq> ioregsel a \<Longrightarrow> p \<noteq> iowin a \<Longrightarrow> ioapic_regs a (Write32 p v # t) = ioapic_regs a t"
  "ioapic_regs a (Read32 q # t) = ioapic_regs a t"
  by (simp_all add: ioapic_regs_def Let_def split: prod.split)

lemma fold_filter: "fold (\<lambda>x s. if P x then f x s else s) xs s = fold f (filter P xs) s"
  by (induction xs arbitrary: s) simp_all

lemma ioapic_register_write_one:
  assumes "filter (\<lambda>b. ucast (ioapic_id b) = aid) (ioapics s) = [a]"
  shows "ioapic_register_write aid off v s =
    io_write (Write32 (iowin a) v) (io_write (Write32 (ioregsel a) (ucast off)) s)"
  unfolding ioapic_register_write_def by (simp add: fold_filter assms)

lemma io_write_apic [simp]:
  "ioapics (io_write x s) = ioapics s" "isos (io_write x s) = isos s"
  "lapic_mmio_regs (io_write x s) = lapic_mmio_regs s" "core_count (io_write x s) = core_count s"
  by (simp_all add: io_write_def)

lemma kprintf_apic [simp]:
  "ioapics (kprintf l f x s) = ioapics s" "isos (kprintf l f x s) = isos s"
  "lapic_mmio_regs (kprintf l f x s) = lapic_mmio_regs s" "core_count (kprintf l f x s) = core_count s"
  by (simp_all add: kprintf_def log_msg_def)

lemma ioapic_ioredtbl_write_regs:
  fixes irq t
  assumes "filter (\<lambda>b. ucast (ioapic_id b) = aid) (ioapics s) = [a]"
  defines "s' \<equiv> ioapic_ioredtbl_write aid irq t s"
  shows "ioapic_regs a (io_trace s') = (ioapic_regs a (io_trace s))
      (ucast (IOREDTBL_OFFSET irq) \<mapsto> ucast (ioredtbl_word t),
       ucast (IOREDTBL_OFFSET irq + 1) \<mapsto> ucast (drop_bit 32 (ioredtbl_word t)))"
    and "ioapics s' = ioapics s" "isos s' = isos s" "lapic_mmio_regs s' = lapic_mmio_regs s"
  using assms(1) unfolding s'_def ioapic_ioredtbl_write_def Let_def
  by (simp_all add: ioapic_register_write_one)

text \<open>The two words of a redirection entry: the destination is in neither.\<close>

definition red_low :: "u8 \<Rightarrow> madt_entry_iso \<Rightarrow> u32" where
  "red_low pad ov = ucast (ucast (gsi ov + 32) :: u8) OR push_bit 8 (ucast (iso_conf ov)) OR
     push_bit 24 (ucast pad)"

lemma ioredtbl_words:
  "ucast (ioredtbl_word (iso_table junk bsp i ov)) = red_low (fst (junk i)) ov"
  "ucast (drop_bit 32 (ioredtbl_word (iso_table junk bsp i ov))) = snd (junk i)"
  by (rule bit_word_eqI, auto simp: ioredtbl_word_def iso_table_def red_low_def bit_simps
      dest: bit_imp_le_length)+

definition red_reg :: "madt_entry_iso \<Rightarrow> u8" where
  "red_reg ov = IOREDTBL_OFFSET (ucast (gsi ov))"

lemma red_reg_even: "\<not> bit (red_reg ov) 0" "bit (red_reg ov + 1) 0"
  by (simp_all add: red_reg_def IOREDTBL_OFFSET_def bit_0 even_iff_mod_2_eq_zero)

lemma red_reg_neq [simp]: "red_reg v \<noteq> red_reg w + 1" "red_reg w + 1 \<noteq> red_reg v"
  using red_reg_even by metis+

lemma ucast_u8_u32_eq [simp]: "(ucast (x :: u8) :: u32) = ucast y \<longleftrightarrow> x = y"
proof
  assume eq: "(ucast x :: u32) = ucast y"
  show "x = y"
  proof (rule bit_word_eqI)
    fix n assume "n < LENGTH(8)"
    then show "bit x n = bit y n" using arg_cong [OF eq, of "\<lambda>w. bit w n"] by (simp add: bit_simps)
  qed
qed simp

lemma ioredtbl_write_other [simp]:
  "kmem (ioapic_ioredtbl_write aid irq t s) = kmem s"
  "core_count (ioapic_ioredtbl_write aid irq t s) = core_count s"
proof -
  have w: "kmem (ioapic_register_write aid off v s) = kmem s \<and>
      core_count (ioapic_register_write aid off v s) = core_count s" for off v and s :: "'a apic_scheme"
  proof -
    have "kmem (fold (\<lambda>a s. if ucast (ioapic_id a) = aid
        then io_write (Write32 (iowin a) v) (io_write (Write32 (ioregsel a) (ucast off)) s) else s) xs s) = kmem s \<and>
      core_count (fold (\<lambda>a s. if ucast (ioapic_id a) = aid
        then io_write (Write32 (iowin a) v) (io_write (Write32 (ioregsel a) (ucast off)) s) else s) xs s) = core_count s"
      for xs and s :: "'a apic_scheme"
      by (induction xs arbitrary: s) simp_all
    then show ?thesis by (simp add: ioapic_register_write_def)
  qed
  show "kmem (ioapic_ioredtbl_write aid irq t s) = kmem s"
    "core_count (ioapic_ioredtbl_write aid irq t s) = core_count s"
    by (simp_all add: ioapic_ioredtbl_write_def Let_def w)
qed

definition only_ioapic :: "madt_entry_ioapic \<Rightarrow> madt_entry_ioapic list \<Rightarrow> bool" where
  "only_ioapic a xs \<longleftrightarrow> (\<exists>ys. xs = a # ys \<and> (\<forall>b\<in>set ys. ioapic_id b \<noteq> ioapic_id a))"

lemma only_ioapic_filter:
  "only_ioapic a xs \<Longrightarrow> filter (\<lambda>b. (ucast (ioapic_id b) :: u32) = ucast (ioapic_id a)) xs = [a] \<and> xs ! 0 = a"
  by (auto simp: only_ioapic_def filter_empty_conv)

definition redirected :: "(nat \<Rightarrow> u8 \<times> u32) \<Rightarrow> madt_entry_ioapic \<Rightarrow> madt_entry_iso list \<Rightarrow> nat \<Rightarrow> io list \<Rightarrow> bool" where
  "redirected junk a xs n t \<longleftrightarrow> (\<forall>i<n.
     ioapic_regs a t (ucast (red_reg (xs ! i))) = Some (red_low (fst (junk i)) (xs ! i)) \<and>
     ioapic_regs a t (ucast (red_reg (xs ! i) + 1)) = Some (snd (junk i)))"

lemma redirect_regs:
  assumes a: "only_ioapic a (ioapics s)" and dist: "distinct (map red_reg (isos s))"
  shows "n \<le> length (isos s) \<Longrightarrow> fold (redirect junk bsp) [0..<n] s = s' \<Longrightarrow>
    ioapics s' = ioapics s \<and> isos s' = isos s \<and> lapic_mmio_regs s' = lapic_mmio_regs s \<and>
    kmem s' = kmem s \<and> core_count s' = core_count s \<and> redirected junk a (isos s) n (io_trace s')"
proof (induction n arbitrary: s')
  case 0
  then show ?case by (simp add: redirected_def)
next
  case (Suc n)
  define u where "u = fold (redirect junk bsp) [0..<n] s"
  have IH: "ioapics u = ioapics s" "isos u = isos s" "lapic_mmio_regs u = lapic_mmio_regs s" "kmem u = kmem s"
    "core_count u = core_count s" "redirected junk a (isos s) n (io_trace u)"
    using Suc.IH [of u] Suc.prems by (simp_all add: u_def)
  have s': "s' = redirect junk bsp n u" using Suc.prems(2) by (simp add: u_def)
  define w where "w = kprintf KMSG_LOGLEVEL_INFO
      ''Setting up redirection entry in IOAPIC %d with IRQ source %d and GSI %d (flags %x)\<newline>''
      [ucast bsp, ucast (irq_source (isos u ! n)), ucast (gsi (isos u ! n)), ucast (iso_flags (isos u ! n))] u"
  have w: "ioapics w = ioapics s" "isos w = isos s" "lapic_mmio_regs w = lapic_mmio_regs s"
    "kmem w = kmem s" "core_count w = core_count s" "io_trace w = io_trace u"
    using IH by (simp_all add: w_def)
  have one: "filter (\<lambda>b. ucast (ioapic_id b) = (ucast (ioapic_id a) :: u32)) (ioapics w) = [a]" "ioapics u ! 0 = a"
    using only_ioapic_filter [OF a] w IH by simp_all
  have eq: "s' = ioapic_ioredtbl_write (ucast (ioapic_id a)) (ucast (gsi (isos s ! n)))
      (iso_table junk bsp n (isos s ! n)) w"
    using one(2) unfolding s' redirect_def Let_def w_def IH(2) by simp
  have neq: "red_reg (isos s ! i) \<noteq> red_reg (isos s ! n)" if "i < n" for i
    using dist that Suc.prems(1) by (simp add: distinct_conv_nth)
  have regs: "ioapic_regs a (io_trace s') = (ioapic_regs a (io_trace u))
      (ucast (red_reg (isos s ! n)) \<mapsto> red_low (fst (junk n)) (isos s ! n),
       ucast (red_reg (isos s ! n) + 1) \<mapsto> snd (junk n))"
    unfolding eq ioapic_ioredtbl_write_regs(1) [OF one(1)] w(6) ioredtbl_words red_reg_def ..
  have "redirected junk a (isos s) (Suc n) (io_trace s')"
    using IH(6) neq by (auto simp: redirected_def regs less_Suc_eq)
  then show ?case
    unfolding eq using w ioapic_ioredtbl_write_regs(2-4) [OF one(1)] by simp
qed

section \<open>Properties\<close>

text \<open>C27: Parsing the MADT returns exactly when its records, each starting where the one before it
  ends, reach the end of the table and fit the two arrays, and then the arrays hold the records of
  their type in order. In particular a record of length zero is parsed for ever.\<close>

theorem parse_madt_returns_iff:
  assumes "length (ioapics s) \<le> 8" and "length (isos s) \<le> 24"
  shows "parse_madt tab n off s = Some s' \<longleftrightarrow>
    (\<exists>xs. madt_chain (kmem s) (tab + sizeof_madt) off n xs \<and>
       madt_fits (tab + sizeof_madt) xs s \<and> s' = madt_parsed (tab + sizeof_madt) xs s)"
  using parse_madt_chain [of s tab off n] parse_madt_returns [OF _ assms, of tab n off s']
  by (metis option.inject)

definition madt_mem :: "u8 list \<Rightarrow> mem" where
  "madt_mem bs a = (let k = unat (a - 0xffff800000000000) in if k < length bs then bs ! k else 0)"

definition apic_example :: "mem \<Rightarrow> apic" where
  "apic_example m = \<lparr>kmem = m, page_bitmap = \<lparr>bm_buf = 0, bm_len = 0\<rparr>, last_free = 0,
     free_memory = 0, total_memory = 0, kernel_table = 0, cr3 = 0, invlpg = [], io_trace = [], klog = [],
     use_xsdt = False, rsdt = 0, xsdt = 0, madt = 0, hpet = 0, mcfg = 0,
     ioapics = [], isos = [], lapic_mmio_regs = 0, core_count = 0\<rparr>"

text \<open>Memory of zeroes: the first record has length zero.\<close>

theorem parse_madt_returns_iff_witness:
  "parse_madt 0xffff800000000000 8 0 (apic_example (madt_mem [])) = None"
proof -
  have "\<not> madt_chain (madt_mem []) b 0 8 xs" for b xs
    by (induction xs) (auto simp: madt_record_length_def madt_mem_def)
  then have "parse_madt 0xffff800000000000 8 0 (apic_example (madt_mem [])) \<noteq> Some s'" for s'
    using parse_madt_returns_iff [of "apic_example (madt_mem [])" "0xffff800000000000" 8 0 s']
    by (simp add: apic_example_def)
  then show ?thesis by (metis option.exhaust)
qed

lemma apic_more_fields:
  fixes s s' :: "'z apic_scheme"
  assumes "hw.more s' = hw.more s"
  shows "ioapics s' = ioapics s" "isos s' = isos s" "lapic_mmio_regs s' = lapic_mmio_regs s"
    "core_count s' = core_count s"
  using assms by (cases s, cases s', simp)+

lemma pic_initialize_apic [simp]:
  "ioapics (pic_initialize dev rsi s) = ioapics s" "isos (pic_initialize dev rsi s) = isos s"
  "lapic_mmio_regs (pic_initialize dev rsi s) = lapic_mmio_regs s"
  "core_count (pic_initialize dev rsi s) = core_count s"
  by (rule apic_more_fields, simp)+

lemma red_low_bits:
  "ucast (red_low pad ov) = (ucast (gsi ov + 32) :: u8)" "\<not> bit (red_low pad ov) 16"
  "bit (red_low pad ov) 13 \<longleftrightarrow> bit (iso_flags ov) 1" "bit (red_low pad ov) 15 \<longleftrightarrow> bit (iso_flags ov) 3"
proof -
  have b: "iso_flags ov AND 0x2 \<noteq> 0 \<longleftrightarrow> bit (iso_flags ov) 1" "iso_flags ov AND 0x8 \<noteq> 0 \<longleftrightarrow> bit (iso_flags ov) 3"
    using and_exp_eq_0_iff_not_bit [of "iso_flags ov" 1] and_exp_eq_0_iff_not_bit [of "iso_flags ov" 3] by simp_all
  have c: "bit (iso_conf ov) 5 \<longleftrightarrow> bit (iso_flags ov) 1" "bit (iso_conf ov) 7 \<longleftrightarrow> bit (iso_flags ov) 3"
    unfolding iso_conf_def b
    by (simp_all add: bit_simps DEL_MODE_FIXED_def DEST_MODE_PHYSICAL_def POLARITY_ACTIVE_LOW_def
        POLARITY_ACTIVE_HIGH_def TRIGGER_LEVEL_def TRIGGER_EDGE_def)
  show "ucast (red_low pad ov) = (ucast (gsi ov + 32) :: u8)"
    by (rule bit_word_eqI) (simp add: red_low_def bit_simps)
  show "\<not> bit (red_low pad ov) 16" "bit (red_low pad ov) 13 \<longleftrightarrow> bit (iso_flags ov) 1"
    "bit (red_low pad ov) 15 \<longleftrightarrow> bit (iso_flags ov) 3"
    using bit_imp_le_length [of "iso_conf ov" 8]
    by (auto simp: red_low_def bit_simps c dest: bit_imp_le_length)
qed

lemma lapic_or_simps [simp]:
  "ioapics (lapic_or dev r v s) = ioapics s" "isos (lapic_or dev r v s) = isos s"
  "lapic_mmio_regs (lapic_or dev r v s) = lapic_mmio_regs s" "core_count (lapic_or dev r v s) = core_count s"
  by (simp_all add: lapic_or_def io_read_def Let_def)

lemma lapic_or_regs:
  "lapic_mmio_regs s + 4 * r \<noteq> ioregsel a \<Longrightarrow> lapic_mmio_regs s + 4 * r \<noteq> iowin a \<Longrightarrow>
   ioapic_regs a (io_trace (lapic_or dev r v s)) = ioapic_regs a (io_trace s)"
  by (simp add: lapic_or_def io_read_def Let_def)

text \<open>C26: For a valid MADT the initialisation returns with the controllers, overrides and cores of
  the table, and every override ends up unmasked in its register of the first I/O APIC with vector
  GSI + 32, its polarity and its trigger mode. The other word of the entry, which selects the
  destination, gets the uninitialised bytes of the local structure and not the processor's id.\<close>

theorem apic_initialize_correct:
  fixes s :: "'z apic_scheme" and tab :: ptr
  defines "b \<equiv> tab + sizeof_madt"
  assumes fresh: "ioapics s = []" "isos s = []"
    and chain: "madt_chain (kmem s) b 0 (ucast (hdr_length (kmem s) tab) - sizeof_madt) xs"
    and ioas: "map (load_ioapic (kmem s)) (of_type (kmem s) b MET_IOAPIC xs) = a # as" "length as < 8"
    and ovs: "map (load_iso (kmem s)) (of_type (kmem s) b MET_ISO xs) = os" "length os \<le> 24"
    and ids: "\<forall>c\<in>set as. ioapic_id c \<noteq> ioapic_id a"
    and dist: "distinct (map red_reg os)"
    and lap: "lap = addr_ensure_higher (ucast (madt_local_apic (kmem s) tab))"
      "lap + 4 * LAPIC_REG_SIVR \<noteq> ioregsel a" "lap + 4 * LAPIC_REG_SIVR \<noteq> iowin a"
  shows "\<exists>s'. apic_initialize dev rsi junk tab s = Some s' \<and> ioapics s' = a # as \<and> isos s' = os \<and>
    core_count s' = of_nat (length (of_type (kmem s) b MET_LAPIC xs)) \<and>
    (\<forall>i<length os. \<exists>w. ioapic_regs a (io_trace s') (ucast (red_reg (os ! i))) = Some w \<and>
       ucast w = (ucast (gsi (os ! i) + 32) :: u8) \<and> \<not> bit w 16 \<and>
       (bit w 13 \<longleftrightarrow> bit (iso_flags (os ! i)) 1) \<and> (bit w 15 \<longleftrightarrow> bit (iso_flags (os ! i)) 3) \<and>
       ioapic_regs a (io_trace s') (ucast (red_reg (os ! i) + 1)) = Some (snd (junk i)))"
proof -
  let ?n = "ucast (hdr_length (kmem s) tab) - sizeof_madt"
  define s1 where "s1 = (let s = kprintf KMSG_LOGLEVEL_INFO ''Reached target apic.\<newline>'' [] s;
      s = s\<lparr>lapic_mmio_regs := addr_ensure_higher (ucast (madt_local_apic (kmem s) tab))\<rparr>;
      s = kprintf KMSG_LOGLEVEL_INFO ''madt at %a, lapic addr=%a, flags=%x\<newline>''
            [tab, lapic_mmio_regs s, ucast (madt_flags (kmem s) tab)] s
      in (pic_initialize dev rsi s)\<lparr>core_count := 0\<rparr>)"
  have s1: "kmem s1 = kmem s" "ioapics s1 = []" "isos s1 = []" "lapic_mmio_regs s1 = lap" "core_count s1 = 0"
    using fresh lap(1) by (simp_all add: s1_def Let_def)
  have parsed: "parse_madt tab ?n 0 s1 = Some (madt_parsed b xs s1)"
    using parse_madt_chain [of s1 tab 0 ?n xs] chain ioas ovs s1
    by (simp add: b_def madt_fits_def) (metis length_Cons length_map Suc_leI)
  define s2 where "s2 = madt_parsed b xs s1"
  have s2: "ioapics s2 = a # as" "isos s2 = os" "lapic_mmio_regs s2 = lap"
    "core_count s2 = of_nat (length (of_type (kmem s) b MET_LAPIC xs))"
    using s1 ioas ovs by (simp_all add: s2_def madt_parsed_def)
  define r where "r = io_read dev (Read32 (lap + 4 * LAPIC_REG_ID)) s2"
  define bsp where "bsp = (ucast (fst r) :: u32)"
  define s3 where "s3 = kprintf KMSG_LOGLEVEL_INFO ''%d cores detected. BSP lapic id=%d\<newline>''
      [scast (core_count (snd r)), ucast bsp] (snd r)"
  have s3: "ioapics s3 = a # as" "isos s3 = os" "lapic_mmio_regs s3 = lap" "core_count s3 = core_count s2"
    using s2 by (simp_all add: s3_def r_def io_read_def)
  define s4 where "s4 = fold (redirect junk bsp) [0..<length os] s3"
  have "only_ioapic a (ioapics s3)" using ids s3(1) by (simp add: only_ioapic_def)
  from redirect_regs [OF this, of "length os" junk bsp s4] dist s3
  have s4: "ioapics s4 = a # as" "isos s4 = os" "lapic_mmio_regs s4 = lap" "core_count s4 = core_count s2"
    "redirected junk a os (length os) (io_trace s4)"
    by (simp_all add: s4_def)
  define s5 where "s5 = lapic_or dev LAPIC_REG_SIVR 0x100 (lapic_or dev LAPIC_REG_SIVR 0xff s4)"
  have run: "apic_initialize dev rsi junk tab s =
      Some (kprintf KMSG_LOGLEVEL_OKAY ''Finished target apic.\<newline>'' [] s5)"
    using parsed s1(1) s2 s3(2)
    by (simp add: apic_initialize_def Let_def s1_def s5_def s4_def s3_def bsp_def r_def s2_def split_def)
  have regs: "ioapic_regs a (io_trace s5) = ioapic_regs a (io_trace s4)"
    using lap s4(3) by (simp add: s5_def lapic_or_regs)
  show ?thesis
    using run s4 s2(4) red_low_bits by (auto simp: s5_def redirected_def regs [unfolded s5_def])
qed

text \<open>A MADT with one I/O APIC and the usual override of the timer line.\<close>

definition madt_example :: "u8 list" where
  "madt_example = [0, 0, 0, 0, 66, 0, 0, 0, 0, 0, 0, 0, 0, 0, 0, 0, 0, 0, 0, 0, 0, 0, 0, 0,
     0, 0, 0, 0, 0, 0, 0, 0, 0, 0, 0, 0, 0, 0, 0xe0, 0xfe, 0, 0, 0, 0,
     1, 12, 5, 0, 0, 0, 0xc0, 0xfe, 0, 0, 0, 0,
     2, 10, 0, 0, 2, 0, 0, 0, 0, 0]"

definition ioapic_example :: madt_entry_ioapic where
  "ioapic_example = \<lparr>ioapic_id = 5, ioapic_addr = 0xfec00000, gsib = 0\<rparr>"

definition iso_example :: madt_entry_iso where
  "iso_example = \<lparr>bus_source = 0, irq_source = 0, gsi = 2, iso_flags = 0\<rparr>"

theorem apic_initialize_correct_witness:
  "\<exists>s' w. apic_initialize (\<lambda>_. 0) (\<lambda>_. 0) (\<lambda>_. (0, 0xabcd)) 0xffff800000000000
      (apic_example (madt_mem madt_example)) = Some s' \<and>
    ioapic_regs ioapic_example (io_trace s') 0x14 = Some w \<and> ucast w = (34 :: u8) \<and>
    ioapic_regs ioapic_example (io_trace s') 0x15 = Some 0xabcd"
proof -
  let ?t = "0xffff800000000000 :: ptr" and ?m = "madt_mem madt_example"
  note ev = madt_mem_def madt_example_def
  have len: "hdr_length ?m ?t = 66" "madt_local_apic ?m ?t = 0xfee00000"
    by (simp_all add: hdr_length_def madt_local_apic_def load32_def ev)
  have chain: "madt_chain ?m (?t + sizeof_madt) 0 (ucast (hdr_length ?m ?t) - sizeof_madt) [0, 12]"
    unfolding len by (simp add: sizeof_madt_def madt_record_length_def ev)
  have types: "of_type ?m (?t + sizeof_madt) MET_IOAPIC [0, 12] = [0xffff80000000002c]"
    "of_type ?m (?t + sizeof_madt) MET_ISO [0, 12] = [0xffff800000000038]"
    by (simp_all add: of_type_Cons madt_entry_type_def MET_IOAPIC_def MET_ISO_def sizeof_madt_def ev)
  have recs: "map (load_ioapic ?m) (of_type ?m (?t + sizeof_madt) MET_IOAPIC [0, 12]) = [ioapic_example]"
    "map (load_iso ?m) (of_type ?m (?t + sizeof_madt) MET_ISO [0, 12]) = [iso_example]"
    unfolding types
    by (simp_all add: load_ioapic_def load_iso_def load32_def load16_def ioapic_example_def iso_example_def ev)
  have reg: "red_reg iso_example = 0x14" "gsi iso_example = 2"
    by (simp_all add: red_reg_def IOREDTBL_OFFSET_def iso_example_def)
  have lap: "addr_ensure_higher (ucast (madt_local_apic ?m ?t)) = 0xffff8000fee00000"
    unfolding len by (simp add: addr_ensure_higher_def VADDR_HIGHER_def)
  have io: "ioregsel ioapic_example = 0xffff8000fec00000" "iowin ioapic_example = 0xffff8000fec00010"
    by (simp_all add: ioregsel_def iowin_def ioapic_example_def addr_ensure_higher_def VADDR_HIGHER_def)
  have m: "kmem (apic_example ?m) = ?m" "ioapics (apic_example ?m) = []" "isos (apic_example ?m) = []"
    by (simp_all add: apic_example_def)
  from apic_initialize_correct [of "apic_example ?m" ?t "[0, 12]" ioapic_example "[]" "[iso_example]"
      "0xffff8000fee00000" "\<lambda>_. 0" "\<lambda>_. 0" "\<lambda>_. (0, 0xabcd)"]
  show ?thesis
    using chain recs by (auto simp: m lap io reg LAPIC_REG_SIVR_def)
qed

end
