(* ===== verification/Hpet.thy ===== *)
theory Hpet
  imports Apic
begin

text \<open>
  The timer hardware (\<^verbatim>\<open>interrupts/hpet.c\<close>, \<^verbatim>\<open>timer_initialize\<close> of
  \<^verbatim>\<open>interrupts/timer.c\<close>): programming the HPET and reading its counter in microseconds. The
  registers are 64 bits wide and memory-mapped; their contents come from the device. A failed
  assertion and the fault of a division by zero stop the kernel (\<open>None\<close>).
\<close>

record hpet_state = apic +
  hpet_mmio_regs :: ptr
  main_frequency :: u32

definition HPET_REG_GENERAL_CAPABILITIES :: u64 where "HPET_REG_GENERAL_CAPABILITIES = 0x0"
definition HPET_REG_GENERAL_CONFIGURATION :: u64 where "HPET_REG_GENERAL_CONFIGURATION = 0x02"
definition HPET_REG_MAIN_COUNTER_VALUE :: u64 where "HPET_REG_MAIN_COUNTER_VALUE = 0x1e"
definition HPET_REG_TIMER_N_CONF_CAP :: "u64 \<Rightarrow> u64" where "HPET_REG_TIMER_N_CONF_CAP n = 0x20 + 0x4 * n"
definition HPET_REG_TIMER_N_COMPARATOR :: "u64 \<Rightarrow> u64" where "HPET_REG_TIMER_N_COMPARATOR n = 0x21 + 0x4 * n"
definition MAIN_CAP_LEGACY_CAPABLE :: u64 where "MAIN_CAP_LEGACY_CAPABLE = 0x0f"
definition MAIN_CONF_COUNTER_ENABLE :: u64 where "MAIN_CONF_COUNTER_ENABLE = 1"
definition MAIN_CONF_LEGACY_ENABLE :: u64 where "MAIN_CONF_LEGACY_ENABLE = 2"
definition TIMER_CONF_IRQ_ENABLE :: u64 where "TIMER_CONF_IRQ_ENABLE = 0x4"
definition TIMER_CONF_PERIODIC_ENABLE :: u64 where "TIMER_CONF_PERIODIC_ENABLE = 0x8"
definition TIMER_CONF_PERIODIC_CAPABLE :: u64 where "TIMER_CONF_PERIODIC_CAPABLE = 0x10"
definition TIMER_CONF_DIRECT_ACCUM_SET :: u64 where "TIMER_CONF_DIRECT_ACCUM_SET = 0x40"

text \<open>The table \<^verbatim>\<open>struct hpet\<close>, packed.\<close>

definition hpet_comparators :: "mem \<Rightarrow> ptr \<Rightarrow> u8" where "hpet_comparators m p = m (p + 37) AND 0x1f"
definition hpet_legacy :: "mem \<Rightarrow> ptr \<Rightarrow> u8" where "hpet_legacy m p = drop_bit 7 (m (p + 37))"
definition hpet_vendor :: "mem \<Rightarrow> ptr \<Rightarrow> u16" where "hpet_vendor m p = load16 m (p + 38)"
definition hpet_addr :: "mem \<Rightarrow> ptr \<Rightarrow> u64" where "hpet_addr m p = load64 m (p + 44)"
definition hpet_number :: "mem \<Rightarrow> ptr \<Rightarrow> u8" where "hpet_number m p = m (p + 52)"
definition hpet_min_ticks :: "mem \<Rightarrow> ptr \<Rightarrow> u16" where "hpet_min_ticks m p = load16 m (p + 53)"

section \<open>The operations\<close>

definition hpet_get :: "device \<Rightarrow> u64 \<Rightarrow> 'z hpet_state_scheme \<Rightarrow> u64 \<times> 'z hpet_state_scheme" where
  "hpet_get dev reg s = io_read dev (Read64 (hpet_mmio_regs s + 8 * reg)) s"

definition hpet_set :: "u64 \<Rightarrow> u64 \<Rightarrow> 'z hpet_state_scheme \<Rightarrow> 'z hpet_state_scheme" where
  "hpet_set reg v s = io_write (Write64 (hpet_mmio_regs s + 8 * reg) v) s"

definition show_timer :: "device \<Rightarrow> nat \<Rightarrow> 'z hpet_state_scheme \<Rightarrow> 'z hpet_state_scheme" where
  "show_timer dev i s =
     (let (cap, s) = hpet_get dev (HPET_REG_TIMER_N_CONF_CAP (of_nat i)) s;
          rc = ucast (drop_bit 0x20 cap) :: u32
      in kprintf KMSG_LOGLEVEL_INFO ''Timer %d routing capabilities %x\<newline>'' [of_nat i, ucast rc] s)"

definition start_timer0 :: "device \<Rightarrow> 'z hpet_state_scheme \<Rightarrow> 'z hpet_state_scheme option" where
  "start_timer0 dev s =
     (let (timer0, s) = hpet_get dev (HPET_REG_TIMER_N_CONF_CAP 0) s in
      if timer0 AND TIMER_CONF_PERIODIC_CAPABLE = 0 then None
      else
        let timer0 = timer0 OR TIMER_CONF_IRQ_ENABLE OR TIMER_CONF_PERIODIC_ENABLE OR
                     TIMER_CONF_DIRECT_ACCUM_SET;
            s = hpet_set (HPET_REG_TIMER_N_CONF_CAP 0) timer0 s;
            s = hpet_set (HPET_REG_TIMER_N_COMPARATOR 0) (ucast (main_frequency s div 300)) s;
            s = hpet_set HPET_REG_MAIN_COUNTER_VALUE 0 s;
            (main_conf, s) = hpet_get dev HPET_REG_GENERAL_CONFIGURATION s;
            main_conf = main_conf OR MAIN_CONF_COUNTER_ENABLE OR MAIN_CONF_LEGACY_ENABLE
        in Some (hpet_set HPET_REG_GENERAL_CONFIGURATION main_conf s))"

definition hpet_initialize :: "device \<Rightarrow> ptr \<Rightarrow> 'z hpet_state_scheme \<Rightarrow> 'z hpet_state_scheme option" where
  "hpet_initialize dev tab s =
     (let s = kprintf KMSG_LOGLEVEL_INFO ''Initializing hpet...\<newline>'' [] s;
          s = s\<lparr>hpet_mmio_regs := addr_ensure_higher (hpet_addr (kmem s) tab)\<rparr>;
          m = kmem s;
          s = kprintf KMSG_LOGLEVEL_INFO
            ''HPET present with pci vendor id %d, addr %x, HPET number %d, min main counter clock_tick %d, comparator count %d, legacy IRQ capable %d\<newline>''
            [ucast (hpet_vendor m tab), hpet_addr m tab, ucast (hpet_number m tab),
             ucast (hpet_min_ticks m tab), ucast (hpet_comparators m tab) + 1, ucast (hpet_legacy m tab)] s;
          (main_cap, s) = hpet_get dev HPET_REG_GENERAL_CAPABILITIES s
      in if main_cap OR MAIN_CAP_LEGACY_CAPABLE = 0 then None
      else
        let clock_period = ucast (drop_bit 0x20 main_cap) :: u32;
            timer_count = ucast (drop_bit 0x08 main_cap AND 0x1f) + 1 :: u8
        in if clock_period = 0 then None
        else
          let s = s\<lparr>main_frequency := ucast (1000000000000000 div (ucast clock_period :: u64))\<rparr>;
              s = kprintf KMSG_LOGLEVEL_INFO ''Timer frequency is %dHz\<newline>'' [ucast (main_frequency s)] s;
              s = fold (show_timer dev) [0..<unat timer_count] s
          in do { s \<leftarrow> start_timer0 dev s;
                  Some (kprintf KMSG_LOGLEVEL_OKAY ''Initialized hpet.\<newline>'' [] s) })"

definition hpet_read_counter :: "device \<Rightarrow> 'z hpet_state_scheme \<Rightarrow> (u64 \<times> 'z hpet_state_scheme) option" where
  "hpet_read_counter dev s =
     (let (v, s) = hpet_get dev HPET_REG_MAIN_COUNTER_VALUE s;
          d = main_frequency s div 1000000
      in if d = 0 then None else Some (v div ucast d, s))"

definition timer_initialize :: "device \<Rightarrow> 'z hpet_state_scheme \<Rightarrow> 'z hpet_state_scheme option" where
  "timer_initialize dev s =
     (let s = kprintf KMSG_LOGLEVEL_INFO ''Reached target timer.\<newline>'' [] s
      in do { s \<leftarrow> (if kmem s (hpet s) \<noteq> 0 then hpet_initialize dev (hpet s) s else Some s);
              Some (kprintf KMSG_LOGLEVEL_OKAY ''Finished target timer.\<newline>'' [] s) })"

section \<open>Properties\<close>

lemma io_write_hpet [simp]:
  "hpet_mmio_regs (io_write x s) = hpet_mmio_regs s" "main_frequency (io_write x s) = main_frequency s"
  by (simp_all add: io_write_def)

lemma kprintf_hpet [simp]:
  "hpet_mmio_regs (kprintf l f x s) = hpet_mmio_regs s" "main_frequency (kprintf l f x s) = main_frequency s"
  by (simp_all add: kprintf_def log_msg_def)

lemma show_timer_simps [simp]:
  "hpet_mmio_regs (show_timer dev i s) = hpet_mmio_regs s"
  "main_frequency (show_timer dev i s) = main_frequency s"
  by (simp_all add: show_timer_def hpet_get_def io_read_def Let_def)

lemma show_timers_simps [simp]:
  "hpet_mmio_regs (fold (show_timer dev) xs s) = hpet_mmio_regs s"
  "main_frequency (fold (show_timer dev) xs s) = main_frequency s"
  by (induction xs arbitrary: s) simp_all

lemmas hpet_regs_defs = HPET_REG_GENERAL_CAPABILITIES_def HPET_REG_GENERAL_CONFIGURATION_def
  HPET_REG_MAIN_COUNTER_VALUE_def HPET_REG_TIMER_N_CONF_CAP_def HPET_REG_TIMER_N_COMPARATOR_def

lemma start_timer0_trace:
  assumes "\<And>t. dev (Read64 (hpet_mmio_regs s + 0x100) # t) AND 0x10 \<noteq> 0"
  shows "\<exists>s' x y. start_timer0 dev s = Some s' \<and> main_frequency s' = main_frequency s \<and>
    io_trace s' = [Write64 (hpet_mmio_regs s + 0x10) (x OR 3), Read64 (hpet_mmio_regs s + 0x10),
      Write64 (hpet_mmio_regs s + 0xf0) 0,
      Write64 (hpet_mmio_regs s + 0x108) (ucast (main_frequency s div 300)),
      Write64 (hpet_mmio_regs s + 0x100) (y OR 0x4c), Read64 (hpet_mmio_regs s + 0x100)] @ io_trace s"
  using assms
  by (simp add: start_timer0_def hpet_get_def hpet_set_def io_read_def Let_def hpet_regs_defs
      TIMER_CONF_PERIODIC_CAPABLE_def TIMER_CONF_IRQ_ENABLE_def TIMER_CONF_PERIODIC_ENABLE_def
      TIMER_CONF_DIRECT_ACCUM_SET_def MAIN_CONF_COUNTER_ENABLE_def MAIN_CONF_LEGACY_ENABLE_def or.assoc) auto

text \<open>C28: For a counter period that the capabilities give (in femtoseconds) and a periodic first
  timer, the initialisation returns with the frequency of the counter, and its last accesses set
  the first timer periodic, set its comparator to a 300th of a second, reset the counter and only
  then enable counting and the legacy routing. A period of zero or a timer without periodic mode
  stops the kernel.\<close>

theorem hpet_initialize_correct:
  fixes s :: "'z hpet_state_scheme" and tab :: ptr
  defines "b \<equiv> addr_ensure_higher (hpet_addr (kmem s) tab)"
  assumes cap: "\<And>t. dev (Read64 b # t) = cap" and freq: "10 ^ 15 div unat (drop_bit 32 cap) < 2 ^ 32"
    and periodic: "\<And>t. (dev (Read64 (b + 0x100) # t) AND 0x10 \<noteq> 0) = p"
  shows "if drop_bit 32 cap \<noteq> 0 \<and> p then
      \<exists>s' t x y c. hpet_initialize dev tab s = Some s' \<and>
        unat (main_frequency s') = 10 ^ 15 div unat (drop_bit 32 cap) \<and>
        io_trace s' = [Write64 (b + 0x10) (x OR 3), Read64 (b + 0x10), Write64 (b + 0xf0) 0,
          Write64 (b + 0x108) c, Write64 (b + 0x100) (y OR 0x4c)] @ t \<and>
        300 * unat c \<le> unat (main_frequency s') \<and> unat (main_frequency s') < 300 * (unat c + 1)
    else hpet_initialize dev tab s = None"
proof -
  have legacy: "main_cap OR MAIN_CAP_LEGACY_CAPABLE \<noteq> 0" for main_cap
    by (simp add: MAIN_CAP_LEGACY_CAPABLE_def or_eq_0_iff)
  have period: "(ucast (ucast (drop_bit 32 cap) :: u32) :: u64) = drop_bit 32 cap"
    by (rule bit_word_eqI) (auto simp: bit_simps dest: bit_imp_le_length)
  then have period0: "(ucast (drop_bit 32 cap) :: u32) = 0 \<longleftrightarrow> drop_bit 32 cap = 0" by (metis unsigned_0)
  have f: "unat (ucast ((1000000000000000 :: u64) div drop_bit 32 cap) :: u32) = 10 ^ 15 div unat (drop_bit 32 cap)"
    using freq by (simp add: unsigned_ucast_eq unsigned_take_bit_eq unat_div take_bit_nat_eq_self)
  have le: "unat (x div 300 :: u32) * 300 \<le> unat x \<and> unat x < 300 * (unat (x div 300) + 1)" for x :: u32
    by (simp add: unat_div)
  show ?thesis
  proof (cases "drop_bit 32 cap = 0")
    case True
    then show ?thesis
      by (simp add: hpet_initialize_def Let_def split_def hpet_get_def io_read_def
          HPET_REG_GENERAL_CAPABILITIES_def b_def [symmetric] cap legacy)
  next
    case False
    define s1 where "s1 = (let s = kprintf KMSG_LOGLEVEL_INFO ''Initializing hpet...\<newline>'' [] s;
          s = s\<lparr>hpet_mmio_regs := addr_ensure_higher (hpet_addr (kmem s) tab)\<rparr>; m = kmem s;
          s = kprintf KMSG_LOGLEVEL_INFO
            ''HPET present with pci vendor id %d, addr %x, HPET number %d, min main counter clock_tick %d, comparator count %d, legacy IRQ capable %d\<newline>''
            [ucast (hpet_vendor m tab), hpet_addr m tab, ucast (hpet_number m tab),
             ucast (hpet_min_ticks m tab), ucast (hpet_comparators m tab) + 1, ucast (hpet_legacy m tab)] s;
          s = (snd (hpet_get dev HPET_REG_GENERAL_CAPABILITIES s))
            \<lparr>main_frequency := ucast (1000000000000000 div drop_bit 32 cap)\<rparr>;
          s = kprintf KMSG_LOGLEVEL_INFO ''Timer frequency is %dHz\<newline>'' [ucast (main_frequency s)] s
        in fold (show_timer dev) [0..<unat (ucast (drop_bit 0x08 cap AND 0x1f) + 1 :: u8)] s)"
    have s1: "hpet_mmio_regs s1 = b" "main_frequency s1 = ucast (1000000000000000 div drop_bit 32 cap :: u64)"
      by (simp_all add: s1_def Let_def b_def hpet_get_def io_read_def)
    have run: "hpet_initialize dev tab s =
        map_option (kprintf KMSG_LOGLEVEL_OKAY ''Initialized hpet.\<newline>'' []) (start_timer0 dev s1)"
      using False
      by (simp add: hpet_initialize_def Let_def split_def hpet_get_def io_read_def period period0
          HPET_REG_GENERAL_CAPABILITIES_def b_def [symmetric] cap legacy s1_def map_conv_bind_option comp_def)
    show ?thesis
    proof (cases p)
      case True
      then have "\<And>t. dev (Read64 (hpet_mmio_regs s1 + 0x100) # t) AND 0x10 \<noteq> 0" using periodic s1 by simp
      from start_timer0_trace [where dev = dev and s = s1, OF this] obtain s' x y where
        "start_timer0 dev s1 = Some s'" "main_frequency s' = main_frequency s1"
        "io_trace s' = [Write64 (b + 0x10) (x OR 3), Read64 (b + 0x10), Write64 (b + 0xf0) 0,
          Write64 (b + 0x108) (ucast (main_frequency s1 div 300)),
          Write64 (b + 0x100) (y OR 0x4c), Read64 (b + 0x100)] @ io_trace s1"
        unfolding s1(1) by blast
      with run f le [of "main_frequency s1"] False True show ?thesis
        by (auto simp: s1(2))
    next
      case False
      then show ?thesis using run periodic s1
        by (simp add: start_timer0_def hpet_get_def io_read_def hpet_regs_defs TIMER_CONF_PERIODIC_CAPABLE_def)
    qed
  qed
qed

text \<open>A device whose registers never change: a period of 10 ns and a periodic first timer.\<close>

definition hpet_device :: device where
  "hpet_device t = (if hd t = Read64 0xffff8000fed00000 then 0x0098968000000000 else 0x10)"

definition hpet_mem :: mem where
  "hpet_mem a = (if a = 0xffff80000000002e then 0xd0 else if a = 0xffff80000000002f then 0xfe else 0)"

definition hpet_example :: hpet_state where
  "hpet_example = \<lparr>kmem = hpet_mem, page_bitmap = \<lparr>bm_buf = 0, bm_len = 0\<rparr>, last_free = 0,
     free_memory = 0, total_memory = 0, kernel_table = 0, cr3 = 0, invlpg = [], io_trace = [], klog = [],
     use_xsdt = False, rsdt = 0, xsdt = 0, madt = 0, hpet = 0xffff800000000000, mcfg = 0,
     ioapics = [], isos = [], lapic_mmio_regs = 0, core_count = 0, hpet_mmio_regs = 0, main_frequency = 0\<rparr>"

theorem hpet_initialize_correct_witness:
  "\<exists>s'. hpet_initialize hpet_device 0xffff800000000000 hpet_example = Some s' \<and>
     unat (main_frequency s') = 100000000"
proof -
  have b: "addr_ensure_higher (hpet_addr (kmem hpet_example) 0xffff800000000000) = 0xffff8000fed00000"
    by (simp add: hpet_addr_def load64_def hpet_example_def hpet_mem_def addr_ensure_higher_def VADDR_HIGHER_def)
  have d: "hpet_device (Read64 0xffff8000fed00000 # t) = 0x0098968000000000"
    "hpet_device (Read64 0xffff8000fed00100 # t) = 0x10" for t
    by (simp_all add: hpet_device_def)
  from hpet_initialize_correct [of hpet_device hpet_example "0xffff800000000000" "0x0098968000000000" True]
  show ?thesis unfolding b by (force simp: d)
qed

text \<open>C38: The counter is converted to microseconds by a whole number of cycles per microsecond: the
  conversion divides by zero exactly below 1 MHz, the result never runs behind the counter, and it
  runs ahead by at most one part in the cycles per microsecond: at 1.9 MHz, where that number is 1,
  nearly twice the exact time.\<close>

theorem hpet_read_counter_bounds:
  "case hpet_read_counter dev s of
     None \<Rightarrow> unat (main_frequency s) < 1000000
   | Some (r, s') \<Rightarrow>
       let f = unat (main_frequency s); q = f div 1000000;
           v = unat (dev (Read64 (hpet_mmio_regs s + 0xf0) # io_trace s))
       in 0 < q \<and> 1000000 * v < (unat r + 1) * f \<and> q * f * unat r \<le> (q + 1) * 1000000 * v"
proof -
  define f where "f = unat (main_frequency s)"
  define q where "q = f div 1000000"
  define v where "v = unat (dev (Read64 (hpet_mmio_regs s + 0xf0) # io_trace s))"
  have q0: "main_frequency s div 1000000 = 0 \<longleftrightarrow> f < 1000000"
    by (simp add: f_def word_unat_eq_iff unat_div) (simp add: div_eq_0_iff)
  have fq: "1000000 * q \<le> f" "f \<le> (q + 1) * 1000000"
    using div_mult_mod_eq [of f 1000000] mod_less_divisor [of 1000000 f] by (simp_all add: q_def)
  have r: "unat (dev (Read64 (hpet_mmio_regs s + 0xf0) # io_trace s) div ucast (main_frequency s div 1000000)) = v div q"
    by (simp add: unat_div v_def q_def f_def)
  show ?thesis
  proof (cases "f < 1000000")
    case True
    then show ?thesis using q0
      by (simp add: hpet_read_counter_def hpet_get_def io_read_def Let_def HPET_REG_MAIN_COUNTER_VALUE_def f_def [symmetric])
  next
    case False
    then have pos: "0 < q" by (simp add: q_def div_greater_zero_iff)
    have "v < (v div q + 1) * q" using dividend_less_div_times [OF pos, of v] by simp
    then have "1000000 * v < 1000000 * ((v div q + 1) * q)" by simp
    also have "\<dots> \<le> (v div q + 1) * f" using fq(1) by (metis mult.left_commute mult_le_mono2)
    finally have low: "1000000 * v < (v div q + 1) * f" .
    have "q * (v div q) \<le> v" by simp
    then have "f * (q * (v div q)) \<le> ((q + 1) * 1000000) * v" using fq(2) by (rule mult_le_mono [rotated])
    then have "q * f * (v div q) \<le> (q + 1) * 1000000 * v" by (simp only: ac_simps)
    with low pos False q0 show ?thesis
      by (simp add: hpet_read_counter_def hpet_get_def io_read_def Let_def HPET_REG_MAIN_COUNTER_VALUE_def
          f_def [symmetric] q_def [symmetric] v_def [symmetric] r)
  qed
qed

end
