(* ===== verification/Task.thy ===== *)
theory Task
  imports Hpet
begin

text \<open>
  Tasks (\<^verbatim>\<open>task/task.h\<close>, \<^verbatim>\<open>task/task.c\<close>, \<^verbatim>\<open>task/task.S\<close>): the saved registers, the
  packed task structure in the kernel's memory, the switch to a task, and loading a task from an
  ELF image. The state gains the scheduler's and the timer's variables and the data segment
  registers of the processor.

  A pointer to an interrupt frame is the frame itself, as the handlers only read it.
\<close>

record registers =
  r15 :: u64
  r14 :: u64
  r13 :: u64
  r12 :: u64
  r11 :: u64
  r10 :: u64
  r9 :: u64
  r8 :: u64
  rbp :: u64
  rdi :: u64
  rsi :: u64
  rdx :: u64
  rcx :: u64
  rbx :: u64
  rax :: u64

record interrupt_frame_other =
  rip :: u64
  cs :: u64
  rflags :: u64
  rsp :: u64
  ss :: u64

record interrupt_frame =
  gprs :: registers
  frame_other :: interrupt_frame_other

record exception_frame = interrupt_frame +
  int_no :: u64
  error_code :: u64

record kernel = hpet_state +
  current_task :: ptr
  tid_next :: u8
  timer_elapsed_us :: u64
  prev_time :: u64
  data_segments :: u16

section \<open>The task structure\<close>

definition load_regs :: "mem \<Rightarrow> ptr \<Rightarrow> registers" where
  "load_regs m p =
     \<lparr>r15 = load64 m (p + 0), r14 = load64 m (p + 8), r13 = load64 m (p + 16),
      r12 = load64 m (p + 24), r11 = load64 m (p + 32), r10 = load64 m (p + 40),
      r9 = load64 m (p + 48), r8 = load64 m (p + 56), rbp = load64 m (p + 64),
      rdi = load64 m (p + 72), rsi = load64 m (p + 80), rdx = load64 m (p + 88),
      rcx = load64 m (p + 96), rbx = load64 m (p + 104), rax = load64 m (p + 112)\<rparr>"

definition regs_list :: "registers \<Rightarrow> u64 list" where
  "regs_list r =
     [r15 r, r14 r, r13 r, r12 r, r11 r, r10 r, r9 r, r8 r,
      rbp r, rdi r, rsi r, rdx r, rcx r, rbx r, rax r]"

definition store_regs :: "ptr \<Rightarrow> registers \<Rightarrow> mem \<Rightarrow> mem" where
  "store_regs p r m = fold (\<lambda>i m. store64 m (p + 8 * of_nat i) (regs_list r ! i)) [0..<15] m"

definition sizeof_task :: u64 where "sizeof_task = 169"
definition task_rsp :: "mem \<Rightarrow> ptr \<Rightarrow> u64" where "task_rsp m p = load64 m (p + 120)"
definition task_rflags :: "mem \<Rightarrow> ptr \<Rightarrow> u64" where "task_rflags m p = load64 m (p + 128)"
definition task_rip :: "mem \<Rightarrow> ptr \<Rightarrow> u64" where "task_rip m p = load64 m (p + 136)"
definition task_next :: "mem \<Rightarrow> ptr \<Rightarrow> ptr" where "task_next m p = load64 m (p + 144)"
definition task_vmap :: "mem \<Rightarrow> ptr \<Rightarrow> ptr" where "task_vmap m p = load64 m (p + 152)"
definition task_deadline :: "mem \<Rightarrow> ptr \<Rightarrow> u64" where "task_deadline m p = load64 m (p + 160)"
definition task_id :: "mem \<Rightarrow> ptr \<Rightarrow> u8" where "task_id m p = m (p + 168)"

definition set_task_rsp :: "ptr \<Rightarrow> u64 \<Rightarrow> mem \<Rightarrow> mem" where "set_task_rsp p v m = store64 m (p + 120) v"
definition set_task_rflags :: "ptr \<Rightarrow> u64 \<Rightarrow> mem \<Rightarrow> mem" where "set_task_rflags p v m = store64 m (p + 128) v"
definition set_task_rip :: "ptr \<Rightarrow> u64 \<Rightarrow> mem \<Rightarrow> mem" where "set_task_rip p v m = store64 m (p + 136) v"
definition set_task_next :: "ptr \<Rightarrow> ptr \<Rightarrow> mem \<Rightarrow> mem" where "set_task_next p v m = store64 m (p + 144) v"
definition set_task_vmap :: "ptr \<Rightarrow> ptr \<Rightarrow> mem \<Rightarrow> mem" where "set_task_vmap p v m = store64 m (p + 152) v"
definition set_task_deadline :: "ptr \<Rightarrow> u64 \<Rightarrow> mem \<Rightarrow> mem" where "set_task_deadline p v m = store64 m (p + 160) v"
definition set_task_id :: "ptr \<Rightarrow> u8 \<Rightarrow> mem \<Rightarrow> mem" where "set_task_id p v m = m(p + 168 := v)"

definition task_new_tid :: "'z kernel_scheme \<Rightarrow> u8 \<times> 'z kernel_scheme" where
  "task_new_tid s = (tid_next s, s\<lparr>tid_next := tid_next s + 1\<rparr>)"

section \<open>Switching to a task\<close>

text \<open>
  \<^verbatim>\<open>switch_to_task\<close> does not return: it leaves the kernel with the frame that
  \<^verbatim>\<open>iretq\<close> takes from the stack and the registers loaded from the task.
\<close>

definition switch_to_task :: "ptr \<Rightarrow> 'z kernel_scheme \<Rightarrow> interrupt_frame \<times> 'z kernel_scheme" where
  "switch_to_task task s =
     (\<lparr>gprs = load_regs (kmem s) task,
       frame_other = \<lparr>rip = task_rip (kmem s) task, cs = 0x1b,
         rflags = task_rflags (kmem s) task OR 0x200, rsp = task_rsp (kmem s) task, ss = 0x23\<rparr>\<rparr>,
      s\<lparr>data_segments := 0x23, cr3 := task_vmap (kmem s) task - 0xffff800000000000\<rparr>)"

section \<open>Memory of the current address space\<close>

text \<open>
  A pointer into the lower half is translated by the tables that \<^verbatim>\<open>cr3\<close> points to. An access to
  a page that is not present faults; a fault of the kernel that copying on write cannot resolve
  stops it, and that is what happens on an absent page (\<open>None\<close>). The permission bits restrict
  user code and are not consulted for the kernel's own accesses.
\<close>

definition user_addr :: "'z vm_scheme \<Rightarrow> ptr \<Rightarrow> ptr option" where
  "user_addr s v =
     (let e = paging_get s (addr_ensure_higher (cr3 s)) v in
      if e AND PAGING_PRESENT = 0 then None else Some (child_table e + (v AND 0xfff)))"

definition user_put :: "ptr \<Rightarrow> u8 \<Rightarrow> 'z vm_scheme \<Rightarrow> 'z vm_scheme option" where
  "user_put v b s = do { a \<leftarrow> user_addr s v; Some (s\<lparr>kmem := (kmem s)(a := b)\<rparr>) }"

text \<open>\<^verbatim>\<open>memset\<close> and \<^verbatim>\<open>memcpy\<close> (from the kernel's memory) to such a pointer.\<close>

definition user_memset :: "ptr \<Rightarrow> u8 \<Rightarrow> u64 \<Rightarrow> 'z vm_scheme \<Rightarrow> 'z vm_scheme option" where
  "user_memset dst c n = for_each (\<lambda>i. user_put (dst + of_nat i) c) [0..<unat n]"

definition user_memcpy :: "ptr \<Rightarrow> ptr \<Rightarrow> u64 \<Rightarrow> 'z vm_scheme \<Rightarrow> 'z vm_scheme option" where
  "user_memcpy dst src n =
     for_each (\<lambda>i s. user_put (dst + of_nat i) (kmem s (src + of_nat i)) s) [0..<unat n]"

section \<open>Loading an ELF image\<close>

definition e_entry :: "mem \<Rightarrow> ptr \<Rightarrow> u64" where "e_entry m p = load64 m (p + 24)"
definition e_phoff :: "mem \<Rightarrow> ptr \<Rightarrow> u64" where "e_phoff m p = load64 m (p + 32)"
definition e_phnum :: "mem \<Rightarrow> ptr \<Rightarrow> u16" where "e_phnum m p = load16 m (p + 56)"
definition sizeof_phdr :: u64 where "sizeof_phdr = 56"
definition p_type :: "mem \<Rightarrow> ptr \<Rightarrow> u32" where "p_type m p = load32 m p"
definition p_offset :: "mem \<Rightarrow> ptr \<Rightarrow> u64" where "p_offset m p = load64 m (p + 8)"
definition p_vaddr :: "mem \<Rightarrow> ptr \<Rightarrow> u64" where "p_vaddr m p = load64 m (p + 16)"
definition p_filesz :: "mem \<Rightarrow> ptr \<Rightarrow> u64" where "p_filesz m p = load64 m (p + 32)"
definition p_memsz :: "mem \<Rightarrow> ptr \<Rightarrow> u64" where "p_memsz m p = load64 m (p + 40)"
definition PT_LOAD :: u32 where "PT_LOAD = 1"

definition HDR_OFF :: "ptr \<Rightarrow> u64 \<Rightarrow> ptr" where "HDR_OFF hdr off = hdr + off"

definition load_segment :: "ptr \<Rightarrow> ptr \<Rightarrow> ptr \<Rightarrow> 'z vm_scheme \<Rightarrow> 'z vm_scheme option" where
  "load_segment task hdr ph s =
     (let m = kmem s in
      if p_type m ph = PT_LOAD then
        let flags = PAGING_USER OR PAGING_WRITABLE;
            to_alloc = addr_page_align_up (p_memsz m ph + p_vaddr m ph mod 0x1000)
        in do { s \<leftarrow> vmm_request_at s (task_vmap m task) (p_vaddr m ph) (to_alloc div 0x1000) (ucast flags);
                s \<leftarrow> user_memset (p_vaddr (kmem s) ph) 0 (p_filesz (kmem s) ph) s;
                user_memcpy (p_vaddr (kmem s) ph) (HDR_OFF hdr (p_offset (kmem s) ph))
                  (p_memsz (kmem s) ph) s }
      else Some s)"

partial_function (option) load_segments ::
  "ptr \<Rightarrow> ptr \<Rightarrow> ptr \<Rightarrow> u64 \<Rightarrow> 'z vm_scheme \<Rightarrow> 'z vm_scheme option" where
  "load_segments task hdr phdrs i s =
     (if i < ucast (e_phnum (kmem s) hdr)
      then Option.bind (load_segment task hdr (phdrs + sizeof_phdr * i) s)
             (load_segments task hdr phdrs (i + 1))
      else Some s)"

definition task_create :: "ptr \<Rightarrow> ptr \<Rightarrow> 'z kernel_scheme \<Rightarrow> (ptr \<times> 'z kernel_scheme) option" where
  "task_create vmap_parent elf_data s =
     do { (task, s) \<leftarrow> malloc s sizeof_task 0;
          (if task = 0 then None else Some ());
          let s = s\<lparr>kmem := memset (kmem s) task 0 sizeof_task\<rparr>;
          let s = kprintf KMSG_LOGLEVEL_INFO ''Loading elf at %x\<newline>'' [elf_data] s;
          (vmap, s) \<leftarrow> paging_copy s vmap_parent;
          let s = s\<lparr>kmem := set_task_vmap task vmap (kmem s)\<rparr>;
          let s = paging_write_cr3 s (task_vmap (kmem s) task);
          let phdrs = HDR_OFF elf_data (e_phoff (kmem s) elf_data);
          s \<leftarrow> load_segments task elf_data phdrs 0 s;
          let s = s\<lparr>kmem := set_task_rsp task 0x7ffffffffff0 (kmem s)\<rparr>;
          s \<leftarrow> vmm_request_at s (task_vmap (kmem s) task)
                 (addr_page_align_down (task_rsp (kmem s) task)) 1 (ucast (PAGING_USER OR PAGING_WRITABLE));
          let s = s\<lparr>kmem := set_task_rip task (e_entry (kmem s) elf_data) (kmem s)\<rparr>;
          Some (task, kprintf KMSG_LOGLEVEL_CRIT ''ELF loaded and task created.\<newline>'' [] s) }"

end
