(* ===== verification/Sched.thy ===== *)
theory Sched
  imports Task
begin

text \<open>
  The scheduler (\<^verbatim>\<open>task/sched.c\<close>) and the timer interrupt that drives it
  (\<^verbatim>\<open>interrupts/timer.c\<close>, \<^verbatim>\<open>isr34\<close> of \<^verbatim>\<open>interrupts/interrupts.c\<close>). The tasks
  form a ring through their field \<^verbatim>\<open>next_task\<close>; a tick behind the deadline of the current task
  saves its frame and continues with the next. A handler either returns to its stub or leaves the
  kernel through \<^verbatim>\<open>iretq\<close>.
\<close>

datatype 's kexit = Returns 's | Iret interrupt_frame 's

section \<open>The operations\<close>

definition timer_read_counter :: "'z kernel_scheme \<Rightarrow> u64" where
  "timer_read_counter s = timer_elapsed_us s"

definition sched_run :: "ptr \<Rightarrow> 'z kernel_scheme \<Rightarrow> interrupt_frame \<times> 'z kernel_scheme" where
  "sched_run initial_task s =
     (let s = s\<lparr>current_task := initial_task\<rparr>;
          current_time = timer_read_counter s;
          s = s\<lparr>kmem := set_task_deadline (current_task s) (current_time + 1000000) (kmem s)\<rparr>
      in switch_to_task initial_task s)"

definition save_context :: "ptr \<Rightarrow> interrupt_frame \<Rightarrow> mem \<Rightarrow> mem" where
  "save_context p ifr m =
     set_task_rsp p (rsp (frame_other ifr))
       (set_task_rip p (rip (frame_other ifr))
         (set_task_rflags p (rflags (frame_other ifr)) (store_regs p (gprs ifr) m)))"

definition sched_switch :: "interrupt_frame \<Rightarrow> 'z kernel_scheme \<Rightarrow> interrupt_frame \<times> 'z kernel_scheme" where
  "sched_switch ifr s =
     (let current_time = timer_read_counter s;
          s = s\<lparr>kmem := save_context (current_task s) ifr (kmem s)\<rparr>;
          s = s\<lparr>current_task := task_next (kmem s) (current_task s)\<rparr>;
          s = s\<lparr>kmem := set_task_deadline (current_task s) (current_time + 1000000) (kmem s)\<rparr>
      in switch_to_task (current_task s) s)"

definition sched_tick :: "interrupt_frame \<Rightarrow> 'z kernel_scheme \<Rightarrow> 'z kernel_scheme kexit" where
  "sched_tick ifr s =
     (if timer_read_counter s > task_deadline (kmem s) (current_task s)
      then case_prod Iret (sched_switch ifr s) else Returns s)"

text \<open>\<^verbatim>\<open>int dus\<close> is the low half of the difference, sign-extended when it is added.\<close>

definition timer_tick :: "interrupt_frame \<Rightarrow> u32 \<Rightarrow> 'z kernel_scheme \<Rightarrow> 'z kernel_scheme kexit" where
  "timer_tick ifr dus s = sched_tick ifr (s\<lparr>timer_elapsed_us := timer_elapsed_us s + scast dus\<rparr>)"

definition isr34 :: "device \<Rightarrow> interrupt_frame \<Rightarrow> 'z kernel_scheme \<Rightarrow> 'z kernel_scheme kexit option" where
  "isr34 dev ifr s =
     (let s = apic_send_eoi s
      in do { (current_time, s) \<leftarrow> hpet_read_counter dev s;
              let dus = current_time - prev_time s;
              Some (timer_tick ifr (ucast dus) (s\<lparr>prev_time := current_time\<rparr>)) })"

text \<open>The stub pushes the frame, and takes it back when the handler returns.\<close>

definition isr34_stub :: "device \<Rightarrow> interrupt_frame \<Rightarrow> 'z kernel_scheme \<Rightarrow> (interrupt_frame \<times> 'z kernel_scheme) option" where
  "isr34_stub dev ifr s =
     do { r \<leftarrow> isr34 dev ifr s;
          Some (case r of Returns s' \<Rightarrow> (ifr, s') | Iret f s' \<Rightarrow> (f, s')) }"

section \<open>Round robin, abstractly\<close>

text \<open>
  A task in the queue: its structure, its address space and its context (registers, stack pointer,
  flags, instruction pointer). The current task is the first.
\<close>

type_synonym saved = "registers \<times> u64 \<times> u64 \<times> u64"
type_synonym queue = "(ptr \<times> ptr \<times> saved) list"

definition saved_of :: "interrupt_frame \<Rightarrow> saved" where
  "saved_of f = (gprs f, rsp (frame_other f), rflags (frame_other f), rip (frame_other f))"

fun resume :: "saved \<Rightarrow> interrupt_frame" where
  "resume (r, sp, fl, ip) =
     \<lparr>gprs = r, frame_other = \<lparr>rip = ip, cs = 0x1b, rflags = fl OR 0x200, rsp = sp, ss = 0x23\<rparr>\<rparr>"

fun rr_switch :: "interrupt_frame \<Rightarrow> queue \<Rightarrow> queue" where
  "rr_switch f ((p, v, c) # q) = q @ [(p, v, saved_of f)]"
| "rr_switch f [] = []"

definition head_context :: "queue \<Rightarrow> saved" where "head_context q = snd (snd (hd q))"

text \<open>
  What a scheduler promises: a switch with the interrupted frame moves the head of the queue to its
  end and resumes the new head.
\<close>

locale round_robin =
  fixes inv :: "'s \<Rightarrow> bool" and queue :: "'s \<Rightarrow> queue"
    and switch :: "interrupt_frame \<Rightarrow> 's \<Rightarrow> interrupt_frame \<times> 's"
  assumes inv_switch: "inv s \<Longrightarrow> inv (snd (switch f s))"
    and queue_switch: "inv s \<Longrightarrow> queue (snd (switch f s)) = rr_switch f (queue s)"
    and frame_switch: "inv s \<Longrightarrow> fst (switch f s) = resume (head_context (rr_switch f (queue s)))"
    and queue_nonempty: "inv s \<Longrightarrow> queue s \<noteq> []"
begin

primrec after :: "interrupt_frame list \<Rightarrow> 's \<Rightarrow> 's" where
  "after [] s = s"
| "after (f # fs) s = after fs (snd (switch f s))"

text \<open>The tasks and frames that a sequence of switches continues with.\<close>

primrec switches :: "interrupt_frame list \<Rightarrow> 's \<Rightarrow> (ptr \<times> interrupt_frame) list" where
  "switches [] s = []"
| "switches (f # fs) s =
     (fst (hd (queue (snd (switch f s)))), fst (switch f s)) # switches fs (snd (switch f s))"

lemma inv_after: "inv s \<Longrightarrow> inv (after fs s)"
  by (induction fs arbitrary: s) (simp_all add: inv_switch)

lemma length_switches [simp]: "length (switches fs s) = length fs"
  by (induction fs arbitrary: s) simp_all

lemma after_queue:
  "inv s \<Longrightarrow> length fs \<le> length (queue s) \<Longrightarrow>
   queue (after fs s) = drop (length fs) (queue s) @
     map2 (\<lambda>(p, v, c) f. (p, v, saved_of f)) (take (length fs) (queue s)) fs"
proof (induction fs rule: rev_induct)
  case (snoc f fs)
  let ?k = "length fs" and ?g = "\<lambda>(p, v, c) f. (p, v, saved_of f)"
  have k: "?k < length (queue s)" using snoc.prems(2) by simp
  have sw: "queue (after (fs @ [f]) s) = rr_switch f (queue (after fs s))"
    using queue_switch [OF inv_after [OF snoc.prems(1)], of f fs]
    by (induction fs arbitrary: s) simp_all
  obtain p v c where h: "queue s ! ?k = (p, v, c)" by (metis prod_cases3)
  have "drop ?k (queue s) = (p, v, c) # drop (Suc ?k) (queue s)" using k h by (metis Cons_nth_drop_Suc)
  moreover have "take (Suc ?k) (queue s) = take ?k (queue s) @ [(p, v, c)]" using k h by (simp add: take_Suc_conv_app_nth)
  ultimately show ?case using snoc k by (simp add: sw)
qed simp

lemma switches_nth:
  "inv s \<Longrightarrow> k < length fs \<Longrightarrow> switches fs s ! k =
     (let q = queue (after (take (Suc k) fs) s) in (fst (hd q), resume (head_context q)))"
proof (induction fs arbitrary: s k)
  case (Cons f fs)
  have i: "inv (snd (switch f s))" using Cons.prems(1) by (rule inv_switch)
  show ?case
  proof (cases k)
    case 0
    then show ?thesis using frame_switch queue_switch Cons.prems(1) by (simp add: Let_def)
  next
    case (Suc j)
    then show ?thesis using Cons.IH [OF i, of j] Cons.prems by simp
  qed
qed simp

text \<open>Among as many switches as there are tasks, each task comes once, in the order of the ring, and
  the last of them continues the first task as it was interrupted.\<close>

lemma one_round:
  assumes i: "inv s" and n: "length fs = length (queue s)"
  shows "map fst (switches fs s) = rotate1 (map fst (queue s))"
    and "snd (last (switches fs s)) = resume (saved_of (hd fs))"
proof -
  let ?q = "queue s"
  obtain p v c r where q: "?q = (p, v, c) # r" using queue_nonempty [OF i] by (cases ?q) auto
  obtain f gs where fs: "fs = f # gs" using n q by (cases fs) auto
  have hd: "hd (queue (after (take (Suc k) fs) s)) =
      (if Suc k < length ?q then ?q ! Suc k else (p, v, saved_of f))" if "k < length fs" for k
    using that n q fs after_queue [OF i, of "take (Suc k) fs"]
    by (auto simp: hd_append hd_drop_conv_nth)
  show "map fst (switches fs s) = rotate1 (map fst ?q)"
  proof (rule nth_equalityI)
    fix k assume k: "k < length (map fst (switches fs s))"
    then have "map fst (switches fs s) ! k = fst (hd (queue (after (take (Suc k) fs) s)))"
      using switches_nth [OF i, of k fs] by (simp add: Let_def)
    then show "map fst (switches fs s) ! k = rotate1 (map fst ?q) ! k"
      using hd [of k] k n q by (auto simp: nth_append)
  qed (simp add: n)
  have "last (switches fs s) = switches fs s ! (length fs - 1)"
    using fs by (metis last_conv_nth length_switches length_0_conv list.distinct(1))
  then show "snd (last (switches fs s)) = resume (saved_of (hd fs))"
    using switches_nth [OF i, of "length fs - 1" fs] hd [of "length fs - 1"] n q fs
    by (simp add: Let_def head_context_def)
qed

end

section \<open>Tasks in memory\<close>

definition task_ctx :: "mem \<Rightarrow> ptr \<Rightarrow> saved" where
  "task_ctx m p = (load_regs m p, task_rsp m p, task_rflags m p, task_rip m p)"

text \<open>The same task structure before and after a change.\<close>

definition same_task :: "ptr \<Rightarrow> mem \<Rightarrow> mem \<Rightarrow> bool" where
  "same_task p m m' \<longleftrightarrow> (\<forall>k<169. m' (p + k) = m (p + k))"

lemma same_task_load64:
  assumes "same_task p m m'" and "k \<le> 160"
  shows "load64 m' (p + k) = load64 m (p + k)"
proof (rule load64_cong)
  fix j :: u64 assume "j < 8"
  with assms(2) have "k + j < 169" by unat_arith
  with assms(1) show "m' (p + k + j) = m (p + k + j)" by (simp add: same_task_def add.assoc)
qed

lemma same_task_fields:
  assumes "same_task p m m'"
  shows "task_ctx m' p = task_ctx m p" "task_next m' p = task_next m p"
    "task_vmap m' p = task_vmap m p" "task_deadline m' p = task_deadline m p" "task_id m' p = task_id m p"
proof -
  note l = same_task_load64 [OF assms]
  have "load64 m' p = load64 m p" using l [of 0] by simp
  then show "task_ctx m' p = task_ctx m p"
    by (simp add: task_ctx_def load_regs_def task_rsp_def task_rflags_def task_rip_def l)
  show "task_next m' p = task_next m p" "task_vmap m' p = task_vmap m p"
    "task_deadline m' p = task_deadline m p" "task_id m' p = task_id m p"
    using assms by (simp_all add: task_next_def task_vmap_def task_deadline_def task_id_def l same_task_def)
qed

lemma same_task_refl [simp]: "same_task p m m" by (simp add: same_task_def)

lemma same_task_trans: "same_task p m m' \<Longrightarrow> same_task p m' m'' \<Longrightarrow> same_task p m m''"
  by (simp add: same_task_def)

definition tasks_apart :: "ptr \<Rightarrow> ptr \<Rightarrow> bool" where
  "tasks_apart p q \<longleftrightarrow> 169 \<le> q - p \<and> 169 \<le> p - q"

lemma tasks_apart_sym: "tasks_apart p q \<Longrightarrow> tasks_apart q p"
  by (auto simp: tasks_apart_def)

lemma tasks_apart_unat:
  assumes "tasks_apart p q"
  shows "169 \<le> unat (q - p)" "unat (q - p) + 169 \<le> 18446744073709551616"
proof -
  have a: "169 \<le> unat (q - p)" "169 \<le> unat (p - q)"
    using assms by (simp_all add: tasks_apart_def word_le_nat_alt)
  show "169 \<le> unat (q - p)" by (fact a)
  have "unat ((q - p) + (p - q)) = 0" by simp
  with a show "unat (q - p) + 169 \<le> 18446744073709551616"
    unfolding unat_plus_if' by (simp split: if_splits)
qed

lemma apart_offset:
  assumes "tasks_apart p q" and "j < 169"
  shows "unat (q + j - p) = unat (q - p) + unat j"
proof -
  have "q + j - p = (q - p) + j" by simp
  then show ?thesis
    using tasks_apart_unat [OF assms(1)] assms(2) by (simp only: unat_plus_if') (simp add: word_less_nat_alt)
qed

lemma store64_apart:
  assumes "tasks_apart p q" and "k \<le> 160"
  shows "same_task q m (store64 m (p + k) v)"
  unfolding same_task_def
proof (intro allI impI store64_other)
  fix j :: u64 assume j: "j < 169"
  have "q + j - (p + k) = (q + j - p) - k" by simp
  then show "\<not> q + j - (p + k) < 8"
    using apart_offset [OF assms(1) j] tasks_apart_unat(1) [OF assms(1)] assms(2)
    by (simp only: unat_sub_if' word_less_nat_alt word_le_nat_alt) simp
qed

text \<open>The memory outside a task.\<close>

definition off_task :: "ptr \<Rightarrow> mem \<Rightarrow> mem \<Rightarrow> bool" where
  "off_task p m m' \<longleftrightarrow> (\<forall>a. \<not> a - p < 169 \<longrightarrow> m' a = m a)"

lemma off_task_apart:
  assumes "off_task p m m'" and "tasks_apart p q"
  shows "same_task q m m'"
  unfolding same_task_def
proof (intro allI impI)
  fix k :: u64 assume k: "k < 169"
  have "\<not> q + k - p < 169"
    using apart_offset [OF assms(2) k] tasks_apart_unat(1) [OF assms(2)] by (simp add: word_less_nat_alt)
  with assms(1) show "m' (q + k) = m (q + k)" by (simp add: off_task_def)
qed

lemma off_task_store64: "k \<le> 160 \<Longrightarrow> off_task p m (store64 m (p + k) v)"
  unfolding off_task_def
proof (intro allI impI store64_other)
  fix a assume "k \<le> 160" "\<not> a - p < 169"
  moreover have "a - (p + k) = (a - p) - k" by simp
  ultimately show "\<not> a - (p + k) < 8" by unat_arith
qed

lemma off_task_trans: "off_task p m m' \<Longrightarrow> off_task p m' m'' \<Longrightarrow> off_task p m m''"
  by (simp add: off_task_def)

lemma all_less_15: "(\<forall>i<15. P i) \<longleftrightarrow> P 0 \<and> P 1 \<and> P 2 \<and> P 3 \<and> P 4 \<and> P 5 \<and> P 6 \<and> P 7 \<and> P 8 \<and>
    P 9 \<and> P 10 \<and> P 11 \<and> P 12 \<and> P 13 \<and> P (14 :: nat)"
  by (auto simp: All_less_Suc numeral_eq_Suc)

lemma store_regs_slots:
  "n \<le> 15 \<Longrightarrow> m' = fold (\<lambda>i m. store64 m (p + 8 * of_nat i) (xs ! i)) [0..<n] m \<Longrightarrow>
   off_task p m m' \<and> (\<forall>i<n. load64 m' (p + 8 * of_nat i) = xs ! i) \<and>
   (\<forall>k. 8 * of_nat n \<le> k \<longrightarrow> k \<le> 160 \<longrightarrow> load64 m' (p + k) = load64 m (p + k)) \<and>
   m' (p + 168) = m (p + 168)"
proof (induction n arbitrary: m')
  case 0
  then show ?case by (simp add: off_task_def)
next
  case (Suc n)
  define u where "u = fold (\<lambda>i m. store64 m (p + 8 * of_nat i) (xs ! i)) [0..<n] m"
  have IH: "off_task p m u" "\<forall>i<n. load64 u (p + 8 * of_nat i) = xs ! i"
    "\<forall>k. 8 * of_nat n \<le> k \<longrightarrow> k \<le> 160 \<longrightarrow> load64 u (p + k) = load64 m (p + k)" "u (p + 168) = m (p + 168)"
    using Suc.IH [OF _ u_def] Suc.prems by simp_all
  have m': "m' = store64 u (p + 8 * of_nat n) (xs ! n)" using Suc.prems(2) by (simp add: u_def)
  have n: "unat (of_nat n :: u64) = n" "unat (8 * of_nat n :: u64) = 8 * n"
    "unat (8 * of_nat (Suc n) :: u64) = 8 * n + 8" "n \<le> 14"
    using Suc.prems(1) by (simp_all add: unat_word_ariths unat_of_nat)
  have "off_task p m m'"
    unfolding m' by (rule off_task_trans [OF IH(1) off_task_store64])
      (use n in \<open>simp only: word_le_nat_alt n(2), simp\<close>)
  moreover have "load64 m' (p + 8 * of_nat i) = xs ! i" if "i < Suc n" for i
  proof (cases "i = n")
    case True
    then show ?thesis by (simp add: m')
  next
    case False
    with that have i: "i < n" "unat (8 * of_nat i :: u64) = 8 * i" using n(4)
      by (simp_all add: unat_word_ariths unat_of_nat)
    have "load64 m' (p + 8 * of_nat i) = load64 u (p + 8 * of_nat i)"
      unfolding m' by (rule load64_store64_other)
        (use i n in \<open>simp_all add: word_le_nat_alt unat_sub_if'\<close>)
    with IH(2) i show ?thesis by simp
  qed
  moreover have "load64 m' (p + k) = load64 m (p + k)" if "8 * of_nat (Suc n) \<le> k" "k \<le> 160" for k
  proof -
    have k: "8 * n + 8 \<le> unat k" "unat k \<le> 160" using that n(3) by (simp_all add: word_le_nat_alt)
    have "load64 m' (p + k) = load64 u (p + k)"
      unfolding m' by (rule load64_store64_other)
        (use k n in \<open>simp_all add: word_le_nat_alt unat_sub_if'\<close>)
    with IH(3) k n show ?thesis by (simp add: word_le_nat_alt that(2))
  qed
  moreover have "m' (p + 168) = m (p + 168)"
    unfolding m' using IH(4) n
    by (subst store64_other) (simp_all add: word_less_nat_alt unat_sub_if')
  ultimately show ?case by blast
qed

lemma field_other:
  assumes "unat a + 8 \<le> unat b \<or> unat b + 8 \<le> unat a" and "unat a \<le> 160" "unat b \<le> 160"
  shows "load64 (store64 m (p + a) v) (p + b) = load64 m (p + b)"
  by (rule load64_store64_other) (use assms in \<open>auto simp: word_le_nat_alt unat_sub_if'\<close>)

lemma field_other_0:
  assumes "8 \<le> unat a" and "unat a \<le> 160"
  shows "load64 (store64 m (p + a) v) p = load64 m p"
  using field_other [of a 0] assms by simp

lemma id_other: "a \<le> 160 \<Longrightarrow> store64 m (p + a) v (p + 168) = m (p + 168)"
  by (rule store64_other) (auto simp: word_le_nat_alt word_less_nat_alt unat_sub_if')

lemmas task_fields = task_rsp_def task_rflags_def task_rip_def task_next_def task_vmap_def
  task_deadline_def task_id_def set_task_rsp_def set_task_rflags_def set_task_rip_def
  set_task_next_def set_task_vmap_def set_task_deadline_def set_task_id_def

lemma load_regs_slots:
  assumes "\<forall>i<15. load64 m (p + 8 * of_nat i) = regs_list r ! i"
  shows "load_regs m p = r"
proof -
  have "load64 m (p + 8 * of_nat i) = regs_list r ! i" if "i < 15" for i using assms that by blast
  note l = this [of 0] this [of 1] this [of 2] this [of 3] this [of 4] this [of 5] this [of 6]
    this [of 7] this [of 8] this [of 9] this [of 10] this [of 11] this [of 12] this [of 13] this [of 14]
  show ?thesis
    by (cases r) (use l in \<open>simp add: load_regs_def regs_list_def\<close>)
qed

lemma load_regs_cong:
  assumes "\<And>k. k \<le> 112 \<Longrightarrow> load64 m' (p + k) = load64 m (p + k)"
  shows "load_regs m' p = load_regs m p"
proof -
  have "load64 m' p = load64 m p" using assms [of 0] by simp
  then show ?thesis by (simp add: load_regs_def assms)
qed

lemma save_context_fields:
  fixes m p f
  defines "m' \<equiv> save_context p f m"
  shows "task_ctx m' p = saved_of f" "task_next m' p = task_next m p" "task_vmap m' p = task_vmap m p"
    "task_deadline m' p = task_deadline m p" "task_id m' p = task_id m p" "off_task p m m'"
proof -
  define u where "u = store_regs p (gprs f) m"
  have u: "off_task p m u" "\<forall>i<15. load64 u (p + 8 * of_nat i) = regs_list (gprs f) ! i"
    "\<And>k. 120 \<le> k \<Longrightarrow> k \<le> 160 \<Longrightarrow> load64 u (p + k) = load64 m (p + k)" "u (p + 168) = m (p + 168)"
    using store_regs_slots [of 15 u p "regs_list (gprs f)" m] by (simp_all add: u_def store_regs_def)
  have m': "m' = store64 (store64 (store64 u (p + 128) (rflags (frame_other f))) (p + 136) (rip (frame_other f)))
      (p + 120) (rsp (frame_other f))"
    by (simp add: m'_def save_context_def task_fields u_def)
  have "load_regs m' p = load_regs u p"
    unfolding m' by (rule load_regs_cong) (simp add: field_other word_le_nat_alt)
  then have "load_regs m' p = gprs f" using load_regs_slots [OF u(2)] by simp
  then show "task_ctx m' p = saved_of f"
    unfolding m' by (simp add: task_ctx_def saved_of_def task_fields field_other)
  show "task_next m' p = task_next m p" "task_vmap m' p = task_vmap m p"
    "task_deadline m' p = task_deadline m p" "task_id m' p = task_id m p"
    unfolding m' using u by (simp_all add: task_fields field_other id_other)
  show "off_task p m m'"
    unfolding m' by (intro off_task_trans [OF _ off_task_store64] u(1)) simp_all
qed

lemma set_deadline_fields:
  "task_ctx (set_task_deadline p v m) p = task_ctx m p"
  "task_next (set_task_deadline p v m) p = task_next m p"
  "task_vmap (set_task_deadline p v m) p = task_vmap m p"
  "task_deadline (set_task_deadline p v m) p = v"
  "off_task p m (set_task_deadline p v m)"
proof -
  have "load_regs (store64 m (p + 160) v) p = load_regs m p"
    by (rule load_regs_cong) (simp add: field_other word_le_nat_alt)
  then show "task_ctx (set_task_deadline p v m) p = task_ctx m p"
    by (simp add: task_ctx_def task_fields field_other)
  show "task_next (set_task_deadline p v m) p = task_next m p"
    "task_vmap (set_task_deadline p v m) p = task_vmap m p"
    "task_deadline (set_task_deadline p v m) p = v"
    by (simp_all add: task_fields field_other)
  show "off_task p m (set_task_deadline p v m)"
    by (simp add: set_task_deadline_def off_task_store64)
qed

section \<open>The ring of tasks\<close>

definition ring :: "mem \<Rightarrow> ptr list \<Rightarrow> bool" where
  "ring m xs \<longleftrightarrow> xs \<noteq> [] \<and> distinct xs \<and> map (task_next m) xs = rotate1 xs \<and>
     (\<forall>p\<in>set xs. \<forall>q\<in>set xs. p \<noteq> q \<longrightarrow> tasks_apart p q)"

definition sched_abs :: "mem \<Rightarrow> ptr list \<Rightarrow> queue" where
  "sched_abs m xs = map (\<lambda>p. (p, task_vmap m p, task_ctx m p)) xs"

definition sched_inv :: "'z kernel_scheme \<Rightarrow> ptr list \<Rightarrow> bool" where
  "sched_inv s xs \<longleftrightarrow> ring (kmem s) xs \<and> current_task s = hd xs"

lemma ring_rotate1: "ring m xs \<Longrightarrow> ring m (rotate1 xs)"
  by (simp add: ring_def rotate1_map [symmetric])

lemma ring_next: "ring m xs \<Longrightarrow> task_next m (hd xs) = hd (rotate1 xs)"
  using hd_map [of xs "task_next m"] by (simp add: ring_def)

text \<open>A change of one task that keeps its link keeps the ring and the other tasks.\<close>

lemma ring_off_task:
  assumes r: "ring m xs" and p: "p \<in> set xs" and off: "off_task p m m'" and link: "task_next m' p = task_next m p"
  shows "ring m' xs" and "q \<in> set xs \<Longrightarrow> q \<noteq> p \<Longrightarrow> same_task q m m'"
proof -
  have same: "same_task q m m'" if "q \<in> set xs" "q \<noteq> p" for q
    using off r p that by (intro off_task_apart [OF off]) (auto simp: ring_def)
  show "q \<in> set xs \<Longrightarrow> q \<noteq> p \<Longrightarrow> same_task q m m'" by (rule same)
  have "map (task_next m') xs = map (task_next m) xs"
    using same_task_fields(2) [OF same] link by auto
  with r show "ring m' xs" by (simp add: ring_def)
qed

lemma sched_abs_off_task:
  assumes r: "ring m xs" and p: "p \<in> set xs" and off: "off_task p m m'" and link: "task_next m' p = task_next m p"
    and vmap: "task_vmap m' p = task_vmap m p"
  shows "sched_abs m' xs = map (\<lambda>(q, v, c). (q, v, if q = p then task_ctx m' p else c)) (sched_abs m xs)"
  using ring_off_task(2) [OF assms(1-4), THEN same_task_fields(1)]
    ring_off_task(2) [OF assms(1-4), THEN same_task_fields(3)] vmap
  by (auto simp: sched_abs_def)

section \<open>The scheduler is round robin\<close>

lemma rr_switch_Cons: "q \<noteq> [] \<Longrightarrow> rr_switch f q = rotate1 ((fst (hd q), fst (snd (hd q)), saved_of f) # tl q)"
  by (cases q) auto

lemma sched_switch_spec:
  assumes inv: "sched_inv s xs" and sw: "sched_switch f s = (g, s')"
  shows "sched_inv s' (rotate1 xs)"
    and "sched_abs (kmem s') (rotate1 xs) = rr_switch f (sched_abs (kmem s) xs)"
    and "g = resume (head_context (rr_switch f (sched_abs (kmem s) xs)))"
    and "cr3 s' = fst (snd (hd (rr_switch f (sched_abs (kmem s) xs)))) - 0xffff800000000000"
    and "task_deadline (kmem s') (current_task s') = timer_elapsed_us s + 1000000"
    and "timer_elapsed_us s' = timer_elapsed_us s"
    and "\<And>a. (\<forall>p\<in>set xs. \<not> a - p < 169) \<Longrightarrow> kmem s' a = kmem s a"
    and "data_segments s' = 0x23"
proof -
  let ?m = "kmem s" and ?p = "current_task s"
  define m1 where "m1 = save_context ?p f ?m"
  define n where "n = task_next m1 ?p"
  define m2 where "m2 = set_task_deadline n (timer_elapsed_us s + 1000000) m1"
  have r: "ring ?m xs" and p: "?p = hd xs" "?p \<in> set xs" "xs \<noteq> []"
    using inv by (auto simp: sched_inv_def ring_def)
  note sc = save_context_fields [where p = ?p and f = f and m = ?m, folded m1_def]
  have r1: "ring m1 xs" by (rule ring_off_task(1) [OF r p(2) sc(6,2)])
  have n1: "n = hd (rotate1 xs)" using ring_next [OF r1] p(1) by (simp add: n_def)
  moreover have "hd (rotate1 xs) \<in> set xs" using hd_in_set [of "rotate1 xs"] p(3) by simp
  ultimately have n: "n = hd (rotate1 xs)" "n \<in> set xs" by simp_all
  note sd = set_deadline_fields [where p = n and v = "timer_elapsed_us s + 1000000" and m = m1, folded m2_def]
  have r2: "ring m2 xs" by (rule ring_off_task(1) [OF r1 n(2) sd(5,2)])
  have s': "s' = s\<lparr>kmem := m2, current_task := n, data_segments := 0x23,
      cr3 := task_vmap m2 n - 0xffff800000000000\<rparr>"
    and g: "g = resume (task_ctx m2 n)"
    using sw by (auto simp: sched_switch_def switch_to_task_def Let_def timer_read_counter_def
        m1_def n_def m2_def task_ctx_def)
  have k: "kmem s' = m2" "current_task s' = n" by (simp_all add: s')
  show "sched_inv s' (rotate1 xs)" using ring_rotate1 [OF r2] n by (simp add: sched_inv_def k)
  have a2: "sched_abs m2 xs = sched_abs m1 xs"
    unfolding sched_abs_off_task [OF r1 n(2) sd(5,2,3)] using sd(1) by (auto simp: sched_abs_def)
  have ne: "sched_abs ?m xs \<noteq> []" using p by (simp add: sched_abs_def)
  have a1: "sched_abs m1 xs = (fst (hd (sched_abs ?m xs)), fst (snd (hd (sched_abs ?m xs))), saved_of f) # tl (sched_abs ?m xs)"
    unfolding sched_abs_off_task [OF r p(2) sc(6,2,3)] using p r sc(1)
    by (cases xs) (auto simp: sched_abs_def ring_def)
  have abs: "sched_abs m2 (rotate1 xs) = rr_switch f (sched_abs ?m xs)"
    using a1 a2 unfolding rr_switch_Cons [OF ne] by (simp add: sched_abs_def rotate1_map [symmetric])
  then show "sched_abs (kmem s') (rotate1 xs) = rr_switch f (sched_abs ?m xs)" by (simp add: k)
  have "hd (sched_abs m2 (rotate1 xs)) = (n, task_vmap m2 n, task_ctx m2 n)"
    using n p by (simp add: sched_abs_def hd_map)
  then show "g = resume (head_context (rr_switch f (sched_abs ?m xs)))"
    "cr3 s' = fst (snd (hd (rr_switch f (sched_abs ?m xs)))) - 0xffff800000000000"
    unfolding abs [symmetric] by (simp_all add: g s' head_context_def)
  show "task_deadline (kmem s') (current_task s') = timer_elapsed_us s + 1000000" using sd(4) by (simp add: k)
  show "timer_elapsed_us s' = timer_elapsed_us s" "data_segments s' = 0x23" by (simp_all add: s')
  fix a assume "\<forall>p\<in>set xs. \<not> a - p < 169"
  then show "kmem s' a = kmem s a" using sc(6) sd(5) p n by (simp add: k off_task_def)
qed

text \<open>The state with the ring as a ghost.\<close>

definition ring_switch ::
  "interrupt_frame \<Rightarrow> 'z kernel_scheme \<times> ptr list \<Rightarrow> interrupt_frame \<times> 'z kernel_scheme \<times> ptr list" where
  "ring_switch f = (\<lambda>(s, xs). let (g, s') = sched_switch f s in (g, s', rotate1 xs))"

interpretation rr: round_robin "\<lambda>(s, xs). sched_inv s xs" "\<lambda>(s, xs). sched_abs (kmem s) xs" ring_switch
proof
  fix s :: "'a kernel_scheme \<times> ptr list" and f
  obtain t xs where s: "s = (t, xs)" by fastforce
  obtain g t' where sw: "sched_switch f t = (g, t')" by fastforce
  assume "case s of (s, xs) \<Rightarrow> sched_inv s xs"
  then have inv: "sched_inv t xs" by (simp add: s)
  note spec = sched_switch_spec [OF inv sw]
  show "case snd (ring_switch f s) of (s, xs) \<Rightarrow> sched_inv s xs"
    "(case snd (ring_switch f s) of (s, xs) \<Rightarrow> sched_abs (kmem s) xs) =
       rr_switch f (case s of (s, xs) \<Rightarrow> sched_abs (kmem s) xs)"
    "fst (ring_switch f s) = resume (head_context (rr_switch f (case s of (s, xs) \<Rightarrow> sched_abs (kmem s) xs)))"
    using spec by (simp_all add: ring_switch_def s sw)
  show "(case s of (s, xs) \<Rightarrow> sched_abs (kmem s) xs) \<noteq> []"
    using inv by (simp add: s sched_abs_def sched_inv_def ring_def)
qed

section \<open>Sequences of ticks\<close>

text \<open>The tasks and frames that consecutive expiries continue with.\<close>

primrec switch_log :: "interrupt_frame list \<Rightarrow> 'z kernel_scheme \<Rightarrow> (ptr \<times> interrupt_frame) list" where
  "switch_log [] s = []"
| "switch_log (f # fs) s =
     (let (g, s') = sched_switch f s in (current_task s', g) # switch_log fs s')"

lemma switch_log_rr: "sched_inv s xs \<Longrightarrow> switch_log fs s = rr.switches fs (s, xs)"
proof (induction fs arbitrary: s xs)
  case (Cons f fs)
  obtain g s' where sw: "sched_switch f s = (g, s')" by fastforce
  note spec = sched_switch_spec [OF Cons.prems sw]
  have "rotate1 xs \<noteq> []" using Cons.prems by (simp add: sched_inv_def ring_def)
  then have "fst (hd (sched_abs (kmem s') (rotate1 xs))) = current_task s'"
    using spec(1) by (simp add: sched_inv_def sched_abs_def hd_map)
  moreover have "ring_switch f (s, xs) = (g, s', rotate1 xs)" by (simp add: ring_switch_def sw)
  ultimately show ?case using Cons.IH [OF spec(1)] by (simp add: sw)
qed simp

text \<open>Ticks with their frames and intervals: the tasks switched to, and the state after them.\<close>

fun ticks :: "(interrupt_frame \<times> u32) list \<Rightarrow> 'z kernel_scheme \<Rightarrow> ptr list \<times> 'z kernel_scheme" where
  "ticks [] s = ([], s)"
| "ticks ((f, d) # l) s =
     (case timer_tick f d s of
        Returns s' \<Rightarrow> ticks l s'
      | Iret g s' \<Rightarrow> let (h, s'') = ticks l s' in (current_task s' # h, s''))"

definition interval :: "(interrupt_frame \<times> u32) list \<Rightarrow> nat" where
  "interval l = sum_list (map (\<lambda>(f, d). unat d) l)"

definition forward :: "(interrupt_frame \<times> u32) list \<Rightarrow> bool" where
  "forward l \<longleftrightarrow> (\<forall>(f, d)\<in>set l. unat d < 2147483648)"

definition deadline_ok :: "'z kernel_scheme \<Rightarrow> bool" where
  "deadline_ok s \<longleftrightarrow>
     unat (task_deadline (kmem s) (current_task s)) \<le> unat (timer_elapsed_us s) + 1000000"

lemma unat_scast_nonneg:
  assumes "unat (d :: u32) < 2147483648"
  shows "unat (scast d :: u64) = unat d"
proof -
  have "take_bit 31 (unat d) = unat d" using assms by (simp add: take_bit_nat_eq_self)
  then have "\<not> bit (unat d) n" if "31 \<le> n" for n
    using that by (metis bit_take_bit_iff not_le)
  then have hi: "\<not> bit d n" if "31 \<le> n" for n
    using that by (auto simp: bit_unsigned_iff dest: bit_imp_le_length)
  have "(scast d :: u64) = ucast d"
    by (rule bit_word_eqI) (use hi in \<open>auto simp: bit_simps min_def not_le dest: bit_imp_le_length\<close>)
  then show ?thesis by simp
qed

lemma ticks_append:
  "ticks (k @ l) s = (fst (ticks k s) @ fst (ticks l (snd (ticks k s))), snd (ticks l (snd (ticks k s))))"
  by (induction k s rule: ticks.induct) (auto split: kexit.splits simp: split_def Let_def)

lemma ticks_spec:
  "sched_inv s xs \<Longrightarrow> deadline_ok s \<Longrightarrow> forward l \<Longrightarrow>
   unat (timer_elapsed_us s) + interval l + 1000000 < 18446744073709551616 \<Longrightarrow> ticks l s = (h, s') \<Longrightarrow>
   sched_inv s' (rotate (length h) xs) \<and> deadline_ok s' \<and>
   unat (timer_elapsed_us s') = unat (timer_elapsed_us s) + interval l \<and>
   (\<forall>i<length h. h ! i = hd (rotate (Suc i) xs)) \<and>
   (h = [] \<longrightarrow> l \<noteq> [] \<longrightarrow>
      unat (timer_elapsed_us s) + interval l \<le> unat (task_deadline (kmem s) (current_task s)))"
proof (induction l arbitrary: s xs h)
  case Nil
  then show ?case by (auto simp: interval_def)
next
  case (Cons a l)
  obtain f d where a: "a = (f, d)" by fastforce
  define t where "t = s\<lparr>timer_elapsed_us := timer_elapsed_us s + scast d\<rparr>"
  have d: "unat d < 2147483648" "forward l" "interval (a # l) = unat d + interval l"
    using Cons.prems(3) by (auto simp: forward_def interval_def a)
  have el: "unat (timer_elapsed_us t) = unat (timer_elapsed_us s) + unat d"
    using Cons.prems(4) d by (simp add: t_def unat_plus_if' unat_scast_nonneg)
  have t: "sched_inv t xs" "kmem t = kmem s" "current_task t = current_task s"
    using Cons.prems(1) by (simp_all add: t_def sched_inv_def)
  have tick: "timer_tick f d s = sched_tick f t" by (simp add: timer_tick_def t_def)
  show ?case
  proof (cases "timer_elapsed_us t > task_deadline (kmem t) (current_task t)")
    case True
    obtain g u where sw: "sched_switch f t = (g, u)" by fastforce
    note spec = sched_switch_spec [OF t(1) sw]
    obtain k where k: "ticks l u = (k, s')" "h = current_task u # k"
      using Cons.prems(5) True by (cases "ticks l u") (auto simp: a tick sched_tick_def timer_read_counter_def sw)
    have u: "unat (timer_elapsed_us u) = unat (timer_elapsed_us s) + unat d" using spec(6) el by simp
    have ok: "deadline_ok u"
      unfolding deadline_ok_def spec(5,6) using Cons.prems(4) d el by (simp add: unat_plus_if')
    have room: "unat (timer_elapsed_us u) + interval l + 1000000 < 18446744073709551616"
      using Cons.prems(4) u d(3) by simp
    note IH = Cons.IH [OF spec(1) ok d(2) room k(1)]
    have rot: "rotate i (rotate1 xs) = rotate (Suc i) xs" for i by (simp add: rotate1_rotate_swap)
    have "current_task u = hd (rotate (Suc 0) xs)" using spec(1) by (simp add: sched_inv_def)
    then have "\<forall>i<length h. h ! i = hd (rotate (Suc i) xs)"
      using IH by (auto simp: k(2) nth_Cons' rot simp del: rotate_Suc)
    with IH show ?thesis using u d(3) by (simp add: k(2) rot del: rotate_Suc)
  next
    case False
    have u: "ticks l t = (h, s')" "deadline_ok t"
      using Cons.prems(2,5) False el
      by (auto simp: a tick sched_tick_def timer_read_counter_def deadline_ok_def t)
    have room: "unat (timer_elapsed_us t) + interval l + 1000000 < 18446744073709551616"
      using Cons.prems(4) el d(3) by simp
    note IH = Cons.IH [OF t(1) u(2) d(2) room u(1)]
    have "unat (timer_elapsed_us t) \<le> unat (task_deadline (kmem t) (current_task t))"
      using False by (simp add: word_less_nat_alt)
    with IH show ?thesis using el d(3) u(1) by (cases "l = []") (auto simp: t interval_def)
  qed
qed

lemma ticks_at_least:
  assumes "sched_inv s xs" "deadline_ok s" "\<forall>l\<in>set ls. forward l \<and> 1000000 < interval l"
    "unat (timer_elapsed_us s) + interval (concat ls) + 1000000 < 18446744073709551616"
  shows "length ls \<le> length (fst (ticks (concat ls) s))"
  using assms
proof (induction ls arbitrary: s xs)
  case (Cons l ls)
  obtain h u where u: "ticks l s = (h, u)" by fastforce
  have c: "interval (concat (l # ls)) = interval l + interval (concat ls)" by (simp add: interval_def)
  have l: "forward l" "1000000 < interval l" "l \<noteq> []"
    using Cons.prems(3) by (auto simp: interval_def)
  have "unat (timer_elapsed_us s) + interval l + 1000000 < 18446744073709551616"
    using Cons.prems(4) c by simp
  note spec = ticks_spec [OF Cons.prems(1,2) l(1) this u]
  have "h \<noteq> []" using spec l Cons.prems(2) by (auto simp: deadline_ok_def)
  moreover have "length ls \<le> length (fst (ticks (concat ls) u))"
    by (rule Cons.IH [of u "rotate (length h) xs"]) (use spec Cons.prems c in auto)
  ultimately show ?case using u by (cases h) (auto simp: ticks_append)
qed simp

section \<open>Properties\<close>

text \<open>C5: A tick implements the round robin queue. Past the deadline it saves the frame of the
  current task at the end of the queue and continues the next one, in its address space, with user
  segments, interrupts on and a fresh deadline of one second; the memory outside the task
  structures is not touched. Otherwise it returns and changes nothing.\<close>

theorem sched_tick_refines:
  assumes "sched_inv s xs"
  shows "if timer_elapsed_us s > task_deadline (kmem s) (current_task s)
    then \<exists>s'. let q = rr_switch f (sched_abs (kmem s) xs) in
      sched_tick f s = Iret (resume (head_context q)) s' \<and>
      sched_inv s' (rotate1 xs) \<and> sched_abs (kmem s') (rotate1 xs) = q \<and>
      cr3 s' = fst (snd (hd q)) - 0xffff800000000000 \<and> data_segments s' = 0x23 \<and>
      task_deadline (kmem s') (current_task s') = timer_elapsed_us s + 1000000 \<and>
      (\<forall>a. (\<forall>p\<in>set xs. \<not> a - p < 169) \<longrightarrow> kmem s' a = kmem s a)
    else sched_tick f s = Returns s"
proof -
  obtain g s' where sw: "sched_switch f s = (g, s')" by fastforce
  from sched_switch_spec [OF assms sw] show ?thesis
    by (auto simp: sched_tick_def timer_read_counter_def sw Let_def)
qed

text \<open>C20: When each of the \<open>n\<close> tasks of the ring has expired once, every task was continued once, in
  the order of the ring, and the task interrupted first continues with exactly the registers, the
  stack pointer, the instruction pointer and the flags (interrupts enabled) it was interrupted
  with.\<close>

theorem context_switch_roundtrip:
  assumes inv: "sched_inv s xs" and n: "length fs = length xs"
  shows "map fst (switch_log fs s) = rotate1 xs \<and>
    last (switch_log fs s) = (hd xs, resume (saved_of (hd fs)))"
proof -
  have len: "length fs = length (sched_abs (kmem s) xs)" and m: "map fst (sched_abs (kmem s) xs) = xs"
    using n by (simp_all add: sched_abs_def comp_def)
  note round = rr.one_round [of "(s, xs)" fs, folded switch_log_rr [OF inv], unfolded prod.case, OF inv len]
  have "xs \<noteq> []" using inv by (simp add: sched_inv_def ring_def)
  moreover from this n have "switch_log fs s \<noteq> []"
    by (cases fs) (auto simp: Let_def split: prod.split)
  moreover have "fst (last (switch_log fs s)) = last (map fst (switch_log fs s))"
    using calculation(2) by (simp add: last_map)
  ultimately show ?thesis
    using round m by (cases xs) (auto simp: prod_eq_iff)
qed

text \<open>C19: No task starves: while the timer keeps ticking, whatever frames it interrupts, the
  ticks of \<open>n\<close> periods of more than a second each switch to all \<open>n\<close> tasks of the ring.\<close>

theorem sched_fair:
  assumes inv: "sched_inv s xs" and ok: "deadline_ok s"
    and ls: "length ls = length xs" "\<forall>l\<in>set ls. forward l \<and> 1000000 < interval l"
    and room: "unat (timer_elapsed_us s) + interval (concat ls) + 1000000 < 18446744073709551616"
  shows "set xs \<subseteq> set (fst (ticks (concat ls) s))"
proof -
  obtain h s' where h: "ticks (concat ls) s = (h, s')" by fastforce
  have fw: "forward (concat ls)" using ls(2) by (auto simp: forward_def)
  have nth: "h ! i = hd (rotate (Suc i) xs)" if "i < length h" for i
    using ticks_spec [OF inv ok fw room h] that by blast
  have n: "length xs \<le> length h" using ticks_at_least [OF inv ok ls(2) room] ls(1) h by simp
  show ?thesis
  proof
    fix p assume "p \<in> set xs"
    then obtain j where j: "j < length xs" "p = xs ! j" by (auto simp: in_set_conv_nth)
    define i where "i = (if j = 0 then length xs - 1 else j - 1)"
    have i: "i < length xs" "Suc i mod length xs = j"
      using j(1) by (auto simp: i_def)
    have "hd (rotate (Suc i) xs) = p"
      using i j by (subst hd_rotate_conv_nth) auto
    then show "p \<in> set (fst (ticks (concat ls) s))"
      using nth [of i] n i by (metis fst_conv h nth_mem order.strict_trans2)
  qed
qed

text \<open>Two tasks that follow each other.\<close>

definition two_tasks :: mem where
  "two_tasks = store64 (store64 (\<lambda>_. 0) 0xffff8100000000a8 0xffff810000001018)
     0xffff8100000010a8 0xffff810000000018"

definition sched_example :: kernel where
  "sched_example = \<lparr>kmem = two_tasks, page_bitmap = \<lparr>bm_buf = 0, bm_len = 0\<rparr>, last_free = 0,
     free_memory = 0, total_memory = 0, kernel_table = 0, cr3 = 0, invlpg = [], io_trace = [], klog = [],
     use_xsdt = False, rsdt = 0, xsdt = 0, madt = 0, hpet = 0, mcfg = 0,
     ioapics = [], isos = [], lapic_mmio_regs = 0, core_count = 0, hpet_mmio_regs = 0, main_frequency = 0,
     current_task = 0xffff810000000018, tid_next = 2, timer_elapsed_us = 5, prev_time = 0, data_segments = 0x23\<rparr>"

definition regs_example :: registers where
  "regs_example = \<lparr>r15 = 15, r14 = 14, r13 = 13, r12 = 12, r11 = 11, r10 = 10, r9 = 9, r8 = 8,
     rbp = 7, rdi = 6, rsi = 5, rdx = 4, rcx = 3, rbx = 2, rax = 1\<rparr>"

definition frame_example :: interrupt_frame where
  "frame_example = \<lparr>gprs = regs_example, frame_other =
     \<lparr>rip = 0x401000, cs = 0x1b, rflags = 0x202, rsp = 0x7ffffffff000, ss = 0x23\<rparr>\<rparr>"

lemma sched_example_inv: "sched_inv sched_example [0xffff810000000018, 0xffff810000001018]"
  by (simp add: sched_inv_def ring_def sched_example_def two_tasks_def task_next_def tasks_apart_def mem_simps)

lemma sched_example_deadline:
  "task_deadline (kmem sched_example) (current_task sched_example) = 0" "timer_elapsed_us sched_example = 5"
  by (simp_all add: sched_example_def two_tasks_def task_deadline_def mem_simps load64_zero)

theorem sched_tick_refines_witness:
  "\<exists>g s'. sched_tick frame_example sched_example = Iret g s' \<and>
     task_deadline (kmem s') (current_task s') = 1000005"
  using sched_tick_refines [OF sched_example_inv, of frame_example]
  by (auto simp: sched_example_deadline Let_def)

theorem context_switch_roundtrip_witness:
  "last (switch_log [frame_example, resume (saved_of frame_example)] sched_example) =
     (0xffff810000000018, frame_example)"
  using context_switch_roundtrip [OF sched_example_inv, of "[frame_example, resume (saved_of frame_example)]"]
  by (simp add: frame_example_def saved_of_def)

theorem sched_fair_witness:
  "{0xffff810000000018, 0xffff810000001018} \<subseteq>
     set (fst (ticks [(frame_example, 1000001), (frame_example, 3333), (frame_example, 1000000)] sched_example))"
proof -
  have "deadline_ok sched_example" by (simp add: deadline_ok_def sched_example_deadline)
  from sched_fair [OF sched_example_inv this,
      of "[[(frame_example, 1000001)], [(frame_example, 3333), (frame_example, 1000000)]]"]
  show ?thesis by (simp add: forward_def interval_def sched_example_deadline)
qed

end
