(* ===== verification/Syscall.thy ===== *)
theory Syscall
  imports Sched
begin

text \<open>
  Copy on write (\<^verbatim>\<open>memory/cow.c\<close>), the handling of exceptions
  (\<^verbatim>\<open>exception_handle\<close> of \<^verbatim>\<open>interrupts/interrupts.c\<close>) and the system calls
  (\<^verbatim>\<open>isr128\<close>, \<^verbatim>\<open>syscall/*.c\<close>), with the stubs of
  \<^verbatim>\<open>interrupts/interrupts.S\<close> around them.
\<close>

section \<open>Copy on write\<close>

definition kernel_copy_vaddr :: ptr where "kernel_copy_vaddr = 0xffff810200000000"

text \<open>\<^verbatim>\<open>memcpy\<close> between two pointers that the tables of the current address space translate.\<close>

definition virt_memcpy :: "ptr \<Rightarrow> ptr \<Rightarrow> u64 \<Rightarrow> 'z vm_scheme \<Rightarrow> 'z vm_scheme option" where
  "virt_memcpy dst src n =
     for_each (\<lambda>i s. do { a \<leftarrow> user_addr s (src + of_nat i); user_put (dst + of_nat i) (kmem s a) s }) [0..<unat n]"

definition cow_copy_on_write :: "ptr \<Rightarrow> 'z kernel_scheme \<Rightarrow> (bool \<times> 'z kernel_scheme) option" where
  "cow_copy_on_write vaddr s =
     (let offending_page = vaddr AND NOT 0xfff;
          entry = paging_get s (task_vmap (kmem s) (current_task s)) offending_page
      in if entry AND PAGING_PRESENT = 0 then Some (False, s)
      else
        do { s \<leftarrow> paging_map s (kernel_table s) kernel_copy_vaddr (entry AND NOT 0xfff) 0;
             let s = paging_unmap s (task_vmap (kmem s) (current_task s)) offending_page;
             s \<leftarrow> vmm_request_at s (task_vmap (kmem s) (current_task s)) offending_page 1
                    (ucast (entry AND 0xfff OR PAGING_WRITABLE));
             s \<leftarrow> virt_memcpy offending_page kernel_copy_vaddr 0x1000 s;
             Some (True, paging_unmap s (kernel_table s) kernel_copy_vaddr) })"

section \<open>Exceptions\<close>

definition EXCEPTION_DB :: u64 where "EXCEPTION_DB = 1"
definition EXCEPTION_PF :: u64 where "EXCEPTION_PF = 14"

definition exception_names :: "string list" where
  "exception_names =
    [''Divide by zero exception (0x00)'',
     ''Debug exception (0x01)'',
     ''Invalid exception ISR'',
     ''Breakpoint exception (0x03)'',
     ''Overflow exception (0x04)'',
     ''Bound range exceeded (0x05)'',
     ''Invalid opcode (0x06)'',
     ''Device not available (0x07)'',
     ''Double fault (0x08)'',
     ''Invalid exception ISR'',
     ''Invalid TSS (0x0a)'',
     ''Segment not present (0x0b)'',
     ''Stack segment fault (0x0c)'',
     ''General protection fault (0x0d)'',
     ''Page fault (0x0e)'',
     ''Invalid exception ISR'',
     ''x86 floating point exception (0x10)'',
     ''Alignment check exception (0x11)'',
     ''Machine check exception (0x12)'',
     ''SIMD floating point exception (0x13)'',
     ''Virtualization exception (0x14)'',
     ''Invalid exception ISR'',
     ''x86 floating point exception (0x10)'',
     ''Invalid exception ISR'',
     ''x86 floating point exception (0x10)'',
     ''Invalid exception ISR'',
     ''x86 floating point exception (0x10)'',
     ''Invalid exception ISR'',
     ''x86 floating point exception (0x10)'',
     ''Invalid exception ISR'',
     ''x86 floating point exception (0x10)'',
     ''Invalid exception ISR'',
     ''x86 floating point exception (0x10)'',
     ''Invalid exception ISR'',
     ''x86 floating point exception (0x10)'',
     ''Invalid exception ISR'',
     ''x86 floating point exception (0x10)'',
     ''Invalid exception ISR'',
     ''x86 floating point exception (0x10)'',
     ''Security exception (0x1e)'']"

text \<open>A handled exception resumes; any other halts the processor for ever, with a last message.\<close>

datatype 's outcome = Resumes 's | Halts 's

definition exception_args :: "(string \<Rightarrow> ptr) \<Rightarrow> exception_frame \<Rightarrow> u64 list" where
  "exception_args lit ef =
     (let g = gprs ef; f = frame_other ef in
      [lit (exception_names ! unat (int_no ef)), error_code ef, rax g, rbx g, rcx g, rdx g, rsi g, rdi g,
       rbp g, rsp f, r8 g, r9 g, r10 g, r11 g, r12 g, r13 g, r14 g, r15 g, rip f, cs f, rflags f, ss f])"

definition exception_handle ::
  "(string \<Rightarrow> ptr) \<Rightarrow> u64 \<Rightarrow> exception_frame \<Rightarrow> 'z kernel_scheme \<Rightarrow> 'z kernel_scheme outcome option" where
  "exception_handle lit cr2 ef s =
     do { (handled, s) \<leftarrow>
            (if int_no ef = EXCEPTION_PF then
               (if ptr_is_user cr2 then cow_copy_on_write cr2 s else Some (False, s))
             else Some (int_no ef = EXCEPTION_DB, s));
          if handled then Some (Resumes s)
          else if unat (int_no ef) \<ge> length exception_names then None
          else Some (Halts (kprintf KMSG_LOGLEVEL_CRIT
            ''%s: err=%x\<newline>rax=%x, rbx=%x, rcx=%x, rdx=%x\<newline>rsi=%x, rdi=%x, rbp=%x, rsp=%x\<newline>r8=%x, r9=%x, r10=%x, r11=%x\<newline>r12=%x, r13=%x, r14=%x, r15=%x\<newline>rip=%x, cs=%x, rflags=%x, ss=%x''
            (exception_args lit ef) s)) }"

text \<open>
  The stubs of the exceptions push the vector, and a zero in place of the error code where the
  processor pushes none; when the handler returns they take the frame back.
\<close>

definition isr_err_code :: "nat set" where "isr_err_code = {8, 10, 11, 12, 13, 14, 15, 17, 30}"

definition exception_stub ::
  "(string \<Rightarrow> ptr) \<Rightarrow> u64 \<Rightarrow> nat \<Rightarrow> u64 \<Rightarrow> interrupt_frame \<Rightarrow> 'z kernel_scheme \<Rightarrow>
   (interrupt_frame \<times> 'z kernel_scheme) outcome option" where
  "exception_stub lit cr2 n code ifr s =
     do { r \<leftarrow> exception_handle lit cr2
            (interrupt_frame.extend ifr \<lparr>int_no = of_nat n, error_code = (if n \<in> isr_err_code then code else 0)\<rparr>) s;
          Some (case r of Resumes s' \<Rightarrow> Resumes (ifr, s') | Halts s' \<Rightarrow> Halts (ifr, s')) }"

section \<open>System calls\<close>

definition SYSCALL_PRINT :: nat where "SYSCALL_PRINT = 2"
definition SYSCALL_FORK :: nat where "SYSCALL_FORK = 57"

text \<open>The user's pointer is the format string.\<close>

definition syscall_print :: "interrupt_frame \<Rightarrow> 'z kernel_scheme \<Rightarrow> (u64 \<times> 'z kernel_scheme) option" where
  "syscall_print ifr s = Some (0, log_msg (Printf_at KMSG_LOGLEVEL_WARN (rdi (gprs ifr))) s)"

definition on_mem :: "(mem \<Rightarrow> mem) \<Rightarrow> 'z pmm_scheme \<Rightarrow> 'z pmm_scheme" where
  "on_mem f s = s\<lparr>kmem := f (kmem s)\<rparr>"

definition syscall_fork :: "interrupt_frame \<Rightarrow> 'z kernel_scheme \<Rightarrow> (u64 \<times> 'z kernel_scheme) option" where
  "syscall_fork ifr s =
     do { (new_task, s) \<leftarrow> malloc s sizeof_task 0;
          (if new_task = 0 then None else Some ());
          (vmap, s) \<leftarrow> paging_copy s (task_vmap (kmem s) (current_task s));
          let s = on_mem (set_task_vmap new_task vmap) s;
          let s = on_mem (store_regs new_task (gprs ifr)) s;
          let s = on_mem (set_task_rflags new_task (rflags (frame_other ifr))) s;
          let s = on_mem (set_task_rip new_task (rip (frame_other ifr))) s;
          let s = on_mem (set_task_rsp new_task (rsp (frame_other ifr))) s;
          let (tid, s) = task_new_tid s;
          let s = on_mem (set_task_id new_task tid) s;
          s \<leftarrow> paging_make_readonly s (task_vmap (kmem s) (current_task s));
          s \<leftarrow> paging_make_readonly s (task_vmap (kmem s) new_task);
          let s = on_mem (set_task_next new_task (task_next (kmem s) (current_task s))) s;
          let s = on_mem (set_task_next (current_task s) new_task) s;
          Some (2, on_mem (\<lambda>m. store64 m (new_task + 112) 0) s) }"

text \<open>The table has 58 entries; an index behind it is undefined.\<close>

definition syscalls ::
  "nat \<Rightarrow> (interrupt_frame \<Rightarrow> 'z kernel_scheme \<Rightarrow> (u64 \<times> 'z kernel_scheme) option) option" where
  "syscalls n = (if n = SYSCALL_PRINT then Some syscall_print
     else if n = SYSCALL_FORK then Some syscall_fork else None)"

definition isr128 :: "interrupt_frame \<Rightarrow> 'z kernel_scheme \<Rightarrow> (u64 \<times> 'z kernel_scheme) option" where
  "isr128 ifr s =
     (let syscall_id = ucast (rax (gprs ifr)) :: u8 in
      if unat syscall_id > SYSCALL_FORK then None
      else case syscalls (unat syscall_id) of
        None \<Rightarrow> Some (1, kprintf KMSG_LOGLEVEL_WARN ''Received invalid syscall %d\<newline>'' [ucast syscall_id] s)
      | Some handler \<Rightarrow> handler ifr s)"

definition isr128_stub :: "interrupt_frame \<Rightarrow> 'z kernel_scheme \<Rightarrow> (interrupt_frame \<times> 'z kernel_scheme) option" where
  "isr128_stub ifr s =
     do { (r, s) \<leftarrow> isr128 ifr s; Some (ifr\<lparr>gprs := (gprs ifr)\<lparr>rax := r\<rparr>\<rparr>, s) }"

end
