(* ===== verification/Cow.thy ===== *)
theory Cow
  imports Syscall
begin

text \<open>
  Copy on write gives the faulting task a private, writable copy of the page. The kernel reads the
  old frame through a page of its own part of the address space; that part is shared between the
  kernel's tables and the task's, which is why a mapping made in the one is seen through the other.
\<close>

section \<open>The root table\<close>

text \<open>Mapping and unmapping keep the entries of the root table that are present.\<close>

lemma map_walk_root:
  assumes idx: "indices_ok idx"
    and ok: "tables_ok (Suc l) s t" and l: "l < 3" and path: "path_ok idx (kmem s) (Suc l) t"
    and av: "Suc l \<le> frames_avail s" and w: "map_walk idx v (Suc l) t s = Some (t0, s')"
    and j: "j < 512" "present (entry (kmem s) t j)"
  shows "entry (kmem s') t j = entry (kmem s) t j" and "t0 \<noteq> t"
proof -
  let ?i = "idx ! Suc l"
  have i: "?i < 512" using idx l by (simp add: indices_ok_def)
  have l4: "l < 4" using l by simp
  have below: "entry (kmem s') t j = entry (kmem u) t j \<and> t0 \<noteq> t"
    if u: "tables_ok (Suc l) u t" "live (entry (kmem u) t ?i)" "child_of (kmem u) t ?i = c"
      "path_ok idx (kmem u) l c" "l \<le> frames_avail u" "map_walk idx v l c u = Some (t0, s')"
    for u :: "'a vm_scheme" and c
  proof -
    have okc: "tables_ok l u c" using tables_ok_child [OF u(1) i u(2)] u(3) by simp
    from map_walk_spec [OF idx l4 okc u(4,5), of v] u(6) have g: "grows l c u s'"
      and leaf: "unmap_walk idx (kmem s') l c = Some t0" and p': "path_ok idx (kmem s') l c" by auto
    have t: "frame_owned u t" "t \<notin> tabs l (kmem u) c" "table_ptr t"
      using u i by (auto simp: tables_ok_def tree_table_ptr)
    have same: "\<forall>a\<in>frame t. kmem s' a = kmem u a"
      using g t unfolding grows_def same_on_def by blast
    have "t \<notin> tabs l (kmem s') c" using g t unfolding grows_def by blast
    then have "t0 \<noteq> t" using leaf_in_tabs [OF idx l4 p' leaf] by blast
    moreover have "entry (kmem s') t j = entry (kmem u) t j"
      using same t(3) j(1) by (intro load64_frame_cong) (auto simp: table_ptr_def)
    ultimately show ?thesis by simp
  qed
  show "entry (kmem s') t j = entry (kmem s) t j" "t0 \<noteq> t"
  proof (atomize (full), cases "present (entry (kmem s) t ?i)")
    case True
    then have "live (entry (kmem s) t ?i)" "path_ok idx (kmem s) l (child_of (kmem s) t ?i)"
      using path by (simp_all add: walk_step live_def)
    then show "entry (kmem s') t j = entry (kmem s) t j \<and> t0 \<noteq> t"
      using below [OF ok _ refl] av w map_walk_old [OF True] by simp
  next
    case False
    have av0: "0 < frames_avail s" using av by simp
    obtain p s1 where p: "palloc s 1 = Some (p, s1)" "table_ptr p"
      and u: "grows (Suc l) t s (new_table_state v (t + 8 * ?i) p s1)"
        "frames_avail (new_table_state v (t + 8 * ?i) p s1) = frames_avail s - 1"
        "live (entry (kmem (new_table_state v (t + 8 * ?i) p s1)) t ?i)"
        "child_of (kmem (new_table_state v (t + 8 * ?i) p s1)) t ?i = p"
        "path_ok idx (kmem (new_table_state v (t + 8 * ?i) p s1)) l p"
      using new_table_grows [OF ok i l False av0, where v = v] idx by metis
    define u' where "u' = new_table_state v (t + 8 * ?i) p s1"
    have "tables_ok (Suc l) u' t" using u(1) by (simp add: grows_def u'_def)
    moreover have "map_walk idx v l p u' = Some (t0, s')"
      using w map_walk_new [OF False p(1)] child_table_ptr [OF p(2)] by (simp add: u'_def)
    moreover have "l \<le> frames_avail u'" using u(2) av by (simp add: u'_def)
    ultimately have b: "entry (kmem s') t j = entry (kmem u') t j" "t0 \<noteq> t"
      using below [of u' p] u(3-5) by (simp_all add: u'_def)
    have ji: "j \<noteq> ?i" using j(2) False by auto
    have pok: "palloc_ok s" and t: "frame_owned s t" "table_ptr t"
      using ok by (auto simp: tables_ok_def tree_table_ptr)
    obtain s2 p' s1' where s2: "palloc s 1 = Some (p', s1')"
        "s2 = s1'\<lparr>kmem := memset (kmem s1') p' 0 0x1000\<rparr>"
        "\<And>q a. frame_owned s q \<Longrightarrow> a \<in> frame q \<Longrightarrow> kmem s2 a = kmem s a"
      by (rule pa.alloc_zeroed [OF pok av0]) blast
    have "entry (kmem s2) t j = entry (kmem s) t j"
      using s2(3) [OF t(1)] t(2) j(1) by (intro load64_frame_cong) (auto simp: table_ptr_def)
    moreover have "entry (kmem u') t j = entry (kmem s2) t j"
      using s2(1,2) p(1) ji t(2) i j(1)
      by (simp add: u'_def new_table_state_def load64_store64_slot table_ptr_aligned)
    ultimately show "entry (kmem s') t j = entry (kmem s) t j \<and> t0 \<noteq> t" using b by simp
  qed
qed

section \<open>Steps of the paging code\<close>

text \<open>What every step on the tables of an address space keeps.\<close>

definition evolves :: "ptr \<Rightarrow> 'z vm_scheme \<Rightarrow> 'z vm_scheme \<Rightarrow> bool" where
  "evolves root s s' \<longleftrightarrow> paging_ok s' root \<and>
     (\<forall>x. frame_owned s x \<longrightarrow> frame_owned s' x) \<and>
     (\<forall>x\<in>tabs 3 (kmem s') root. frame_owned s x \<longrightarrow> x \<in> tabs 3 (kmem s) root) \<and>
     same_on {x. frame_owned s x \<and> x \<notin> tabs 3 (kmem s) root} (kmem s) (kmem s') \<and>
     path_kept 3 (kmem s) (kmem s') root \<and> total_memory s' = total_memory s \<and>
     (\<forall>a. a \<notin> window s \<longrightarrow> kmem s' a = kmem s a) \<and>
     (\<forall>j<512. present (entry (kmem s) root j) \<longrightarrow> entry (kmem s') root j = entry (kmem s) root j) \<and>
     kernel_table s' = kernel_table s \<and> cr3 s' = cr3 s \<and> vm.more s' = vm.more s"

lemma evolves_trans:
  assumes a: "evolves root s t" and b: "evolves root t u"
  shows "evolves root s u"
proof -
  have w: "window t = window s" using a by (intro window_cong) (simp add: evolves_def)
  have "same_on {x. frame_owned s x \<and> x \<notin> tabs 3 (kmem s) root} (kmem s) (kmem u)"
    using a b unfolding evolves_def same_on_def by (metis (no_types, lifting) mem_Collect_eq)
  then show ?thesis
    using a b w unfolding evolves_def path_kept_def by simp
qed

lemma paging_map_evolves:
  assumes ok: "paging_ok s root" and path: "path_ok (vaddr_to_index v) (kmem s) 3 root"
    and av: "3 \<le> frames_avail s"
  obtains s' where "paging_map s root v p flags = Some s'" "evolves root s s'"
    "paging_get s' root v = p OR ucast flags OR PAGING_PRESENT"
    "\<And>w. vpage w \<noteq> vpage v \<Longrightarrow> paging_get s' root w = paging_get s root w"
    "frames_avail s \<le> frames_avail s' + 3"
proof -
  obtain s' where m: "paging_map s root v p flags = Some s'" "paging_ok s' root"
    "paging_get s' root v = p OR ucast flags OR PAGING_PRESENT"
    "\<And>w. vpage w \<noteq> vpage v \<Longrightarrow> paging_get s' root w = paging_get s root w"
    "same_on {x. frame_owned s x \<and> x \<notin> tabs 3 (kmem s) root} (kmem s) (kmem s')"
    "\<And>x. frame_owned s x \<Longrightarrow> frame_owned s' x"
    "\<And>x. x \<in> tabs 3 (kmem s') root \<Longrightarrow> frame_owned s x \<Longrightarrow> x \<in> tabs 3 (kmem s) root"
    "frames_avail s \<le> frames_avail s' + 3" "path_kept 3 (kmem s) (kmem s') root"
    "total_memory s' = total_memory s" "\<And>a. a \<notin> window s \<Longrightarrow> kmem s' a = kmem s a"
    "kernel_table s' = kernel_table s" "cr3 s' = cr3 s" "vm.more s' = vm.more s"
    by (rule paging_map_spec [OF ok path av, of p flags]) blast
  let ?idx = "vaddr_to_index v"
  obtain t0 s1 where w: "map_walk ?idx v 3 root s = Some (t0, s1)"
    and s': "kmem s' = store64 (kmem s1) (t0 + 8 * ?idx ! 0) (p OR ucast flags OR PAGING_PRESENT)"
    using m(1) by (auto simp: paging_map_def Let_def split: bind_splits)
  have three: "3 = Suc 2" by simp
  have lv: "(2 :: nat) < 3" by simp
  have ent: "entry (kmem s') root j = entry (kmem s) root j" if "j < 512" "present (entry (kmem s) root j)" for j
  proof -
    note r = map_walk_root [OF indices_ok_vaddr ok [unfolded three] lv path [unfolded three]
        av [unfolded three] w [unfolded three] that]
    have "unmap_walk ?idx (kmem s1) 3 root = Some t0" "path_ok ?idx (kmem s1) 3 root" "tables_ok 3 s1 root"
      using map_walk_spec [OF indices_ok_vaddr _ ok path av, of v] w by (auto simp: grows_def)
    then have "table_ptr t0" "table_ptr root"
      using leaf_in_tabs [OF indices_ok_vaddr, of 3] tabs_table_ptr tree_table_ptr
      by (force simp: tables_ok_def)+
    moreover have "?idx ! 0 < 512" using indices_ok_vaddr [of v] by (simp add: indices_ok_def)
    ultimately have "same_on {root} (kmem s1) (kmem s')"
      unfolding s' using r(2) by (intro store_same_on) auto
    then have "entry (kmem s') root j = entry (kmem s1) root j"
      using \<open>table_ptr root\<close> that(1) by (intro same_on_entry) auto
    with r(1) show ?thesis by simp
  qed
  show ?thesis
    by (rule that [OF m(1) _ m(3,4,8)]) (use m ent in \<open>auto simp: evolves_def\<close>)
qed

lemma root_step:
  "unmap_walk idx m 3 t =
     (if \<not> present (entry m t (idx ! 3)) then None else unmap_walk idx m 2 (child_of m t (idx ! 3)))"
  "path_ok idx m 3 t \<longleftrightarrow>
     (present (entry m t (idx ! 3)) \<longrightarrow> \<not> huge (entry m t (idx ! 3)) \<and> path_ok idx m 2 (child_of m t (idx ! 3)))"
  using walk_step [of idx m 2 t] by simp_all

lemma paging_unmap_evolves:
  assumes ok: "paging_ok s root" and path: "path_ok (vaddr_to_index v) (kmem s) 3 root"
  shows "evolves root s (paging_unmap s root v)"
proof (cases "unmap_walk (vaddr_to_index v) (kmem s) 3 root")
  case None
  then show ?thesis using ok by (simp add: paging_unmap_def evolves_def same_on_def path_kept_def)
next
  case (Some t0)
  let ?idx = "vaddr_to_index v"
  define u where "u = s\<lparr>kmem := store64 (kmem s) (t0 + 8 * ?idx ! 0) 0\<rparr>"
  have three: "(3 :: nat) < 4" by simp
  note st = tables_ok_store_leaf [OF ok three indices_ok_vaddr path Some, where e = 0, folded u_def]
  have tr: "tree 3 (kmem s) root" using ok by (simp add: tables_ok_def)
  have tabs: "tabs 3 (kmem u) root \<subseteq> tabs 3 (kmem s) root"
    using store_leaf [OF indices_ok_vaddr three tr path Some, of "kmem u" 0] by (simp add: u_def)
  have eq: "paging_unmap s root v = paging_flush_tlb u v"
    using Some by (simp add: paging_unmap_def Let_def u_def)
  have fields: "total_memory (paging_flush_tlb u v) = total_memory s" "kernel_table u = kernel_table s"
    "cr3 u = cr3 s" "vm.more (paging_flush_tlb u v) = vm.more s"
    by (simp_all add: u_def paging_flush_tlb_def)
  have lv: "live (entry (kmem s) root (?idx ! 3))"
    and sub: "unmap_walk ?idx (kmem s) 2 (child_of (kmem s) root (?idx ! 3)) = Some t0"
      "path_ok ?idx (kmem s) 2 (child_of (kmem s) root (?idx ! 3))"
    using path Some by (auto simp: root_step live_def split: if_splits)
  have i: "?idx ! 3 < 512" "?idx ! 0 < 512" using indices_ok_vaddr [of v] by (simp_all add: indices_ok_def)
  have "t0 \<in> tabs 2 (kmem s) (child_of (kmem s) root (?idx ! 3))"
    using leaf_in_tabs [OF indices_ok_vaddr _ sub(2,1)] by simp
  moreover have "root \<notin> tabs 2 (kmem s) (child_of (kmem s) root (?idx ! 3))"
    using tr lv i tree.simps(2) [of 2 "kmem s" root] by simp
  ultimately have "root \<noteq> t0" by blast
  moreover have "table_ptr t0" "table_ptr root"
    using leaf_in_tabs [OF indices_ok_vaddr three path Some] tabs_table_ptr [OF tr] tree_table_ptr [OF tr] by auto
  ultimately have "same_on {root} (kmem s) (kmem u)"
    unfolding u_def using i by (simp, intro store_same_on) auto
  then have "entry (kmem u) root j = entry (kmem s) root j" if "j < 512" for j
    using \<open>table_ptr root\<close> that by (intro same_on_entry) auto
  then show ?thesis
    unfolding eq evolves_def using st tabs fields by auto
qed

lemma request_frame_evolves:
  assumes ok: "paging_ok s root" and av: "0 < frames_avail s"
  obtains q s' where "pmm_request_pages s 1 = Some (q, s')" "page_aligned q" "evolves root s s'"
    "frames_avail s' = frames_avail s - 1" "\<not> frame_owned s (addr_offset_higher q)"
    "frame_owned s' (addr_offset_higher q)" "addr_offset_higher q \<notin> tabs 3 (kmem s') root"
    "\<And>w. paging_get s' root w = paging_get s root w"
proof -
  have four: "(3 :: nat) < 4" by simp
  have own: "\<And>x. x \<in> tabs 3 (kmem s) root \<Longrightarrow> frame_owned s x" and pok: "palloc_ok s"
    and tr: "tree 3 (kmem s) root"
    using ok by (simp_all add: tables_ok_def)
  obtain q s1 where q: "pmm_request_pages s 1 = Some (q, s1)" "page_aligned q" "paging_ok s1 root"
    "frames_avail s1 = frames_avail s - 1" "\<not> frame_owned s (addr_offset_higher q)"
    "\<And>x. frame_owned s1 x \<longleftrightarrow> frame_owned s x \<or> x = addr_offset_higher q"
    "\<And>idx. indices_ok idx \<Longrightarrow> get_walk idx (kmem s1) 3 root = get_walk idx (kmem s) 3 root"
    "path_kept 3 (kmem s) (kmem s1) root" "total_memory s1 = total_memory s"
    "\<And>a. a \<notin> window s \<Longrightarrow> kmem s1 a = kmem s a" "pmm.more s1 = pmm.more s"
    "tabs 3 (kmem s1) root = tabs 3 (kmem s) root"
    by (rule tables_ok_palloc [OF ok av four]) blast
  have p: "palloc s 1 = Some (addr_offset_higher q, s1)" using q(1) by (simp add: palloc_def)
  have keep: "kmem s1 a = kmem s a" if "frame_owned s x" "a \<in> frame x" for x a
  proof -
    obtain s2 p' where "palloc s 1 = Some (p', s2)"
      "\<And>x a. frame_owned s2 x \<Longrightarrow> a \<in> frame x \<Longrightarrow> kmem s2 a = kmem s a"
      using pa.alloc_fresh [OF pok av] by blast
    with p that q(6) show ?thesis by auto
  qed
  have root: "frame_owned s root" "table_ptr root" using own tr by (auto simp: tree_table_ptr)
  have ent: "entry (kmem s1) root j = entry (kmem s) root j" if "j < 512" for j
    using keep [OF root(1)] root(2) that by (intro load64_frame_cong) (auto simp: table_ptr_def)
  have "evolves root s s1"
    unfolding evolves_def using q vm_more_fields [OF q(11)] keep ent by (auto simp: same_on_def)
  moreover have "addr_offset_higher q \<notin> tabs 3 (kmem s1) root" using own q(5,12) by auto
  ultimately show ?thesis using that [OF q(1,2)] q(4,5,6,7) by (simp add: paging_get_def)
qed

section \<open>The kernel's part of the address space\<close>

definition shares :: "ptr \<Rightarrow> ptr \<Rightarrow> ptr \<Rightarrow> mem \<Rightarrow> bool" where
  "shares kt root v m \<longleftrightarrow> (let i = vaddr_to_index v ! 3 in
     present (entry m root i) \<and> entry m kt i = entry m root i)"

lemma shares_map: "shares kt root v (kmem s) \<Longrightarrow> paging_map s kt v p flags = paging_map s root v p flags"
proof -
  assume sh: "shares kt root v (kmem s)"
  have three: "3 = Suc 2" by simp
  have "map_walk (vaddr_to_index v) v 3 kt s = map_walk (vaddr_to_index v) v 3 root s"
    unfolding three using sh
    by (subst (1 2) map_walk_old) (simp_all add: shares_def Let_def)
  then show ?thesis by (simp add: paging_map_def Let_def)
qed

lemma shares_unmap: "shares kt root v (kmem s) \<Longrightarrow> paging_unmap s kt v = paging_unmap s root v"
proof -
  assume sh: "shares kt root v (kmem s)"
  have "unmap_walk (vaddr_to_index v) (kmem s) 3 kt = unmap_walk (vaddr_to_index v) (kmem s) 3 root"
    using sh by (simp add: shares_def Let_def root_step)
  then show ?thesis by (simp add: paging_unmap_def Let_def)
qed

lemma shares_evolves:
  assumes sh: "shares kt root v (kmem s)" and ev: "evolves root s s'"
    and kt: "frame_owned s kt" "kt \<notin> tabs 3 (kmem s) root"
  shows "shares kt root v (kmem s')"
proof -
  let ?i = "vaddr_to_index v ! 3"
  have i: "?i < 512" using indices_ok_vaddr [of v] by (simp add: indices_ok_def)
  have "same_on {kt} (kmem s) (kmem s')" using ev kt by (auto simp: evolves_def same_on_def)
  then have "entry (kmem s') kt ?i = entry (kmem s) kt ?i"
    using kt(1) i by (intro same_on_entry) (auto simp: frame_owned_def)
  then show ?thesis using sh ev i by (simp add: shares_def Let_def evolves_def)
qed

text \<open>A data frame stays one.\<close>

lemma data_evolves:
  assumes "evolves root s s'" and "frame_owned s x" "x \<notin> tabs 3 (kmem s) root"
  shows "frame_owned s' x" "x \<notin> tabs 3 (kmem s') root" "\<And>a. a \<in> frame x \<Longrightarrow> kmem s' a = kmem s a"
  using assms by (auto simp: evolves_def same_on_def)

section \<open>Copying through the translation\<close>

definition maps_page :: "'z vm_scheme \<Rightarrow> ptr \<Rightarrow> ptr \<Rightarrow> ptr \<Rightarrow> bool" where
  "maps_page s root v p \<longleftrightarrow> present (paging_get s root v) \<and> child_table (paging_get s root v) = p"

lemma page_offset_vpage:
  assumes "page_aligned v" and "k < 4096"
  shows "vpage (v + of_nat k) = vpage v" and "(v + of_nat k) AND 0xfff = of_nat k"
proof -
  obtain c where c: "unat v = 4096 * c" using assms(1) by (rule page_alignedE)
  then have v: "unat (v + of_nat k) = 4096 * c + k" using unat_page_offset [OF assms] by simp
  then have d: "unat (v + of_nat k) div 4096 = unat v div 4096" using assms(2) c by simp
  show "vpage (v + of_nat k) = vpage v"
    unfolding vpage_def u64_eq_iff_unat unsigned_take_bit_eq
    using d by (simp add: unsigned_drop_bit_eq drop_bit_eq_div unat_div)
  show "(v + of_nat k) AND 0xfff = of_nat k"
    unfolding u64_eq_iff_unat unat_and_fff v using assms(2) by (simp add: unat_of_nat)
qed

definition page_copied :: "ptr \<Rightarrow> ptr \<Rightarrow> nat \<Rightarrow> mem \<Rightarrow> mem" where
  "page_copied q p k m = (\<lambda>a. if unat (a - q) < k then m (p + (a - q)) else m a)"

lemma page_copied_Suc:
  assumes "k < 4096"
  shows "(page_copied q p k m)(q + of_nat k := m (p + of_nat k)) = page_copied q p (Suc k) m"
proof
  fix a
  have "a = q + of_nat k \<longleftrightarrow> unat (a - q) = k"
  proof
    assume "unat (a - q) = k"
    then show "a = q + of_nat k" using of_nat_unat_diff [of q a] by simp
  qed (use assms in \<open>simp add: unat_of_nat_u64\<close>)
  then show "((page_copied q p k m)(q + of_nat k := m (p + of_nat k))) a = page_copied q p (Suc k) m a"
    by (auto simp: page_copied_def less_Suc_eq)
qed

lemma virt_memcpy_page:
  fixes s :: "'a vm_scheme"
  assumes ok: "paging_ok s root" and cr: "addr_ensure_higher (cr3 s) = root"
    and v: "page_aligned v" "maps_page s root v q" and u: "page_aligned u" "maps_page s root u p"
    and q: "frame_owned s q" "q \<notin> tabs 3 (kmem s) root" and p: "table_ptr p" "p \<noteq> q"
  shows "virt_memcpy v u 0x1000 s = Some (s\<lparr>kmem := page_copied q p 4096 (kmem s)\<rparr>)"
proof -
  define t where "t k = s\<lparr>kmem := page_copied q p k (kmem s)\<rparr>" for k
  have tr: "tree 3 (kmem s) root" using ok by (simp add: tables_ok_def)
  have qa: "table_ptr q" using q(1) by (simp add: frame_owned_def)
  have other: "page_copied q p k (kmem s) a = kmem s a" if "k \<le> 4096" "a \<notin> frame q" for k a
    using that in_frame_iff [OF table_ptr_aligned [OF qa], of a] by (auto simp: page_copied_def)
  have get: "paging_get (t k) root w = paging_get s root w" if "k \<le> 4096" for k w
  proof -
    have "same_on (tabs 3 (kmem s) root) (kmem s) (kmem (t k))"
      unfolding same_on_def
    proof (intro ballI)
      fix x a assume x: "x \<in> tabs 3 (kmem s) root" and a: "a \<in> frame x"
      then have "x \<noteq> q" "table_ptr x" using q(2) tabs_table_ptr [OF tr] by auto
      then have "a \<notin> frame q"
        using frame_disjoint [of x q] a qa by (auto dest: table_ptr_aligned)
      then show "kmem (t k) a = kmem s a" using other [OF that] by (simp add: t_def)
    qed
    from walks_same [OF indices_ok_vaddr _ tr this, of w] show ?thesis by (simp add: paging_get_def)
  qed
  have addr: "user_addr (t k) (w + of_nat j) = Some (x + of_nat j)"
    if "k \<le> 4096" "j < 4096" "page_aligned w" "maps_page s root w x" for k j w x
  proof -
    have "paging_get (t k) (addr_ensure_higher (cr3 (t k))) (w + of_nat j) = paging_get s root w"
      using get [OF that(1)] paging_get_vpage [OF page_offset_vpage(1) [OF that(3,2)]] cr by (simp add: t_def)
    then show ?thesis
      using that(4) page_offset_vpage(2) [OF that(3,2)]
      by (simp add: user_addr_def Let_def maps_page_def present_def)
  qed
  define step :: "nat \<Rightarrow> 'a vm_scheme \<Rightarrow> 'a vm_scheme option" where
    "step = (\<lambda>i s. do { a \<leftarrow> user_addr s (u + of_nat i); user_put (v + of_nat i) (kmem s a) s })"
  have "\<exists>r. for_each step [0..<4096] s = Some r \<and> r = t (length [0..<4096])"
  proof (rule for_each_invariant [where P = "\<lambda>k r. r = t k"])
    show "s = t 0" by (simp add: t_def page_copied_def)
    fix k r assume k: "k < length [0..<4096]" and r: "r = t k"
    have "unat (p + of_nat k) = unat p + k" using unat_page_offset [OF table_ptr_aligned [OF p(1)]] k by simp
    then have "p + of_nat k \<in> frame p"
      using table_ptr_aligned [OF p(1)] k by (auto simp: frame_def elim!: page_alignedE)
    then have "p + of_nat k \<notin> frame q" using frame_disjoint [of p q] p qa by (auto dest: table_ptr_aligned)
    then have src: "kmem (t k) (p + of_nat k) = kmem s (p + of_nat k)" using other k by (simp add: t_def)
    have "step ([0..<4096] ! k) (t k) =
        Some ((t k)\<lparr>kmem := (kmem (t k))(q + of_nat k := kmem s (p + of_nat k))\<rparr>)"
      using addr [of k k u p] addr [of k k v q] k u v src
      by (simp add: step_def user_put_def)
    then show "\<exists>r'. step ([0..<4096] ! k) r = Some r' \<and> r' = t (Suc k)"
      using page_copied_Suc [of k q p "kmem s"] k by (simp add: r t_def)
  qed
  then show ?thesis by (simp add: virt_memcpy_def step_def [symmetric] t_def)
qed

lemma write_data_frame:
  assumes ok: "paging_ok s root" and q: "frame_owned s q" "q \<notin> tabs 3 (kmem s) root"
    and m: "\<forall>a. a \<notin> frame q \<longrightarrow> m a = kmem s a"
  defines "s' \<equiv> s\<lparr>kmem := m\<rparr>"
  shows "paging_ok s' root" "frame_owned s' = frame_owned s" "paging_get s' root w = paging_get s root w"
    "frames_avail s' = frames_avail s"
    "path_kept 3 (kmem s) (kmem s') root" "tabs 3 (kmem s') root = tabs 3 (kmem s) root"
    "\<And>x a. frame_owned s x \<Longrightarrow> x \<noteq> q \<Longrightarrow> a \<in> frame x \<Longrightarrow> kmem s' a = kmem s a"
proof -
  have pok: "palloc_ok s" and tr: "tree 3 (kmem s) root"
    and own: "\<And>x. x \<in> tabs 3 (kmem s) root \<Longrightarrow> frame_owned s x"
    using ok by (simp_all add: tables_ok_def)
  have keep: "kmem s' a = kmem s a" if "frame_owned s x" "x \<noteq> q" "a \<in> frame x" for x a
  proof -
    have "frame x \<inter> frame q = {}"
      using that q(1) by (intro frame_disjoint) (auto simp: frame_owned_def table_ptr_def)
    then show ?thesis using that m by (auto simp: s'_def)
  qed
  have w: "palloc_ok s'" "frame_owned s' = frame_owned s" "frames_avail s' = frames_avail s"
    using pa.write_owned [OF pok q(1), of m] m by (auto simp: s'_def)
  have same: "same_on (tabs 3 (kmem s) root) (kmem s) (kmem s')"
    unfolding same_on_def using own keep q(2) by blast
  have four: "(3 :: nat) < 4" by simp
  show tabs: "tabs 3 (kmem s') root = tabs 3 (kmem s) root" by (rule tabs_same [OF tr same])
  show "paging_ok s' root" using w own tree_same [OF tr same] tabs by (simp add: tables_ok_def)
  show "frame_owned s' = frame_owned s" "frames_avail s' = frames_avail s" by (fact w)+
  show "paging_get s' root w = paging_get s root w" "path_kept 3 (kmem s) (kmem s') root"
    using walks_same [OF _ four tr same] indices_ok_vaddr by (auto simp: paging_get_def path_kept_def)
  show "\<And>x a. frame_owned s x \<Longrightarrow> x \<noteq> q \<Longrightarrow> a \<in> frame x \<Longrightarrow> kmem s' a = kmem s a" by (rule keep)
qed

section \<open>The private copy\<close>

lemma kernel_more_fields:
  fixes s s' :: "'z kernel_scheme"
  assumes "vm.more s' = vm.more s"
  shows "current_task s' = current_task s"
  using assms by (cases s, cases s', simp)

lemma task_vmap_evolves:
  assumes "evolves root s s'" and "\<And>k. k < 8 \<Longrightarrow> p + 152 + k \<notin> window s"
  shows "task_vmap (kmem s') p = task_vmap (kmem s) p"
  unfolding task_vmap_def by (rule load64_cong) (use assms in \<open>simp add: evolves_def\<close>)

lemma entry_child: "child_table ((e AND NOT 0xfff) OR ucast (0 :: u8) OR PAGING_PRESENT) = child_table e"
proof -
  have "((e AND NOT 0xfff) OR ucast (0 :: u8) OR PAGING_PRESENT) AND NOT 0xfff = e AND NOT 0xfff"
    unfolding PAGING_PRESENT_def mask12 by (rule bit_word_eqI) (auto simp: bit_simps)
  then show ?thesis unfolding child_table_def by (simp only:)
qed

lemma page_aligned_mask: "page_aligned (a AND NOT 0xfff)"
  unfolding page_aligned_def unat_and_not_fff by (auto intro: dvd_minus_mod)

lemma kernel_copy_aligned: "page_aligned kernel_copy_vaddr"
  by (simp add: page_aligned_def kernel_copy_vaddr_def)

lemma cow_flags:
  assumes "flags = (ucast (e AND 0xfff OR PAGING_WRITABLE) :: u8)" and "table_ptr p"
  defines "e' \<equiv> addr_offset_lower p OR ucast flags OR PAGING_PRESENT"
  shows "child_table e' = p" "i < 8 \<Longrightarrow> bit e' i \<longleftrightarrow> bit e i \<or> i = 0 \<or> i = 1"
proof -
  have f: "ucast flags OR PAGING_PRESENT = take_bit 12 (ucast flags OR PAGING_PRESENT)"
    unfolding PAGING_PRESENT_def
    by (rule bit_word_eqI) (auto simp: bit_simps dest: bit_imp_le_length)
  show "child_table e' = p" unfolding e'_def by (rule link_entry(1) [OF assms(2) f])
  have low: "\<not> bit (addr_offset_lower p) i" if "i < 12" for i
  proof -
    have "\<not> bit (addr_offset_lower p OR 0) i"
      using offset_lower_high [of p] table_ptr_bits(1) [OF assms(2) that] assms(2)
      by (simp add: table_ptr_def addr_ensure_lower_take_bit bit_simps)
    then show ?thesis by simp
  qed
  have fff: "bit (0xfff :: u64) i" if "i < 12" for i
    using that bit_mask_iff [where 'a = u64, of 12 i] by (simp add: mask_eq_exp_minus_1)
  show "bit e' i \<longleftrightarrow> bit e i \<or> i = 0 \<or> i = 1" if "i < 8"
    using that low [of i] fff [of i]
    by (auto simp: e'_def assms(1) PAGING_PRESENT_def PAGING_WRITABLE_def bit_simps
        dest: bit_imp_le_length)
qed

section \<open>Properties\<close>

lemma cow_refuses_absent:
  "\<not> present (paging_get s (task_vmap (kmem s) (current_task s)) (vaddr AND NOT 0xfff)) \<Longrightarrow>
   cow_copy_on_write vaddr s = Some (False, s)"
  by (simp add: cow_copy_on_write_def Let_def present_def)

text \<open>C6: A write fault on any page that is present gives the task its own writable copy of it: a frame
  that was free before, with the contents of the old frame and the flags of the old entry, is mapped
  in place of the old frame, and the result is true. The old frame, which other tasks may share, and
  the translation of every page other than the faulting one and the kernel's copy window stay as they
  are. The flags of the old entry are not looked at: a page that was read-only to begin with becomes
  writable as well, and a page of the kernel, whose entry has no user flag, is copied too. The
  comment in \<^verbatim>\<open>cow.h\<close> promises the result false for both, so the code contradicts it; only a
  page that is not present gives false (\<open>cow_refuses_absent\<close>). The page of the witness is
  read-only.\<close>

theorem cow_copies_page:
  fixes s :: "'z kernel_scheme" and vaddr :: ptr
  defines "root \<equiv> task_vmap (kmem s) (current_task s)" and "v \<equiv> vaddr AND NOT 0xfff"
  defines "old \<equiv> child_table (paging_get s root v)"
  assumes ok: "paging_ok s root" and cr: "addr_ensure_higher (cr3 s) = root"
    and path: "path_ok (vaddr_to_index v) (kmem s) 3 root"
      "path_ok (vaddr_to_index kernel_copy_vaddr) (kmem s) 3 root"
    and av: "7 \<le> frames_avail s" and pres: "present (paging_get s root v)"
    and sh: "shares (kernel_table s) root kernel_copy_vaddr (kmem s)"
    and kt: "frame_owned s (kernel_table s)" "kernel_table s \<notin> tabs 3 (kmem s) root"
    and old: "frame_owned s old" "old \<notin> tabs 3 (kmem s) root"
    and user: "vpage v \<noteq> vpage kernel_copy_vaddr"
    and heap: "\<And>k. k < 8 \<Longrightarrow> current_task s + 152 + k \<notin> window s"
  shows "\<exists>s' new. cow_copy_on_write vaddr s = Some (True, s') \<and> paging_ok s' root \<and>
    child_table (paging_get s' root v) = new \<and> \<not> frame_owned s new \<and> frame_owned s' new \<and>
    (\<forall>i<8. bit (paging_get s' root v) i \<longleftrightarrow> bit (paging_get s root v) i \<or> i = 0 \<or> i = 1) \<and>
    (\<forall>k<4096. kmem s' (new + of_nat k) = kmem s (old + of_nat k)) \<and>
    (\<forall>a\<in>frame old. kmem s' a = kmem s a) \<and>
    (\<forall>w. vpage w \<noteq> vpage v \<longrightarrow> vpage w \<noteq> vpage kernel_copy_vaddr \<longrightarrow>
       paging_get s' root w = paging_get s root w)"
proof -
  let ?kv = kernel_copy_vaddr and ?kt = "kernel_table s" and ?cur = "current_task s"
  define e where "e = paging_get s root v"
  note keepers = task_vmap_evolves kernel_more_fields
  obtain s1 where s1: "paging_map s root ?kv (e AND NOT 0xfff) 0 = Some s1" "evolves root s s1"
    "paging_get s1 root ?kv = (e AND NOT 0xfff) OR ucast (0 :: u8) OR PAGING_PRESENT"
    "\<And>w. vpage w \<noteq> vpage ?kv \<Longrightarrow> paging_get s1 root w = paging_get s root w"
    "frames_avail s \<le> frames_avail s1 + 3"
    by (rule paging_map_evolves [OF ok path(2), of "e AND NOT 0xfff" 0]) (use av in auto)
  define s2 where "s2 = paging_unmap s1 root v"
  have ok1: "paging_ok s1 root" and path1: "path_ok (vaddr_to_index v) (kmem s1) 3 root"
    using s1(2) path by (auto simp: evolves_def path_kept_def)
  have e12: "evolves root s1 s2" unfolding s2_def by (rule paging_unmap_evolves [OF ok1 path1])
  note u = paging_unmap_spec [OF ok1 path1, folded s2_def]
  have ev2: "evolves root s s2" by (rule evolves_trans [OF s1(2) e12])
  have ok2: "paging_ok s2 root" using e12 by (simp add: evolves_def)
  obtain q s3 where q: "pmm_request_pages s2 1 = Some (q, s3)" "page_aligned q" "evolves root s2 s3"
    "frames_avail s3 = frames_avail s2 - 1" "\<not> frame_owned s2 (addr_offset_higher q)"
    "frame_owned s3 (addr_offset_higher q)" "addr_offset_higher q \<notin> tabs 3 (kmem s3) root"
    "\<And>w. paging_get s3 root w = paging_get s2 root w"
    by (rule request_frame_evolves [OF ok2]) (use s1(5) u(4) av in auto)
  define new where "new = addr_offset_higher q"
  define flags where "flags = (ucast (e AND 0xfff OR PAGING_WRITABLE) :: u8)"
  have ok3: "paging_ok s3 root" and path3: "path_ok (vaddr_to_index v) (kmem s3) 3 root"
    using q(3) e12 path1 by (auto simp: evolves_def path_kept_def)
  have av3: "3 \<le> frames_avail s3" using s1(5) u(4) q(4) av by simp
  obtain s4 where s4: "paging_map s3 root v q flags = Some s4" "evolves root s3 s4"
    "paging_get s4 root v = q OR ucast flags OR PAGING_PRESENT"
    "\<And>w. vpage w \<noteq> vpage v \<Longrightarrow> paging_get s4 root w = paging_get s3 root w"
    "frames_avail s3 \<le> frames_avail s4 + 3"
    by (rule paging_map_evolves [OF ok3 path3 av3, of q flags]) blast
  have ev4: "evolves root s s4" by (rule evolves_trans [OF evolves_trans [OF ev2 q(3)] s4(2)])
  have ok4: "paging_ok s4 root" using s4(2) by (simp add: evolves_def)
  have nw: "table_ptr new" "\<not> frame_owned s new" "frame_owned s4 new" "new \<notin> tabs 3 (kmem s4) root"
    using q(5-7) s4(2) ev2 by (auto simp: evolves_def new_def frame_owned_def)
  have old4: "frame_owned s4 old" "old \<notin> tabs 3 (kmem s4) root" "\<And>a. a \<in> frame old \<Longrightarrow> kmem s4 a = kmem s a"
    using data_evolves [OF ev4 old] by blast+
  have neq: "old \<noteq> new" and oldp: "table_ptr old" using nw(2) old(1) by (auto simp: frame_owned_def)
  have get4: "paging_get s4 root v = addr_offset_lower new OR ucast flags OR PAGING_PRESENT"
    "paging_get s4 root ?kv = (e AND NOT 0xfff) OR ucast (0 :: u8) OR PAGING_PRESENT"
    using s4(3,4) s1(3) q(8) u(3) user by (simp_all add: new_def)
  note fl = cow_flags [OF flags_def nw(1), folded get4(1)]
  have maps: "maps_page s4 root v new" "maps_page s4 root ?kv old"
    using fl(1) fl(2) [of 0] entry_child [of e] get4
    by (simp_all add: maps_page_def present_bit PAGING_PRESENT_def bit_simps e_def [symmetric] old_def)
  have cr4: "addr_ensure_higher (cr3 s4) = root" using ev4 cr by (simp add: evolves_def)
  have va: "page_aligned v" unfolding v_def by (rule page_aligned_mask)
  define s5 where "s5 = s4\<lparr>kmem := page_copied new old 4096 (kmem s4)\<rparr>"
  have cp: "virt_memcpy v ?kv 0x1000 s4 = Some s5"
    unfolding s5_def
    by (rule virt_memcpy_page [OF ok4 cr4 va maps(1) kernel_copy_aligned maps(2) nw(3,4) oldp neq])
  have out: "\<forall>a. a \<notin> frame new \<longrightarrow> page_copied new old 4096 (kmem s4) a = kmem s4 a"
    using in_frame_iff [OF table_ptr_aligned [OF nw(1)]] by (auto simp: page_copied_def)
  note w5 = write_data_frame [where s = s4 and root = root and q = new and
      m = "page_copied new old 4096 (kmem s4)", folded s5_def, OF ok4 nw(3,4) out]
  have path5: "path_ok (vaddr_to_index ?kv) (kmem s5) 3 root"
    using w5(5) ev4 path(2) by (simp add: evolves_def path_kept_def)
  define s6 where "s6 = paging_unmap s5 root ?kv"
  note u6 = paging_unmap_spec [OF w5(1) path5, folded s6_def]
  have e6: "evolves root s5 s6" unfolding s6_def by (rule paging_unmap_evolves [OF w5(1) path5])
  \<comment> \<open>the calls of the code\<close>
  have vm: "task_vmap (kmem s1) ?cur = root" "task_vmap (kmem s2) ?cur = root"
    using keepers(1) [OF s1(2) heap] keepers(1) [OF ev2 heap] by (simp_all add: root_def)
  have cur: "current_task s1 = ?cur" "current_task s2 = ?cur"
    using s1(2) ev2 by (auto intro: keepers(2) simp: evolves_def)
  have kt6: "kernel_table s5 = ?kt" using ev4 by (simp add: evolves_def s5_def)
  have sh4: "shares ?kt root ?kv (kmem s4)" by (rule shares_evolves [OF sh ev4 kt])
  have kt4: "frame_owned s4 ?kt" "frame_owned s4 root" using data_evolves(1) [OF ev4 kt] ok4 by (auto simp: tables_ok_def)
  have ne: "?kt \<noteq> new" "root \<noteq> new" using nw(2) kt(1) ok by (auto simp: tables_ok_def)
  have i: "vaddr_to_index ?kv ! 3 < 512" using indices_ok_vaddr [of ?kv] by (simp add: indices_ok_def)
  have "entry (kmem s5) x (vaddr_to_index ?kv ! 3) = entry (kmem s4) x (vaddr_to_index ?kv ! 3)"
    if "frame_owned s4 x" "x \<noteq> new" for x
    using w5(7) [OF that] that(1) i by (intro load64_frame_cong) (auto simp: frame_owned_def table_ptr_def)
  then have "shares ?kt root ?kv (kmem s5)"
    using sh4 kt4 ne by (simp add: shares_def Let_def)
  then have un: "paging_unmap s5 ?kt ?kv = s6" by (simp add: s6_def shares_unmap)
  have rq: "vmm_request_at s2 root v 1 flags = Some s4"
    using q(1) s4(1) u(2) by (simp add: vmm_request_at_def vmm_request_page_def Let_def)
  have run: "cow_copy_on_write vaddr s = Some (True, s6)"
    unfolding cow_copy_on_write_def Let_def root_def [symmetric] v_def [symmetric] e_def [symmetric]
    using pres s1(1) sh cp rq un vm cur kt6
    by (simp add: present_def shares_map e_def [symmetric] flags_def [symmetric] s2_def [symmetric])
  have own5: "frame_owned s5 new" "frame_owned s5 old" "tabs 3 (kmem s5) root = tabs 3 (kmem s4) root"
    using w5(2,6) nw(3) old4(1) by simp_all
  have d6: "frame_owned s6 new" "\<And>a. a \<in> frame new \<Longrightarrow> kmem s6 a = kmem s5 a"
    "\<And>a. a \<in> frame old \<Longrightarrow> kmem s6 a = kmem s5 a"
    using data_evolves [OF e6 own5(1)] data_evolves [OF e6 own5(2)] own5(3) nw(4) old4(2) by simp_all
  have contents: "kmem s6 (new + of_nat k) = kmem s (old + of_nat k)" if "k < 4096" for k
  proof -
    have in_f: "x + of_nat k \<in> frame x" if "table_ptr x" for x :: ptr
      using \<open>k < 4096\<close> in_frame_iff [OF table_ptr_aligned [OF that]] by (simp add: unat_of_nat)
    have "kmem s5 (new + of_nat k) = kmem s4 (old + of_nat k)"
      using that by (simp add: s5_def page_copied_def unat_of_nat)
    then show ?thesis using d6(2) old4(3) in_f nw(1) oldp by simp
  qed
  have keep_old: "kmem s6 a = kmem s a" if "a \<in> frame old" for a
    using d6(3) w5(7) [OF old4(1) neq] old4(3) that by simp
  have get6: "paging_get s6 root v = paging_get s4 root v" using u6(3) user w5(3) by simp
  have rest: "paging_get s6 root w = paging_get s root w" if "vpage w \<noteq> vpage v" "vpage w \<noteq> vpage ?kv" for w
    using that u6(3) w5(3) s4(4) q(8) u(3) s1(4) by simp
  show ?thesis
    using run u6(1) fl get6 nw(2) d6(1) contents keep_old rest
    by (intro exI [of _ s6] exI [of _ new]) (simp add: e_def [symmetric])
qed

subsection \<open>A faulting task\<close>

text \<open>
  The example machine with a task whose root table is the one in page 1 and a kernel table in page
  14; page 15 holds the data of the task.
\<close>

definition cow_task :: ptr where "cow_task = 0xffff810000000018"

definition cow_base :: kernel where
  "cow_base = (vm.extend vm_example (vm.more sched_example))
     \<lparr>kernel_table := 0xffff80000000e000,
      kmem := store64 (kmem vm_example) (cow_task + 152) 0xffff800000001000\<rparr>"

lemma cow_heap:
  assumes "k < 8" and "pmm_pages s \<le> 268435456"
  shows "cow_task + 152 + k \<notin> window s"
proof -
  have "cow_task + 152 + k = heap_at (176 + unat k)"
    by (simp add: cow_task_def heap_at_def alloc_start_def KERNEL_HEAP_VIRTUAL_START_def)
  moreover have "heap_at (176 + unat k) \<notin> window s"
    using assms by (intro heap_not_window) (simp_all add: word_less_nat_alt)
  ultimately show ?thesis by simp
qed

lemma cow_base_ok:
  "paging_ok cow_base 0xffff800000001000" "frames_avail cow_base = 19"
  "path_ok (vaddr_to_index v) (kmem cow_base) 3 0xffff800000001000"
  "frame_owned cow_base = frame_owned vm_example"
  "tabs 3 (kmem cow_base) 0xffff800000001000 = {0xffff800000001000}"
proof -
  let ?r = "0xffff800000001000 :: ptr" and ?m = "store64 (kmem vm_example) (cow_task + 152) 0xffff800000001000"
  define t :: kernel where "t = (vm.extend vm_example (vm.more sched_example))\<lparr>kernel_table := 0xffff80000000e000\<rparr>"
  have eq: "cow_base = t\<lparr>kmem := ?m\<rparr>" by (simp add: cow_base_def t_def)
  have kt: "tables_ok 3 t ?r = tables_ok 3 (vm.extend vm_example (vm.more sched_example)) ?r"
    "frames_avail t = frames_avail (vm.extend vm_example (vm.more sched_example))"
    "frame_owned t = frame_owned (vm.extend vm_example (vm.more sched_example))"
    "kmem t = kmem vm_example" "window t = window vm_example"
    by (simp_all add: t_def vm.defs frames_avail_def frame_owned_def tables_ok_def fun_eq_iff window_def
        palloc_ok_def pmm_inv_def free_count_ok_def free_pages_def page_locked_def outside_bitmap_def
        bitmap_safe_def)
  have ok: "paging_ok t ?r" using vm_example_ok by (simp add: kt extend_simps)
  have pages: "pmm_pages vm_example \<le> 268435456" by (simp add: vm_example_def)
  have out: "?m a = kmem t a" if "a \<in> window t" for a
  proof -
    have "\<not> a - (cow_task + 152) < 8"
    proof
      assume "a - (cow_task + 152) < 8"
      from cow_heap [OF this pages] that show False by (simp add: kt)
    qed
    then show ?thesis by (simp add: kt store64_other)
  qed
  note o = tables_ok_outside [OF ok out, folded eq]
  show "paging_ok cow_base ?r" "frames_avail cow_base = 19"
    using o(1,2) by (simp_all add: kt extend_simps vm_example_avail)
  show "path_ok (vaddr_to_index v) (kmem cow_base) 3 ?r"
    using o(4) vm_example_path by (simp add: path_kept_def eq kt)
  have pok: "palloc_ok t" using ok by (simp add: tables_ok_def)
  have "?m a = kmem t a" if "\<not> outside_bitmap t a" for a
    using that pok out by (simp add: palloc_ok_def bitmap_safe_def window_def)
  from write_outside_bitmap [OF pok this]
  show "frame_owned cow_base = frame_owned vm_example" by (simp add: eq kt extend_simps)
  have "same_on (tabs 3 (kmem t) ?r) (kmem t) ?m"
    using ok out frame_owned_window unfolding same_on_def tables_ok_def by blast
  moreover have "tree 3 (kmem t) ?r" using ok by (simp add: tables_ok_def)
  ultimately have "tabs 3 ?m ?r = tabs 3 (kmem t) ?r" by (rule tabs_same [rotated])
  then show "tabs 3 (kmem cow_base) ?r = {?r}"
    using zero_table(1) [OF vm_example_root(1) vm_example_zero, where l = 3] by (simp add: eq kt)
qed

lemma root_present: "get_walk idx m 3 t \<noteq> 0 \<Longrightarrow> present (entry m t (idx ! 3))"
  using walk_step(1) [of idx m 2 t] by (auto split: if_splits)

text \<open>The task after its data page and a page of the kernel's part are mapped.\<close>

lemma cow_mapped:
  obtains s :: kernel where "evolves 0xffff800000001000 cow_base s" "13 \<le> frames_avail s"
    "present (entry (kmem s) 0xffff800000001000 (vaddr_to_index kernel_copy_vaddr ! 3))"
    "paging_get s 0xffff800000001000 0x400000 = 0xf005"
proof -
  let ?r = "0xffff800000001000 :: ptr"
  have av: "3 \<le> frames_avail cow_base" by (simp add: cow_base_ok)
  obtain s1 where s1: "paging_map cow_base ?r kernel_copy_vaddr 0 0 = Some s1" "evolves ?r cow_base s1"
    "paging_get s1 ?r kernel_copy_vaddr = 0 OR ucast (0 :: u8) OR PAGING_PRESENT"
    "frames_avail cow_base \<le> frames_avail s1 + 3"
    by (rule paging_map_evolves [OF cow_base_ok(1) cow_base_ok(3) av,
        where v = kernel_copy_vaddr and p = 0 and flags = 0]) blast
  have ok1: "paging_ok s1 ?r" "path_ok (vaddr_to_index 0x400000) (kmem s1) 3 ?r" "3 \<le> frames_avail s1"
    using s1(2,4) cow_base_ok by (simp_all add: evolves_def path_kept_def)
  obtain s where s: "evolves ?r s1 s" "frames_avail s1 \<le> frames_avail s + 3"
    "paging_get s ?r 0x400000 = 0xf000 OR ucast (5 :: u8) OR PAGING_PRESENT"
    "\<And>w. vpage w \<noteq> vpage 0x400000 \<Longrightarrow> paging_get s ?r w = paging_get s1 ?r w"
    by (rule paging_map_evolves [OF ok1, of "0xf000" 5]) blast
  have "vpage kernel_copy_vaddr \<noteq> vpage 0x400000" by (simp add: vpage_def kernel_copy_vaddr_def)
  then have "paging_get s ?r kernel_copy_vaddr \<noteq> 0" using s(4) s1(3) by (simp add: PAGING_PRESENT_def)
  then have "present (entry (kmem s) ?r (vaddr_to_index kernel_copy_vaddr ! 3))"
    unfolding paging_get_def by (rule root_present)
  moreover have "13 \<le> frames_avail s" using s(2) s1(4) by (simp add: cow_base_ok)
  moreover have "paging_get s ?r 0x400000 = 0xf005" using s(3) by (simp add: PAGING_PRESENT_def)
  ultimately show ?thesis using that [OF evolves_trans [OF s1(2) s(1)]] by blast
qed

lemma cow_frames:
  "table_ptr 0xffff80000000e000" "page_of 0xffff80000000e000 = 14"
  "table_ptr 0xffff80000000f000" "page_of 0xffff80000000f000 = 15"
  by (simp_all add: table_ptr_def page_aligned_def VADDR_HIGHER_def page_of_def unat_addr_ensure_lower)

lemma cow_task_vmap: "task_vmap (kmem cow_base) cow_task = 0xffff800000001000"
  by (simp add: task_vmap_def cow_base_def)

theorem cow_copies_page_witness:
  "\<exists>(s :: kernel) s'. cow_copy_on_write 0x400123 s = Some (True, s') \<and>
     child_table (paging_get s 0xffff800000001000 0x400000) = 0xffff80000000f000 \<and>
     \<not> bit (paging_get s 0xffff800000001000 0x400000) 1 \<and>
     child_table (paging_get s' 0xffff800000001000 0x400000) \<noteq> 0xffff80000000f000 \<and>
     bit (paging_get s' 0xffff800000001000 0x400000) 1"
proof -
  let ?r = "0xffff800000001000 :: ptr" and ?k = "0xffff80000000e000 :: ptr" and ?d = "0xffff80000000f000 :: ptr"
  let ?i = "vaddr_to_index kernel_copy_vaddr ! 3"
  obtain t :: kernel where t: "evolves ?r cow_base t" "13 \<le> frames_avail t" "present (entry (kmem t) ?r ?i)"
    "paging_get t ?r 0x400000 = 0xf005"
    by (rule cow_mapped)
  have data: "frame_owned cow_base x" "x \<notin> tabs 3 (kmem cow_base) ?r" if "x = ?k \<or> x = ?d" for x
    using that vm_example_data [of x] cow_frames by (auto simp: cow_base_ok)
  have k: "frame_owned t ?k" "?k \<notin> tabs 3 (kmem t) ?r" and d: "frame_owned t ?d" "?d \<notin> tabs 3 (kmem t) ?r"
    using data_evolves [OF t(1) data] by simp_all
  have okt: "paging_ok t ?r" using t(1) by (simp add: evolves_def)
  have i: "?i < 512" using indices_ok_vaddr [of kernel_copy_vaddr] by (simp add: indices_ok_def)
  define s where "s = t\<lparr>kmem := store64 (kmem t) (?k + 8 * ?i) (entry (kmem t) ?r ?i)\<rparr>"
  have off: "\<forall>a. a \<notin> frame ?k \<longrightarrow> store64 (kmem t) (?k + 8 * ?i) (entry (kmem t) ?r ?i) a = kmem t a"
    using cow_frames(1) i by (auto intro: store64_slot_other simp: table_ptr_def)
  note w = write_data_frame [where s = t and root = ?r and q = ?k and
      m = "store64 (kmem t) (?k + 8 * ?i) (entry (kmem t) ?r ?i)", folded s_def, OF okt k off]
  have fields: "kernel_table s = ?k" "cr3 s = 0x1000" "current_task s = cow_task" "total_memory s = 0x17000"
    using t(1) kernel_more_fields [of t cow_base]
    by (simp_all add: s_def evolves_def)
      (simp_all add: cow_base_def vm_example_def sched_example_def cow_task_def vm.defs)
  have pages: "pmm_pages s \<le> 268435456" by (simp add: fields)
  have win: "cow_task + 152 + k \<notin> window u" if "k < 8" "total_memory u = 0x17000" for k and u :: kernel
    using that by (intro cow_heap) simp_all
  have "task_vmap (kmem t) cow_task = ?r"
    using task_vmap_evolves [OF t(1)] win cow_task_vmap by (simp add: cow_base_def vm.defs vm_example_def)
  moreover have "task_vmap (kmem s) cow_task = task_vmap (kmem t) cow_task"
    unfolding task_vmap_def
  proof (rule load64_cong)
    fix k :: u64 assume "k < 8"
    then have "cow_task + 152 + k \<notin> window t" using win fields(4) by (simp add: s_def)
    then have "cow_task + 152 + k \<notin> frame ?k" using frame_owned_window [OF k(1)] by blast
    then show "kmem s (cow_task + 152 + k) = kmem t (cow_task + 152 + k)" using off by (simp add: s_def)
  qed
  ultimately have vmap: "task_vmap (kmem s) (current_task s) = ?r" by (simp add: fields)
  have rk: "?r \<noteq> ?k" "frame_owned t ?r" using okt by (auto simp: tables_ok_def)
  have "entry (kmem s) ?r ?i = entry (kmem t) ?r ?i"
    using w(7) [OF rk(2,1)] vm_example_root(1) i by (intro load64_frame_cong) (auto simp: table_ptr_def)
  then have sh: "shares ?k ?r kernel_copy_vaddr (kmem s)"
    using t(3) by (simp add: shares_def Let_def s_def)
  have path: "path_ok (vaddr_to_index v) (kmem s) 3 ?r" for v
    using w(5) t(1) cow_base_ok(3) by (simp add: evolves_def path_kept_def)
  have get: "paging_get s ?r 0x400000 = 0xf005" using w(3) t(4) by simp
  have old: "child_table (paging_get s ?r 0x400000) = ?d"
    by (simp add: get child_table_def addr_ensure_higher_def VADDR_HIGHER_def)
  have v: "(0x400123 :: u64) AND NOT 0xfff = 0x400000" "vpage 0x400000 \<noteq> vpage kernel_copy_vaddr"
    by (simp_all add: vpage_def kernel_copy_vaddr_def)
  have cr: "addr_ensure_higher (cr3 s) = ?r" by (simp add: fields addr_ensure_higher_def VADDR_HIGHER_def)
  have av: "7 \<le> frames_avail s" using w(4) t(2) by simp
  have pres: "present (paging_get s ?r 0x400000)" by (simp add: get present_bit)
  have kd: "frame_owned s ?k" "?k \<notin> tabs 3 (kmem s) ?r" "frame_owned s ?d" "?d \<notin> tabs 3 (kmem s) ?r"
    using w(2,6) k d by simp_all
  have heap: "current_task s + 152 + k \<notin> window s" if "k < 8" for k
    using win that fields by simp
  from cow_copies_page [of s "0x400123", unfolded vmap v(1) old fields(1), OF w(1) cr path path av pres sh
      kd v(2) heap]
  obtain s' new where "cow_copy_on_write 0x400123 s = Some (True, s')"
    "child_table (paging_get s' ?r 0x400000) = new" "\<not> frame_owned s new"
    "\<forall>i<8. bit (paging_get s' ?r 0x400000) i \<longleftrightarrow> bit (paging_get s ?r 0x400000) i \<or> i = 0 \<or> i = 1"
    by blast
  moreover have "\<not> bit (paging_get s ?r 0x400000) 1" by (simp add: get)
  ultimately show ?thesis using old kd(3) by (intro exI [of _ s] exI [of _ s']) auto
qed

end
