(* ===== verification/Memutil_Sse.thy ===== *)
theory Memutil_Sse
  imports Memutil
begin

text \<open>
  The assembler routine \<^verbatim>\<open>memcpy_128\<close> of \<^verbatim>\<open>libk/memutil.S\<close>: it copies blocks of 128
  bytes through eight 16-byte registers. A \<^verbatim>\<open>movdqa\<close> or \<^verbatim>\<open>movntdq\<close> of an address that
  is not 16-byte aligned faults (\<open>None\<close>).
\<close>

section \<open>Enabling the registers\<close>

text \<open>\<^verbatim>\<open>sse_enable\<close> of \<^verbatim>\<open>cpu/cpu.S\<close> on the control registers cr0 and cr4: the
  instructions work on the low 16 bits and keep the others.\<close>

definition low16 :: "(u16 \<Rightarrow> u16) \<Rightarrow> u64 \<Rightarrow> u64" where
  "low16 f r = (r AND NOT 0xffff) OR ucast (f (ucast r))"

definition sse_enable :: "u64 \<times> u64 \<Rightarrow> u64 \<times> u64" where
  "sse_enable = (\<lambda>(cr0, cr4). (low16 (\<lambda>ax. (ax AND 0xfffb) OR 0x2) cr0, low16 (\<lambda>ax. ax OR push_bit 9 3) cr4))"

text \<open>Emulation is off, monitoring on, the registers and their exceptions are allowed; no other bit changes.\<close>

lemma sse_enable_bits:
  "bit (fst (sse_enable (cr0, cr4))) n \<longleftrightarrow> (if n = 2 then False else if n = 1 then True else bit cr0 n)"
  "bit (snd (sse_enable (cr0, cr4))) n \<longleftrightarrow> (if n = 9 \<or> n = 10 then True else bit cr4 n)"
proof -
  have c: "(0xffff :: u64) = mask 16" "(0xfffb :: u16) = NOT (push_bit 2 1)" "(0x2 :: u16) = push_bit 1 1"
    "(3 :: u16) = mask 2"
    by (simp_all add: mask_eq_exp_minus_1)
  have four: "(4 :: u64) = 2 ^ 2" "(4 :: int) = 2 ^ 2" "(4 :: nat) = 2 ^ 2" by simp_all
  have b4: "bit (4 :: u64) n \<longleftrightarrow> n = 2" "bit (4 :: int) n \<longleftrightarrow> n = 2" "bit (4 :: nat) n \<longleftrightarrow> n = 2"
    unfolding four bit_exp_iff by auto
  show "bit (fst (sse_enable (cr0, cr4))) n \<longleftrightarrow> (if n = 2 then False else if n = 1 then True else bit cr0 n)"
    "bit (snd (sse_enable (cr0, cr4))) n \<longleftrightarrow> (if n = 9 \<or> n = 10 then True else bit cr4 n)"
    using bit_imp_le_length [of cr0 n] bit_imp_le_length [of cr4 n]
    unfolding sse_enable_def low16_def c by (auto simp: bit_simps b4)
qed

section \<open>The routine\<close>

definition xmm_load :: "mem \<Rightarrow> ptr \<Rightarrow> u8 list" where
  "xmm_load m p = map (\<lambda>i. m (p + of_nat i)) [0..<16]"

definition xmm_store :: "ptr \<Rightarrow> u8 list \<Rightarrow> mem \<Rightarrow> mem" where
  "xmm_store p bs m = fold (\<lambda>i m. m(p + of_nat i := bs ! i)) [0..<16] m"

definition copy_block :: "ptr \<Rightarrow> ptr \<Rightarrow> mem \<Rightarrow> mem" where
  "copy_block dst src m =
     (let xmm = map (\<lambda>k. xmm_load m (src + 16 * of_nat k)) [0..<8]
      in fold (\<lambda>k. xmm_store (dst + 16 * of_nat k) (xmm ! k)) [0..<8] m)"

fun copy_loop :: "nat \<Rightarrow> ptr \<Rightarrow> ptr \<Rightarrow> mem \<Rightarrow> mem option" where
  "copy_loop 0 dst src m = Some m"
| "copy_loop (Suc rcx) dst src m =
     (if 16 dvd unat src \<and> 16 dvd unat dst
      then copy_loop rcx (dst + 128) (src + 128) (copy_block dst src m) else None)"

text \<open>
  \<^verbatim>\<open>loop\<close> decrements before it tests: started with zero blocks it runs \<open>2 ^ 64\<close> times. The
  divisor goes into the register r12, which belongs to the caller and is not restored: the routine takes
  its value before the call and returns the one after it. The other registers it changes (rax, rcx,
  rdx, rsi, rdi, xmm0 to xmm7) are free for a function to use.
\<close>

definition memcpy_128 :: "mem \<Rightarrow> ptr \<Rightarrow> ptr \<Rightarrow> u64 \<Rightarrow> u64 \<Rightarrow> (u64 \<times> mem) option" where
  "memcpy_128 m dst src n r12 =
     (let rax = n; r12 = 128; rcx = rax div r12
      in map_option (Pair r12) (copy_loop (if rcx = 0 then 2 ^ 64 else unat rcx) dst src m))"

section \<open>Equivalence with the byte-wise routine\<close>

lemma unat_of_nat_sub:
  assumes "x < 18446744073709551616" "y < 18446744073709551616"
  shows "unat (of_nat x - of_nat y :: u64) = (if y \<le> x then x - y else 18446744073709551616 + x - y)"
  using assms by (simp add: unat_sub_if' unat_of_nat_u64) arith

lemma xmm_store_apply:
  "xmm_store p bs m a = (if unat (a - p) < 16 then bs ! unat (a - p) else m a)"
  unfolding xmm_store_def by (rule fold_write_range) simp

lemma xmm_stores_apply:
  assumes "n \<le> 8"
  shows "fold (\<lambda>k. xmm_store (dst + 16 * of_nat k) (f k)) [0..<n] m a =
    (if unat (a - dst) < 16 * n then f (unat (a - dst) div 16) ! (unat (a - dst) mod 16) else m a)"
  using assms
proof (induction n)
  case (Suc n)
  define x where "x = unat (a - dst)"
  have a: "a - (dst + 16 * of_nat n) = of_nat x - of_nat (16 * n)" by (simp add: x_def)
  have x: "x < 18446744073709551616" using unat_u64_lt [of "a - dst"] by (simp add: x_def)
  have "unat (a - (dst + 16 * of_nat n)) = (if 16 * n \<le> x then x - 16 * n else 18446744073709551616 + x - 16 * n)"
    unfolding a using x Suc.prems by (intro unat_of_nat_sub) simp_all
  then have "unat (a - (dst + 16 * of_nat n)) < 16 \<longleftrightarrow> x div 16 = n"
    "x div 16 = n \<Longrightarrow> unat (a - (dst + 16 * of_nat n)) = x mod 16"
    using Suc.prems x by (auto simp: minus_mult_div_eq_mod split: if_splits)
  moreover have "x < 16 * Suc n \<longleftrightarrow> x < 16 * n \<or> x div 16 = n" by auto
  ultimately show ?case using Suc by (auto simp: xmm_store_apply x_def [symmetric])
qed simp

lemma copy_block_apply:
  "copy_block dst src m a = (if unat (a - dst) < 128 then m (src + (a - dst)) else m a)"
proof -
  have "16 * of_nat (n div 16) + of_nat (n mod 16) = (of_nat n :: u64)" for n
    by (metis mult_div_mod_eq of_nat_add of_nat_mult of_nat_numeral)
  then have "m (src + 16 * of_nat (n div 16) + of_nat (n mod 16)) = m (src + of_nat n)" for n
    by (simp add: add.assoc)
  then show ?thesis
    by (simp add: copy_block_def xmm_stores_apply Let_def xmm_load_def)
qed

lemma copy_loop_apply:
  assumes "128 * k < 18446744073709551616" "128 * k \<le> unat (dst - src) \<or> dst = src"
    "16 dvd unat src" "16 dvd unat dst"
  shows "\<exists>m'. copy_loop k dst src m = Some m' \<and>
    (\<forall>a. m' a = (if unat (a - dst) < 128 * k then m (src + (a - dst)) else m a))"
  using assms
proof (induction k arbitrary: dst src m)
  case (Suc k)
  let ?m = "copy_block dst src m"
  have al: "16 dvd unat (p + 128)" if "16 dvd unat p" for p :: ptr
    using that by (auto simp: unat_word_ariths dvd_mod_iff)
  from Suc.prems obtain m' where m': "copy_loop k (dst + 128) (src + 128) ?m = Some m'"
    "\<And>a. m' a = (if unat (a - (dst + 128)) < 128 * k then ?m (src + 128 + (a - (dst + 128))) else ?m a)"
    using Suc.IH [of "dst + 128" "src + 128" ?m] al by auto
  have "m' a = (if unat (a - dst) < 128 * Suc k then m (src + (a - dst)) else m a)" for a
  proof -
    define x where "x = unat (a - dst)"
    have a: "a - (dst + 128) = of_nat x - of_nat 128" by (simp add: x_def)
    have x: "x < 18446744073709551616" using unat_u64_lt [of "a - dst"] by (simp add: x_def)
    have far: "unat (a - (dst + 128)) < 128 * k \<longleftrightarrow> 128 \<le> x \<and> x < 128 * Suc k"
      unfolding a using x Suc.prems(1) by (subst unat_of_nat_sub) auto
    have "\<not> unat (src + (a - dst) - dst) < 128" if "128 \<le> x" "x < 128 * Suc k"
    proof (cases "dst = src")
      case True then show ?thesis using that by (simp add: x_def)
    next
      case False
      define d where "d = unat (dst - src)"
      have d: "128 * Suc k \<le> d" "d < 18446744073709551616" using Suc.prems(2) False unat_u64_lt [of "dst - src"] by (simp_all add: d_def)
      have "src + (a - dst) - dst = of_nat x - of_nat d" by (simp add: x_def d_def)
      then show ?thesis using d that x by (simp add: unat_of_nat_sub del: of_nat_unat)
    qed
    moreover have "src + 128 + (a - (dst + 128)) = src + (a - dst)" by simp
    ultimately show ?thesis unfolding m'(2) far
      by (auto simp: copy_block_apply x_def [symmetric])
  qed
  then show ?case using m'(1) Suc.prems by auto
qed simp

text \<open>C30: Copying at least one block between 16-byte aligned addresses, \<^verbatim>\<open>memcpy_128\<close> does what
  \<^verbatim>\<open>memcpy\<close> does with the whole blocks of 128 bytes: the same bytes, the rest of the length left
  out. As with \<^verbatim>\<open>memcpy\<close> the destination may not start inside of the source. The caller's r12
  is lost: it holds 128 afterwards, whatever it held before.\<close>

theorem memcpy_128_equiv_memcpy:
  assumes "128 \<le> n" "16 dvd unat src" "16 dvd unat dst" "n \<le> dst - src \<or> dst = src"
  shows "memcpy_128 m dst src n r12 = Some (128, memcpy m dst src (n div 128 * 128))"
proof -
  let ?k = "unat n div 128"
  have n: "unat (n div 128 * 128) = 128 * ?k" "unat (n div 128) = ?k" "n div 128 \<noteq> 0"
    using assms(1) unat_u64_lt [of n]
    by (simp_all add: unat_word_ariths unat_div word_le_nat_alt u64_eq_iff_unat)
  have "128 * ?k \<le> unat (dst - src) \<or> dst = src" using assms(4) by (auto simp: word_le_nat_alt)
  moreover have "128 * ?k < 18446744073709551616" using unat_u64_lt [of n] by simp
  ultimately obtain m' where m': "copy_loop ?k dst src m = Some m'"
    "\<And>a. m' a = (if unat (a - dst) < 128 * ?k then m (src + (a - dst)) else m a)"
    using copy_loop_apply [of ?k dst src m] assms(2,3) by auto
  have "n div 128 * 128 \<le> dst - src \<or> dst = src" using assms(4) n(1) by (auto simp: word_le_nat_alt)
  then have "memcpy m dst src (n div 128 * 128) = m'"
    by (rule ext [OF trans [OF memcpy_disjoint]]) (simp add: m'(2) word_less_nat_alt n(1))
  then show ?thesis using m'(1) n(2,3) by (simp add: memcpy_128_def Let_def)
qed

theorem memcpy_128_equiv_memcpy_witness:
  "memcpy_128 (\<lambda>a. ucast a) 0x2000 0x1000 300 7 = Some (128, memcpy (\<lambda>a. ucast a) 0x2000 0x1000 256)"
  using memcpy_128_equiv_memcpy [of 300 "0x1000" "0x2000" "\<lambda>a. ucast a"] by simp

end
