(* ===== verification/Drive.thy ===== *)
theory Drive
  imports Syscall
begin

text \<open>
  Drives (\<^verbatim>\<open>device/drive/drive.c\<close>): reading bytes of a drive that is read by blocks. A drive
  holds a pointer to the function that reads its blocks; \<open>call\<close> says what the function at an
  address does. What a driver promises is the locale \<open>block_device\<close>, and \<^verbatim>\<open>drive_read\<close> is
  proved against it.
\<close>

type_synonym 's block_reader = "ptr \<Rightarrow> u64 \<Rightarrow> u64 \<Rightarrow> ptr \<Rightarrow> 's \<Rightarrow> 's option"

definition sizeof_drive :: u64 where "sizeof_drive = 32"
definition drive_block_size :: "mem \<Rightarrow> ptr \<Rightarrow> u64" where "drive_block_size m p = load64 m p"
definition drive_read_blocks :: "mem \<Rightarrow> ptr \<Rightarrow> ptr" where "drive_read_blocks m p = load64 m (p + 8)"
definition drive_data :: "mem \<Rightarrow> ptr \<Rightarrow> ptr" where "drive_data m p = load64 m (p + 24)"

definition set_drive_block_size :: "ptr \<Rightarrow> u64 \<Rightarrow> mem \<Rightarrow> mem" where "set_drive_block_size p v m = store64 m p v"
definition set_drive_read_blocks :: "ptr \<Rightarrow> ptr \<Rightarrow> mem \<Rightarrow> mem" where "set_drive_read_blocks p v m = store64 m (p + 8) v"
definition set_drive_data :: "ptr \<Rightarrow> ptr \<Rightarrow> mem \<Rightarrow> mem" where "set_drive_data p v m = store64 m (p + 24) v"

text \<open>A block size of zero divides by zero.\<close>

definition drive_read ::
  "(ptr \<Rightarrow> 'z pmm_scheme block_reader) \<Rightarrow> ptr \<Rightarrow> u64 \<Rightarrow> u64 \<Rightarrow> ptr \<Rightarrow> 'z pmm_scheme \<Rightarrow> 'z pmm_scheme option" where
  "drive_read call dst len offset drive s =
     (let bs = drive_block_size (kmem s) drive in
      if bs = 0 then None
      else
        let lba_start = offset div bs;
            lba_start_offset = offset AND (bs - 1);
            lba_end = (offset + (len - 1)) div bs;
            block_count = lba_end - lba_start + 1;
            page_count = (block_count * bs + 0xfff) div 0x1000
        in do { (buf_blocks, s) \<leftarrow> palloc s page_count;
                s \<leftarrow> call (drive_read_blocks (kmem s) drive) buf_blocks block_count lba_start drive s;
                let s = s\<lparr>kmem := memcpy (kmem s) dst (buf_blocks + lba_start_offset) len\<rparr>;
                pfree s buf_blocks page_count })"

section \<open>What a driver promises\<close>

text \<open>
  A region is the range of addresses of an object. Memory is settled when the page allocator will
  neither hand it out nor keep its bitmap there.
\<close>

definition region :: "ptr \<Rightarrow> nat \<Rightarrow> ptr set" where
  "region p n = {a. unat (a - p) < n}"

definition settled :: "'z pmm_scheme \<Rightarrow> ptr set \<Rightarrow> bool" where
  "settled s A \<longleftrightarrow> (\<forall>a\<in>A. outside_bitmap s a \<and> (a \<in> window s \<longrightarrow> page_locked s (page_of a)))"

definition same_pmm :: "'z pmm_scheme \<Rightarrow> 'z pmm_scheme \<Rightarrow> bool" where
  "same_pmm s t \<longleftrightarrow> total_memory t = total_memory s \<and> free_memory t = free_memory s \<and>
     last_free t = last_free s \<and> page_bitmap t = page_bitmap s"

lemma frame_region: "page_aligned p \<Longrightarrow> frame p = region p 4096"
  by (auto simp: region_def in_frame_iff)

lemma in_region: "k < n \<Longrightarrow> n \<le> 18446744073709551616 \<Longrightarrow> p + of_nat k \<in> region p n"
  by (simp add: region_def unat_of_nat_u64)

lemma region_offset: "a \<in> region p n \<Longrightarrow> \<exists>k<n. a = p + of_nat k"
  by (auto simp: region_def intro!: exI [of _ "unat (a - p)"])

lemma settled_fresh:
  assumes ok: "palloc_ok s" and g: "grantable s r 1" and free: "\<not> page_locked s r" and A: "settled s A"
  defines "p \<equiv> addr_offset_higher (page_addr r)"
  shows "table_ptr p" and "frame p \<inter> A = {}"
proof -
  have "r < pmm_pages s" using g by (simp add: grantable_def)
  moreover have "pmm_pages s \<le> 34359738368" using ok unfolding palloc_ok_def by linarith
  ultimately have r: "r < 34359738368" "r < pmm_pages s" by simp_all
  show tp: "table_ptr p" using page_of_window(1) [OF r(1)] by (simp add: p_def)
  have "page_of p = r" using page_of_window(2) [OF r(1)] by (simp add: p_def)
  then have "a \<in> window s \<and> page_of a = r" if "a \<in> frame p" for a
    using that high_same_page [of p a] tp r by (auto simp: window_def table_ptr_def)
  with A free show "frame p \<inter> A = {}" by (auto simp: settled_def)
qed

lemma same_pmm_inv:
  assumes "same_pmm s t" "kmem t = kmem s"
  shows "pmm_inv t = pmm_inv s" "page_locked t = page_locked s" "outside_bitmap t = outside_bitmap s"
proof -
  note eqs = assms [unfolded same_pmm_def]
  show locked: "page_locked t = page_locked s" by (rule ext) (simp add: page_locked_def eqs)
  show "outside_bitmap t = outside_bitmap s" by (rule ext) (simp add: outside_bitmap_def eqs)
  show "pmm_inv t = pmm_inv s"
    unfolding pmm_inv_def free_count_ok_def free_pages_def locked by (simp add: eqs)
qed

text \<open>Freeing the page of an allocation after writes that spared the bitmap.\<close>

lemma pfree_after:
  assumes ok: "palloc_ok s" and r: "grantable s r 1" "\<not> page_locked s r"
    and same: "same_pmm (request_state s r 1) s3"
    and keep: "\<And>a. \<not> outside_bitmap s a \<Longrightarrow> kmem s3 a = kmem (request_state s r 1) a"
  obtains t where "pfree s3 (addr_offset_higher (page_addr r)) 1 = Some t" "pmm_inv t"
    "free_pages t = free_pages s" "\<And>a. outside_bitmap s a \<Longrightarrow> kmem t a = kmem s3 a"
proof -
  let ?s1 = "request_state s r 1" and ?p = "addr_offset_higher (page_addr r)"
  let ?u = "?s1\<lparr>kmem := kmem s3\<rparr>"
  have ok1: "palloc_ok ?s1" by (rule palloc_one_owned(1) [OF ok r])
  have pb: "page_bitmap s3 = page_bitmap s" "total_memory s3 = total_memory s"
    using same by (simp_all add: same_pmm_def)
  have out: "outside_bitmap s3 a = outside_bitmap s a" "outside_bitmap ?s1 a = outside_bitmap s a" for a
    by (simp_all add: outside_bitmap_def pb)
  note w = write_outside_bitmap [OF ok1, of "kmem s3"]
  have u: "same_pmm ?u s3" "kmem s3 = kmem ?u" using same by (simp_all add: same_pmm_def)
  note tr = same_pmm_inv [OF u]
  have inv3: "pmm_inv s3" using w(1) keep tr(1) out by (simp add: palloc_ok_def)
  have "unat (total_memory s) \<le> 140737488355328" using ok by (simp add: palloc_ok_def)
  then have "pmm_pages s \<le> 34359738368" by linarith
  then have rN: "r < pmm_pages s" "pmm_pages s \<le> 34359738368" using r(1) by (simp_all add: grantable_def)
  have addr: "unat (page_addr r) = 4096 * r" using rN by (intro unat_page_addr) simp
  then have "page_addr r < 0x800000000000" using rN by (simp add: word_less_nat_alt)
  then have low: "addr_ensure_lower ?p = page_addr r"
    using addr_ensure_lower_higher [of "page_addr r"] addr_ensure_lower_phys addr_ensure_higher_phys by metis
  have fit3: "unat (page_addr r) div 4096 + unat (1 :: u64) \<le> pmm_pages s3" using rN by (simp add: addr pb)
  obtain t where t: "pmm_release_pages s3 (page_addr r) 1 = Some t" "pmm_inv t"
    "\<And>j. j < 4503599627370496 \<Longrightarrow> page_locked t j \<longleftrightarrow> page_locked s3 j \<and>
      \<not> (unat (page_addr r) div 4096 \<le> j \<and> j < unat (page_addr r) div 4096 + unat (1 :: u64))"
    "page_bitmap t = page_bitmap s3" "\<And>a. outside_bitmap s3 a \<Longrightarrow> kmem t a = kmem s3 a"
    by (rule pmm_release_pages_spec [OF inv3 fit3]) blast
  have bits: "bitmap_bits s \<le> 4503599627370496" using ok by (simp add: palloc_ok_def pmm_inv_def)
  have "page_locked t j \<longleftrightarrow> page_locked s j" if "j < bitmap_bits s" for j
  proof -
    have j: "j < 4503599627370496" using that bits by simp
    have "page_locked s3 j = page_locked ?u j" using tr(2) by simp
    also have "\<dots> = page_locked ?s1 j" using that bits keep out by (intro page_locked_write) simp_all
    finally show ?thesis
      using t(3) [OF j] request_state_locked [OF r(1) j] r(2) by (cases "j = r") (auto simp: addr)
  qed
  then have "free_pages t = free_pages s" using t(4) pb by (auto simp: free_pages_def)
  with t low show ?thesis by (intro that [of t]) (simp_all add: pfree_def out)
qed

text \<open>The blocks that \<^verbatim>\<open>drive_read\<close> reads, when they fit into a page.\<close>

lemma block_span:
  fixes offset len bs :: u64
  assumes bs: "bs = 2 ^ b" "b \<le> 12"
    and len: "0 < len" "unat offset + unat len < 18446744073709551616"
    and fit: "((unat offset + unat len - 1) div 2 ^ b - unat offset div 2 ^ b + 1) * 2 ^ b \<le> 4096"
  defines "n \<equiv> (offset + (len - 1)) div bs - offset div bs + 1"
  shows "unat bs = 2 ^ b" and "0 < n" and "unat n * 2 ^ b \<le> 4096" and "(n * bs + 0xfff) div 0x1000 = 1"
    and "unat (offset AND (bs - 1)) = unat offset mod 2 ^ b"
    and "offset div bs = of_nat (unat offset div 2 ^ b)"
    and "unat offset mod 2 ^ b + unat len \<le> unat n * 2 ^ b"
proof -
  let ?B = "2 ^ b :: nat" and ?lo = "unat offset div 2 ^ b" and ?hi = "(unat offset + unat len - 1) div 2 ^ b"
  have B12: "?B \<le> 4096" using power_increasing [OF bs(2), of "2 :: nat"] by simp
  have "(2 :: u64) ^ b = of_nat ?B" by simp
  with B12 show B: "unat bs = ?B" unfolding bs(1) by (simp only: unat_of_nat_u64)
  have L: "0 < unat len" using len(1) by (simp add: word_less_nat_alt)
  have start: "unat (offset div bs) = ?lo" using B by (simp add: unat_div)
  then show "offset div bs = of_nat ?lo" by (metis of_nat_unat ucast_id)
  show "unat (offset AND (bs - 1)) = unat offset mod ?B"
    unfolding bs(1) mask_eq_exp_minus_1 [symmetric] take_bit_eq_mask [symmetric]
    by (simp add: take_bit_eq_mod unat_mod B [unfolded bs(1)])
  have le: "?lo \<le> ?hi" using L by (intro div_le_mono) simp
  have "unat (offset + (len - 1)) = unat offset + unat len - 1"
    using len L by (simp add: unat_word_ariths unat_sub word_le_nat_alt)
  then have "unat ((offset + (len - 1)) div bs) = ?hi" using B by (simp add: unat_div)
  moreover have "?hi - ?lo + 1 \<le> 4096" using fit by (metis le_trans mult_le_mono2 nat_mult_1_right
        Suc_leI One_nat_def zero_less_power zero_less_numeral)
  ultimately have n: "unat n = ?hi - ?lo + 1"
    using start le by (simp add: n_def unat_word_ariths unat_sub word_le_nat_alt)
  then show "0 < n" by (simp add: word_less_nat_alt)
  show nB: "unat n * ?B \<le> 4096" using fit n by simp
  have "unat (n * bs + 0xfff) = unat n * ?B + 4095" using B nB by (simp add: unat_word_ariths)
  moreover have "1 \<le> unat n * ?B" using n by (simp add: Suc_le_eq)
  then have "(unat n * ?B + 4095) div 4096 = 1" using nB by (intro div_nat_eqI) simp_all
  ultimately show "(n * bs + 0xfff) div 0x1000 = 1" by (simp add: u64_eq_iff_unat unat_div)
  have "unat offset + unat len - 1 < (?hi + 1) * ?B" by (simp add: dividend_less_div_times)
  moreover have "(?hi + 1) * ?B = unat n * ?B + ?lo * ?B"
    unfolding n distrib_right [symmetric] using le by simp
  moreover have "unat offset = ?lo * ?B + unat offset mod ?B" by (rule div_mult_mod_eq [symmetric])
  ultimately show "unat offset mod ?B + unat len \<le> unat n * ?B" using L by linarith
qed

lemma div_mod_shift:
  fixes x k n :: nat
  assumes "0 < n"
  shows "x div n + (x mod n + k) div n = (x + k) div n" and "(x mod n + k) mod n = (x + k) mod n"
proof -
  have "(x + k) div n = (x div n * n + (x mod n + k)) div n"
    unfolding add.assoc [symmetric] div_mult_mod_eq ..
  also have "\<dots> = x div n + (x mod n + k) div n" using assms by (subst div_mult_self3) simp_all
  finally show "x div n + (x mod n + k) div n = (x + k) div n" ..
qed (simp add: mod_add_left_eq)

locale block_device =
  fixes call :: "ptr \<Rightarrow> 'z pmm_scheme block_reader"
    and ready :: "ptr \<Rightarrow> 'z pmm_scheme \<Rightarrow> bool"
    and foot :: "ptr \<Rightarrow> 'z pmm_scheme \<Rightarrow> ptr set"
    and disk :: "u64 \<Rightarrow> nat \<Rightarrow> u8"
  assumes read_law: "ready drive s \<Longrightarrow> table_ptr dst \<Longrightarrow> frame dst \<inter> foot drive s = {} \<Longrightarrow> 0 < n \<Longrightarrow>
      unat n * unat (drive_block_size (kmem s) drive) \<le> 4096 \<Longrightarrow>
      \<exists>t. call (drive_read_blocks (kmem s) drive) dst n lba drive s = Some t \<and> same_pmm s t \<and>
        (\<forall>x<unat n * unat (drive_block_size (kmem s) drive). kmem t (dst + of_nat x) =
           disk (lba + of_nat (x div unat (drive_block_size (kmem s) drive)))
             (x mod unat (drive_block_size (kmem s) drive))) \<and>
        (\<forall>a. a \<notin> frame dst \<longrightarrow> a \<notin> foot drive s \<longrightarrow> kmem t a = kmem s a)"
    and ready_cong: "ready drive s \<Longrightarrow> pmm.more t = pmm.more s \<Longrightarrow>
      (\<And>a. a \<in> foot drive s \<Longrightarrow> kmem t a = kmem s a) \<Longrightarrow>
      ready drive t \<and> foot drive t = foot drive s \<and>
      drive_block_size (kmem t) drive = drive_block_size (kmem s) drive"
begin

text \<open>
  \<^verbatim>\<open>drive_read\<close> puts the bytes of the drive from \<open>offset\<close> on into the buffer, gives its page back
  and disturbs no other memory in use, when the blocks touched fit into a page.
\<close>

lemma drive_read_ok:
  assumes rdy: "ready drive s" and ok: "palloc_ok s" and av: "0 < frames_avail s"
    and bs: "drive_block_size (kmem s) drive = 2 ^ b"  "b \<le> 12"
    and len: "0 < len" "unat offset + unat len < 18446744073709551616"
    and fit: "((unat offset + unat len - 1) div 2 ^ b - unat offset div 2 ^ b + 1) * 2 ^ b \<le> 4096"
    and set: "settled s (foot drive s)" "settled s (region dst (unat len))"
      "region dst (unat len) \<inter> foot drive s = {}"
  obtains t where "drive_read call dst len offset drive s = Some t"
    "\<And>k. k < unat len \<Longrightarrow>
       kmem t (dst + of_nat k) = disk (of_nat ((unat offset + k) div 2 ^ b)) ((unat offset + k) mod 2 ^ b)"
    "free_pages t = free_pages s" "pmm_inv t"
    "\<And>a. settled s {a} \<Longrightarrow> a \<notin> foot drive s \<Longrightarrow> a \<notin> region dst (unat len) \<Longrightarrow> kmem t a = kmem s a"
proof -
  let ?bs = "drive_block_size (kmem s) drive" and ?B = "2 ^ b :: nat"
  define n where "n = (offset + (len - 1)) div ?bs - offset div ?bs + 1"
  note bk = block_span [OF bs len fit, folded n_def]
  have bs0: "?bs \<noteq> 0" using bk(1) by (metis unat_0 power_eq_0_iff zero_neq_numeral)
  have L: "0 < unat len" using len(1) by (simp add: word_less_nat_alt)
  from palloc_one [OF ok av] obtain r where r: "grantable s r 1" "\<not> page_locked s r"
    "palloc s 1 = Some (addr_offset_higher (page_addr r), request_state s r 1)" by metis
  define p where "p = addr_offset_higher (page_addr r)"
  define s1 where "s1 = request_state s r 1"
  have tp: "table_ptr p" and apart: "frame p \<inter> foot drive s = {}" "frame p \<inter> region dst (unat len) = {}"
    using settled_fresh [OF ok r(1,2)] set(1,2) by (simp_all add: p_def)
  have keep: "kmem s1 a = kmem s a" if "settled s {a}" for a
    unfolding s1_def using that by (intro request_state_kmem [OF r(1)]) (simp add: settled_def)
  have "settled s {a}" if "a \<in> foot drive s" for a using set(1) that by (simp add: settled_def)
  with keep have rdy1: "ready drive s1" "foot drive s1 = foot drive s"
    "drive_block_size (kmem s1) drive = ?bs"
    using ready_cong [OF rdy, of s1] by (auto simp: s1_def)
  obtain s2 where s2: "call (drive_read_blocks (kmem s1) drive) p n (offset div ?bs) drive s1 = Some s2"
    "same_pmm s1 s2"
    "\<And>x. x < unat n * ?B \<Longrightarrow> kmem s2 (p + of_nat x) = disk (offset div ?bs + of_nat (x div ?B)) (x mod ?B)"
    "\<And>a. a \<notin> frame p \<Longrightarrow> a \<notin> foot drive s \<Longrightarrow> kmem s2 a = kmem s1 a"
    using read_law [OF rdy1(1) tp, of n "offset div ?bs"] apart bk(1-3) rdy1(2,3) by auto
  define q where "q = p + (offset AND (?bs - 1))"
  have q: "q = p + of_nat (unat offset mod ?B)" unfolding q_def bk(5) [symmetric] by simp
  have inq: "q + of_nat k = p + of_nat (unat offset mod ?B + k)" for k by (simp add: q)
  have inq': "q + of_nat k \<in> frame p" if "k < unat len" for k
    unfolding inq frame_region [OF table_ptr_aligned [OF tp]]
    using bk(3,7) that by (intro in_region) simp_all
  have "len \<le> dst - q"
  proof (rule ccontr)
    assume "\<not> len \<le> dst - q"
    then have "unat (dst - q) < unat len" by (simp add: word_le_nat_alt)
    from inq' [OF this] have "dst \<in> frame p" by simp
    moreover have "dst \<in> region dst (unat len)" using L by (simp add: region_def)
    ultimately show False using apart(2) by auto
  qed
  then have cpy: "memcpy (kmem s2) dst q len a =
      (if a \<in> region dst (unat len) then kmem s2 (q + (a - dst)) else kmem s2 a)" for a
    by (subst memcpy_disjoint) (simp_all add: word_less_nat_alt region_def)
  define s3 where "s3 = s2\<lparr>kmem := memcpy (kmem s2) dst q len\<rparr>"
  have same: "same_pmm (request_state s r 1) s3"
    using s2(2) unfolding s1_def [symmetric] by (simp add: same_pmm_def s3_def)
  have "kmem s3 a = kmem (request_state s r 1) a" if "\<not> outside_bitmap s a" for a
  proof -
    have "a \<notin> foot drive s" "a \<notin> region dst (unat len)" using set that by (auto simp: settled_def)
    moreover have "a \<notin> frame p"
      using palloc_one_owned(3) [OF ok r(1,2), of p] that by (auto simp: p_def frame_owned_def outside_bitmap_def)
    ultimately show ?thesis using s2(4) unfolding s1_def [symmetric] by (simp add: s3_def cpy)
  qed
  from pfree_after [OF ok r(1,2) same this] obtain t where t: "pfree s3 p 1 = Some t" "pmm_inv t"
    "free_pages t = free_pages s" "\<And>a. outside_bitmap s a \<Longrightarrow> kmem t a = kmem s3 a" unfolding p_def by blast
  have "drive_read call dst len offset drive s = Some t"
    using bs0 s2(1) t(1) [unfolded s3_def] bk(4) r(3) [folded p_def s1_def]
    by (simp add: drive_read_def Let_def n_def [symmetric] q_def [symmetric])
  moreover have "kmem t (dst + of_nat k) = disk (of_nat ((unat offset + k) div ?B)) ((unat offset + k) mod ?B)"
    if k: "k < unat len" for k
  proof -
    have ind: "dst + of_nat k \<in> region dst (unat len)" using k unat_u64_lt [of len] by (intro in_region) simp_all
    then have "kmem t (dst + of_nat k) = kmem s2 (q + of_nat k)"
      using t(4) set(2) by (simp add: s3_def cpy settled_def)
    also have "\<dots> = disk (of_nat (unat offset div ?B) + of_nat ((unat offset mod ?B + k) div ?B)) ((unat offset mod ?B + k) mod ?B)"
      unfolding inq bk(6) [symmetric] using bk(7) k by (intro s2(3)) simp
    finally show ?thesis
      unfolding div_mod_shift(2) [OF zero_less_power [OF zero_less_numeral]]
      by (simp only: of_nat_add [symmetric] div_mod_shift(1) [OF zero_less_power [OF zero_less_numeral]])
  qed
  moreover have "kmem t a = kmem s a"
    if "settled s {a}" "a \<notin> foot drive s" "a \<notin> region dst (unat len)" for a
  proof -
    have "a \<notin> frame p" using settled_fresh(2) [OF ok r(1,2) that(1)] by (simp add: p_def)
    then show ?thesis using that t(4) s2(4) keep by (simp add: s3_def cpy settled_def)
  qed
  ultimately show ?thesis using t(2,3) by (intro that [of t]) simp_all
qed

end

section \<open>Accesses to a region\<close>

lemma region_byte:
  assumes "k + l \<le> n" "unat j < l" "n \<le> 18446744073709551616"
  shows "p + of_nat k + j \<in> region p n"
proof -
  have "p + of_nat k + j = p + of_nat (k + unat j)" by simp
  then show ?thesis using assms by (simp only: in_region)
qed

lemma store64_region:
  assumes "a \<notin> region p n" "k + 8 \<le> n" "n \<le> 18446744073709551616"
  shows "store64 m (p + of_nat k) v a = m a"
proof (rule store64_other, rule notI)
  assume "a - (p + of_nat k) < 8"
  then have "p + of_nat k + (a - (p + of_nat k)) \<in> region p n"
    using assms(2,3) by (intro region_byte [where l = 8]) (simp_all add: word_less_nat_alt)
  with assms(1) show False by simp
qed

lemma store32_region:
  assumes "a \<notin> region p n" "k + 4 \<le> n" "n \<le> 18446744073709551616"
  shows "store32 m (p + of_nat k) v a = m a"
proof (rule store32_other, rule notI)
  assume "a - (p + of_nat k) < 4"
  then have "p + of_nat k + (a - (p + of_nat k)) \<in> region p n"
    using assms(2,3) by (intro region_byte [where l = 4]) (simp_all add: word_less_nat_alt)
  with assms(1) show False by simp
qed

lemma load64_region:
  assumes "\<And>a. a \<in> region p n \<Longrightarrow> m a = m' a" "k + 8 \<le> n" "n \<le> 18446744073709551616"
  shows "load64 m (p + of_nat k) = load64 m' (p + of_nat k)"
  by (rule load64_cong, rule assms(1), rule region_byte [where l = 8])
    (use assms(2,3) in \<open>simp_all add: word_less_nat_alt\<close>)

lemma load32_region:
  assumes "\<And>a. a \<in> region p n \<Longrightarrow> m a = m' a" "k + 4 \<le> n" "n \<le> 18446744073709551616"
  shows "load32 m (p + of_nat k) = load32 m' (p + of_nat k)"
  by (rule load32_cong, rule assms(1), rule region_byte [where l = 4])
    (use assms(2,3) in \<open>simp_all add: word_less_nat_alt\<close>)

lemma region_sub:
  assumes "k + l \<le> n" "n \<le> 18446744073709551616"
  shows "region (p + of_nat k) l \<subseteq> region p n"
proof
  fix a assume "a \<in> region (p + of_nat k) l"
  then have "p + of_nat k + (a - (p + of_nat k)) \<in> region p n"
    using assms by (intro region_byte [where l = l]) (simp_all add: region_def)
  then show "a \<in> region p n" by simp
qed

lemma store16_region:
  assumes "a \<notin> region p n" "k + 2 \<le> n" "n \<le> 18446744073709551616"
  shows "store16 m (p + of_nat k) v a = m a"
proof (rule store16_other, rule notI)
  assume "a - (p + of_nat k) < 2"
  then have "p + of_nat k + (a - (p + of_nat k)) \<in> region p n"
    using assms(2,3) by (intro region_byte [where l = 2]) (simp_all add: word_less_nat_alt)
  with assms(1) show False by simp
qed

end
