(* ===== verification/Partition.thy ===== *)
theory Partition
  imports Drive
begin

text \<open>
  Partition tables (\<^verbatim>\<open>vfs/partition.c\<close>) and the virtual file system (\<^verbatim>\<open>vfs/vfs.c\<close>). The
  structures are read from and written to the byte memory at their C offsets. A failed assertion
  stops the kernel (\<open>None\<close>), as does a structure that \<^verbatim>\<open>malloc\<close> could not give; \<open>lit\<close>
  gives the addresses of string literals.
\<close>

record partition_state = kernel +
  partitions :: "u8 \<Rightarrow> ptr"

section \<open>The structures\<close>

definition sizeof_gpt_hdr :: u64 where "sizeof_gpt_hdr = 512"
definition sizeof_gpt :: u64 where "sizeof_gpt = 544"
definition sizeof_gpt_entry :: u64 where "sizeof_gpt_entry = 128"

definition gpt_current_lba :: "mem \<Rightarrow> ptr \<Rightarrow> u64" where "gpt_current_lba m p = load64 m (p + 24)"
definition gpt_backup_lba :: "mem \<Rightarrow> ptr \<Rightarrow> u64" where "gpt_backup_lba m p = load64 m (p + 32)"
definition gpt_first_usable_lba :: "mem \<Rightarrow> ptr \<Rightarrow> u64" where "gpt_first_usable_lba m p = load64 m (p + 40)"
definition gpt_last_usable_lba :: "mem \<Rightarrow> ptr \<Rightarrow> u64" where "gpt_last_usable_lba m p = load64 m (p + 48)"
definition gpt_pentry_start_lba :: "mem \<Rightarrow> ptr \<Rightarrow> u64" where "gpt_pentry_start_lba m p = load64 m (p + 72)"
definition gpt_pentry_count :: "mem \<Rightarrow> ptr \<Rightarrow> u32" where "gpt_pentry_count m p = load32 m (p + 80)"
definition gpt_pentry_size :: "mem \<Rightarrow> ptr \<Rightarrow> u32" where "gpt_pentry_size m p = load32 m (p + 84)"
definition gpt_entries_count :: "mem \<Rightarrow> ptr \<Rightarrow> u64" where "gpt_entries_count m p = load64 m (p + 520)"
definition gpt_entries :: "mem \<Rightarrow> ptr \<Rightarrow> ptr" where "gpt_entries m p = load64 m (p + 528)"

definition set_gpt_id :: "ptr \<Rightarrow> u8 \<Rightarrow> mem \<Rightarrow> mem" where "set_gpt_id p v m = m(p + 512 := v)"
definition set_gpt_entries_count :: "ptr \<Rightarrow> u64 \<Rightarrow> mem \<Rightarrow> mem" where
  "set_gpt_entries_count p v m = store64 m (p + 520) v"
definition set_gpt_entries :: "ptr \<Rightarrow> ptr \<Rightarrow> mem \<Rightarrow> mem" where "set_gpt_entries p v m = store64 m (p + 528) v"
definition set_gpt_drive :: "ptr \<Rightarrow> ptr \<Rightarrow> mem \<Rightarrow> mem" where "set_gpt_drive p v m = store64 m (p + 536) v"

definition entry_first_lba :: "mem \<Rightarrow> ptr \<Rightarrow> u64" where "entry_first_lba m p = load64 m (p + 32)"
definition entry_last_lba :: "mem \<Rightarrow> ptr \<Rightarrow> u64" where "entry_last_lba m p = load64 m (p + 40)"
definition entry_name :: "ptr \<Rightarrow> ptr" where "entry_name p = p + 56"

section \<open>Loading a partition table\<close>

text \<open>One round of the loop over the table read from the drive.\<close>

definition load_entry :: "ptr \<Rightarrow> ptr \<Rightarrow> 'z partition_state_scheme \<Rightarrow> 'z partition_state_scheme" where
  "load_entry gpt e s =
     (if entry_first_lba (kmem s) e = 0 then s
      else
        let s = kprintf KMSG_LOGLEVEL_INFO ''Partition %d (%S) spanning (%d,%d) found\<newline>''
              [gpt_entries_count (kmem s) gpt, entry_name e, entry_first_lba (kmem s) e,
               entry_last_lba (kmem s) e] s;
            n = gpt_entries_count (kmem s) gpt;
            s = on_mem (set_gpt_entries_count gpt (n + 1)) s
        in on_mem (\<lambda>m. memcpy m (gpt_entries m gpt + sizeof_gpt_entry * n) e sizeof_gpt_entry) s)"

partial_function (option) load_entries ::
  "ptr \<Rightarrow> ptr \<Rightarrow> u64 \<Rightarrow> 'z partition_state_scheme \<Rightarrow> 'z partition_state_scheme option" where
  "load_entries gpt lba2 i s =
     (if i < ucast (gpt_pentry_count (kmem s) gpt)
      then load_entries gpt lba2 (i + 1)
             (load_entry gpt (lba2 + i * ucast (gpt_pentry_size (kmem s) gpt)) s)
      else Some s)"

text \<open>The first of the 255 places that is free takes the table; without one it is dropped.\<close>

definition register_partition :: "ptr \<Rightarrow> 'z partition_state_scheme \<Rightarrow> 'z partition_state_scheme" where
  "register_partition gpt s =
     (case find (\<lambda>i. partitions s i = 0) (map of_nat [0..<255]) of
        None \<Rightarrow> s
      | Some i \<Rightarrow> on_mem (set_gpt_id gpt i) (s\<lparr>partitions := (partitions s)(i := gpt)\<rparr>))"

definition partition_load_drive ::
  "(string \<Rightarrow> ptr) \<Rightarrow> (ptr \<Rightarrow> 'z partition_state_scheme block_reader) \<Rightarrow> ptr \<Rightarrow>
   'z partition_state_scheme \<Rightarrow> 'z partition_state_scheme option" where
  "partition_load_drive lit call drive s =
     do { (gpt, s) \<leftarrow> zmalloc s sizeof_gpt;
          (if gpt = 0 then None else Some ());
          let s = on_mem (set_gpt_drive gpt drive) s;
          let s = kprintf KMSG_LOGLEVEL_INFO ''Loading partition table of drive...\<newline>'' [] s;
          s \<leftarrow> drive_read call gpt sizeof_gpt_hdr (drive_block_size (kmem s) drive) drive s;
          r \<leftarrow> strncmp (kmem s) gpt (lit ''EFI PART'') 8;
          (if r = 0 then Some () else None);
          let m = kmem s;
          let s = kprintf KMSG_LOGLEVEL_INFO
            ''Current lba: %d, backup lba: %d, first usable lba: %d, last usable lba: %d, pentry count: %d, pentry size: %x, pentry start lba: %d\<newline>''
            [gpt_current_lba m gpt, gpt_backup_lba m gpt, gpt_first_usable_lba m gpt,
             gpt_last_usable_lba m gpt, ucast (gpt_pentry_count m gpt), ucast (gpt_pentry_size m gpt),
             gpt_pentry_start_lba m gpt] s;
          (entries, s) \<leftarrow> malloc s (ucast (gpt_pentry_count (kmem s) gpt * gpt_pentry_size (kmem s) gpt)) 0;
          let s = on_mem (set_gpt_entries gpt entries) s;
          (lba2, s) \<leftarrow> palloc s ((drive_block_size (kmem s) drive * 32 + 0xfff) div 0x1000);
          s \<leftarrow> drive_read call lba2 (drive_block_size (kmem s) drive * 32)
                 (drive_block_size (kmem s) drive * gpt_pentry_start_lba (kmem s) gpt) drive s;
          let s = on_mem (set_gpt_entries_count gpt 0) s;
          s \<leftarrow> load_entries gpt lba2 0 s;
          let s = kprintf KMSG_LOGLEVEL_OKAY ''Finished loading partition table.\<newline>'' [] s;
          let s = register_partition gpt s;
          pfree s lba2 ((drive_block_size (kmem s) drive + 0xfff) div 0x1000) }"

section \<open>The virtual file system\<close>

definition MAX_PATH_LENGTH :: u64 where "MAX_PATH_LENGTH = 126"

definition vfs_register_drive ::
  "(string \<Rightarrow> ptr) \<Rightarrow> (ptr \<Rightarrow> 'z partition_state_scheme block_reader) \<Rightarrow> ptr \<Rightarrow>
   'z partition_state_scheme \<Rightarrow> 'z partition_state_scheme option" where
  "vfs_register_drive lit call drive s = partition_load_drive lit call drive s"

text \<open>Opening a file is a stub: it logs the path without the drive letter 26 times.\<close>

definition vfs_file_open :: "ptr \<Rightarrow> 'z hw_scheme \<Rightarrow> (8 word \<times> 'z hw_scheme) option" where
  "vfs_file_open path s =
     do { len \<leftarrow> strlen (kmem s) path;
          if len > MAX_PATH_LENGTH
          then Some (- 1, kprintf KMSG_LOGLEVEL_WARN ''path too long, can't open file\<newline>'' [] s)
          else Some (0, fold (\<lambda>mi. kprintf KMSG_LOGLEVEL_INFO ''processing path %s\<newline>'' [path + 2]) [0..<26 :: nat] s) }"

end
