(* ===== verification/Device.thy ===== *)
theory Device
  imports Partition
begin

text \<open>
  Devices (\<^verbatim>\<open>device/device.c\<close>), the kernel's own device (\<^verbatim>\<open>device/kernel/kdevice.c\<close>), the
  functions it exposes (\<^verbatim>\<open>userspace/kernel_function.c\<close>), and the end of the kernel
  (\<^verbatim>\<open>debug.c\<close>). The tables of 255 pointers are functions from indices.
\<close>

record device_state = partition_state +
  devices :: "u8 \<Rightarrow> ptr"
  kernel_functions :: "u8 \<Rightarrow> ptr"

section \<open>Panic\<close>

text \<open>The message is logged and the processor halts for ever.\<close>

definition kernel_panic ::
  "(string \<Rightarrow> ptr) \<Rightarrow> string \<Rightarrow> string \<Rightarrow> u32 \<Rightarrow> 'z hw_scheme \<Rightarrow> 'z hw_scheme outcome" where
  "kernel_panic lit message file line s =
     Halts (kprintf KMSG_LOGLEVEL_CRIT ''KERNEL PANIC: %s at %s:%d\<newline>'' [lit message, lit file, ucast line] s)"

section \<open>Devices\<close>

datatype device_class = DCLASS_KERNEL | DCLASS_DRIVE | DCLASS_COUNT

fun class_code :: "device_class \<Rightarrow> u32" where
  "class_code DCLASS_KERNEL = 0"
| "class_code DCLASS_DRIVE = 1"
| "class_code DCLASS_COUNT = 2"

definition sizeof_device :: u64 where "sizeof_device = 2064"
definition device_class_field :: "mem \<Rightarrow> ptr \<Rightarrow> u32" where "device_class_field m p = load32 m p"
definition device_id :: "mem \<Rightarrow> ptr \<Rightarrow> u8" where "device_id m p = m (p + 2048)"
definition device_data :: "mem \<Rightarrow> ptr \<Rightarrow> ptr" where "device_data m p = load64 m (p + 2056)"
definition set_device_class :: "ptr \<Rightarrow> device_class \<Rightarrow> mem \<Rightarrow> mem" where
  "set_device_class p c m = store32 m p (class_code c)"
definition set_device_function :: "ptr \<Rightarrow> u64 \<Rightarrow> ptr \<Rightarrow> mem \<Rightarrow> mem" where
  "set_device_function p i v m = store64 m (p + 8 + 8 * i) v"
definition set_device_id :: "ptr \<Rightarrow> u8 \<Rightarrow> mem \<Rightarrow> mem" where "set_device_id p v m = m(p + 2048 := v)"
definition set_device_data :: "ptr \<Rightarrow> ptr \<Rightarrow> mem \<Rightarrow> mem" where "set_device_data p v m = store64 m (p + 2056) v"

definition device_register ::
  "(string \<Rightarrow> ptr) \<Rightarrow> ptr \<Rightarrow> 'z device_state_scheme \<Rightarrow> 'z device_state_scheme outcome" where
  "device_register lit device s =
     (case find (\<lambda>i. devices s i = 0) (map of_nat [0..<255]) of
        Some i \<Rightarrow> Resumes (on_mem (set_device_id device i) (s\<lparr>devices := (devices s)(i := device)\<rparr>))
      | None \<Rightarrow> kernel_panic lit ''Device capacity exceeded'' ''./src/device/device.c'' 19 s)"

text \<open>Only drives have something to finish: their partitions are loaded.\<close>

definition device_finalize ::
  "(string \<Rightarrow> ptr) \<Rightarrow> (ptr \<Rightarrow> 'z device_state_scheme block_reader) \<Rightarrow> ptr \<Rightarrow>
   'z device_state_scheme \<Rightarrow> 'z device_state_scheme option" where
  "device_finalize lit call device s =
     (if device_class_field (kmem s) device = class_code DCLASS_DRIVE
      then vfs_register_drive lit call (device_data (kmem s) device) s else Some s)"

section \<open>Kernel functions\<close>

definition sizeof_kernel_function :: u64 where "sizeof_kernel_function = 32"
definition set_function_code :: "ptr \<Rightarrow> u8 \<Rightarrow> mem \<Rightarrow> mem" where "set_function_code p v m = m(p := v)"
definition set_function_name :: "ptr \<Rightarrow> ptr \<Rightarrow> mem \<Rightarrow> mem" where "set_function_name p v m = store64 m (p + 8) v"
definition set_function_description :: "ptr \<Rightarrow> ptr \<Rightarrow> mem \<Rightarrow> mem" where
  "set_function_description p v m = store64 m (p + 16) v"
definition set_function_execute :: "ptr \<Rightarrow> ptr \<Rightarrow> mem \<Rightarrow> mem" where "set_function_execute p v m = store64 m (p + 24) v"

text \<open>The loop has no exit at the free place it finds: it goes on, and the panic behind it follows.\<close>

definition kernel_function_register ::
  "(string \<Rightarrow> ptr) \<Rightarrow> ptr \<Rightarrow> 'z device_state_scheme \<Rightarrow> 'z device_state_scheme outcome" where
  "kernel_function_register lit function s =
     (let s = fold (\<lambda>code s.
            if kernel_functions s code = 0
            then on_mem (set_function_code function code)
                   (s\<lparr>kernel_functions := (kernel_functions s)(code := function)\<rparr>)
            else s) (map of_nat [0..<255]) s
      in kernel_panic lit ''Kernel function capacity exceeded'' ''./src/userspace/kernel_function.c'' 17 s)"

definition kfunction_hello :: "(string \<Rightarrow> ptr) \<Rightarrow> ptr \<Rightarrow> mem \<Rightarrow> mem option" where
  "kfunction_hello lit out m = strcpy m out (lit ''GENERAL KENOBI'')"

text \<open>\<open>hello_fn\<close> is the address of \<^verbatim>\<open>kfunction_hello\<close>.\<close>

definition kdevice_register_functions ::
  "(string \<Rightarrow> ptr) \<Rightarrow> ptr \<Rightarrow> 'z device_state_scheme \<Rightarrow> 'z device_state_scheme outcome option" where
  "kdevice_register_functions lit hello_fn s =
     (let s = kprintf KMSG_LOGLEVEL_INFO ''Reached target kernel function registration.\<newline>'' [] s
      in do { (hello, s) \<leftarrow> zmalloc s sizeof_kernel_function;
              (if hello = 0 then None else Some ());
              let s = on_mem (set_function_name hello (lit ''HELLO THERE'')) s;
              let s = on_mem (set_function_description hello
                (lit ''Write 'GENERAL KENOBI' to the outputlocation. Useful for debugging.'')) s;
              let s = on_mem (set_function_execute hello hello_fn) s;
              (kernel_device, s) \<leftarrow> zmalloc s sizeof_device;
              (if kernel_device = 0 then None else Some ());
              let s = on_mem (set_device_class kernel_device DCLASS_KERNEL) s;
              let s = on_mem (set_device_function kernel_device 0 hello) s;
              Some (case device_register lit kernel_device s of
                      Resumes s \<Rightarrow> Resumes (kprintf KMSG_LOGLEVEL_OKAY
                        ''Finished target kernel function registration.\<newline>'' [] s)
                    | Halts s \<Rightarrow> Halts s) })"

end
