(* ===== verification/Pci_Config.thy ===== *)
theory Pci_Config
  imports Device
begin

text \<open>
  The configuration space of PCI devices (\<^verbatim>\<open>pci/pci.h\<close>) and the search of the list of
  capabilities (\<^verbatim>\<open>pci_get_cap\<close> of \<^verbatim>\<open>pci/pci.c\<close>). The space is memory-mapped; \<open>cfg_get\<close>
  and \<open>cfg_put\<close> access the dword at an offset of a device's header.
\<close>

record pci_addr =
  bus :: u8
  slot :: u8
  func :: u8

definition HEADER_ENDPOINT :: u8 where "HEADER_ENDPOINT = 0x0"
definition PHC_IO_SPACE :: u32 where "PHC_IO_SPACE = 0x1"
definition PHC_MEM_SPACE :: u32 where "PHC_MEM_SPACE = 0x2"
definition PHC_BUS_MASTER :: u32 where "PHC_BUS_MASTER = 0x4"
definition PHC_INTERRUPT_DISABLE :: u32 where "PHC_INTERRUPT_DISABLE = 0x400"

text \<open>
  The dwords of \<^verbatim>\<open>struct pci_device_header\<close> and \<^verbatim>\<open>struct pci_device_endpoint\<close>, at the offsets
  of the packed structures. \<^verbatim>\<open>int_line\<close> follows \<^verbatim>\<open>capabilities_ptr\<close> and so lies at 56, a reserved
  dword of the configuration space; the interrupt line of a device is at 60.
\<close>

definition cfg_vendor_id :: u64 where "cfg_vendor_id = 0"
definition cfg_command :: u64 where "cfg_command = 4"
definition cfg_revision_id :: u64 where "cfg_revision_id = 8"
definition cfg_cl_size :: u64 where "cfg_cl_size = 12"
definition cfg_bar0 :: u64 where "cfg_bar0 = 16"
definition cfg_bar1 :: u64 where "cfg_bar1 = 20"
definition cfg_bar4 :: u64 where "cfg_bar4 = 32"
definition cfg_bar5 :: u64 where "cfg_bar5 = 36"
definition cfg_subsystem_vendor_id :: u64 where "cfg_subsystem_vendor_id = 44"
definition cfg_capabilities_ptr :: u64 where "cfg_capabilities_ptr = 52"
definition cfg_int_line :: u64 where "cfg_int_line = 56"

definition cfg_get :: "device \<Rightarrow> ptr \<Rightarrow> u64 \<Rightarrow> 'z hw_scheme \<Rightarrow> u32 \<times> 'z hw_scheme" where
  "cfg_get dev hdr off s = (let (v, s) = io_read dev (Read32 (hdr + off)) s in (ucast v, s))"

definition cfg_put :: "ptr \<Rightarrow> u64 \<Rightarrow> u32 \<Rightarrow> 'z hw_scheme \<Rightarrow> 'z hw_scheme" where
  "cfg_put hdr off v s = io_write (Write32 (hdr + off) v) s"

definition cap_id :: "device \<Rightarrow> ptr \<Rightarrow> 'z hw_scheme \<Rightarrow> u8 \<times> 'z hw_scheme" where
  "cap_id dev hdr s = (let (v, s) = io_read dev (Read8 hdr) s in (ucast v, s))"

definition cap_next :: "device \<Rightarrow> ptr \<Rightarrow> 'z hw_scheme \<Rightarrow> u8 \<times> 'z hw_scheme" where
  "cap_next dev hdr s = (let (v, s) = io_read dev (Read8 (hdr + 1)) s in (ucast v, s))"

text \<open>The result is the header found, or \<open>None\<close> for the return value \<^verbatim>\<open>false\<close>.\<close>

partial_function (option) pci_get_cap_from ::
  "device \<Rightarrow> ptr \<Rightarrow> ptr \<Rightarrow> u16 \<Rightarrow> 'z hw_scheme \<Rightarrow> (ptr option \<times> 'z hw_scheme) option" where
  "pci_get_cap_from dev hdr conf_base want s =
     (if hdr = 0 then Some (None, s)
      else
        let (c, s) = cap_id dev hdr s in
        if ucast c = want then Some (Some hdr, s)
        else let (n, s) = cap_next dev hdr s in pci_get_cap_from dev (ucast n + conf_base) conf_base want s)"

definition pci_get_cap ::
  "device \<Rightarrow> ptr \<Rightarrow> ptr \<Rightarrow> u16 \<Rightarrow> 'z hw_scheme \<Rightarrow> (ptr option \<times> 'z hw_scheme) option" where
  "pci_get_cap dev cap_ptr conf_base want s = pci_get_cap_from dev (cap_ptr + conf_base) conf_base want s"

end
