(* ===== verification/Nvme.thy ===== *)
theory Nvme
  imports Pci_Config
begin

text \<open>
  The NVMe driver (\<^verbatim>\<open>pci/nvme.c\<close>): the controller's registers, the submission and completion
  queues in memory, and the drives it registers. The controller is a parameter: \<open>answers\<close> is
  what its registers read as, and \<open>dma\<close> is what it does to the memory between two looks at a
  completion queue. \<open>controller\<close> and \<open>read_blocks_fn\<close> are the addresses of the static
  variable and the function of these names.
\<close>

record nvme_env =
  answers :: device
  dma :: "io list \<Rightarrow> mem \<Rightarrow> mem"
  controller :: ptr
  read_blocks_fn :: ptr

section \<open>The structures\<close>

record sq_entry =
  cdw0 :: u32
  nsid :: u32
  mptr :: u64
  prp1 :: u64
  prp2 :: u64
  cdw10 :: u32
  cdw11 :: u32
  cdw12 :: u32

text \<open>The fields that no command sets are zero.\<close>

definition sq_zero :: sq_entry where
  "sq_zero = \<lparr>cdw0 = 0, nsid = 0, mptr = 0, prp1 = 0, prp2 = 0, cdw10 = 0, cdw11 = 0, cdw12 = 0\<rparr>"

definition sq_words :: "sq_entry \<Rightarrow> u64 list" where
  "sq_words c =
     [ucast (cdw0 c) OR push_bit 32 (ucast (nsid c)), 0, mptr c, prp1 c, prp2 c,
      ucast (cdw10 c) OR push_bit 32 (ucast (cdw11 c)), ucast (cdw12 c), 0]"

definition sizeof_sq_entry :: u64 where "sizeof_sq_entry = 64"
definition sizeof_cq_entry :: u64 where "sizeof_cq_entry = 16"

definition store_sq_entry :: "ptr \<Rightarrow> sq_entry \<Rightarrow> mem \<Rightarrow> mem" where
  "store_sq_entry p c m = fold (\<lambda>i m. store64 m (p + 8 * of_nat i) (sq_words c ! i)) [0..<8] m"

definition status_field :: "mem \<Rightarrow> ptr \<Rightarrow> u16" where "status_field m p = load16 m (p + 14)"
definition set_status_field :: "ptr \<Rightarrow> u16 \<Rightarrow> mem \<Rightarrow> mem" where "set_status_field p v m = store16 m (p + 14) v"

text \<open>\<^verbatim>\<open>struct queue\<close>.\<close>

definition sq_tail :: "mem \<Rightarrow> ptr \<Rightarrow> u32" where "sq_tail m q = load32 m (q + 4)"
definition cq_head :: "mem \<Rightarrow> ptr \<Rightarrow> u32" where "cq_head m q = load32 m (q + 8)"
definition queue_sq :: "mem \<Rightarrow> ptr \<Rightarrow> ptr" where "queue_sq m q = load64 m (q + 16)"
definition queue_cq :: "mem \<Rightarrow> ptr \<Rightarrow> ptr" where "queue_cq m q = load64 m (q + 24)"
definition sq_tail_dbl :: "mem \<Rightarrow> ptr \<Rightarrow> ptr" where "sq_tail_dbl m q = load64 m (q + 32)"
definition cq_head_dbl :: "mem \<Rightarrow> ptr \<Rightarrow> ptr" where "cq_head_dbl m q = load64 m (q + 40)"
definition set_sq_tail :: "ptr \<Rightarrow> u32 \<Rightarrow> mem \<Rightarrow> mem" where "set_sq_tail q v m = store32 m (q + 4) v"
definition set_cq_head :: "ptr \<Rightarrow> u32 \<Rightarrow> mem \<Rightarrow> mem" where "set_cq_head q v m = store32 m (q + 8) v"
definition set_queue_sq :: "ptr \<Rightarrow> ptr \<Rightarrow> mem \<Rightarrow> mem" where "set_queue_sq q v m = store64 m (q + 16) v"
definition set_queue_cq :: "ptr \<Rightarrow> ptr \<Rightarrow> mem \<Rightarrow> mem" where "set_queue_cq q v m = store64 m (q + 24) v"
definition set_sq_tail_dbl :: "ptr \<Rightarrow> ptr \<Rightarrow> mem \<Rightarrow> mem" where "set_sq_tail_dbl q v m = store64 m (q + 32) v"
definition set_cq_head_dbl :: "ptr \<Rightarrow> ptr \<Rightarrow> mem \<Rightarrow> mem" where "set_cq_head_dbl q v m = store64 m (q + 40) v"

text \<open>\<^verbatim>\<open>struct nvme_controller\<close> and \<^verbatim>\<open>struct nvme_drive\<close>.\<close>

definition ctrl_regs :: "mem \<Rightarrow> ptr \<Rightarrow> ptr" where "ctrl_regs m c = load64 m c"
definition ctrl_id :: "mem \<Rightarrow> ptr \<Rightarrow> ptr" where "ctrl_id m c = load64 m (c + 8)"
definition set_ctrl_regs :: "ptr \<Rightarrow> ptr \<Rightarrow> mem \<Rightarrow> mem" where "set_ctrl_regs c v m = store64 m c v"
definition set_ctrl_id :: "ptr \<Rightarrow> ptr \<Rightarrow> mem \<Rightarrow> mem" where "set_ctrl_id c v m = store64 m (c + 8) v"
definition admin_queue :: "ptr \<Rightarrow> ptr" where "admin_queue c = c + 16"

definition sizeof_nvme_drive :: u64 where "sizeof_nvme_drive = 64"
definition ndrive_nsid :: "mem \<Rightarrow> ptr \<Rightarrow> u32" where "ndrive_nsid m d = load32 m d"
definition ndrive_id :: "mem \<Rightarrow> ptr \<Rightarrow> ptr" where "ndrive_id m d = load64 m (d + 56)"
definition set_ndrive_nsid :: "ptr \<Rightarrow> u32 \<Rightarrow> mem \<Rightarrow> mem" where "set_ndrive_nsid d v m = store32 m d v"
definition set_ndrive_id :: "ptr \<Rightarrow> ptr \<Rightarrow> mem \<Rightarrow> mem" where "set_ndrive_id d v m = store64 m (d + 56) v"
definition io_queue :: "ptr \<Rightarrow> ptr" where "io_queue d = d + 8"

text \<open>The registers of the controller.\<close>

definition REG_CAP :: u64 where "REG_CAP = 0"
definition REG_VS :: u64 where "REG_VS = 8"
definition REG_CC :: u64 where "REG_CC = 20"
definition REG_CSTS :: u64 where "REG_CSTS = 28"
definition REG_AQA :: u64 where "REG_AQA = 36"
definition REG_ASQ :: u64 where "REG_ASQ = 40"
definition REG_ACQ :: u64 where "REG_ACQ = 48"

definition reg32 :: "nvme_env \<Rightarrow> u64 \<Rightarrow> 'z hw_scheme \<Rightarrow> u32 \<times> 'z hw_scheme" where
  "reg32 h off s = (let (v, s) = io_read (answers h) (Read32 (ctrl_regs (kmem s) (controller h) + off)) s in (ucast v, s))"

definition reg64 :: "nvme_env \<Rightarrow> u64 \<Rightarrow> 'z hw_scheme \<Rightarrow> u64 \<times> 'z hw_scheme" where
  "reg64 h off s = io_read (answers h) (Read64 (ctrl_regs (kmem s) (controller h) + off)) s"

definition put_reg32 :: "nvme_env \<Rightarrow> u64 \<Rightarrow> u32 \<Rightarrow> 'z hw_scheme \<Rightarrow> 'z hw_scheme" where
  "put_reg32 h off v s = io_write (Write32 (ctrl_regs (kmem s) (controller h) + off) v) s"

definition put_reg64 :: "nvme_env \<Rightarrow> u64 \<Rightarrow> u64 \<Rightarrow> 'z hw_scheme \<Rightarrow> 'z hw_scheme" where
  "put_reg64 h off v s = io_write (Write64 (ctrl_regs (kmem s) (controller h) + off) v) s"

section \<open>Commands\<close>

definition cq_slot :: "mem \<Rightarrow> ptr \<Rightarrow> ptr" where
  "cq_slot m queue = queue_cq m queue + sizeof_cq_entry * ucast (cq_head m queue)"

definition sq_slot :: "mem \<Rightarrow> ptr \<Rightarrow> ptr" where
  "sq_slot m queue = queue_sq m queue + sizeof_sq_entry * ucast (sq_tail m queue)"

text \<open>Each look at the entry that is not yet posted lets the controller go on.\<close>

partial_function (option) wait_posted :: "nvme_env \<Rightarrow> ptr \<Rightarrow> 'z hw_scheme \<Rightarrow> 'z hw_scheme option" where
  "wait_posted h queue s =
     (if status_field (kmem s) (cq_slot (kmem s) queue) AND 1 = 0
      then wait_posted h queue (s\<lparr>kmem := dma h (io_trace s) (kmem s)\<rparr>)
      else Some s)"

definition submit :: "ptr \<Rightarrow> sq_entry \<Rightarrow> 'z hw_scheme \<Rightarrow> 'z hw_scheme" where
  "submit queue command s =
     (let s = on_mem (\<lambda>m. store_sq_entry (sq_slot m queue) command m) s;
          s = io_write (Write32 (sq_tail_dbl (kmem s) queue) ((sq_tail (kmem s) queue + 1) mod 256)) s
      in on_mem (\<lambda>m. set_sq_tail queue ((sq_tail m queue + 1) mod 256) m) s)"

definition complete :: "ptr \<Rightarrow> ptr \<Rightarrow> 'z hw_scheme \<Rightarrow> 'z hw_scheme" where
  "complete queue result s =
     (let e = cq_slot (kmem s) queue;
          s = (if drop_bit 1 (status_field (kmem s) e) \<noteq> 0
               then kprintf KMSG_LOGLEVEL_CRIT ''NVMe command error: status=%x\<newline>'' [ucast (status_field (kmem s) e)] s
               else s);
          s = on_mem (\<lambda>m. set_status_field e (status_field m e AND NOT 1) m) s;
          s = (if result \<noteq> 0 then on_mem (\<lambda>m. memcpy m result (cq_slot m queue) sizeof_cq_entry) s else s);
          s = io_write (Write32 (cq_head_dbl (kmem s) queue) ((cq_head (kmem s) queue + 1) mod 256)) s
      in on_mem (\<lambda>m. set_cq_head queue ((cq_head m queue + 1) mod 256) m) s)"

definition send_cmd_sync ::
  "nvme_env \<Rightarrow> ptr \<Rightarrow> sq_entry \<Rightarrow> ptr \<Rightarrow> 'z hw_scheme \<Rightarrow> 'z hw_scheme option" where
  "send_cmd_sync h queue command result s =
     do { s \<leftarrow> wait_posted h queue (submit queue command s);
          Some (complete queue result s) }"

section \<open>Reading blocks\<close>

definition read_command :: "u32 \<Rightarrow> ptr \<Rightarrow> u64 \<Rightarrow> u64 \<Rightarrow> sq_entry" where
  "read_command ns dst block_count block_offset =
     sq_zero\<lparr>cdw0 := 0x2, nsid := ns, mptr := 0, prp1 := addr_ensure_lower dst,
       cdw10 := ucast (drop_bit 0 block_offset AND 0xffffffff),
       cdw11 := ucast (drop_bit 32 block_offset AND 0xffffffff),
       cdw12 := ucast (block_count - 1)\<rparr>"

definition read_blocks_nvme ::
  "nvme_env \<Rightarrow> ptr \<Rightarrow> u64 \<Rightarrow> u64 \<Rightarrow> ptr \<Rightarrow> 'z hw_scheme \<Rightarrow> 'z hw_scheme option" where
  "read_blocks_nvme h dst block_count block_offset ndrive s =
     send_cmd_sync h (io_queue ndrive)
       (read_command (ndrive_nsid (kmem s) ndrive) dst block_count block_offset) 0 s"

definition read_blocks :: "nvme_env \<Rightarrow> 'z hw_scheme block_reader" where
  "read_blocks h dst block_count block_offset drive s =
     (let ndrive = drive_data (kmem s) drive;
          (cap, s) = reg64 h REG_CAP s;
          max_blocks = 16;
          transfer_count = (block_count + (max_blocks - 1)) div max_blocks
      in for_each (\<lambda>ct s. read_blocks_nvme h
             (dst + of_nat ct * max_blocks * drive_block_size (kmem s) drive)
             (min block_count max_blocks) (block_offset + of_nat ct * max_blocks) ndrive s)
           [0..<unat transfer_count] s)"

text \<open>What the pointer in a drive calls.\<close>

definition nvme_call :: "nvme_env \<Rightarrow> ptr \<Rightarrow> 'z hw_scheme block_reader" where
  "nvme_call h fn = (if fn = read_blocks_fn h then read_blocks h else (\<lambda>_ _ _ _ _. None))"

end
