(* ===== verification/Nvme_Read.thy ===== *)
theory Nvme_Read
  imports Nvme
begin

text \<open>
  Reading through the NVMe driver. A command returns exactly when the controller posts its completion.
  For a controller that follows the protocol of the queues, phase tags included, the driver is a
  \<open>block_device\<close> during the first 256 commands of a queue, and waits for ever at the next.
\<close>

section \<open>Waiting for a completion\<close>

definition posted :: "ptr \<Rightarrow> mem \<Rightarrow> bool" where
  "posted queue m \<longleftrightarrow> status_field m (cq_slot m queue) AND 1 \<noteq> 0"

definition dma_steps :: "nvme_env \<Rightarrow> io list \<Rightarrow> nat \<Rightarrow> mem \<Rightarrow> mem" where
  "dma_steps h t k m = (dma h t ^^ k) m"

lemma dma_steps_simps [simp]:
  "dma_steps h t 0 m = m" "dma_steps h t (Suc k) m = dma_steps h t k (dma h t m)"
  by (simp_all add: dma_steps_def funpow_swap1)

lemma wait_posted_Some:
  assumes "\<And>j. j < k \<Longrightarrow> \<not> posted queue (dma_steps h (io_trace s) j (kmem s))"
    and "posted queue (dma_steps h (io_trace s) k (kmem s))"
  shows "wait_posted h queue s = Some (s\<lparr>kmem := dma_steps h (io_trace s) k (kmem s)\<rparr>)"
  using assms
proof (induction k arbitrary: s)
  case 0
  then show ?case by (subst wait_posted.simps) (simp add: posted_def)
next
  case (Suc k)
  let ?s = "s\<lparr>kmem := dma h (io_trace s) (kmem s)\<rparr>"
  have "wait_posted h queue ?s = Some (?s\<lparr>kmem := dma_steps h (io_trace ?s) k (kmem ?s)\<rparr>)"
    using Suc.prems(2) Suc.prems(1) [of "Suc j" for j] by (intro Suc.IH) auto
  with Suc.prems(1) [of 0] show ?case by (subst wait_posted.simps) (simp add: posted_def)
qed

lemma wait_posted_SomeD:
  assumes "wait_posted h queue s = Some s'"
  shows "\<exists>k. posted queue (dma_steps h (io_trace s) k (kmem s))"
proof (rule wait_posted.raw_induct [where P = "\<lambda>h queue s s'.
    \<exists>k. posted queue (dma_steps h (io_trace s) k (kmem s))", OF _ assms])
  fix wait h queue and s y :: "'a hw_scheme"
  assume IH: "\<And>h queue s (y :: 'a hw_scheme). wait h queue s = Some y \<Longrightarrow>
      \<exists>k. posted queue (dma_steps h (io_trace s) k (kmem s))"
    and step: "(if status_field (kmem s) (cq_slot (kmem s) queue) AND 1 = 0
      then wait h queue (s\<lparr>kmem := dma h (io_trace s) (kmem s)\<rparr>) else Some s) = Some y"
  show "\<exists>k. posted queue (dma_steps h (io_trace s) k (kmem s))"
  proof (cases "posted queue (kmem s)")
    case True
    then have "posted queue (dma_steps h (io_trace s) 0 (kmem s))" by simp
    then show ?thesis ..
  next
    case False
    let ?s = "s\<lparr>kmem := dma h (io_trace s) (kmem s)\<rparr>"
    from False step have "wait h queue ?s = Some y" by (simp add: posted_def)
    from IH [OF this] obtain k where "posted queue (dma_steps h (io_trace s) (Suc k) (kmem s))" by auto
    then show ?thesis ..
  qed
qed

lemma wait_posted_None:
  assumes "\<And>k. \<not> posted queue (dma_steps h (io_trace s) k (kmem s))"
  shows "wait_posted h queue s = None"
  using wait_posted_SomeD [of h queue s] assms by (cases "wait_posted h queue s") auto

section \<open>A controller that follows the protocol\<close>

text \<open>The commands given to a queue so far, counted by the writes to its doorbell.\<close>

definition submitted :: "ptr \<Rightarrow> io list \<Rightarrow> nat" where
  "submitted dbl t = length (filter (\<lambda>a. case a of Write32 p _ \<Rightarrow> p = dbl | _ \<Rightarrow> False) t)"

definition holds_command :: "ptr \<Rightarrow> sq_entry \<Rightarrow> mem \<Rightarrow> bool" where
  "holds_command p c m \<longleftrightarrow> (\<forall>i<8. load64 m (p + of_nat (8 * i)) = sq_words c ! i)"

text \<open>
  The documented behaviour of a controller whose queue has 256 entries at \<open>sqb\<close> and \<open>cqb\<close>: told
  of its next command by the doorbell, a read whose data fits into one page and lies apart from the
  two entries, it takes some steps that touch only the data and the completion entry and do not change
  the phase tag; then the blocks are in place and the entry is posted without an error. The phase tag
  of a posted entry is 1 in the first pass through the queue and inverted in every further one. The
  disk has no end here: a real one answers a block number outside of it with an error. The theorems use
  the behaviour only on the blocks they read and on the history of their run.
\<close>

definition nvme_conforms ::
  "nvme_env \<Rightarrow> u32 \<Rightarrow> nat \<Rightarrow> (u64 \<Rightarrow> nat \<Rightarrow> u8) \<Rightarrow> ptr \<Rightarrow> ptr \<Rightarrow> ptr \<Rightarrow> bool" where
  "nvme_conforms h ns bs disk sqb cqb dbl \<longleftrightarrow> (\<forall>t m dst lba n.
     let c = submitted dbl t; sl = sqb + of_nat (64 * (c mod 256)); e = cqb + of_nat (16 * (c mod 256));
         step = dma_steps h (Write32 dbl (of_nat (Suc c mod 256)) # t);
         tag = (if even (c div 256) then 1 else 0)
     in table_ptr dst \<longrightarrow> 0 < n \<longrightarrow> unat n * bs \<le> 4096 \<longrightarrow>
        region dst 4096 \<inter> (region sl 64 \<union> region e 16) = {} \<longrightarrow> region sl 64 \<inter> region e 16 = {} \<longrightarrow>
        holds_command sl (read_command ns dst n lba) m \<longrightarrow>
        (\<exists>k. (\<forall>j<k. status_field (step j m) e AND 1 = status_field m e AND 1) \<and>
           (\<forall>j\<ge>k. status_field (step j m) e = tag) \<and>
           (\<forall>x<unat n * bs. step k m (dst + of_nat x) = disk (lba + of_nat (x div bs)) (x mod bs)) \<and>
           (\<forall>j a. a \<notin> region dst (unat n * bs) \<longrightarrow> a \<notin> region e 16 \<longrightarrow> step j m a = m a)))"

lemma nvme_conformsD:
  fixes t :: "io list" and m :: mem
  assumes "nvme_conforms h ns bs disk sqb cqb dbl" and c: "submitted dbl t = c"
    and "table_ptr dst" "0 < n" "unat n * bs \<le> 4096"
    and "region dst 4096 \<inter> (region (sqb + of_nat (64 * (c mod 256))) 64 \<union>
           region (cqb + of_nat (16 * (c mod 256))) 16) = {}"
    and "region (sqb + of_nat (64 * (c mod 256))) 64 \<inter> region (cqb + of_nat (16 * (c mod 256))) 16 = {}"
    and "holds_command (sqb + of_nat (64 * (c mod 256))) (read_command ns dst n lba) m"
  defines "e \<equiv> cqb + of_nat (16 * (c mod 256))"
    and "step \<equiv> dma_steps h (Write32 dbl (of_nat (Suc c mod 256)) # t)"
  shows "\<exists>k. (\<forall>j<k. status_field (step j m) e AND 1 = status_field m e AND 1) \<and>
    (\<forall>j\<ge>k. status_field (step j m) e = (if even (c div 256) then 1 else 0)) \<and>
    (\<forall>x<unat n * bs. step k m (dst + of_nat x) = disk (lba + of_nat (x div bs)) (x mod bs)) \<and>
    (\<forall>j a. a \<notin> region dst (unat n * bs) \<longrightarrow> a \<notin> region e 16 \<longrightarrow> step j m a = m a)"
  using assms(1) [unfolded nvme_conforms_def Let_def, THEN spec [of _ t], THEN spec [of _ m],
      THEN spec [of _ dst], THEN spec [of _ lba], THEN spec [of _ n], unfolded c] assms(3-8)
  unfolding e_def step_def by blast

text \<open>A drive after \<open>c\<close> commands, its structures apart from each other.\<close>

definition nvme_state :: "nvme_env \<Rightarrow> (u64 \<Rightarrow> nat \<Rightarrow> u8) \<Rightarrow> ptr \<Rightarrow> nat \<Rightarrow> 'z hw_scheme \<Rightarrow> bool" where
  "nvme_state h disk drive c s \<longleftrightarrow>
     (let m = kmem s; nd = drive_data m drive; q = io_queue nd; bs = unat (drive_block_size m drive)
      in drive_read_blocks m drive = read_blocks_fn h \<and> 512 \<le> bs \<and>
         nvme_conforms h (ndrive_nsid m nd) bs disk (queue_sq m q) (queue_cq m q) (sq_tail_dbl m q) \<and>
         submitted (sq_tail_dbl m q) (io_trace s) = c \<and>
         sq_tail m q = of_nat (c mod 256) \<and> cq_head m q = of_nat (c mod 256) \<and>
         status_field m (cq_slot m q) AND 1 = 0 \<and>
         region nd 64 \<inter> region (queue_sq m q) 16384 = {} \<and> region nd 64 \<inter> region (queue_cq m q) 4096 = {} \<and>
         region (queue_sq m q) 16384 \<inter> region (queue_cq m q) 4096 = {})"

definition nvme_foot :: "nvme_env \<Rightarrow> ptr \<Rightarrow> 'z hw_scheme \<Rightarrow> ptr set" where
  "nvme_foot h drive s =
     (let m = kmem s; nd = drive_data m drive; q = io_queue nd
      in region drive 32 \<union> region nd 64 \<union> region (queue_sq m q) 16384 \<union> region (queue_cq m q) 4096 \<union>
         region (controller h) 8)"

section \<open>Submitting a command\<close>

lemma submitted_simps [simp]:
  "submitted dbl [] = 0"
  "submitted dbl (Read64 p # t) = submitted dbl t"
  "submitted dbl (Write32 p v # t) = (if p = dbl then Suc (submitted dbl t) else submitted dbl t)"
  by (simp_all add: submitted_def)

lemma store_sq_entry_unfold:
  "store_sq_entry p c m =
     store64 (store64 (store64 (store64 (store64 (store64 (store64 (store64 m
       p (sq_words c ! 0)) (p + 8) (sq_words c ! 1)) (p + 16) (sq_words c ! 2)) (p + 24) (sq_words c ! 3))
       (p + 32) (sq_words c ! 4)) (p + 40) (sq_words c ! 5)) (p + 48) (sq_words c ! 6)) (p + 56) (sq_words c ! 7)"
  by (simp add: store_sq_entry_def eval_nat_numeral)

lemma store_sq_entry_holds: "holds_command p c (store_sq_entry p c m)"
  unfolding holds_command_def
proof (intro allI impI)
  fix i :: nat assume "i < 8"
  then have "i \<in> {0, 1, 2, 3, 4, 5, 6, 7}" by auto
  then show "load64 (store_sq_entry p c m) (p + of_nat (8 * i)) = sq_words c ! i"
    unfolding store_sq_entry_unfold by (elim insertE) (simp_all add: load64_store64_other)
qed

lemma store_sq_entry_other: "a \<notin> region p 64 \<Longrightarrow> store_sq_entry p c m a = m a"
  using store64_region [of a p 64 0] store64_region [of a p 64 8] store64_region [of a p 64 16]
    store64_region [of a p 64 24] store64_region [of a p 64 32] store64_region [of a p 64 40]
    store64_region [of a p 64 48] store64_region [of a p 64 56]
  by (simp add: store_sq_entry_unfold)

lemma holds_command_cong:
  assumes "\<And>a. a \<in> region p 64 \<Longrightarrow> m a = m' a"
  shows "holds_command p c m = holds_command p c m'"
proof -
  have "load64 m (p + of_nat (8 * i)) = load64 m' (p + of_nat (8 * i))" if "i < 8" for i
    by (rule load64_region [where n = 64], rule assms) (use that in simp_all)
  then show ?thesis by (simp add: holds_command_def)
qed

lemma status_field_cong:
  assumes "\<And>a. a \<in> region e 16 \<Longrightarrow> m a = m' a"
  shows "status_field m e = status_field m' e"
proof -
  have h: "e + of_nat 14 \<in> region e 16" "e + of_nat 15 \<in> region e 16" by (rule in_region; simp)+
  have "m (e + 14) = m' (e + 14)" "m (e + 14 + 1) = m' (e + 14 + 1)"
    using assms [OF h(1)] assms [OF h(2)] by (simp_all add: add.assoc add.commute [of 15])
  then show ?thesis by (simp add: status_field_def load16_def)
qed

text \<open>The fields of a queue read the same from memories that agree on its drive.\<close>

lemma queue_cong:
  assumes "\<And>a. a \<in> region nd 64 \<Longrightarrow> m a = m' a"
  shows "queue_sq m (io_queue nd) = queue_sq m' (io_queue nd)"
    "queue_cq m (io_queue nd) = queue_cq m' (io_queue nd)"
    "sq_tail_dbl m (io_queue nd) = sq_tail_dbl m' (io_queue nd)"
    "cq_head_dbl m (io_queue nd) = cq_head_dbl m' (io_queue nd)"
    "sq_tail m (io_queue nd) = sq_tail m' (io_queue nd)"
    "cq_head m (io_queue nd) = cq_head m' (io_queue nd)"
    "ndrive_nsid m nd = ndrive_nsid m' nd"
proof -
  have l64: "load64 m (nd + of_nat k) = load64 m' (nd + of_nat k)" if "k + 8 \<le> 64" for k
    by (rule load64_region [where n = 64], rule assms) (use that in simp_all)
  have l32: "load32 m (nd + of_nat k) = load32 m' (nd + of_nat k)" if "k + 4 \<le> 64" for k
    by (rule load32_region [where n = 64], rule assms) (use that in simp_all)
  show "queue_sq m (io_queue nd) = queue_sq m' (io_queue nd)"
    "queue_cq m (io_queue nd) = queue_cq m' (io_queue nd)"
    "sq_tail_dbl m (io_queue nd) = sq_tail_dbl m' (io_queue nd)"
    "cq_head_dbl m (io_queue nd) = cq_head_dbl m' (io_queue nd)"
    "sq_tail m (io_queue nd) = sq_tail m' (io_queue nd)"
    "cq_head m (io_queue nd) = cq_head m' (io_queue nd)"
    "ndrive_nsid m nd = ndrive_nsid m' nd"
    using l64 [of 24] l64 [of 32] l64 [of 40] l64 [of 48] l32 [of 12] l32 [of 16] l32 [of 0]
    by (simp_all add: queue_sq_def queue_cq_def sq_tail_dbl_def cq_head_dbl_def sq_tail_def cq_head_def
        ndrive_nsid_def io_queue_def add.assoc)
qed

lemma set_sq_tail_fields:
  "queue_sq (set_sq_tail q v m) q = queue_sq m q" "queue_cq (set_sq_tail q v m) q = queue_cq m q"
  "sq_tail_dbl (set_sq_tail q v m) q = sq_tail_dbl m q" "cq_head_dbl (set_sq_tail q v m) q = cq_head_dbl m q"
  "cq_head (set_sq_tail q v m) q = cq_head m q" "sq_tail (set_sq_tail q v m) q = v"
proof -
  have other: "store32 m (q + 4) v (q + of_nat k + j) = m (q + of_nat k + j)"
    if "8 \<le> k" "k < 48" "j < 8" for k j
  proof (rule store32_other)
    have "q + of_nat k + j - (q + 4) = of_nat (k + unat j) - of_nat 4" by simp
    moreover have "unat j < 8" using that(3) by (simp add: word_less_nat_alt)
    ultimately have "unat (q + of_nat k + j - (q + 4)) = k + unat j - 4"
      using that by (simp only: unat_sub_if' unat_of_nat_u64) simp
    then show "\<not> q + of_nat k + j - (q + 4) < 4" using that by (simp add: word_less_nat_alt)
  qed
  have l64: "load64 (store32 m (q + 4) v) (q + of_nat k) = load64 m (q + of_nat k)" if "8 \<le> k" "k < 48" for k
    using that other by (intro load64_cong) simp
  have l32: "load32 (store32 m (q + 4) v) (q + of_nat 8) = load32 m (q + of_nat 8)"
    by (intro load32_cong other) (simp_all add: word_less_nat_alt)
  show "queue_sq (set_sq_tail q v m) q = queue_sq m q" "queue_cq (set_sq_tail q v m) q = queue_cq m q"
    "sq_tail_dbl (set_sq_tail q v m) q = sq_tail_dbl m q" "cq_head_dbl (set_sq_tail q v m) q = cq_head_dbl m q"
    "cq_head (set_sq_tail q v m) q = cq_head m q" "sq_tail (set_sq_tail q v m) q = v"
    using l64 [of 16] l64 [of 24] l64 [of 32] l64 [of 40] l32
    by (simp_all add: set_sq_tail_def queue_sq_def queue_cq_def sq_tail_dbl_def cq_head_dbl_def
        cq_head_def sq_tail_def)
qed

lemma ring_index: "ucast (of_nat (c mod 256) :: u32) = (of_nat (c mod 256) :: u64)"
proof -
  have "c mod 256 < 256" by simp
  then show ?thesis by (simp add: u64_eq_iff_unat unat_of_nat)
qed

text \<open>The state after the command is submitted, for a queue of 256 entries.\<close>

lemma submit_spec:
  fixes cmd :: sq_entry
  assumes q: "q = io_queue nd" and tail: "sq_tail (kmem s) q = of_nat (c mod 256)"
    and apart: "region nd 64 \<inter> region (queue_sq (kmem s) q) 16384 = {}"
  defines "sl \<equiv> queue_sq (kmem s) q + of_nat (64 * (c mod 256))" and "s1 \<equiv> submit q cmd s"
  shows "io_trace s1 = Write32 (sq_tail_dbl (kmem s) q) (of_nat (Suc c mod 256)) # io_trace s"
    and "holds_command sl cmd (kmem s1)" and "same_pmm s s1"
    and "\<And>a. a \<notin> region nd 64 \<Longrightarrow> a \<notin> region (queue_sq (kmem s) q) 16384 \<Longrightarrow> kmem s1 a = kmem s a"
    and "queue_cq (kmem s1) q = queue_cq (kmem s) q" "cq_head (kmem s1) q = cq_head (kmem s) q"
    "cq_head_dbl (kmem s1) q = cq_head_dbl (kmem s) q" "sq_tail (kmem s1) q = of_nat (Suc c mod 256)"
    "queue_sq (kmem s1) q = queue_sq (kmem s) q" "sq_tail_dbl (kmem s1) q = sq_tail_dbl (kmem s) q"
    and "klog s1 = klog s"
proof -
  let ?sqb = "queue_sq (kmem s) q" and ?m1 = "store_sq_entry sl cmd (kmem s)"
  have sl: "sq_slot (kmem s) q = sl"
    by (simp add: sq_slot_def sl_def tail sizeof_sq_entry_def ring_index)
  have sub: "region sl 64 \<subseteq> region ?sqb 16384" unfolding sl_def by (rule region_sub) simp_all
  have m1: "?m1 a = kmem s a" if "a \<notin> region ?sqb 16384" for a
    using that sub store_sq_entry_other by blast
  have f: "queue_sq ?m1 q = ?sqb" "queue_cq ?m1 q = queue_cq (kmem s) q"
    "sq_tail_dbl ?m1 q = sq_tail_dbl (kmem s) q" "cq_head_dbl ?m1 q = cq_head_dbl (kmem s) q"
    "sq_tail ?m1 q = sq_tail (kmem s) q" "cq_head ?m1 q = cq_head (kmem s) q"
    unfolding q by (rule queue_cong, use m1 apart in blast)+
  have suc: "((of_nat (c mod 256) :: u32) + 1) mod 256 = of_nat (Suc c mod 256)"
  proof -
    have "unat (of_nat (c mod 256) + 1 :: u32) = c mod 256 + 1" by (simp add: unat_word_ariths unat_of_nat)
    then have "unat ((of_nat (c mod 256) + 1 :: u32) mod 256) = Suc c mod 256"
      by (simp add: unat_mod mod_Suc_eq)
    then show ?thesis by (metis of_nat_unat ucast_id)
  qed
  have s1: "kmem s1 = set_sq_tail q (of_nat (Suc c mod 256)) ?m1"
    "io_trace s1 = Write32 (sq_tail_dbl (kmem s) q) (of_nat (Suc c mod 256)) # io_trace s"
    by (simp_all add: s1_def submit_def Let_def on_mem_def sl f tail suc)
  show "io_trace s1 = Write32 (sq_tail_dbl (kmem s) q) (of_nat (Suc c mod 256)) # io_trace s" by (fact s1(2))
  have out: "set_sq_tail q v m a = m a" if "a \<notin> region nd 64" for a v m
    using store32_region [OF that, of 12] by (simp add: set_sq_tail_def q io_queue_def add.assoc)
  have "a \<notin> region nd 64" if "a \<in> region sl 64" for a using that sub apart by blast
  then have "holds_command sl cmd (kmem s1) = holds_command sl cmd ?m1"
    by (intro holds_command_cong) (simp add: s1 out)
  then show "holds_command sl cmd (kmem s1)" using store_sq_entry_holds by simp
  show "kmem s1 a = kmem s a" if "a \<notin> region nd 64" "a \<notin> region ?sqb 16384" for a
    using that by (simp add: s1 out m1)
  show "queue_cq (kmem s1) q = queue_cq (kmem s) q" "cq_head (kmem s1) q = cq_head (kmem s) q"
    "cq_head_dbl (kmem s1) q = cq_head_dbl (kmem s) q" "sq_tail (kmem s1) q = of_nat (Suc c mod 256)"
    "queue_sq (kmem s1) q = queue_sq (kmem s) q" "sq_tail_dbl (kmem s1) q = sq_tail_dbl (kmem s) q"
    by (simp_all add: s1 set_sq_tail_fields f)
  show "same_pmm s s1" "klog s1 = klog s"
    by (simp_all add: s1_def submit_def Let_def on_mem_def same_pmm_def io_write_def)
qed

section \<open>One read\<close>

lemma read_blocks_one:
  fixes s :: "'z hw_scheme"
  assumes "0 < n" "n \<le> 16"
  obtains s0 where "read_blocks h dst n lba drive s =
      send_cmd_sync h (io_queue (drive_data (kmem s) drive))
        (read_command (ndrive_nsid (kmem s) (drive_data (kmem s) drive)) dst n lba) 0 s0"
    "kmem s0 = kmem s" "same_pmm s s0" "\<exists>p. io_trace s0 = Read64 p # io_trace s" "klog s0 = klog s"
proof -
  have "unat n \<in> {1..16}" using assms by (simp add: word_less_nat_alt word_le_nat_alt)
  then have "unat ((n + 15) div 16) = 1" by (auto simp: unat_div unat_word_ariths intro!: div_nat_eqI)
  moreover have "min n 16 = n" using assms(2) by (simp add: min_def)
  moreover have "for_each f [] = Some" for f :: "nat \<Rightarrow> 'z hw_scheme \<Rightarrow> 'z hw_scheme option"
    by (simp add: fun_eq_iff)
  ultimately show ?thesis
    by (intro that [of "snd (reg64 h REG_CAP s)"])
      (simp_all add: read_blocks_def Let_def reg64_def io_read_def read_blocks_nvme_def same_pmm_def
        io_write_def)
qed

lemma nvme_read_step:
  assumes st: "nvme_state h disk drive c s" and dst: "table_ptr dst" "frame dst \<inter> nvme_foot h drive s = {}"
    and n: "0 < n" "unat n * unat (drive_block_size (kmem s) drive) \<le> 4096"
  defines "nd \<equiv> drive_data (kmem s) drive" and "bs \<equiv> unat (drive_block_size (kmem s) drive)"
  defines "q \<equiv> io_queue nd"
  defines "e \<equiv> queue_cq (kmem s) q + of_nat (16 * (c mod 256))"
  obtains s1 k where
    "read_blocks h dst n lba drive s = Option.bind (wait_posted h q s1) (\<lambda>s. Some (complete q 0 s))"
    "same_pmm s s1" "klog s1 = klog s"
    "\<And>a. a \<notin> nvme_foot h drive s \<Longrightarrow> kmem s1 a = kmem s a"
    "\<And>j. cq_slot (dma_steps h (io_trace s1) j (kmem s1)) q = e"
    "\<And>j. j < k \<Longrightarrow> status_field (dma_steps h (io_trace s1) j (kmem s1)) e AND 1 = 0"
    "\<And>j. k \<le> j \<Longrightarrow>
       status_field (dma_steps h (io_trace s1) j (kmem s1)) e = (if even (c div 256) then 1 else 0)"
    "\<And>x. x < unat n * bs \<Longrightarrow> dma_steps h (io_trace s1) k (kmem s1) (dst + of_nat x) =
       disk (lba + of_nat (x div bs)) (x mod bs)"
    "\<And>j a. a \<notin> region dst (unat n * bs) \<Longrightarrow> a \<notin> region e 16 \<Longrightarrow>
       dma_steps h (io_trace s1) j (kmem s1) a = kmem s1 a"
    "region e 16 \<subseteq> nvme_foot h drive s" "region nd 64 \<subseteq> nvme_foot h drive s"
    "region nd 64 \<inter> region e 16 = {}"
proof -
  let ?m = "kmem s" and ?sqb = "queue_sq (kmem s) q" and ?cqb = "queue_cq (kmem s) q"
  let ?dbl = "sq_tail_dbl (kmem s) q"
  from st have bs: "512 \<le> bs" and conf: "nvme_conforms h (ndrive_nsid ?m nd) bs disk ?sqb ?cqb ?dbl"
    and c: "submitted ?dbl (io_trace s) = c" "sq_tail ?m q = of_nat (c mod 256)" "cq_head ?m q = of_nat (c mod 256)"
    and ph: "status_field ?m (cq_slot ?m q) AND 1 = 0"
    and ap: "region nd 64 \<inter> region ?sqb 16384 = {}" "region nd 64 \<inter> region ?cqb 4096 = {}"
      "region ?sqb 16384 \<inter> region ?cqb 4096 = {}"
    by (simp_all add: nvme_state_def Let_def nd_def q_def bs_def)
  have foot: "region nd 64 \<subseteq> nvme_foot h drive s" "region ?sqb 16384 \<subseteq> nvme_foot h drive s"
    "region ?cqb 4096 \<subseteq> nvme_foot h drive s"
    by (auto simp: nvme_foot_def Let_def nd_def q_def)
  have e: "cq_slot ?m q = e" by (simp add: cq_slot_def e_def c sizeof_cq_entry_def ring_index)
  have esub: "region e 16 \<subseteq> region ?cqb 4096" unfolding e_def by (rule region_sub) simp_all
  let ?sl = "?sqb + of_nat (64 * (c mod 256))"
  have ssub: "region ?sl 64 \<subseteq> region ?sqb 16384" by (rule region_sub) simp_all
  have dfr: "region dst 4096 = frame dst" using frame_region [OF table_ptr_aligned [OF dst(1)]] by simp
  have nbs: "unat n * bs \<le> 4096" using n(2) by (simp add: bs_def)
  have "unat n * 512 \<le> 4096" using nbs bs mult_le_mono2 le_trans by blast
  then have n16: "n \<le> 16" by (simp add: word_le_nat_alt)
  let ?cmd = "read_command (ndrive_nsid ?m nd) dst n lba"
  obtain s0 p where s0: "read_blocks h dst n lba drive s = send_cmd_sync h q ?cmd 0 s0"
    "kmem s0 = ?m" "same_pmm s s0" "io_trace s0 = Read64 p # io_trace s" "klog s0 = klog s"
    using read_blocks_one [OF n(1) n16, of h dst lba drive s] unfolding nd_def q_def by metis
  define s1 where "s1 = submit q ?cmd s0"
  note sb = submit_spec [where q = q and nd = nd and s = s0 and c = c and cmd = ?cmd, folded s1_def, unfolded s0(2,4), OF q_def [THEN meta_eq_to_obj_eq] c(2) ap(1)]
  let ?step = "\<lambda>j. dma_steps h (io_trace s1) j (kmem s1)"
  have disj: "region dst 4096 \<inter> (region ?sl 64 \<union> region e 16) = {}" "region ?sl 64 \<inter> region e 16 = {}"
    using dst(2) ssub esub foot ap(3) unfolding dfr by blast+
  have "submitted ?dbl (Read64 p # io_trace s) = c" using c by simp
  from nvme_conformsD [OF conf this dst(1) n(1) nbs disj [unfolded e_def] sb(2)]
  obtain k where k: "\<forall>j<k. status_field (?step j) e AND 1 = status_field (kmem s1) e AND 1"
    "\<forall>j\<ge>k. status_field (?step j) e = (if even (c div 256) then 1 else 0)"
    "\<forall>x<unat n * bs. ?step k (dst + of_nat x) = disk (lba + of_nat (x div bs)) (x mod bs)"
    "\<forall>j a. a \<notin> region dst (unat n * bs) \<longrightarrow> a \<notin> region e 16 \<longrightarrow> ?step j a = kmem s1 a"
    unfolding e_def sb(1) by blast
  have "status_field (kmem s1) e = status_field ?m e"
    using esub ap(2,3) by (intro status_field_cong sb(4)) blast+
  then have ph1: "status_field (kmem s1) e AND 1 = 0" using ph e by simp
  have dsub: "region dst (unat n * bs) \<subseteq> frame dst" unfolding dfr [symmetric]
    using nbs by (auto simp: region_def)
  have nd: "?step j a = kmem s1 a" if "a \<in> region nd 64" for j a
    using that k(4) dsub dst(2) foot(1) esub ap(2) by blast
  have slot: "cq_slot (?step j) q = e" for j
    using queue_cong(2,6) [of nd "?step j" "kmem s1"] nd sb(5,6) e
    by (simp add: cq_slot_def q_def)
  show ?thesis
  proof (rule that [of s1 k])
    show "read_blocks h dst n lba drive s = Option.bind (wait_posted h q s1) (\<lambda>s. Some (complete q 0 s))"
      by (simp add: s0(1) send_cmd_sync_def s1_def)
    show "same_pmm s s1" using s0(3) sb(3) by (simp add: same_pmm_def)
    show "klog s1 = klog s" using s0(5) sb(11) by simp
    show "kmem s1 a = kmem s a" if "a \<notin> nvme_foot h drive s" for a
      using that foot by (intro sb(4)) auto
    show "region e 16 \<subseteq> nvme_foot h drive s" using esub foot(3) by blast
    show "region nd 64 \<inter> region e 16 = {}" using esub ap(2) by blast
  qed (use k ph1 slot foot(1) in simp_all)
qed

lemma complete_spec:
  assumes "status_field (kmem s) (cq_slot (kmem s) (io_queue nd)) = 1"
  shows "same_pmm s (complete (io_queue nd) 0 s)" and "klog (complete (io_queue nd) 0 s) = klog s"
    and "\<And>a. a \<notin> region nd 64 \<Longrightarrow> a \<notin> region (cq_slot (kmem s) (io_queue nd)) 16 \<Longrightarrow>
      kmem (complete (io_queue nd) 0 s) a = kmem s a"
proof -
  have st: "set_status_field e v m a = m a" if "a \<notin> region e 16" for e v m a
    using store16_region [OF that, of 14] by (simp add: set_status_field_def)
  have hd: "set_cq_head (io_queue nd) v m a = m a" if "a \<notin> region nd 64" for v m a
    using store32_region [OF that, of 16] by (simp add: set_cq_head_def io_queue_def add.assoc)
  show "same_pmm s (complete (io_queue nd) 0 s)" "klog (complete (io_queue nd) 0 s) = klog s"
    "\<And>a. a \<notin> region nd 64 \<Longrightarrow> a \<notin> region (cq_slot (kmem s) (io_queue nd)) 16 \<Longrightarrow>
      kmem (complete (io_queue nd) 0 s) a = kmem s a"
    using assms by (simp_all add: complete_def Let_def on_mem_def same_pmm_def io_write_def st hd)
qed

section \<open>The rings\<close>

lemma load16_store16_same: "load16 (store16 m p v) p = v"
proof -
  have "ucast (ucast v :: u8) OR push_bit 8 (ucast (ucast (drop_bit 8 v) :: u8)) = v"
    by (rule bit_word_eqI) (auto simp: bit_simps)
  then show ?thesis by (simp add: load16_def store16_def)
qed

lemma status_field_set: "status_field (set_status_field e v m) e = v"
  by (simp add: status_field_def set_status_field_def load16_store16_same)

lemma set_cq_head_ring:
  "cq_head (set_cq_head q v m) q = v" "sq_tail (set_cq_head q v m) q = sq_tail m q"
proof -
  have "load32 (store32 m (q + 8) v) (q + 4) = load32 m (q + 4)"
  proof (rule load32_cong, rule store32_other)
    fix k :: u64 assume "k < 4"
    then have "unat (q + 4 + k - (q + 8)) = 18446744073709551612 + unat k"
      by (simp add: word_less_nat_alt unat_sub_if' unat_word_ariths)
    then show "\<not> q + 4 + k - (q + 8) < 4" by (simp add: word_less_nat_alt)
  qed
  then show "cq_head (set_cq_head q v m) q = v" "sq_tail (set_cq_head q v m) q = sq_tail m q"
    by (simp_all add: set_cq_head_def cq_head_def sq_tail_def)
qed

lemma ring_successor: "((of_nat (c mod 256) :: u32) + 1) mod 256 = of_nat (Suc c mod 256)"
proof -
  have "unat (of_nat (c mod 256) + 1 :: u32) = c mod 256 + 1" by (simp add: unat_word_ariths unat_of_nat)
  then have "unat ((of_nat (c mod 256) + 1 :: u32) mod 256) = Suc c mod 256"
    by (simp add: unat_mod mod_Suc_eq)
  then show ?thesis by (metis of_nat_unat ucast_id)
qed

lemma submit_frame:
  assumes "sq_tail (kmem s) (io_queue nd) = of_nat (c mod 256)" and "a \<notin> region nd 64"
    and "a \<notin> region (queue_sq (kmem s) (io_queue nd) + of_nat (64 * (c mod 256))) 64"
  shows "kmem (submit (io_queue nd) cmd s) a = kmem s a"
proof -
  have "set_sq_tail (io_queue nd) v m a = m a" for v m
    using store32_region [OF assms(2), of 12] by (simp add: set_sq_tail_def io_queue_def add.assoc)
  then show ?thesis
    using store_sq_entry_other [OF assms(3)] assms(1)
    by (simp add: submit_def Let_def on_mem_def sq_slot_def sizeof_sq_entry_def ring_index)
qed

text \<open>The state after a completion is taken, for a result that lies apart from the queue.\<close>

lemma complete_ring:
  fixes s :: "'z hw_scheme"
  assumes head: "cq_head (kmem s) (io_queue nd) = of_nat (d mod 256)"
    and e: "e = queue_cq (kmem s) (io_queue nd) + of_nat (16 * (d mod 256))"
    and ap: "region nd 64 \<inter> region e 16 = {}"
    and res: "r = 0 \<or> region r 16 \<inter> region nd 64 = {} \<and> region r 16 \<inter> region e 16 = {}"
  defines "t \<equiv> complete (io_queue nd) r s" and "st \<equiv> status_field (kmem s) e"
  shows "io_trace t = Write32 (cq_head_dbl (kmem s) (io_queue nd)) (of_nat (Suc d mod 256)) # io_trace s"
    and "sq_tail (kmem t) (io_queue nd) = sq_tail (kmem s) (io_queue nd)"
    and "cq_head (kmem t) (io_queue nd) = of_nat (Suc d mod 256)"
    and "status_field (kmem t) e = st AND NOT 1"
    and "r \<noteq> 0 \<Longrightarrow> i < 16 \<Longrightarrow> kmem t (r + of_nat i) = kmem t (e + of_nat i)"
    and "a \<notin> region nd 64 \<Longrightarrow> a \<notin> region e 16 \<Longrightarrow> r = 0 \<or> a \<notin> region r 16 \<Longrightarrow> kmem t a = kmem s a"
    and "klog t = klog s \<longleftrightarrow> drop_bit 1 st = 0"
proof -
  let ?q = "io_queue nd"
  define m1 where "m1 = set_status_field e (st AND NOT 1) (kmem s)"
  define m2 where "m2 = (if r \<noteq> 0 then memcpy m1 r e 16 else m1)"
  have m1: "m1 a = kmem s a" if "a \<notin> region e 16" for a
    using store16_region [OF that, of 14] by (simp add: m1_def set_status_field_def)
  have far: "16 \<le> r - e" if "r \<noteq> 0"
  proof -
    have "r \<in> region r 16" by (simp add: region_def)
    then have "r \<notin> region e 16" using res that by blast
    then show ?thesis by (simp add: region_def word_le_nat_alt)
  qed
  have m2: "m2 a = (if r \<noteq> 0 \<and> a \<in> region r 16 then m1 (e + (a - r)) else m1 a)" for a
    using memcpy_disjoint [of 16 r e m1 a] far by (simp add: m2_def region_def word_less_nat_alt)
  have nd1: "m1 a = kmem s a" if "a \<in> region nd 64" for a
    using m1 ap that by blast
  have nd2: "m2 a = kmem s a" if "a \<in> region nd 64" for a
    using m2 [of a] nd1 [OF that] res that by auto
  note f1 = queue_cong [of nd m1 "kmem s", OF nd1] and f2 = queue_cong [of nd m2 "kmem s", OF nd2]
  have slot: "cq_slot (kmem s) ?q = e" "cq_slot m1 ?q = e"
    by (simp_all add: cq_slot_def f1 head e sizeof_cq_entry_def ring_index)
  have t: "kmem t = set_cq_head ?q (of_nat (Suc d mod 256)) m2"
    "io_trace t = Write32 (cq_head_dbl (kmem s) ?q) (of_nat (Suc d mod 256)) # io_trace s"
    "klog t = klog s \<longleftrightarrow> drop_bit 1 st = 0"
  proof -
    define s1 where "s1 = (if drop_bit 1 st \<noteq> 0
      then kprintf KMSG_LOGLEVEL_CRIT ''NVMe command error: status=%x\<newline>'' [ucast st] s else s)"
    have s1: "kmem s1 = kmem s" "io_trace s1 = io_trace s" "klog s1 = klog s \<longleftrightarrow> drop_bit 1 st = 0"
      by (simp_all add: s1_def kprintf_def)
    have "complete ?q r s = on_mem (\<lambda>m. set_cq_head ?q ((cq_head m ?q + 1) mod 256) m)
        (io_write (Write32 (cq_head_dbl m2 ?q) ((cq_head m2 ?q + 1) mod 256)) (s1\<lparr>kmem := m2\<rparr>))"
    proof -
      have w: "set_status_field e (st AND - 2) (kmem s) = m1" by (simp add: m1_def)
      have k: "kmem (kprintf l x y s) = kmem s" for l x y by (simp add: kprintf_def)
      have "s1 = s" if "drop_bit 1 st = 0" using that by (simp add: s1_def)
      then show ?thesis
        by (cases "drop_bit 1 st = 0")
          (simp_all add: complete_def Let_def slot st_def [symmetric] on_mem_def w k m2_def
            sizeof_cq_entry_def s1_def)
    qed
    then show "kmem t = set_cq_head ?q (of_nat (Suc d mod 256)) m2"
      "io_trace t = Write32 (cq_head_dbl (kmem s) ?q) (of_nat (Suc d mod 256)) # io_trace s"
      "klog t = klog s \<longleftrightarrow> drop_bit 1 st = 0"
      using s1 by (simp_all add: t_def on_mem_def f2 head ring_successor)
  qed
  have out: "kmem t a = m2 a" if "a \<notin> region nd 64" for a
    using store32_region [OF that, of 16] by (simp add: t set_cq_head_def io_queue_def add.assoc)
  show "io_trace t = Write32 (cq_head_dbl (kmem s) ?q) (of_nat (Suc d mod 256)) # io_trace s"
    "klog t = klog s \<longleftrightarrow> drop_bit 1 st = 0" by (fact t)+
  show "sq_tail (kmem t) ?q = sq_tail (kmem s) ?q" "cq_head (kmem t) ?q = of_nat (Suc d mod 256)"
    by (simp_all add: t set_cq_head_ring f2)
  have et: "kmem t a = m1 a" if "a \<in> region e 16" for a
  proof -
    have "a \<notin> region nd 64" using that ap by blast
    moreover have "\<not> (r \<noteq> 0 \<and> a \<in> region r 16)" using that res by blast
    then have "m2 a = m1 a" by (simp only: m2 if_False)
    ultimately show ?thesis using out [of a] by simp
  qed
  have "status_field (kmem t) e = status_field m1 e" by (rule status_field_cong [OF et])
  then show "status_field (kmem t) e = st AND NOT 1" by (simp add: m1_def status_field_set)
  show "kmem t (r + of_nat i) = kmem t (e + of_nat i)" if "r \<noteq> 0" "i < 16"
  proof -
    have h: "r + of_nat i \<in> region r 16" "e + of_nat i \<in> region e 16" by (rule in_region; use that in simp)+
    then have "kmem t (r + of_nat i) = m2 (r + of_nat i)" using that res by (intro out) blast
    then show ?thesis using m2 [of "r + of_nat i"] h that et by simp
  qed
  show "kmem t a = kmem s a" if "a \<notin> region nd 64" "a \<notin> region e 16" "r = 0 \<or> a \<notin> region r 16"
  proof -
    have "\<not> (r \<noteq> 0 \<and> a \<in> region r 16)" using that(3) by blast
    then have "m2 a = m1 a" by (simp only: m2 if_False)
    then show ?thesis using out [OF that(1)] m1 [OF that(2)] by simp
  qed
qed

text \<open>The driver promises what \<^verbatim>\<open>drive_read\<close> asks for.\<close>

definition nvme_ready :: "nvme_env \<Rightarrow> (u64 \<Rightarrow> nat \<Rightarrow> u8) \<Rightarrow> ptr \<Rightarrow> 'z hw_scheme \<Rightarrow> bool" where
  "nvme_ready h disk drive s \<longleftrightarrow> (\<exists>c<256. nvme_state h disk drive c s)"

lemma nvme_read_law:
  assumes rdy: "nvme_ready h disk drive s" and dst: "table_ptr dst" "frame dst \<inter> nvme_foot h drive s = {}"
    and n: "0 < n" "unat n * unat (drive_block_size (kmem s) drive) \<le> 4096"
  shows "\<exists>t. nvme_call h (drive_read_blocks (kmem s) drive) dst n lba drive s = Some t \<and> same_pmm s t \<and>
    (\<forall>x<unat n * unat (drive_block_size (kmem s) drive). kmem t (dst + of_nat x) =
       disk (lba + of_nat (x div unat (drive_block_size (kmem s) drive)))
         (x mod unat (drive_block_size (kmem s) drive))) \<and>
    (\<forall>a. a \<notin> frame dst \<longrightarrow> a \<notin> nvme_foot h drive s \<longrightarrow> kmem t a = kmem s a)"
proof -
  let ?nd = "drive_data (kmem s) drive" and ?bs = "unat (drive_block_size (kmem s) drive)"
  from rdy obtain c where c: "c < 256" and st: "nvme_state h disk drive c s" by (auto simp: nvme_ready_def)
  have fn: "drive_read_blocks (kmem s) drive = read_blocks_fn h" using st by (simp add: nvme_state_def Let_def)
  let ?e = "queue_cq (kmem s) (io_queue ?nd) + of_nat (16 * (c mod 256))"
  obtain s1 k where r:
    "read_blocks h dst n lba drive s = Option.bind (wait_posted h (io_queue ?nd) s1) (\<lambda>s. Some (complete (io_queue ?nd) 0 s))"
    "same_pmm s s1" "\<And>a. a \<notin> nvme_foot h drive s \<Longrightarrow> kmem s1 a = kmem s a"
    "\<And>j. cq_slot (dma_steps h (io_trace s1) j (kmem s1)) (io_queue ?nd) = ?e"
    "\<And>j. j < k \<Longrightarrow> status_field (dma_steps h (io_trace s1) j (kmem s1)) ?e AND 1 = 0"
    "\<And>j. k \<le> j \<Longrightarrow>
       status_field (dma_steps h (io_trace s1) j (kmem s1)) ?e = (if even (c div 256) then 1 else 0)"
    "\<And>x. x < unat n * ?bs \<Longrightarrow> dma_steps h (io_trace s1) k (kmem s1) (dst + of_nat x) =
       disk (lba + of_nat (x div ?bs)) (x mod ?bs)"
    "\<And>j a. a \<notin> region dst (unat n * ?bs) \<Longrightarrow> a \<notin> region ?e 16 \<Longrightarrow>
       dma_steps h (io_trace s1) j (kmem s1) a = kmem s1 a"
    "region ?e 16 \<subseteq> nvme_foot h drive s" "region ?nd 64 \<subseteq> nvme_foot h drive s"
    by (rule nvme_read_step [OF st dst n, of lba]) blast
  let ?s2 = "s1\<lparr>kmem := dma_steps h (io_trace s1) k (kmem s1)\<rparr>"
  have "wait_posted h (io_queue ?nd) s1 = Some ?s2"
    using r(4,5,6) c by (intro wait_posted_Some) (simp_all add: posted_def)
  then have run: "read_blocks h dst n lba drive s = Some (complete (io_queue ?nd) 0 ?s2)" using r(1) by simp
  have "status_field (kmem ?s2) (cq_slot (kmem ?s2) (io_queue ?nd)) = 1" using r(4,6) c by simp
  note co = complete_spec [OF this]
  have frm: "region dst (unat n * ?bs) \<subseteq> frame dst"
    unfolding frame_region [OF table_ptr_aligned [OF dst(1)]] using n(2) by (auto simp: region_def)
  have keep: "kmem (complete (io_queue ?nd) 0 ?s2) a = kmem ?s2 a" if "a \<notin> nvme_foot h drive s" for a
    using that r(4,9,10) by (intro co(3)) auto
  have "dst + of_nat x \<notin> nvme_foot h drive s" if "x < unat n * ?bs" for x
    using dst(2) frm in_region [OF that] n(2) by fastforce
  then have data: "kmem (complete (io_queue ?nd) 0 ?s2) (dst + of_nat x) = disk (lba + of_nat (x div ?bs)) (x mod ?bs)"
    if "x < unat n * ?bs" for x
    using keep r(7) that by simp
  have other: "kmem (complete (io_queue ?nd) 0 ?s2) a = kmem s a"
    if "a \<notin> frame dst" "a \<notin> nvme_foot h drive s" for a
  proof -
    have "a \<notin> region dst (unat n * ?bs)" "a \<notin> region ?e 16" using that frm r(9) by blast+
    then have "dma_steps h (io_trace s1) k (kmem s1) a = kmem s1 a" by (rule r(8))
    then show ?thesis using keep [OF that(2)] r(3) [OF that(2)] by simp
  qed
  have "same_pmm s (complete (io_queue ?nd) 0 ?s2)" using co(1) r(2) by (simp add: same_pmm_def)
  with run data other fn show ?thesis by (simp add: nvme_call_def)
qed

lemma io_trace_more:
  fixes s t :: "'z hw_scheme"
  assumes "pmm.more t = pmm.more s"
  shows "io_trace t = io_trace s"
  using assms by (cases s, cases t, simp)

lemma nvme_ready_cong:
  fixes s t :: "'z hw_scheme"
  assumes rdy: "nvme_ready h disk drive s" and more: "pmm.more t = pmm.more s"
    and m: "\<And>a. a \<in> nvme_foot h drive s \<Longrightarrow> kmem t a = kmem s a"
  shows "nvme_ready h disk drive t" "nvme_foot h drive t = nvme_foot h drive s"
    "drive_block_size (kmem t) drive = drive_block_size (kmem s) drive"
proof -
  let ?nd = "drive_data (kmem s) drive" and ?q = "io_queue (drive_data (kmem s) drive)"
  have d: "load64 (kmem t) (drive + of_nat k) = load64 (kmem s) (drive + of_nat k)" if "k + 8 \<le> 32" for k
    by (rule load64_region [where n = 32]) (use that m in \<open>auto simp: nvme_foot_def Let_def\<close>)
  have f: "drive_data (kmem t) drive = ?nd" "drive_read_blocks (kmem t) drive = drive_read_blocks (kmem s) drive"
    "drive_block_size (kmem t) drive = drive_block_size (kmem s) drive"
    using d [of 24] d [of 8] d [of 0] by (simp_all add: drive_data_def drive_read_blocks_def drive_block_size_def)
  have "kmem t a = kmem s a" if "a \<in> region ?nd 64" for a
    using that m by (simp add: nvme_foot_def Let_def)
  note qc = queue_cong [OF this]
  from rdy obtain c where c: "c < 256" and st: "nvme_state h disk drive c s" by (auto simp: nvme_ready_def)
  have "status_field (kmem t) (cq_slot (kmem s) ?q) = status_field (kmem s) (cq_slot (kmem s) ?q)"
  proof (rule status_field_cong)
    fix a assume a: "a \<in> region (cq_slot (kmem s) ?q) 16"
    have "cq_slot (kmem s) ?q = queue_cq (kmem s) ?q + of_nat (16 * (c mod 256))"
      using st by (simp add: nvme_state_def Let_def cq_slot_def sizeof_cq_entry_def ring_index)
    moreover have "region (queue_cq (kmem s) ?q + of_nat (16 * (c mod 256))) 16 \<subseteq> region (queue_cq (kmem s) ?q) 4096"
      by (rule region_sub) simp_all
    ultimately show "kmem t a = kmem s a" using a m by (auto simp: nvme_foot_def Let_def)
  qed
  moreover have "cq_slot (kmem t) ?q = cq_slot (kmem s) ?q" by (simp add: cq_slot_def qc)
  ultimately have "nvme_state h disk drive c t"
    using st by (simp add: nvme_state_def Let_def f qc io_trace_more [OF more])
  with c show "nvme_ready h disk drive t" by (auto simp: nvme_ready_def)
  show "nvme_foot h drive t = nvme_foot h drive s" by (simp add: nvme_foot_def Let_def f qc)
  show "drive_block_size (kmem t) drive = drive_block_size (kmem s) drive" by (fact f(3))
qed

interpretation nvme: block_device "nvme_call h" "nvme_ready h disk" "nvme_foot h" disk
  for h :: nvme_env and disk :: "u64 \<Rightarrow> nat \<Rightarrow> u8"
proof (unfold_locales, rule nvme_read_law)
  fix drive and s t :: "'z hw_scheme"
  assume "nvme_ready h disk drive s" "pmm.more t = pmm.more s"
    "\<And>a. a \<in> nvme_foot h drive s \<Longrightarrow> kmem t a = kmem s a"
  from nvme_ready_cong [OF this]
  show "nvme_ready h disk drive t \<and> nvme_foot h drive t = nvme_foot h drive s \<and>
    drive_block_size (kmem t) drive = drive_block_size (kmem s) drive" by simp
qed

end
