(* ===== verification/Nvme_Run.thy ===== *)
theory Nvme_Run
  imports Nvme_Read
begin

text \<open>
  What the NVMe driver guarantees: when a command returns, reading bytes of a drive through
  \<^verbatim>\<open>drive_read\<close>, and the wait that never ends at the 257th command of a queue. The example
  controller decodes the command from the memory and carries it out in one step.
\<close>

section \<open>Commands\<close>

text \<open>
  One command and the rings of a queue. \<open>c\<close> and \<open>d\<close> number the entries of the two rings from the
  start, \<open>step k\<close> is what the controller has made of the memory after \<open>k\<close> looks at the queue.
\<close>

lemma send_cmd_sync_ring:
  fixes s :: "'z hw_scheme" and nd :: ptr and c d :: nat and cmd :: sq_entry and h :: nvme_env
  defines "q \<equiv> io_queue nd"
  defines "e \<equiv> queue_cq (kmem s) q + of_nat (16 * (d mod 256))" and "s1 \<equiv> submit q cmd s"
  defines "step \<equiv> \<lambda>k. dma_steps h (io_trace s1) k (kmem s1)"
  assumes tail: "sq_tail (kmem s) q = of_nat (c mod 256)" and head: "cq_head (kmem s) q = of_nat (d mod 256)"
    and ap: "region nd 64 \<inter> region (queue_sq (kmem s) q) 16384 = {}"
      "region nd 64 \<inter> region (queue_cq (kmem s) q) 4096 = {}"
    and res: "r = 0 \<or> region r 16 \<inter> region nd 64 = {} \<and> region r 16 \<inter> region e 16 = {}"
    and ctrl: "\<And>k a. a \<in> region nd 64 \<Longrightarrow> step k a = kmem s1 a"
  shows "case send_cmd_sync h q cmd r s of
      None \<Rightarrow> \<forall>k. status_field (step k) e AND 1 = 0
    | Some t \<Rightarrow> \<exists>k. (\<forall>j<k. status_field (step j) e AND 1 = 0) \<and> status_field (step k) e AND 1 \<noteq> 0 \<and>
        io_trace t = Write32 (cq_head_dbl (kmem s) q) (of_nat (Suc d mod 256)) #
          Write32 (sq_tail_dbl (kmem s) q) (of_nat (Suc c mod 256)) # io_trace s \<and>
        sq_tail (kmem t) q = of_nat (Suc c mod 256) \<and> cq_head (kmem t) q = of_nat (Suc d mod 256) \<and>
        status_field (kmem t) e = status_field (step k) e AND NOT 1 \<and>
        (r \<noteq> 0 \<longrightarrow> (\<forall>i<16. kmem t (r + of_nat i) = kmem t (e + of_nat i))) \<and>
        (\<forall>a. a \<notin> region nd 64 \<longrightarrow> a \<notin> region e 16 \<longrightarrow> r = 0 \<or> a \<notin> region r 16 \<longrightarrow> kmem t a = step k a) \<and>
        (klog t = klog s \<longleftrightarrow> drop_bit 1 (status_field (step k) e) = 0)"
proof -
  note sb = submit_spec [where q = q and nd = nd and s = s and c = c and cmd = cmd, folded s1_def,
      OF q_def [THEN meta_eq_to_obj_eq] tail ap(1)]
  have fields: "queue_cq (step k) q = queue_cq (kmem s) q" "cq_head (step k) q = of_nat (d mod 256)"
    "cq_head_dbl (step k) q = cq_head_dbl (kmem s) q" "sq_tail (step k) q = of_nat (Suc c mod 256)" for k
    using queue_cong [of nd "step k" "kmem s1", OF ctrl] sb(5-8) head unfolding q_def by simp_all
  have slot: "cq_slot (step k) q = e" for k
    by (simp add: cq_slot_def fields e_def sizeof_cq_entry_def ring_index)
  have posted: "posted q (step k) \<longleftrightarrow> status_field (step k) e AND 1 \<noteq> 0" for k
    by (simp add: posted_def slot)
  have sub: "region e 16 \<subseteq> region (queue_cq (kmem s) q) 4096" unfolding e_def by (rule region_sub) simp_all
  then have nde: "region nd 64 \<inter> region e 16 = {}" using ap(2) by blast
  show ?thesis
  proof (cases "\<exists>k. posted q (step k)")
    case False
    then have "wait_posted h q s1 = None" unfolding step_def by (intro wait_posted_None) blast
    then show ?thesis using False posted by (simp add: send_cmd_sync_def s1_def [symmetric])
  next
    case True
    then obtain k where k: "posted q (step k)" "\<forall>j<k. \<not> posted q (step j)"
      unfolding exists_least_iff [of "\<lambda>k. posted q (step k)"] by (elim exE conjE)
    define s2 where "s2 = s1\<lparr>kmem := step k\<rparr>"
    have "wait_posted h q s1 = Some s2"
      unfolding s2_def step_def by (rule wait_posted_Some) (use k in \<open>simp_all add: step_def\<close>)
    then have run: "send_cmd_sync h q cmd r s = Some (complete q r s2)"
      by (simp add: send_cmd_sync_def s1_def [symmetric])
    have s2: "kmem s2 = step k" "io_trace s2 = io_trace s1" "klog s2 = klog s" using sb(11) by (simp_all add: s2_def)
    have h2: "cq_head (kmem s2) (io_queue nd) = of_nat (d mod 256)"
      and e2: "e = queue_cq (kmem s2) (io_queue nd) + of_nat (16 * (d mod 256))"
      using fields [of k] by (simp_all add: s2 e_def q_def)
    note co = complete_ring [OF h2 e2 nde res, folded q_def, unfolded s2]
    show ?thesis
      unfolding run option.case
    proof (rule exI [of _ k], intro conjI)
      show "\<forall>j<k. status_field (step j) e AND 1 = 0" "status_field (step k) e AND 1 \<noteq> 0"
        using k unfolding posted by simp_all
    qed (use co fields sb(1) in simp_all)
  qed
qed

section \<open>An example controller\<close>

text \<open>The drive and its structures lie apart from the memory that the page allocator manages.\<close>

definition ex_drive :: ptr where "ex_drive = 0xffff900000000000"
definition ex_nd :: ptr where "ex_nd = 0xffff900000001000"
definition ex_sq :: ptr where "ex_sq = 0xffff900000004000"
definition ex_cq :: ptr where "ex_cq = 0xffff900000008000"
definition ex_dst :: ptr where "ex_dst = 0xffff90000000a000"
definition ex_dbl :: ptr where "ex_dbl = 0xfebf1008"
definition ex_disk :: "u64 \<Rightarrow> nat \<Rightarrow> u8" where "ex_disk lba i = ucast lba + of_nat i"

definition ex_dma :: "io list \<Rightarrow> mem \<Rightarrow> mem" where
  "ex_dma t m =
     (let c = submitted ex_dbl t - 1; sl = ex_sq + of_nat (64 * (c mod 256)); e = ex_cq + of_nat (16 * (c mod 256));
          dst = addr_ensure_higher (load64 m (sl + 24)); lba = load64 m (sl + 40);
          len = 512 * (unat (load64 m (sl + 48)) + 1)
      in (\<lambda>a. if a = e + 14 then (if even (c div 256) then 1 else 0)
             else if a = e + 15 then 0
             else if unat (a - dst) < len
             then ex_disk (lba + of_nat (unat (a - dst) div 512)) (unat (a - dst) mod 512)
             else m a))"

definition ex_env :: nvme_env where
  "ex_env = \<lparr>answers = (\<lambda>_. 0), dma = ex_dma, controller = 0xffff900000009000, read_blocks_fn = 0xffffffff80010000\<rparr>"

definition ex_mem :: mem where
  "ex_mem = store64 (store64 (store64 (store64 (store64 (store64 (store64 (kmem vm_example)
     ex_drive 512) (ex_drive + 8) 0xffffffff80010000) (ex_drive + 24) ex_nd)
     ex_nd 1) (ex_nd + 24) ex_sq) (ex_nd + 32) ex_cq) (ex_nd + 40) ex_dbl"

definition ex_machine :: "io list \<Rightarrow> hw" where
  "ex_machine t = (vm.extend vm_example (hw.fields t []))\<lparr>kmem := ex_mem\<rparr>"

lemma addr_ensure_higher_lower: "addr_ensure_higher (addr_ensure_lower p) = addr_ensure_higher p"
  unfolding addr_ensure_higher_def addr_ensure_lower_def
  by (rule bit_word_eqI) (auto simp: bit_simps)

lemma read_command_words:
  fixes dst lba n :: u64
  assumes "table_ptr dst" "0 < n" "n \<le> 16"
  shows "addr_ensure_higher (sq_words (read_command ns dst n lba) ! 3) = dst"
    and "sq_words (read_command ns dst n lba) ! 5 = lba"
    and "unat (sq_words (read_command ns dst n lba) ! 6) + 1 = unat n"
proof -
  have "VADDR_HIGHER \<le> dst" using assms(1) by (simp add: table_ptr_def)
  then show "addr_ensure_higher (sq_words (read_command ns dst n lba) ! 3) = dst"
    by (simp add: sq_words_def read_command_def sq_zero_def addr_ensure_higher_lower addr_ensure_higher_high)
  have mask: "(0xffffffff :: u64) = mask 32" by (simp add: mask_eq_exp_minus_1)
  show "sq_words (read_command ns dst n lba) ! 5 = lba"
    unfolding sq_words_def read_command_def sq_zero_def mask
    by simp (rule bit_word_eqI, auto simp: bit_simps)
  have "unat (n - 1) = unat n - 1" using assms(2) by (simp add: unat_sub_if' word_less_nat_alt)
  moreover have "0 < unat n" "unat n \<le> 16" using assms(2,3) by (simp_all add: word_less_nat_alt word_le_nat_alt)
  ultimately show "unat (sq_words (read_command ns dst n lba) ! 6) + 1 = unat n"
    by (simp add: sq_words_def read_command_def sq_zero_def unsigned_ucast_eq take_bit_eq_mod unat_mod)
qed

text \<open>What one step of the controller makes of the memory.\<close>

definition ex_effect :: "nat \<Rightarrow> ptr \<Rightarrow> u64 \<Rightarrow> u64 \<Rightarrow> mem \<Rightarrow> mem" where
  "ex_effect c dst n lba m =
     (\<lambda>a. if a = ex_cq + of_nat (16 * (c mod 256)) + 14 then (if even (c div 256) then 1 else 0)
          else if a = ex_cq + of_nat (16 * (c mod 256)) + 15 then 0
          else if unat (a - dst) < 512 * unat n
          then ex_disk (lba + of_nat (unat (a - dst) div 512)) (unat (a - dst) mod 512)
          else m a)"

lemma ex_effect_idem: "ex_effect c dst n lba (ex_effect c dst n lba m) = ex_effect c dst n lba m"
  by (simp add: ex_effect_def fun_eq_iff)

lemma ex_dma_effect:
  assumes "holds_command (ex_sq + of_nat (64 * (c mod 256))) (read_command ns dst n lba) m"
    and "submitted ex_dbl t = Suc c" and "table_ptr dst" "0 < n" "n \<le> 16"
  shows "ex_dma t m = ex_effect c dst n lba m"
proof -
  let ?sl = "ex_sq + of_nat (64 * (c mod 256))"
  have w: "load64 m (?sl + of_nat (8 * i)) = sq_words (read_command ns dst n lba) ! i" if "i < 8" for i
    using assms(1) that by (simp add: holds_command_def)
  note r = read_command_words [OF assms(3-5)]
  from w [of 3] w [of 5] w [of 6] have "addr_ensure_higher (load64 m (?sl + 24)) = dst"
    "load64 m (?sl + 40) = lba" "unat (load64 m (?sl + 48)) + 1 = unat n"
    by (simp_all add: r [simplified])
  then show ?thesis using assms(2) by (simp add: ex_dma_def ex_effect_def Let_def fun_eq_iff)
qed

lemma ex_effect_other:
  assumes "a \<notin> region dst (512 * unat n)" "a \<notin> region (ex_cq + of_nat (16 * (c mod 256))) 16"
  shows "ex_effect c dst n lba m a = m a"
proof -
  let ?e = "ex_cq + of_nat (16 * (c mod 256))"
  have "?e + of_nat 14 \<in> region ?e 16" "?e + of_nat 15 \<in> region ?e 16" by (rule in_region; simp)+
  then show ?thesis using assms by (auto simp: ex_effect_def region_def)
qed

lemma ex_effect_status:
  "status_field (ex_effect c dst n lba m) (ex_cq + of_nat (16 * (c mod 256))) = (if even (c div 256) then 1 else 0)"
  by (simp add: status_field_def load16_def ex_effect_def add.assoc)

lemma ex_conforms: "nvme_conforms ex_env ns 512 ex_disk ex_sq ex_cq ex_dbl"
  unfolding nvme_conforms_def Let_def
proof (intro allI impI)
  fix t :: "io list" and m dst lba n
  let ?c = "submitted ex_dbl t"
  let ?sl = "ex_sq + of_nat (64 * (?c mod 256))" and ?e = "ex_cq + of_nat (16 * (?c mod 256))"
  let ?t = "Write32 ex_dbl (of_nat (Suc ?c mod 256)) # t"
  assume dst: "table_ptr dst" "0 < n" "unat n * 512 \<le> 4096"
    and apart: "region dst 4096 \<inter> (region ?sl 64 \<union> region ?e 16) = {}" "region ?sl 64 \<inter> region ?e 16 = {}"
    and cmd: "holds_command ?sl (read_command ns dst n lba) m"
  have n16: "n \<le> 16" using dst(3) by (simp add: word_le_nat_alt)
  let ?F = "ex_effect ?c dst n lba"
  have sub: "region dst (512 * unat n) \<subseteq> region dst 4096" using dst(3) by (auto simp: region_def)
  have eff: "ex_dma ?t m' = ?F m'" if "holds_command ?sl (read_command ns dst n lba) m'" for m'
    using that dst(1,2) n16 by (intro ex_dma_effect) simp_all
  have keep: "holds_command ?sl (read_command ns dst n lba) (?F m)"
    using cmd sub apart by (subst holds_command_cong [where m' = m]) (auto intro!: ex_effect_other)
  have fix2: "ex_dma ?t (?F m) = ?F m" using eff [OF keep] by (simp add: ex_effect_idem)
  have "(ex_dma ?t ^^ j) (?F m) = ?F m" for j by (induction j) (simp_all add: fix2)
  then have step: "dma_steps ex_env ?t j m = (if j = 0 then m else ?F m)" for j
    by (cases j) (simp_all add: dma_steps_def ex_env_def funpow_swap1 eff [OF cmd])
  have in_dst: "dst + of_nat x \<notin> region ?e 16 \<and> unat (of_nat x :: u64) = x" if "x < unat n * 512" for x
    using in_region [OF that, of dst] that dst(3) sub apart(1) by (auto simp: unat_of_nat_u64 mult.commute)
  have e14: "?e + of_nat 14 \<in> region ?e 16" "?e + of_nat 15 \<in> region ?e 16" by (rule in_region; simp)+
  show "\<exists>k. (\<forall>j<k. status_field (dma_steps ex_env ?t j m) ?e AND 1 = status_field m ?e AND 1) \<and>
      (\<forall>j\<ge>k. status_field (dma_steps ex_env ?t j m) ?e = (if even (?c div 256) then 1 else 0)) \<and>
      (\<forall>x<unat n * 512. dma_steps ex_env ?t k m (dst + of_nat x) = ex_disk (lba + of_nat (x div 512)) (x mod 512)) \<and>
      (\<forall>j a. a \<notin> region dst (unat n * 512) \<longrightarrow> a \<notin> region ?e 16 \<longrightarrow> dma_steps ex_env ?t j m a = m a)"
  proof (rule exI [of _ 1], intro conjI allI impI)
    fix j :: nat assume "j < 1"
    then show "status_field (dma_steps ex_env ?t j m) ?e AND 1 = status_field m ?e AND 1" by (simp add: step)
  next
    fix j :: nat assume "1 \<le> j"
    then show "status_field (dma_steps ex_env ?t j m) ?e = (if even (?c div 256) then 1 else 0)"
      by (simp add: step ex_effect_status [simplified])
  next
    fix x :: nat assume x: "x < unat n * 512"
    have "dst + of_nat x \<noteq> ?e + 14" "dst + of_nat x \<noteq> ?e + 15" using in_dst [OF x] e14 by auto
    then show "dma_steps ex_env ?t 1 m (dst + of_nat x) = ex_disk (lba + of_nat (x div 512)) (x mod 512)"
      unfolding step using in_dst [OF x] x by (simp add: ex_effect_def mult.commute)
  next
    fix j a assume "a \<notin> region dst (unat n * 512)" "a \<notin> region ?e 16"
    then show "dma_steps ex_env ?t j m a = m a" by (simp add: step ex_effect_other mult.commute)
  qed
qed

section \<open>An example machine\<close>

lemmas ex_addrs = ex_drive_def ex_nd_def ex_sq_def ex_cq_def ex_dst_def ex_dbl_def

text \<open>The addresses of the example are apart from each other and from the managed memory.\<close>

lemma ex_region:
  assumes "a \<in> region (0xffff900000000000 + of_nat k) n" "k + n \<le> 1048576"
  obtains j where "k \<le> j" "j < k + n" "a = 0xffff900000000000 + of_nat j"
proof -
  from region_offset [OF assms(1)] obtain i where "i < n" "a = 0xffff900000000000 + of_nat k + of_nat i" by blast
  then show ?thesis by (intro that [of "k + i"]) simp_all
qed

lemma ex_at_eq: "j < 1048576 \<Longrightarrow> j' < 1048576 \<Longrightarrow>
    0xffff900000000000 + of_nat j = (0xffff900000000000 + of_nat j' :: ptr) \<longleftrightarrow> j = j'"
  unfolding add_left_cancel by (simp add: u64_eq_iff_unat unat_of_nat_u64)

lemma ex_disjoint:
  assumes "k + n \<le> k' \<or> k' + n' \<le> k" "k + n \<le> 1048576" "k' + n' \<le> 1048576"
  shows "region (0xffff900000000000 + of_nat k) n \<inter> region (0xffff900000000000 + of_nat k' :: ptr) n' = {}"
proof -
  have False if a: "a \<in> region (0xffff900000000000 + of_nat k) n" "a \<in> region (0xffff900000000000 + of_nat k') n'" for a
  proof -
    from a(1) assms(2) obtain j where j: "k \<le> j" "j < k + n" "a = 0xffff900000000000 + of_nat j" by (rule ex_region)
    from a(2) assms(3) obtain j' where j': "k' \<le> j'" "j' < k' + n'" "a = 0xffff900000000000 + of_nat j'" by (rule ex_region)
    have "j = j'" using ex_at_eq [of j j'] j j' assms(2,3) by simp
    with j j' assms(1) show False by linarith
  qed
  then show ?thesis by blast
qed

lemma ex_outside:
  assumes "j < 1048576"
  shows "0xffff900000000000 + of_nat j \<notin> window vm_example"
    and "outside_bitmap vm_example (0xffff900000000000 + of_nat j)"
proof -
  have u: "unat (0xffff900000000000 + of_nat j :: ptr) = 18446620928407240704 + j"
    using assms by (simp add: unat_word_ariths unat_of_nat_u64)
  have "page_of (0xffff900000000000 + of_nat j) = (18446620928407240704 + j) mod 140737488355328 div 4096"
    by (simp add: page_of_def unat_addr_ensure_lower u)
  moreover have "(18446620928407240704 + j) mod 140737488355328 = 17592186044416 + j"
    using assms by (simp add: mod_nat_eqI)
  ultimately have "23 < page_of (0xffff900000000000 + of_nat j)" by simp
  then show "0xffff900000000000 + of_nat j \<notin> window vm_example" by (simp add: window_def vm_example_def)
  have "unat (0xffff900000000000 + of_nat j - 0xffff800000000000 :: ptr) = 17592186044416 + j"
    using assms by (simp add: unat_word_ariths unat_of_nat_u64)
  then show "outside_bitmap vm_example (0xffff900000000000 + of_nat j)"
    by (simp add: outside_bitmap_def vm_example_def word_le_nat_alt)
qed

lemma ex_mem_other:
  assumes "a \<notin> region ex_drive 32" "a \<notin> region ex_nd 64"
  shows "ex_mem a = kmem vm_example a"
  using store64_region [OF assms(1), of 0] store64_region [OF assms(1), of 8] store64_region [OF assms(1), of 24]
    store64_region [OF assms(2), of 0] store64_region [OF assms(2), of 24] store64_region [OF assms(2), of 32]
    store64_region [OF assms(2), of 40]
  by (simp add: ex_mem_def)

lemma ex_mem_fields:
  "drive_block_size ex_mem ex_drive = 512" "drive_read_blocks ex_mem ex_drive = 0xffffffff80010000"
  "drive_data ex_mem ex_drive = ex_nd" "queue_sq ex_mem (io_queue ex_nd) = ex_sq"
  "queue_cq ex_mem (io_queue ex_nd) = ex_cq" "sq_tail_dbl ex_mem (io_queue ex_nd) = ex_dbl"
  by (simp_all add: ex_mem_def drive_block_size_def drive_read_blocks_def drive_data_def queue_sq_def queue_cq_def
      sq_tail_dbl_def io_queue_def ex_addrs load64_store64_other)

lemma vm_example_mem_zero: "a \<notin> window vm_example \<Longrightarrow> kmem vm_example a = 0"
  by (auto simp: vm_example_def window_def VADDR_HIGHER_def page_of_def unat_addr_ensure_lower)

lemma ex_mem_zero:
  assumes "j < 1048576" "32 \<le> j" "j < 4096 \<or> 4160 \<le> j"
  shows "ex_mem (0xffff900000000000 + of_nat j) = 0"
proof -
  have "0xffff900000000000 + of_nat j \<notin> region (0xffff900000000000 + of_nat k :: ptr) n"
    if "k + n \<le> j \<or> j < k" "k + n \<le> 1048576" for k n
    using that assms(1) ex_disjoint [of j 1 k n] in_region [of 0 1 "0xffff900000000000 + of_nat j"] by auto
  from this [of 0 32] this [of 4096 64]
  have "ex_mem (0xffff900000000000 + of_nat j) = kmem vm_example (0xffff900000000000 + of_nat j)"
    using assms(2,3) by (intro ex_mem_other) (auto simp: ex_addrs)
  then show ?thesis using ex_outside(1) [OF assms(1)] by (simp add: vm_example_mem_zero)
qed

lemma ex_machine_simps [simp]:
  "kmem (ex_machine t) = ex_mem" "io_trace (ex_machine t) = t" "klog (ex_machine t) = []"
  "page_bitmap (ex_machine t) = page_bitmap vm_example" "total_memory (ex_machine t) = total_memory vm_example"
  by (simp_all add: ex_machine_def vm.defs hw.defs)

lemma ex_mem_window:
  assumes "a \<in> window vm_example \<or> \<not> outside_bitmap vm_example a"
  shows "ex_mem a = kmem vm_example a"
proof -
  have "a \<notin> region (0xffff900000000000 + of_nat k) n" if "k + n \<le> 1048576" for k n
  proof
    assume "a \<in> region (0xffff900000000000 + of_nat k) n"
    from ex_region [OF this that] obtain j where "j < k + n" "a = 0xffff900000000000 + of_nat j" by blast
    then show False using ex_outside [of j] that assms by auto
  qed
  from this [of 0 32] this [of 4096 64] show ?thesis by (intro ex_mem_other) (simp_all add: ex_addrs)
qed

lemma ex_machine_ok:
  "palloc_ok (ex_machine t)" "frames_avail (ex_machine t) = 19"
  "outside_bitmap (ex_machine t) = outside_bitmap vm_example" "window (ex_machine t) = window vm_example"
proof -
  let ?x = "vm.extend vm_example (hw.fields t []) :: hw"
  have out: "outside_bitmap ?x = outside_bitmap vm_example" by (simp add: outside_bitmap_def fun_eq_iff vm.defs)
  have "palloc_ok ?x" using vm_example_palloc_ok by (simp add: extend_simps)
  from write_outside_bitmap [OF this, of ex_mem]
  show "palloc_ok (ex_machine t)" "frames_avail (ex_machine t) = 19"
    using ex_mem_window by (simp_all add: ex_machine_def out extend_simps vm_example_avail)
  show "outside_bitmap (ex_machine t) = outside_bitmap vm_example" "window (ex_machine t) = window vm_example"
    by (simp_all add: outside_bitmap_def window_def fun_eq_iff)
qed

lemma ex_mem_queue:
  "sq_tail ex_mem (io_queue ex_nd) = 0" "cq_head ex_mem (io_queue ex_nd) = 0" "status_field ex_mem ex_cq = 0"
  by (simp_all add: sq_tail_def cq_head_def status_field_def io_queue_def ex_mem_def ex_addrs load32_def load16_def
      store64_def vm_example_def)

lemma ex_machine_state:
  assumes "submitted ex_dbl t = c" "c mod 256 = 0"
  shows "nvme_state ex_env ex_disk ex_drive c (ex_machine t)"
proof -
  have "region ex_nd 64 \<inter> region ex_sq 16384 = {}" "region ex_nd 64 \<inter> region ex_cq 4096 = {}"
    "region ex_sq 16384 \<inter> region ex_cq 4096 = {}"
    using ex_disjoint [of 4096 64 16384 16384] ex_disjoint [of 4096 64 32768 4096]
      ex_disjoint [of 16384 16384 32768 4096] by (simp_all add: ex_addrs)
  moreover have "read_blocks_fn ex_env = 0xffffffff80010000" by (simp add: ex_env_def)
  moreover have "cq_slot ex_mem (io_queue ex_nd) = ex_cq" by (simp add: cq_slot_def ex_mem_fields ex_mem_queue)
  moreover have "unat (512 :: u64) = 512" by simp
  ultimately show ?thesis
    unfolding nvme_state_def Let_def ex_machine_simps ex_mem_fields ex_mem_queue assms
    using ex_conforms ex_mem_queue(3) by (intro conjI) (simp_all only: assms, simp_all)
qed

lemma ex_machine_foot:
  "nvme_foot ex_env ex_drive (ex_machine t) =
    region ex_drive 32 \<union> region ex_nd 64 \<union> region ex_sq 16384 \<union> region ex_cq 4096 \<union> region 0xffff900000009000 8"
  by (simp add: nvme_foot_def Let_def ex_mem_fields) (simp add: ex_env_def)

lemma ex_machine_dst:
  assumes "n \<le> 4096"
  shows "region ex_dst n \<inter> nvme_foot ex_env ex_drive (ex_machine t) = {}"
proof -
  have d: "region ex_dst n \<inter> region (0xffff900000000000 + of_nat k) l = {}" if "k + l \<le> 40960" for k l
    using that assms ex_disjoint [of 40960 n k l] by (simp add: ex_addrs)
  show ?thesis
    unfolding ex_machine_foot Int_Un_distrib
    using d [of 0 32] d [of 4096 64] d [of 16384 16384] d [of 32768 4096] d [of 36864 8]
    by (simp add: ex_drive_def ex_nd_def ex_sq_def ex_cq_def)
qed

lemma ex_machine_settled:
  assumes "A \<subseteq> region 0xffff900000000000 1048576"
  shows "settled (ex_machine t) A"
  unfolding settled_def ex_machine_ok
proof
  fix a assume "a \<in> A"
  then have "a \<in> region (0xffff900000000000 + of_nat 0) 1048576" using assms by auto
  then obtain j where "j < 1048576" "a = 0xffff900000000000 + of_nat j" by (rule ex_region) auto
  then show "outside_bitmap vm_example a \<and> (a \<in> window vm_example \<longrightarrow> page_locked (ex_machine t) (page_of a))"
    using ex_outside [of j] by auto
qed

section \<open>One command\<close>

text \<open>C23: A command sent through a queue whose controller leaves the driver's structures alone, from
  any place in the two rings. The command is stored in the entry at the tail and nothing else but the
  queue's fields is written before the controller sees it. The call returns exactly when the phase bit
  of the entry at the head is set at some look; a bit left over from an earlier pass counts too. Then
  the two doorbells were written once each, first the tail's and then the head's, with the next numbers
  in their ring, which are also the new tail and head; the phase bit of the entry is cleared, the result
  is a copy of that entry, an error is logged exactly when the status is not zero, and all other memory
  is as the controller left it.\<close>

theorem send_cmd_sync_protocol:
  fixes s :: "'z hw_scheme" and nd :: ptr and c d :: nat and cmd :: sq_entry and h :: nvme_env
  defines "q \<equiv> io_queue nd"
  defines "sl \<equiv> queue_sq (kmem s) q + of_nat (64 * (c mod 256))"
    and "e \<equiv> queue_cq (kmem s) q + of_nat (16 * (d mod 256))" and "s1 \<equiv> submit q cmd s"
  defines "step \<equiv> \<lambda>k. dma_steps h (io_trace s1) k (kmem s1)"
  assumes tail: "sq_tail (kmem s) q = of_nat (c mod 256)" and head: "cq_head (kmem s) q = of_nat (d mod 256)"
    and ap: "region nd 64 \<inter> region (queue_sq (kmem s) q) 16384 = {}"
      "region nd 64 \<inter> region (queue_cq (kmem s) q) 4096 = {}"
    and res: "r = 0 \<or> region r 16 \<inter> region nd 64 = {} \<and> region r 16 \<inter> region e 16 = {}"
    and ctrl: "\<And>k a. a \<in> region nd 64 \<Longrightarrow> step k a = kmem s1 a"
  shows "holds_command sl cmd (kmem s1) \<and>
    (\<forall>a. a \<notin> region nd 64 \<longrightarrow> a \<notin> region sl 64 \<longrightarrow> kmem s1 a = kmem s a) \<and>
    (case send_cmd_sync h q cmd r s of
      None \<Rightarrow> \<forall>k. status_field (step k) e AND 1 = 0
    | Some t \<Rightarrow> \<exists>k. (\<forall>j<k. status_field (step j) e AND 1 = 0) \<and> status_field (step k) e AND 1 \<noteq> 0 \<and>
        io_trace t = Write32 (cq_head_dbl (kmem s) q) (of_nat (Suc d mod 256)) #
          Write32 (sq_tail_dbl (kmem s) q) (of_nat (Suc c mod 256)) # io_trace s \<and>
        sq_tail (kmem t) q = of_nat (Suc c mod 256) \<and> cq_head (kmem t) q = of_nat (Suc d mod 256) \<and>
        status_field (kmem t) e = status_field (step k) e AND NOT 1 \<and>
        (r \<noteq> 0 \<longrightarrow> (\<forall>i<16. kmem t (r + of_nat i) = kmem t (e + of_nat i))) \<and>
        (\<forall>a. a \<notin> region nd 64 \<longrightarrow> a \<notin> region e 16 \<longrightarrow> r = 0 \<or> a \<notin> region r 16 \<longrightarrow> kmem t a = step k a) \<and>
        (klog t = klog s \<longleftrightarrow> drop_bit 1 (status_field (step k) e) = 0))"
  using submit_spec(2) [OF refl tail [unfolded q_def] ap(1) [unfolded q_def], of cmd]
    submit_frame [OF tail [unfolded q_def], of _ cmd]
    send_cmd_sync_ring [OF tail [unfolded q_def] head [unfolded q_def] ap [unfolded q_def]
      res [unfolded e_def q_def] ctrl [unfolded step_def s1_def q_def]]
  unfolding sl_def e_def step_def s1_def q_def by blast

text \<open>A controller that posts the first entry at its second look; the result goes to \<open>ex_dst\<close>.\<close>

definition ex_poster :: nvme_env where
  "ex_poster = ex_env\<lparr>dma := (\<lambda>t m. m(ex_cq + 14 := 1))\<rparr>"

lemma ex_poster_steps:
  "dma_steps ex_poster t k m = (if k = 0 then m else m(ex_cq + 14 := 1))"
  by (induction k arbitrary: m) (simp_all add: ex_poster_def)

theorem send_cmd_sync_protocol_witness:
  "\<exists>t. send_cmd_sync ex_poster (io_queue ex_nd) (sq_zero\<lparr>cdw0 := 6\<rparr>) ex_dst (ex_machine []) = Some t \<and>
    io_trace t = [Write32 0 1, Write32 ex_dbl 1] \<and> sq_tail (kmem t) (io_queue ex_nd) = 1 \<and>
    status_field (kmem t) ex_cq = 0 \<and> klog t = []"
proof -
  let ?s = "ex_machine []" and ?q = "io_queue ex_nd" and ?c = "sq_zero\<lparr>cdw0 := 6\<rparr>"
  have ap: "region ex_nd 64 \<inter> region ex_sq 16384 = {}" "region ex_nd 64 \<inter> region ex_cq 4096 = {}"
    "region ex_dst 16 \<inter> region ex_nd 64 = {}" "region ex_dst 16 \<inter> region ex_cq 16 = {}"
    "region ex_sq 64 \<inter> region ex_cq 16 = {}" "region ex_nd 64 \<inter> region ex_cq 16 = {}"
    using ex_disjoint [of 4096 64 16384 16384] ex_disjoint [of 4096 64 32768 4096]
      ex_disjoint [of 40960 16 4096 64] ex_disjoint [of 40960 16 32768 16]
      ex_disjoint [of 16384 64 32768 16] ex_disjoint [of 4096 64 32768 16] by (simp_all add: ex_addrs)
  have q: "queue_sq (kmem ?s) ?q = ex_sq" "queue_cq (kmem ?s) ?q = ex_cq" "sq_tail_dbl (kmem ?s) ?q = ex_dbl"
    "sq_tail (kmem ?s) ?q = of_nat (0 mod 256)" "cq_head (kmem ?s) ?q = of_nat (0 mod 256)"
    "cq_head_dbl (kmem ?s) ?q = 0"
    by (simp_all add: ex_mem_fields ex_mem_queue)
      (simp add: cq_head_dbl_def io_queue_def ex_mem_def ex_addrs load64_def store64_def vm_example_def)
  let ?m = "kmem (submit ?q ?c ?s)"
  have e14: "ex_cq + 14 \<in> region ex_cq 16" using in_region [of 14 16 ex_cq] by simp
  then have nd: "ex_cq + 14 \<notin> region ex_nd 64" using ap(6) by blast
  note th = send_cmd_sync_protocol [where s = ?s and nd = ex_nd and c = 0 and d = 0 and r = ex_dst and
      cmd = ?c and h = ex_poster, unfolded q(1-3,6) ex_poster_steps, OF q(4,5) ap(1,2)]
  have m: "?m a = 0" if "a \<in> region ex_cq 16" for a
  proof -
    have "?m a = kmem ?s a" using submit_frame [OF q(4), of a ?c] that ap(5,6) unfolding q(1) by auto
    moreover from that have "a \<in> region (0xffff900000000000 + of_nat 32768) 16" by (simp add: ex_cq_def)
    then obtain j where "32768 \<le> j" "j < 32768 + 16" "a = 0xffff900000000000 + of_nat j"
      by (rule ex_region) simp_all
    ultimately show ?thesis using ex_mem_zero [of j] by simp
  qed
  have e15: "ex_cq + 15 \<in> region ex_cq 16" using in_region [of 15 16 ex_cq] by simp
  have st: "status_field ?m ex_cq = 0" "status_field (?m(ex_cq + 14 := 1)) ex_cq = 1"
    using m [OF e14] m [OF e15] by (simp_all add: status_field_def load16_def add.assoc)
  have ctrl: "(if k = 0 then ?m else ?m(ex_cq + 14 := 1)) a = ?m a" if "a \<in> region ex_nd 64" for k :: nat and a
    using nd that by auto
  have "ex_dst = 0 \<or> region ex_dst 16 \<inter> region ex_nd 64 = {} \<and>
      region ex_dst 16 \<inter> region (ex_cq + of_nat (16 * (0 mod 256))) 16 = {}"
    using ap(3,4) by simp
  note R = th [OF this ctrl]
  have S: "status_field (if k = 0 then ?m else ?m(ex_cq + 14 := 1)) (ex_cq + of_nat (16 * (0 mod 256))) =
      (if k = 0 then 0 else 1)" for k :: nat
    using st by simp
  show ?thesis
  proof (cases "send_cmd_sync ex_poster ?q ?c ex_dst ?s")
    case None
    from R [unfolded S None option.case, THEN conjunct2, THEN conjunct2, THEN spec [of _ 1]]
    show ?thesis by simp
  next
    case (Some t)
    from R [unfolded S Some option.case, THEN conjunct2, THEN conjunct2] obtain k :: nat where
      k: "(if k = 0 then 0 else 1) AND (1 :: u16) \<noteq> 0"
        "io_trace t = [Write32 0 (of_nat (Suc 0 mod 256)), Write32 ex_dbl (of_nat (Suc 0 mod 256))]"
        "sq_tail (kmem t) ?q = of_nat (Suc 0 mod 256)"
        "status_field (kmem t) (ex_cq + of_nat (16 * (0 mod 256))) = (if k = 0 then 0 else 1) AND NOT 1"
        "klog t = [] \<longleftrightarrow> drop_bit 1 (if k = 0 then 0 else 1 :: u16) = 0"
      unfolding ex_machine_simps by - (erule meta_impE, assumption, elim exE conjE, rule that)
    have "k \<noteq> 0" using k(1) by (cases "k = 0") simp_all
    with k Some show ?thesis by simp
  qed
qed

section \<open>Reading through the driver\<close>

text \<open>C4: Reading bytes of a drive through \<^verbatim>\<open>drive_read\<close> and the NVMe driver. If the controller
  follows the protocol of the queues, fewer than 256 commands were given to the queue so far, the block
  size is a power of two up to a page and the blocks that hold the range fit into a page, then the
  call returns: the destination holds exactly the bytes of the disk from the offset on, the page taken
  for the blocks is given back, and no other memory in use outside the driver's structures changes.\<close>

theorem nvme_drive_read_correct:
  assumes "nvme_ready h disk drive s" and "palloc_ok s" and "0 < frames_avail s"
    and "drive_block_size (kmem s) drive = 2 ^ b" and "b \<le> 12"
    and "0 < len" and "unat offset + unat len < 18446744073709551616"
    and "((unat offset + unat len - 1) div 2 ^ b - unat offset div 2 ^ b + 1) * 2 ^ b \<le> 4096"
    and "settled s (nvme_foot h drive s)" and "settled s (region dst (unat len))"
    and "region dst (unat len) \<inter> nvme_foot h drive s = {}"
  shows "\<exists>t. drive_read (nvme_call h) dst len offset drive s = Some t \<and>
    (\<forall>k<unat len. kmem t (dst + of_nat k) =
       disk (of_nat ((unat offset + k) div 2 ^ b)) ((unat offset + k) mod 2 ^ b)) \<and>
    free_pages t = free_pages s \<and> pmm_inv t \<and>
    (\<forall>a. settled s {a} \<longrightarrow> a \<notin> nvme_foot h drive s \<longrightarrow> a \<notin> region dst (unat len) \<longrightarrow> kmem t a = kmem s a)"
  by (rule nvme.drive_read_ok [OF assms]) blast

theorem nvme_drive_read_correct_witness:
  "\<exists>t. drive_read (nvme_call ex_env) ex_dst 100 1000 ex_drive (ex_machine []) = Some t \<and>
    (\<forall>k<100. kmem t (ex_dst + of_nat k) = ex_disk (of_nat ((1000 + k) div 512)) ((1000 + k) mod 512)) \<and>
    free_pages t = free_pages (ex_machine [])"
proof -
  let ?s = "ex_machine []"
  have rdy: "nvme_ready ex_env ex_disk ex_drive ?s"
    using ex_machine_state [of "[]" 0] by (auto simp: nvme_ready_def intro!: exI [of _ 0])
  have sub: "region (0xffff900000000000 + of_nat k :: ptr) n \<subseteq> region 0xffff900000000000 1048576" if "k + n \<le> 1048576" for k n
    using that by (intro region_sub) simp_all
  have foot: "settled ?s (nvme_foot ex_env ex_drive ?s)" "settled ?s (region ex_dst 100)"
    using sub [of 0 32] sub [of 4096 64] sub [of 16384 16384] sub [of 32768 4096] sub [of 36864 8] sub [of 40960 100]
    unfolding ex_machine_foot by (auto intro!: ex_machine_settled simp: ex_addrs)
  have "drive_block_size (kmem ?s) ex_drive = 2 ^ 9" by (simp add: ex_mem_fields)
  from nvme_drive_read_correct [where len = 100 and offset = 1000 and dst = ex_dst, OF rdy ex_machine_ok(1) _ this]
  show ?thesis using foot ex_machine_dst [of 100] by (auto simp: ex_machine_ok)
qed

section \<open>The phase tag\<close>

text \<open>C22: The driver only ever waits for a phase bit that is set. Once a queue has wrapped around and a
  conforming controller has inverted its phase tag, the driver never sees the completion: reading
  a block for the 257th and up to the 512th command of a queue does not return.\<close>

theorem nvme_wrapped_queue_hangs:
  assumes "nvme_state h disk drive c s" and "odd (c div 256)"
    and "table_ptr dst" and "frame dst \<inter> nvme_foot h drive s = {}"
    and "0 < n" and "unat n * unat (drive_block_size (kmem s) drive) \<le> 4096"
  shows "read_blocks h dst n lba drive s = None"
proof -
  let ?q = "io_queue (drive_data (kmem s) drive)"
  let ?e = "queue_cq (kmem s) ?q + of_nat (16 * (c mod 256))"
  obtain s1 k where r:
    "read_blocks h dst n lba drive s = Option.bind (wait_posted h ?q s1) (\<lambda>s. Some (complete ?q 0 s))"
    "\<And>j. cq_slot (dma_steps h (io_trace s1) j (kmem s1)) ?q = ?e"
    "\<And>j. j < k \<Longrightarrow> status_field (dma_steps h (io_trace s1) j (kmem s1)) ?e AND 1 = 0"
    "\<And>j. k \<le> j \<Longrightarrow>
       status_field (dma_steps h (io_trace s1) j (kmem s1)) ?e = (if even (c div 256) then 1 else 0)"
    by (rule nvme_read_step [OF assms(1,3-6), of lba]) blast
  have "\<not> posted ?q (dma_steps h (io_trace s1) j (kmem s1))" for j
    using r(2-4) [of j] assms(2) by (cases "j < k") (simp_all add: posted_def)
  from wait_posted_None [OF this] show ?thesis by (simp add: r(1))
qed

theorem nvme_wrapped_queue_hangs_witness:
  "read_blocks ex_env ex_dst 1 7 ex_drive (ex_machine (replicate 256 (Write32 ex_dbl 0))) = None"
proof -
  let ?t = "replicate 256 (Write32 ex_dbl 0)"
  have "submitted ex_dbl (replicate n (Write32 ex_dbl 0)) = n" for n
    by (induction n) simp_all
  then have st: "nvme_state ex_env ex_disk ex_drive 256 (ex_machine ?t)" by (intro ex_machine_state) simp_all
  have dst: "table_ptr ex_dst" by (simp add: table_ptr_def page_aligned_def ex_dst_def VADDR_HIGHER_def)
  have "frame ex_dst \<inter> nvme_foot ex_env ex_drive (ex_machine ?t) = {}"
    unfolding frame_region [OF table_ptr_aligned [OF dst]] by (rule ex_machine_dst) simp
  from nvme_wrapped_queue_hangs [OF st _ dst this] show ?thesis by (simp add: ex_mem_fields)
qed

end
