(* ===== verification/Registry.thy ===== *)
theory Registry
  imports Device
begin

text \<open>
  What the tables of devices and of kernel functions hold: every device is found under its own
  number, a device that is registered gets the first free one, and the registration of a kernel
  function never comes back.
\<close>

section \<open>The table of devices\<close>

lemma kprintf_tables [simp]:
  "devices (kprintf l fm args s) = devices s" "kernel_functions (kprintf l fm args s) = kernel_functions s"
  by (simp_all add: kprintf_def log_msg_def)

definition devices_ok :: "'z device_state_scheme \<Rightarrow> bool" where
  "devices_ok s \<longleftrightarrow> (\<forall>i<255. devices s i \<noteq> 0 \<longrightarrow> device_id (kmem s) (devices s i) = i)"

definition registered :: "'z device_state_scheme \<Rightarrow> ptr \<Rightarrow> bool" where
  "registered s d \<longleftrightarrow> (\<exists>i<255. devices s i = d)"

lemma devices_ok_distinct:
  assumes "devices_ok s" "i < 255" "j < 255" "devices s i = devices s j" "devices s i \<noteq> 0"
  shows "i = j"
  using assms unfolding devices_ok_def by metis

lemma of_nat_u8_less: "n < 255 \<Longrightarrow> (of_nat n :: u8) < 255"
  by (simp add: word_less_nat_alt unat_of_nat)

lemma u8_below: "(i :: u8) < 255 \<longleftrightarrow> (\<exists>n<255. i = of_nat n)"
proof
  assume "i < 255"
  then show "\<exists>n<255. i = of_nat n" by (intro exI [of _ "unat i"]) (simp add: word_less_nat_alt)
qed (auto intro: of_nat_u8_less)

text \<open>The search from index 0 on finds the least index that is free.\<close>

lemma find_index_Some:
  assumes "find P (map of_nat [0..<255]) = Some (i :: u8)"
  shows "i < 255" "P i" "\<And>j. j < i \<Longrightarrow> \<not> P j"
proof -
  from assms obtain k where k: "k < 255" "P (of_nat k)" "i = of_nat k" "\<forall>j<k. \<not> P (of_nat j)"
    by (auto simp: find_Some_iff)
  show "i < 255" "P i" using k by (auto intro: of_nat_u8_less)
  show "\<not> P j" if "j < i" for j
  proof -
    have "unat j < k" using that k(1) by (simp add: k(3) word_less_nat_alt unat_of_nat)
    with k(4) show ?thesis by (metis of_nat_unat ucast_id)
  qed
qed

lemma find_index_None: "find P (map of_nat [0..<255]) = None \<longleftrightarrow> (\<forall>i :: u8. i < 255 \<longrightarrow> \<not> P i)"
proof -
  have "i \<in> set (map of_nat [0..<255]) \<longleftrightarrow> i < 255" for i :: u8 by (auto simp: u8_below)
  then show ?thesis unfolding find_None_iff by blast
qed

text \<open>C33: Registering a device that is not registered yet: with a place free the device gets the
  first free number, also in its own structure, the other places stay, and the table keeps its
  invariant, that each device is found under the number it holds; with no place free
  the kernel panics and halts with the table as it was.\<close>

theorem device_register_correct:
  assumes "devices_ok s" and "d \<noteq> 0" and "\<not> registered s d"
  shows "case device_register lit d s of
      Resumes t \<Rightarrow> devices_ok t \<and> (\<exists>i<255. devices s i = 0 \<and> (\<forall>j<i. devices s j \<noteq> 0) \<and>
        devices t = (devices s)(i := d) \<and> device_id (kmem t) d = i \<and>
        (\<forall>a. a \<noteq> d + 2048 \<longrightarrow> kmem t a = kmem s a))
    | Halts t \<Rightarrow> (\<forall>i<255. devices s i \<noteq> 0) \<and> devices t = devices s \<and> kmem t = kmem s"
proof (cases "find (\<lambda>i. devices s i = 0) (map of_nat [0..<255])")
  case None
  moreover from None have "\<forall>i<255. devices s i \<noteq> 0" by (simp only: find_index_None)
  ultimately show ?thesis by (simp add: device_register_def kernel_panic_def)
next
  case (Some i)
  note i = find_index_Some [OF Some]
  have "devices s j \<noteq> d" if "j < 255" for j using assms(3) that by (auto simp: registered_def)
  then show ?thesis
    using i assms(1) by (auto simp: device_register_def Some on_mem_def set_device_id_def devices_ok_def device_id_def)
qed

text \<open>The example has a device in place 0 and a free place behind it.\<close>

definition device_example :: device_state where
  "device_example = partition_state.extend
     (kernel.extend (sched_example\<lparr>kmem := (\<lambda>_. 0)\<rparr>) (partition_state.fields (\<lambda>_. 0)))
     (device_state.fields ((\<lambda>_. 0)(0 := 0xffff810000001000)) (\<lambda>_. 0))"

lemma device_example_simps:
  "devices device_example = (\<lambda>_. 0)(0 := 0xffff810000001000)" "kernel_functions device_example = (\<lambda>_. 0)"
  "kmem device_example = (\<lambda>_. 0)"
  by (simp_all add: device_example_def kernel.defs partition_state.defs device_state.defs)

theorem device_register_correct_witness:
  "case device_register lit_example 0xffff810000003000 device_example of
     Resumes t \<Rightarrow> devices_ok t \<and> device_id (kmem t) 0xffff810000003000 = 1 | Halts t \<Rightarrow> False"
proof -
  have "devices_ok device_example" by (simp add: devices_ok_def device_example_simps device_id_def)
  moreover have "\<not> registered device_example 0xffff810000003000" by (simp add: registered_def device_example_simps)
  ultimately have c: "case device_register lit_example 0xffff810000003000 device_example of
      Resumes t \<Rightarrow> devices_ok t \<and> (\<exists>i<255. devices device_example i = 0 \<and> (\<forall>j<i. devices device_example j \<noteq> 0) \<and>
        devices t = (devices device_example)(i := 0xffff810000003000) \<and> device_id (kmem t) 0xffff810000003000 = i \<and>
        (\<forall>a. a \<noteq> 0xffff810000003000 + 2048 \<longrightarrow> kmem t a = kmem device_example a))
    | Halts t \<Rightarrow> (\<forall>i<255. devices device_example i \<noteq> 0) \<and> devices t = devices device_example \<and>
        kmem t = kmem device_example"
    using device_register_correct [where d = "0xffff810000003000" and s = device_example and lit = lit_example] by simp
  have one: "i = 1" if "devices device_example i = 0" "\<forall>j<i. devices device_example j \<noteq> 0" for i :: u8
  proof (rule ccontr)
    assume "i \<noteq> 1"
    moreover have "i \<noteq> 0" using that(1) by (auto simp: device_example_simps)
    ultimately have "1 < i" by (metis word_less_1 linorder_neqE)
    with that(2) have "devices device_example 1 \<noteq> 0" by blast
    then show False by (simp add: device_example_simps)
  qed
  have "devices device_example 1 = 0" "(1 :: u8) < 255" by (simp_all add: device_example_simps)
  with c one show ?thesis by (auto split: outcome.splits)
qed

section \<open>Kernel functions\<close>

text \<open>C40: Registering a kernel function never returns. Its loop does not stop at the free place it
  finds but puts the function into every free place of the 255, and then the kernel panics in any case.\<close>

theorem kernel_function_register_halts:
  "\<exists>t. kernel_function_register lit f s = Halts t \<and>
    (\<forall>i. kernel_functions t i = (if i < 255 \<and> kernel_functions s i = 0 then f else kernel_functions s i)) \<and>
    kmem t = (kmem s)(f := kmem t f)"
proof -
  let ?step = "\<lambda>code s. if kernel_functions s code = 0
      then on_mem (set_function_code f code) (s\<lparr>kernel_functions := (kernel_functions s)(code := f)\<rparr>)
      else s"
  have run: "(\<forall>i. kernel_functions (fold ?step cs s) i =
        (if i \<in> set cs \<and> kernel_functions s i = 0 then f else kernel_functions s i)) \<and>
      (\<forall>a. a \<noteq> f \<longrightarrow> kmem (fold ?step cs s) a = kmem s a)" for cs and s :: "'z device_state_scheme"
    by (induction cs arbitrary: s) (auto simp: on_mem_def set_function_code_def)
  have "i \<in> set (map of_nat [0..<255]) \<longleftrightarrow> i < 255" for i :: u8 by (auto simp: u8_below)
  with run [of "map of_nat [0..<255]" s] show ?thesis
    by (simp add: kernel_function_register_def Let_def kernel_panic_def fun_eq_iff)
qed

end
