(* ===== verification/Elf_Load.thy ===== *)
theory Elf_Load
  imports Cow
begin

text \<open>
  Loading an ELF image (\<^verbatim>\<open>task_create\<close> of \<^verbatim>\<open>task/task.c\<close>): requesting memory for a range of
  user pages, writing through the translation, and what the segments of the image become.
\<close>

section \<open>Requesting pages that are absent\<close>

text \<open>Memory that no step on the tables of \<open>root\<close> changes.\<close>

definition stable :: "ptr \<Rightarrow> 'z vm_scheme \<Rightarrow> ptr set \<Rightarrow> bool" where
  "stable root s A \<longleftrightarrow>
     (\<forall>a\<in>A. a \<notin> window s \<or> (\<exists>x. frame_owned s x \<and> x \<notin> tabs 3 (kmem s) root \<and> a \<in> frame x))"

lemma stable_evolves:
  assumes "evolves root s t" and "stable root s A"
  shows "stable root t A" and "\<And>a. a \<in> A \<Longrightarrow> kmem t a = kmem s a"
proof -
  have w: "window t = window s" using assms(1) by (intro window_cong) (simp add: evolves_def)
  show "stable root t A"
    unfolding stable_def w using assms(2) data_evolves(1,2) [OF assms(1)] unfolding stable_def by blast
  show "kmem t a = kmem s a" if "a \<in> A" for a
    using assms(2) that data_evolves(3) [OF assms(1)] assms(1) unfolding stable_def evolves_def by blast
qed

text \<open>A page of the task: a data frame of its own that was not in use in \<open>s\<close>.\<close>

definition fresh_page ::
  "'z vm_scheme \<Rightarrow> 'z vm_scheme \<Rightarrow> ptr \<Rightarrow> u8 \<Rightarrow> ptr \<Rightarrow> ptr \<Rightarrow> bool" where
  "fresh_page s t root flags w q \<longleftrightarrow> frame_owned t q \<and> \<not> frame_owned s q \<and> q \<notin> tabs 3 (kmem t) root \<and>
     paging_get t root w = addr_offset_lower q OR ucast flags OR PAGING_PRESENT"

lemma fresh_entry:
  assumes "table_ptr q"
  shows "child_table (addr_offset_lower q OR ucast (flags :: u8) OR PAGING_PRESENT) = q"
proof -
  have "ucast flags OR PAGING_PRESENT = take_bit 12 (ucast flags OR PAGING_PRESENT)"
    unfolding PAGING_PRESENT_def by (rule bit_word_eqI) (auto simp: bit_simps dest: bit_imp_le_length)
  from link_entry(1) [OF assms this] show ?thesis .
qed

lemma fresh_page_maps: "fresh_page s t root flags w q \<Longrightarrow> maps_page t root w q"
  using entry_present [of "addr_offset_lower q" "ucast flags"]
  by (auto simp: fresh_page_def maps_page_def fresh_entry frame_owned_def)

lemma fresh_page_evolves:
  assumes "fresh_page s t root flags w q" and "evolves root t u" and "paging_get u root w = paging_get t root w"
  shows "fresh_page s u root flags w q"
  using assms data_evolves [OF assms(2)] by (auto simp: fresh_page_def)

lemma request_page_evolves:
  assumes ok: "paging_ok s root" and av: "4 \<le> frames_avail s"
    and path: "path_ok (vaddr_to_index (vpage_at v i)) (kmem s) 3 root"
    and absent: "\<not> present (paging_get s root (vpage_at v i))"
  obtains t q where "vmm_request_page root v flags i s = Some t" "evolves root s t"
    "fresh_page s t root flags (vpage_at v i) q" "frames_avail s \<le> frames_avail t + 4"
    "\<And>w. vpage w \<noteq> vpage (vpage_at v i) \<Longrightarrow> paging_get t root w = paging_get s root w"
proof -
  let ?w = "vpage_at v i"
  obtain q s1 where q: "pmm_request_pages s 1 = Some (q, s1)" "page_aligned q" "evolves root s s1"
    "frames_avail s1 = frames_avail s - 1" "\<not> frame_owned s (addr_offset_higher q)"
    "frame_owned s1 (addr_offset_higher q)" "addr_offset_higher q \<notin> tabs 3 (kmem s1) root"
    "\<And>w. paging_get s1 root w = paging_get s root w"
    by (rule request_frame_evolves [OF ok]) (use av in auto)
  have ok1: "paging_ok s1 root" "path_ok (vaddr_to_index ?w) (kmem s1) 3 root" "3 \<le> frames_avail s1"
    using q(3,4) path av by (auto simp: evolves_def path_kept_def)
  obtain t where t: "paging_map s1 root ?w q flags = Some t" "evolves root s1 t"
    "paging_get t root ?w = q OR ucast flags OR PAGING_PRESENT"
    "\<And>w. vpage w \<noteq> vpage ?w \<Longrightarrow> paging_get t root w = paging_get s1 root w"
    "frames_avail s1 \<le> frames_avail t + 3"
    by (rule paging_map_evolves [OF ok1, of q flags]) blast
  show ?thesis
  proof (rule that [of t "addr_offset_higher q"])
    show "vmm_request_page root v flags i s = Some t"
      using absent q(1) t(1) by (simp add: vmm_request_page_def Let_def present_def flip: vpage_at_def)
    show "evolves root s t" by (rule evolves_trans [OF q(3) t(2)])
    show "fresh_page s t root flags ?w (addr_offset_higher q)"
      using data_evolves [OF t(2) q(6,7)] q(5) t(3) by (simp add: fresh_page_def)
    show "frames_avail s \<le> frames_avail t + 4" using q(4) t(5) av by simp
    show "paging_get t root w = paging_get s root w" if "vpage w \<noteq> vpage ?w" for w
      using t(4) [OF that] q(8) by simp
  qed
qed

text \<open>The pages of a range that stays below the limit of virtual addresses are different.\<close>

lemma unat_vpage: "unat (vpage v) = unat v div 4096 mod 68719476736"
  by (simp add: vpage_def unsigned_take_bit_eq unsigned_drop_bit_eq take_bit_eq_mod drop_bit_eq_div
      unat_mod unat_div)

lemma vpage_at_page:
  assumes "unat v + 4096 * i < 281474976710656"
  shows "unat (vpage (vpage_at v i)) = unat v div 4096 + i"
proof -
  have "unat (vpage_at v i) = unat v + 4096 * i"
    using assms by (simp add: vpage_at_def unat_word_ariths unat_of_nat)
  then show ?thesis using assms by (simp add: unat_vpage)
qed

lemma vpage_at_inj:
  assumes "unat v + 4096 * n \<le> 281474976710656" "i < n" "j < n" "vpage (vpage_at v i) = vpage (vpage_at v j)"
  shows "i = j"
proof -
  have "unat v + 4096 * i < 281474976710656" "unat v + 4096 * j < 281474976710656" using assms(1-3) by linarith+
  from this [THEN vpage_at_page] assms(4) show ?thesis by (metis add_left_cancel)
qed

lemma request_range_evolves:
  assumes ok: "paging_ok s root" and av: "4 * unat n \<le> frames_avail s"
    and range: "unat v + 4096 * unat n \<le> 281474976710656"
    and path: "\<And>i. i < unat n \<Longrightarrow> path_ok (vaddr_to_index (vpage_at v i)) (kmem s) 3 root"
    and absent: "\<And>i. i < unat n \<Longrightarrow> \<not> present (paging_get s root (vpage_at v i))"
  obtains t F where "vmm_request_at s root v n flags = Some t" "evolves root s t"
    "frames_avail s \<le> frames_avail t + 4 * unat n"
    "\<And>i. i < unat n \<Longrightarrow> fresh_page s t root flags (vpage_at v i) (F i)" "inj_on F {..<unat n}"
    "\<And>w. (\<And>i. i < unat n \<Longrightarrow> vpage w \<noteq> vpage (vpage_at v i)) \<Longrightarrow> paging_get t root w = paging_get s root w"
proof -
  let ?P = "\<lambda>k t. evolves root s t \<and> frames_avail s \<le> frames_avail t + 4 * k \<and>
    (\<exists>F. (\<forall>i<k. fresh_page s t root flags (vpage_at v i) (F i)) \<and> inj_on F {..<k}) \<and>
    (\<forall>w. (\<forall>i<k. vpage w \<noteq> vpage (vpage_at v i)) \<longrightarrow> paging_get t root w = paging_get s root w)"
  have "\<exists>t. for_each (vmm_request_page root v flags) [0..<unat n] s = Some t \<and> ?P (length [0..<unat n]) t"
  proof (rule for_each_invariant [where P = ?P])
    show "?P 0 s" using ok by (simp add: evolves_def same_on_def path_kept_def)
  next
    fix k and t :: "'a vm_scheme"
    assume "k < length [0..<unat n]" and P: "?P k t"
    then have k: "k < unat n" "[0..<unat n] ! k = k" by simp_all
    from P obtain F where F: "\<And>i. i < k \<Longrightarrow> fresh_page s t root flags (vpage_at v i) (F i)" "inj_on F {..<k}"
      by blast
    have ev: "evolves root s t" and okt: "paging_ok t root" using P by (simp_all add: evolves_def)
    have other: "vpage (vpage_at v i) \<noteq> vpage (vpage_at v k)" if "i < k" for i
      using vpage_at_inj [OF range, of i k] that k(1) by auto
    have "paging_get t root (vpage_at v k) = paging_get s root (vpage_at v k)"
    proof -
      have "\<forall>i<k. vpage (vpage_at v k) \<noteq> vpage (vpage_at v i)" using other by metis
      with P show ?thesis by blast
    qed
    then have ab: "\<not> present (paging_get t root (vpage_at v k))" using absent [OF k(1)] by simp
    have av': "4 \<le> frames_avail t" using P av k(1) by linarith
    have pk: "path_ok (vaddr_to_index (vpage_at v k)) (kmem t) 3 root"
      using ev path [OF k(1)] by (simp add: evolves_def path_kept_def)
    obtain t' q where t': "vmm_request_page root v flags k t = Some t'" "evolves root t t'"
      "fresh_page t t' root flags (vpage_at v k) q" "frames_avail t \<le> frames_avail t' + 4"
      "\<And>w. vpage w \<noteq> vpage (vpage_at v k) \<Longrightarrow> paging_get t' root w = paging_get t root w"
      by (rule request_page_evolves [OF okt av' pk ab, of flags]) blast
    have own: "frame_owned t x" if "frame_owned s x" for x using ev that by (simp add: evolves_def)
    have "fresh_page s t' root flags (vpage_at v i) ((F(k := q)) i)" if "i < Suc k" for i
    proof (cases "i = k")
      case True
      then show ?thesis using t'(3) own by (auto simp: fresh_page_def)
    next
      case False
      then have "i < k" using that by simp
      with fresh_page_evolves [OF F(1) t'(2)] t'(5) other False show ?thesis by simp
    qed
    moreover have "q \<notin> F ` {..<k}" using F(1) t'(3) by (auto simp: fresh_page_def)
    then have "inj_on (F(k := q)) {..<Suc k}"
      using F(2) by (auto simp: inj_on_def lessThan_Suc)
    ultimately have "?P (Suc k) t'"
      using P evolves_trans [OF ev t'(2)] t'(4,5) by (intro conjI exI [of _ "F(k := q)"]) (auto simp: less_Suc_eq)
    with t'(1) k(2) show "\<exists>t'. vmm_request_page root v flags ([0..<unat n] ! k) t = Some t' \<and> ?P (Suc k) t'" by auto
  qed
  then show ?thesis using that unfolding vmm_request_at_def by auto
qed

section \<open>Writing through the translation\<close>

primrec written :: "(nat \<Rightarrow> ptr) \<Rightarrow> (nat \<Rightarrow> u8) \<Rightarrow> nat \<Rightarrow> mem \<Rightarrow> mem" where
  "written T val 0 m = m"
| "written T val (Suc k) m = (written T val k m)(T k := val k)"

lemma written_other: "a \<notin> T ` {..<n} \<Longrightarrow> written T val n m a = m a"
  by (induction n) (auto simp: lessThan_Suc)

lemma written_at:
  assumes "inj_on T {..<n}" "k < n"
  shows "written T val n m (T k) = val k"
  using assms
proof (induction n)
  case (Suc n)
  show ?case
  proof (cases "k = n")
    case False
    then have "T k \<noteq> T n" "k < n" using Suc.prems inj_onD [OF Suc.prems(1), of k n] by auto
    then show ?thesis using Suc.IH inj_on_subset [OF Suc.prems(1), of "{..<n}"] by simp
  qed simp
qed simp

text \<open>Memory of data frames may be written without an effect on the tables.\<close>

definition same_tables :: "ptr \<Rightarrow> 'z vm_scheme \<Rightarrow> 'z vm_scheme \<Rightarrow> bool" where
  "same_tables root s t \<longleftrightarrow> paging_ok t root \<and> frame_owned t = frame_owned s \<and>
     frames_avail t = frames_avail s \<and> tabs 3 (kmem t) root = tabs 3 (kmem s) root \<and>
     path_kept 3 (kmem s) (kmem t) root \<and> (\<forall>w. paging_get t root w = paging_get s root w)"

definition data_place :: "ptr \<Rightarrow> 'z vm_scheme \<Rightarrow> ptr \<Rightarrow> bool" where
  "data_place root s a \<longleftrightarrow> (\<exists>q. frame_owned s q \<and> q \<notin> tabs 3 (kmem s) root \<and> a \<in> frame q)"

lemma same_tables_write:
  assumes same: "same_tables root s t" and a: "data_place root s a"
  shows "same_tables root s (t\<lparr>kmem := (kmem t)(a := b)\<rparr>)"
proof -
  from a obtain q where q: "frame_owned s q" "q \<notin> tabs 3 (kmem s) root" "a \<in> frame q"
    by (auto simp: data_place_def)
  have t: "paging_ok t root" "frame_owned t q" "q \<notin> tabs 3 (kmem t) root"
    using same q by (simp_all add: same_tables_def)
  have "\<forall>x. x \<notin> frame q \<longrightarrow> ((kmem t)(a := b)) x = kmem t x" using q(3) by auto
  note w = write_data_frame [where s = t and root = root and q = q and m = "(kmem t)(a := b)", OF t this]
  show ?thesis using same w by (simp add: same_tables_def path_kept_def)
qed

lemma user_write_range:
  fixes s :: "'z vm_scheme"
  assumes ok: "paging_ok s root" and cr: "addr_ensure_higher (cr3 s) = root"
    and addr: "\<And>k. k < n \<Longrightarrow> user_addr s (v + of_nat k) = Some (T k)"
    and data: "\<And>k. k < n \<Longrightarrow> data_place root s (T k)"
    and val: "\<And>k m. k < n \<Longrightarrow> (\<And>a. a \<notin> T ` {..<n} \<Longrightarrow> m a = kmem s a) \<Longrightarrow>
      f k (s\<lparr>kmem := m\<rparr>) = user_put (v + of_nat k) (val k) (s\<lparr>kmem := m\<rparr>)"
  shows "for_each f [0..<n] s = Some (s\<lparr>kmem := written T val n (kmem s)\<rparr>)"
    and "same_tables root s (s\<lparr>kmem := written T val n (kmem s)\<rparr>)"
proof -
  let ?t = "\<lambda>k. s\<lparr>kmem := written T val k (kmem s)\<rparr>"
  let ?P = "\<lambda>k t. t = ?t k \<and> same_tables root s t"
  have "\<exists>t. for_each f [0..<n] s = Some t \<and> ?P (length [0..<n]) t"
  proof (rule for_each_invariant [where P = ?P])
    show "?P 0 s" using ok by (simp add: same_tables_def path_kept_def)
    fix k t assume "k < length [0..<n]" and P: "?P k t"
    then have k: "k < n" "[0..<n] ! k = k" by simp_all
    have "written T val k (kmem s) a = kmem s a" if "a \<notin> T ` {..<n}" for a
      using that k(1) by (intro written_other) auto
    then have f: "f k t = user_put (v + of_nat k) (val k) t" using val [OF k(1)] P by simp
    have "user_addr t (v + of_nat k) = user_addr s (v + of_nat k)"
    proof -
      have "paging_get t root w = paging_get s root w" for w using P unfolding same_tables_def by blast
      moreover have "cr3 t = cr3 s" using P by simp
      ultimately show ?thesis by (simp add: user_addr_def cr)
    qed
    then have "user_addr t (v + of_nat k) = Some (T k)" using addr [OF k(1)] by simp
    then have "f k t = Some (t\<lparr>kmem := (kmem t)(T k := val k)\<rparr>)"
      unfolding f user_put_def by simp
    then have "f k t = Some (?t (Suc k))" using P by simp
    moreover have "same_tables root s (?t (Suc k))"
    proof -
      have "same_tables root s (t\<lparr>kmem := (kmem t)(T k := val k)\<rparr>)"
        using same_tables_write [OF _ data [OF k(1)], of t "val k"] P by blast
      then show ?thesis using P by simp
    qed
    ultimately show "\<exists>t'. f ([0..<n] ! k) t = Some t' \<and> ?P (Suc k) t'" using k(2) by simp
  qed
  then show "for_each f [0..<n] s = Some (?t n)" "same_tables root s (?t n)" by auto
qed

section \<open>The bytes of a range of pages\<close>

text \<open>The frame behind the byte \<open>k\<close> of a range that starts at \<open>v\<close> and whose pages map \<open>F\<close>.\<close>

definition page_index :: "ptr \<Rightarrow> nat \<Rightarrow> nat" where
  "page_index v k = (unat v mod 4096 + k) div 4096"

definition place :: "ptr \<Rightarrow> (nat \<Rightarrow> ptr) \<Rightarrow> nat \<Rightarrow> ptr" where
  "place v F k = F (page_index v k) + of_nat ((unat v + k) mod 4096)"

lemma range_vpage:
  assumes "unat v + k < 281474976710656"
  shows "vpage (v + of_nat k) = vpage (vpage_at v (page_index v k))"
    and "(v + of_nat k) AND 0xfff = of_nat ((unat v + k) mod 4096)"
proof -
  have u: "unat (v + of_nat k) = unat v + k" using assms by (simp add: unat_word_ariths unat_of_nat)
  have d: "(unat v + k) div 4096 = unat v div 4096 + page_index v k"
    unfolding page_index_def by (metis add.assoc div_mult_mod_eq div_mult_self3 zero_neq_numeral)
  then have d': "(k + unat v) div 4096 = page_index v k + unat v div 4096" by (simp add: add.commute)
  have "4096 * page_index v k \<le> unat v mod 4096 + k" by (simp add: page_index_def)
  then have "unat (vpage_at v (page_index v k)) = unat v + 4096 * page_index v k"
    using assms by (simp add: vpage_at_def unat_word_ariths unat_of_nat)
  then have "unat (vpage (v + of_nat k)) = unat (vpage (vpage_at v (page_index v k)))"
    by (simp add: unat_vpage u d' add.commute)
  then show "vpage (v + of_nat k) = vpage (vpage_at v (page_index v k))" by (simp add: u64_eq_iff_unat)
  have "(unat v + k) mod 4096 < 4096" by simp
  then show "(v + of_nat k) AND 0xfff = of_nat ((unat v + k) mod 4096)"
    unfolding u64_eq_iff_unat unat_and_fff u by (simp add: unat_of_nat)
qed

lemma place_frame:
  assumes "table_ptr (F (page_index v k))"
  shows "place v F k \<in> frame (F (page_index v k))"
proof -
  have "(unat v + k) mod 4096 < 4096" by simp
  then show ?thesis
    unfolding place_def in_frame_iff [OF table_ptr_aligned [OF assms]] by (simp add: unat_of_nat)
qed

lemma place_inj:
  assumes F: "inj_on F {..<N}" "\<And>i. i < N \<Longrightarrow> table_ptr (F i)" and n: "\<And>k. k < n \<Longrightarrow> page_index v k < N"
  shows "inj_on (place v F) {..<n}"
proof (rule inj_onI)
  fix k k' assume k: "k \<in> {..<n}" "k' \<in> {..<n}" and eq: "place v F k = place v F k'"
  then have i: "page_index v k < N" "page_index v k' < N" using n by simp_all
  have "place v F k \<in> frame (F (page_index v k)) \<inter> frame (F (page_index v k'))"
    using place_frame [of F v k] place_frame [of F v k'] F(2) i eq by simp
  then have same: "F (page_index v k) = F (page_index v k')"
    using frame_disjoint [of "F (page_index v k)" "F (page_index v k')"] F(2) i by (auto dest: table_ptr_aligned)
  then have pi: "page_index v k = page_index v k'" using inj_onD [OF F(1)] i by simp
  have "(of_nat ((unat v + k) mod 4096) :: u64) = of_nat ((unat v + k') mod 4096)"
    using eq same by (simp add: place_def)
  moreover have "(unat v + x) mod 4096 < 18446744073709551616" for x
    using mod_less_divisor [of 4096 "unat v + x"] by linarith
  ultimately have "(unat v + k) mod 4096 = (unat v + k') mod 4096"
    by (simp add: u64_eq_iff_unat unat_of_nat_u64)
  moreover have "(unat v mod 4096 + x) mod 4096 = (unat v + x) mod 4096" for x by (simp add: mod_add_left_eq)
  ultimately have "unat v mod 4096 + k = unat v mod 4096 + k'"
    using pi unfolding page_index_def by (metis div_mult_mod_eq)
  then show "k = k'" by simp
qed

text \<open>The bytes of a range are in memory, in data frames of the task, and the task may write to them.\<close>

definition bytes_at :: "ptr \<Rightarrow> ptr \<Rightarrow> nat \<Rightarrow> (nat \<Rightarrow> u8) \<Rightarrow> 'z vm_scheme \<Rightarrow> bool" where
  "bytes_at root v n val t \<longleftrightarrow> (\<forall>k<n. \<exists>a. data_place root t a \<and> user_addr t (v + of_nat k) = Some a \<and>
     kmem t a = val k \<and> paging_get t root (v + of_nat k) AND 7 = 7)"

lemma bytes_at_evolves:
  assumes b: "bytes_at root v n val t" and ev: "evolves root t u" and cr: "addr_ensure_higher (cr3 t) = root"
    and get: "\<And>k. k < n \<Longrightarrow> paging_get u root (v + of_nat k) = paging_get t root (v + of_nat k)"
  shows "bytes_at root v n val u"
  unfolding bytes_at_def
proof (intro allI impI)
  fix k assume k: "k < n"
  then obtain a where a: "data_place root t a" "user_addr t (v + of_nat k) = Some a" "kmem t a = val k"
    "paging_get t root (v + of_nat k) AND 7 = 7" using b unfolding bytes_at_def by blast
  have "cr3 u = cr3 t" using ev by (simp add: evolves_def)
  then have "user_addr u (v + of_nat k) = Some a" using a(2) get [OF k] cr by (simp add: user_addr_def)
  moreover from a(1) obtain q where "frame_owned t q" "q \<notin> tabs 3 (kmem t) root" "a \<in> frame q"
    by (auto simp: data_place_def)
  with data_evolves [OF ev] a(3) have "data_place root u a" "kmem u a = val k" by (auto simp: data_place_def)
  ultimately show "\<exists>a. data_place root u a \<and> user_addr u (v + of_nat k) = Some a \<and> kmem u a = val k \<and>
      paging_get u root (v + of_nat k) AND 7 = 7"
    using a(4) get [OF k] by auto
qed

section \<open>Loading a segment\<close>

lemma evolves_write:
  assumes ok: "paging_ok s root" and ev: "evolves root s t" and same: "same_tables root t (t\<lparr>kmem := m\<rparr>)"
    and m: "\<And>a. m a \<noteq> kmem t a \<Longrightarrow> \<exists>q. frame_owned t q \<and> \<not> frame_owned s q \<and> a \<in> frame q"
  shows "evolves root s (t\<lparr>kmem := m\<rparr>)"
proof -
  have keep: "m a = kmem t a" if "frame_owned s x" "a \<in> frame x" for x a
  proof (rule ccontr)
    assume "m a \<noteq> kmem t a"
    from m [OF this] obtain q where q: "frame_owned t q" "\<not> frame_owned s q" "a \<in> frame q" by blast
    have "table_ptr q" "table_ptr x" using q(1) that(1) by (simp_all add: frame_owned_def)
    then have "x = q" using frame_disjoint [of x q] that(2) q(3) by (auto dest: table_ptr_aligned)
    with q(2) that(1) show False by simp
  qed
  have w: "window t = window s" using ev by (intro window_cong) (simp add: evolves_def)
  have out: "m a = kmem t a" if "a \<notin> window s" for a
    using m [of a] frame_owned_window [of t] w that by blast
  have root: "frame_owned s root" using ok by (auto simp: tables_ok_def)
  then have "entry m root j = entry (kmem t) root j" if "j < 512" for j
    using keep [OF root] that by (intro load64_frame_cong) (auto simp: frame_owned_def table_ptr_def)
  then show ?thesis
    using ev same keep out unfolding evolves_def same_tables_def same_on_def path_kept_def
    by (auto simp: evolves_def)
qed

text \<open>The pages that the code requests for a segment.\<close>

definition segment_pages :: "mem \<Rightarrow> ptr \<Rightarrow> nat" where
  "segment_pages m ph = (unat (p_vaddr m ph) mod 4096 + unat (p_memsz m ph) + 4095) div 4096"

lemma segment_pages_requested:
  assumes "unat (p_vaddr m ph) + unat (p_memsz m ph) \<le> 140737488355328"
  shows "unat (addr_page_align_up (p_memsz m ph + p_vaddr m ph mod 0x1000) div 0x1000) = segment_pages m ph"
proof -
  let ?x = "p_memsz m ph + p_vaddr m ph mod 0x1000"
  have e: "(0x1000 :: u64) = 2 ^ 12" by simp
  have "unat (p_vaddr m ph) mod 4096 < 4096" by simp
  then have x: "unat ?x = unat (p_vaddr m ph) mod 4096 + unat (p_memsz m ph)"
    using assms by (simp add: unat_word_ariths unat_mod)
  have "unat (addr_page_align_up ?x) = (unat ?x + 4095) div 4096 * 4096"
    unfolding addr_page_align_up_def e using addr_align_up_exp [of 12 ?x] x assms by simp
  then show ?thesis by (simp add: unat_div segment_pages_def x)
qed

lemma page_index_less:
  assumes "k < unat (p_memsz m ph)"
  shows "page_index (p_vaddr m ph) k < segment_pages m ph"
  using assms unfolding page_index_def segment_pages_def by (simp add: less_Suc_eq_le div_le_mono Suc_le_eq flip: div_add_self2)

lemma user_entry: "(x OR ucast (ucast (PAGING_USER OR PAGING_WRITABLE) :: u8) OR PAGING_PRESENT) AND 7 = (7 :: u64)"
  by (simp add: PAGING_USER_def PAGING_WRITABLE_def PAGING_PRESENT_def bit.conj_disj_distrib2 or.assoc)

lemma fresh_page_addr:
  assumes fresh: "fresh_page s t root flags (vpage_at v (page_index v k)) (F (page_index v k))"
    and k: "unat v + k < 281474976710656" and cr: "addr_ensure_higher (cr3 t) = root"
  shows "user_addr t (v + of_nat k) = Some (place v F k)" and "data_place root t (place v F k)"
    and "paging_get t root (v + of_nat k) = paging_get t root (vpage_at v (page_index v k))"
proof -
  let ?q = "F (page_index v k)"
  show get: "paging_get t root (v + of_nat k) = paging_get t root (vpage_at v (page_index v k))"
    by (rule paging_get_vpage [OF range_vpage(1) [OF k]])
  show "user_addr t (v + of_nat k) = Some (place v F k)"
    using fresh_page_maps [OF fresh] range_vpage(2) [OF k] get
    by (simp add: user_addr_def Let_def cr maps_page_def present_def place_def)
  have "table_ptr ?q" using fresh by (simp add: fresh_page_def frame_owned_def)
  note place_frame [where F = F and v = v and k = k, OF this]
  then show "data_place root t (place v F k)"
    using fresh by (auto simp: fresh_page_def data_place_def)
qed

lemma phdr_kept:
  assumes A: "\<And>k. k < 56 \<Longrightarrow> p + k \<in> A" and kept: "\<And>a. a \<in> A \<Longrightarrow> m' a = m a"
  shows "p_type m' p = p_type m p" "p_offset m' p = p_offset m p" "p_vaddr m' p = p_vaddr m p"
    "p_filesz m' p = p_filesz m p" "p_memsz m' p = p_memsz m p"
proof -
  have 8: "load64 m' (p + c) = load64 m (p + c)" if "c \<le> 48" for c
  proof (rule load64_cong)
    fix k :: u64 assume "k < 8"
    then have "c + k < 56" using that by (simp add: word_le_nat_alt word_less_nat_alt unat_word_ariths)
    from kept [OF A [OF this]] show "m' (p + c + k) = m (p + c + k)" by (simp add: add.assoc)
  qed
  show "p_offset m' p = p_offset m p" "p_vaddr m' p = p_vaddr m p" "p_filesz m' p = p_filesz m p"
    "p_memsz m' p = p_memsz m p"
    by (simp_all add: p_offset_def p_vaddr_def p_filesz_def p_memsz_def 8)
  show "p_type m' p = p_type m p" using kept A [of 0] A [of 1] A [of 2] A [of 3]
    by (simp add: p_type_def load32_def load16_def)
qed

text \<open>Writing zeros and then a stable source to a range of fresh pages.\<close>

lemma fresh_outside:
  assumes ev: "evolves root s t" and A: "stable root s A" "a \<in> A"
    and q: "frame_owned t q" "\<not> frame_owned s q"
  shows "a \<notin> frame q"
proof
  assume a: "a \<in> frame q"
  have "window t = window s" using ev by (intro window_cong) (simp add: evolves_def)
  then have "a \<in> window s" using frame_owned_window [OF q(1)] a by auto
  then obtain x where x: "frame_owned s x" "a \<in> frame x" using A by (auto simp: stable_def)
  then have "x = q" using frame_disjoint [of x q] a q by (auto simp: frame_owned_def dest: table_ptr_aligned)
  with x q show False by simp
qed

lemma range_written:
  fixes v :: ptr and F :: "nat \<Rightarrow> ptr" and val :: "nat \<Rightarrow> u8" and t :: "'z vm_scheme"
  assumes ok: "paging_ok s root" and ev: "evolves root s t" and cr: "addr_ensure_higher (cr3 t) = root"
    and fresh: "\<And>i. i < N \<Longrightarrow> fresh_page s t root flags (vpage_at v i) (F i)" and inj: "inj_on F {..<N}"
    and pi: "\<And>k. k < n \<Longrightarrow> page_index v k < N" and range: "unat v + n < 281474976710656" and f: "f \<le> n"
  defines "u \<equiv> t\<lparr>kmem := written (place v F) (\<lambda>_. 0) f (kmem t)\<rparr>"
  defines "w \<equiv> u\<lparr>kmem := written (place v F) val n (kmem u)\<rparr>"
  shows "for_each (\<lambda>i. user_put (v + of_nat i) 0) [0..<f] t = Some u"
    and "(\<And>k m. k < n \<Longrightarrow> (\<And>a. a \<notin> place v F ` {..<n} \<Longrightarrow> m a = kmem u a) \<Longrightarrow>
      g k (u\<lparr>kmem := m\<rparr>) = user_put (v + of_nat k) (val k) (u\<lparr>kmem := m\<rparr>)) \<Longrightarrow>
      for_each g [0..<n] u = Some w"
    and "evolves root s w" and "same_tables root t w"
    and "\<And>k. k < n \<Longrightarrow> data_place root w (place v F k) \<and> user_addr w (v + of_nat k) = Some (place v F k) \<and>
      kmem w (place v F k) = val k \<and> paging_get w root (v + of_nat k) = paging_get t root (vpage_at v (page_index v k))"
proof -
  have ok1: "paging_ok t root" using ev by (simp add: evolves_def)
  have tp: "table_ptr (F i)" if "i < N" for i using fresh [OF that] by (simp add: fresh_page_def frame_owned_def)
  have pa: "user_addr t (v + of_nat k) = Some (place v F k)" "data_place root t (place v F k)"
    "paging_get t root (v + of_nat k) = paging_get t root (vpage_at v (page_index v k))" if "k < n" for k
    using fresh_page_addr [where F = F and v = v and k = k, OF fresh [OF pi [OF that]] _ cr] range that
    by simp_all
  show one: "for_each (\<lambda>i. user_put (v + of_nat i) 0) [0..<f] t = Some u"
    unfolding u_def by (rule user_write_range(1) [OF ok1 cr]) (use pa f in simp_all)
  have su: "same_tables root t u"
    unfolding u_def
    by (rule user_write_range(2) [where f = "\<lambda>i. user_put (v + of_nat i) 0", OF ok1 cr]) (use pa f in simp_all)
  have ok2: "paging_ok u root" and cr2: "addr_ensure_higher (cr3 u) = root"
    using su cr by (simp_all add: same_tables_def u_def)
  have pa2: "user_addr u (v + of_nat k) = Some (place v F k)" "data_place root u (place v F k)" if "k < n" for k
    using pa [OF that] su cr cr2 by (simp_all add: user_addr_def data_place_def same_tables_def)
  show "for_each g [0..<n] u = Some w"
    if "\<And>k m. k < n \<Longrightarrow> (\<And>a. a \<notin> place v F ` {..<n} \<Longrightarrow> m a = kmem u a) \<Longrightarrow>
      g k (u\<lparr>kmem := m\<rparr>) = user_put (v + of_nat k) (val k) (u\<lparr>kmem := m\<rparr>)"
    unfolding w_def by (rule user_write_range(1) [OF ok2 cr2 pa2 that])
  have sw: "same_tables root u w"
    unfolding w_def
    by (rule user_write_range(2) [where f = "\<lambda>i. user_put (v + of_nat i) (val i)", OF ok2 cr2 pa2]) simp_all
  show same: "same_tables root t w" using su sw by (simp add: same_tables_def path_kept_def)
  have wt: "w = t\<lparr>kmem := kmem w\<rparr>" by (simp add: w_def u_def)
  have "evolves root s (t\<lparr>kmem := kmem w\<rparr>)"
  proof (rule evolves_write [OF ok ev])
    show "same_tables root t (t\<lparr>kmem := kmem w\<rparr>)" using same by (simp flip: wt)
    fix a assume a: "kmem w a \<noteq> kmem t a"
    have "kmem w a = kmem t a" if "a \<notin> place v F ` {..<n}"
    proof -
      have "a \<notin> place v F ` {..<f}" using that f by auto
      with that show ?thesis by (simp add: w_def u_def written_other)
    qed
    with a obtain k where "k < n" "a = place v F k" by blast
    with place_frame [where F = F and v = v and k = k] fresh [OF pi] tp [OF pi]
    show "\<exists>q. frame_owned t q \<and> \<not> frame_owned s q \<and> a \<in> frame q" by (auto simp: fresh_page_def)
  qed
  then show "evolves root s w" by (simp flip: wt)
  fix k assume k: "k < n"
  have "user_addr w (v + of_nat k) = Some (place v F k)" "data_place root w (place v F k)"
    using pa2 [OF k] sw cr2 by (simp_all add: user_addr_def data_place_def same_tables_def w_def)
  moreover have "kmem w (place v F k) = val k"
    using written_at [OF place_inj [OF inj tp pi] k] by (simp add: w_def)
  moreover have "paging_get w root (v + of_nat k) = paging_get t root (vpage_at v (page_index v k))"
    using same pa(3) [OF k] by (simp add: same_tables_def)
  ultimately show "data_place root w (place v F k) \<and> user_addr w (v + of_nat k) = Some (place v F k) \<and>
      kmem w (place v F k) = val k \<and> paging_get w root (v + of_nat k) = paging_get t root (vpage_at v (page_index v k))"
    by simp
qed

text \<open>One segment: its pages are requested, and its bytes come from the image.\<close>

lemma load_segment_spec:
  fixes s :: "'z vm_scheme" and task hdr ph root :: ptr
  defines "v \<equiv> p_vaddr (kmem s) ph" and "n \<equiv> unat (p_memsz (kmem s) ph)" and "N \<equiv> segment_pages (kmem s) ph"
  assumes ok: "paging_ok s root" and cr: "addr_ensure_higher (cr3 s) = root"
    and vm: "task_vmap (kmem s) task = root" and load: "p_type (kmem s) ph = PT_LOAD"
    and size: "p_filesz (kmem s) ph \<le> p_memsz (kmem s) ph" and range: "unat v + n \<le> 140737488355328"
    and av: "4 * N \<le> frames_avail s"
    and path: "\<And>i. i < N \<Longrightarrow> path_ok (vaddr_to_index (vpage_at v i)) (kmem s) 3 root"
    and absent: "\<And>i. i < N \<Longrightarrow> \<not> present (paging_get s root (vpage_at v i))"
    and A: "stable root s A" and fields: "\<And>k. k < 56 \<Longrightarrow> ph + k \<in> A"
    and image: "\<And>k. k < n \<Longrightarrow> HDR_OFF hdr (p_offset (kmem s) ph) + of_nat k \<in> A"
  obtains t where "load_segment task hdr ph s = Some t" "evolves root s t"
    "frames_avail s \<le> frames_avail t + 4 * N"
    "bytes_at root v n (\<lambda>k. kmem s (HDR_OFF hdr (p_offset (kmem s) ph) + of_nat k)) t"
    "\<And>w. (\<And>i. i < N \<Longrightarrow> vpage w \<noteq> vpage (vpage_at v i)) \<Longrightarrow> paging_get t root w = paging_get s root w"
proof -
  let ?flags = "ucast (PAGING_USER OR PAGING_WRITABLE) :: u8" and ?src = "HDR_OFF hdr (p_offset (kmem s) ph)"
  let ?pages = "addr_page_align_up (p_memsz (kmem s) ph + v mod 0x1000) div 0x1000"
  define f where "f = unat (p_filesz (kmem s) ph)"
  let ?val = "\<lambda>k. kmem s (?src + of_nat k)"
  have N: "unat ?pages = N"
    unfolding N_def v_def by (rule segment_pages_requested) (use range in \<open>simp add: v_def n_def\<close>)
  have "4096 * N \<le> unat v mod 4096 + n + 4095" by (simp add: N_def segment_pages_def v_def n_def)
  then have range': "unat v + 4096 * N \<le> 281474976710656" "unat v + n < 281474976710656"
    using range mod_less_divisor [of 4096 "unat v"] by linarith+
  obtain t F where t: "vmm_request_at s root v ?pages ?flags = Some t" "evolves root s t"
    "frames_avail s \<le> frames_avail t + 4 * N"
    "\<And>i. i < N \<Longrightarrow> fresh_page s t root ?flags (vpage_at v i) (F i)" "inj_on F {..<N}"
    "\<And>w. (\<And>i. i < N \<Longrightarrow> vpage w \<noteq> vpage (vpage_at v i)) \<Longrightarrow> paging_get t root w = paging_get s root w"
    by (rule request_range_evolves [OF ok, of ?pages v ?flags, unfolded N, OF av range'(1) path absent]) blast+
  have cr1: "addr_ensure_higher (cr3 t) = root" using t(2) cr by (simp add: evolves_def)
  have pi: "page_index v k < N" if "k < n" for k using page_index_less that by (simp add: v_def n_def N_def)
  have f: "f \<le> n" using size by (simp add: f_def n_def word_le_nat_alt)
  define u where "u = t\<lparr>kmem := written (place v F) (\<lambda>_. 0) f (kmem t)\<rparr>"
  define w where "w = u\<lparr>kmem := written (place v F) ?val n (kmem u)\<rparr>"
  note zero = range_written(1) [where F = F and v = v and N = N and n = n and f = f,
      OF ok t(2) cr1 t(4,5) pi range'(2) f, folded u_def]
  note r = range_written(2-5) [where F = F and v = v and val = ?val and N = N and n = n and f = f,
      OF ok t(2) cr1 t(4,5) pi range'(2) f, folded u_def, folded w_def]
  have kept: "kmem t a = kmem s a" "kmem u a = kmem s a" "a \<notin> place v F ` {..<n}" if "a \<in> A" for a
  proof -
    show k: "kmem t a = kmem s a" by (rule stable_evolves(2) [OF t(2) A that])
    show out: "a \<notin> place v F ` {..<n}"
      using fresh_outside [OF t(2) A that] t(4) [OF pi] place_frame [where F = F and v = v]
      by (fastforce simp: fresh_page_def frame_owned_def)
    then have "a \<notin> place v F ` {..<f}" using f by auto
    then show "kmem u a = kmem s a" by (simp add: u_def written_other k)
  qed
  note fields_kept = phdr_kept [OF fields kept(1)] phdr_kept [OF fields kept(2)]
  have "user_memcpy v ?src (p_memsz (kmem s) ph) u = Some w"
    unfolding user_memcpy_def n_def [symmetric]
  proof (rule r(1))
    fix k m assume k: "k < n" and m: "\<And>a. a \<notin> place v F ` {..<n} \<Longrightarrow> m a = kmem u a"
    have "m (?src + of_nat k) = ?val k" using m [OF kept(3) [OF image [OF k]]] kept(2) [OF image [OF k]] by simp
    then show "user_put (v + of_nat k) (kmem (u\<lparr>kmem := m\<rparr>) (?src + of_nat k)) (u\<lparr>kmem := m\<rparr>) =
        user_put (v + of_nat k) (?val k) (u\<lparr>kmem := m\<rparr>)"
      by simp
  qed
  then have run: "load_segment task hdr ph s = Some w"
    using t(1) zero load vm fields_kept
    by (simp add: load_segment_def Let_def user_memset_def f_def flip: v_def)
  show ?thesis
  proof (rule that [OF run r(2)])
    show "frames_avail s \<le> frames_avail w + 4 * N" using t(3) r(3) by (simp add: same_tables_def)
    show "paging_get w root x = paging_get s root x" if "\<And>i. i < N \<Longrightarrow> vpage x \<noteq> vpage (vpage_at v i)" for x
      using t(6) [OF that] r(3) by (simp add: same_tables_def)
    show "bytes_at root v n ?val w"
      unfolding bytes_at_def
    proof (intro allI impI)
      fix k assume k: "k < n"
      have "paging_get t root (vpage_at v (page_index v k)) AND 7 = 7"
        using t(4) [OF pi [OF k]] user_entry by (simp add: fresh_page_def)
      with r(4) [OF _ _ k] show "\<exists>a. data_place root w a \<and> user_addr w (v + of_nat k) = Some a \<and>
          kmem w a = ?val k \<and> paging_get w root (v + of_nat k) AND 7 = 7"
        by auto
    qed
  qed
qed

section \<open>Loading all segments\<close>

definition phdr_at :: "ptr \<Rightarrow> nat \<Rightarrow> ptr" where "phdr_at phdrs j = phdrs + sizeof_phdr * of_nat j"

definition load_pages :: "mem \<Rightarrow> ptr \<Rightarrow> u64 set" where
  "load_pages m ph =
     (if p_type m ph = PT_LOAD then (\<lambda>i. vpage (vpage_at (p_vaddr m ph) i)) ` {..<segment_pages m ph} else {})"

definition load_cost :: "mem \<Rightarrow> ptr \<Rightarrow> nat" where
  "load_cost m ph = (if p_type m ph = PT_LOAD then 4 * segment_pages m ph else 0)"

text \<open>What the code relies on when it loads a segment: it does not check it.\<close>

definition segment_ok :: "ptr \<Rightarrow> 'z vm_scheme \<Rightarrow> ptr \<Rightarrow> ptr set \<Rightarrow> ptr \<Rightarrow> bool" where
  "segment_ok root s hdr A ph \<longleftrightarrow> (\<forall>k<56. ph + k \<in> A) \<and> (p_type (kmem s) ph = PT_LOAD \<longrightarrow>
     p_filesz (kmem s) ph \<le> p_memsz (kmem s) ph \<and>
     unat (p_vaddr (kmem s) ph) + unat (p_memsz (kmem s) ph) \<le> 140737488355328 \<and>
     (\<forall>i < segment_pages (kmem s) ph. path_ok (vaddr_to_index (vpage_at (p_vaddr (kmem s) ph) i)) (kmem s) 3 root \<and>
        \<not> present (paging_get s root (vpage_at (p_vaddr (kmem s) ph) i))) \<and>
     (\<forall>k<unat (p_memsz (kmem s) ph). HDR_OFF hdr (p_offset (kmem s) ph) + of_nat k \<in> A))"

definition loaded :: "ptr \<Rightarrow> mem \<Rightarrow> ptr \<Rightarrow> ptr \<Rightarrow> 'z vm_scheme \<Rightarrow> bool" where
  "loaded root m hdr ph t \<longleftrightarrow> (p_type m ph = PT_LOAD \<longrightarrow> bytes_at root (p_vaddr m ph) (unat (p_memsz m ph))
     (\<lambda>k. m (HDR_OFF hdr (p_offset m ph) + of_nat k)) t)"

definition image_ok :: "ptr \<Rightarrow> 'z vm_scheme \<Rightarrow> ptr \<Rightarrow> ptr \<Rightarrow> ptr \<Rightarrow> ptr set \<Rightarrow> bool" where
  "image_ok root s task hdr phdrs A \<longleftrightarrow> paging_ok s root \<and> addr_ensure_higher (cr3 s) = root \<and>
     task_vmap (kmem s) task = root \<and> stable root s A \<and> (\<forall>k<8. task + 152 + k \<in> A) \<and>
     hdr + 56 \<in> A \<and> hdr + 57 \<in> A \<and>
     (\<forall>j<unat (e_phnum (kmem s) hdr). segment_ok root s hdr A (phdr_at phdrs j)) \<and>
     (\<forall>i<unat (e_phnum (kmem s) hdr). \<forall>j<i.
        load_pages (kmem s) (phdr_at phdrs i) \<inter> load_pages (kmem s) (phdr_at phdrs j) = {}) \<and>
     (\<Sum>j<unat (e_phnum (kmem s) hdr). load_cost (kmem s) (phdr_at phdrs j)) \<le> frames_avail s"

text \<open>The state when the first \<open>k\<close> segments are loaded.\<close>

definition loading :: "ptr \<Rightarrow> 'z vm_scheme \<Rightarrow> ptr \<Rightarrow> ptr \<Rightarrow> nat \<Rightarrow> 'z vm_scheme \<Rightarrow> bool" where
  "loading root s hdr phdrs k t \<longleftrightarrow> evolves root s t \<and>
     frames_avail s \<le> frames_avail t + (\<Sum>j<k. load_cost (kmem s) (phdr_at phdrs j)) \<and>
     (\<forall>j<k. loaded root (kmem s) hdr (phdr_at phdrs j) t) \<and>
     (\<forall>w. (\<forall>j<k. vpage w \<notin> load_pages (kmem s) (phdr_at phdrs j)) \<longrightarrow> paging_get t root w = paging_get s root w)"

lemma segment_pages_cong:
  "p_vaddr m' p = p_vaddr m p \<Longrightarrow> p_memsz m' p = p_memsz m p \<Longrightarrow> segment_pages m' p = segment_pages m p"
  by (simp add: segment_pages_def)

lemma loaded_evolves:
  assumes l: "loaded root m hdr ph t" and ev: "evolves root t u" and cr: "addr_ensure_higher (cr3 t) = root"
    and range: "p_type m ph = PT_LOAD \<Longrightarrow> unat (p_vaddr m ph) + unat (p_memsz m ph) \<le> 140737488355328"
    and get: "\<And>w. vpage w \<in> load_pages m ph \<Longrightarrow> paging_get u root w = paging_get t root w"
  shows "loaded root m hdr ph u"
  unfolding loaded_def
proof
  assume load: "p_type m ph = PT_LOAD"
  show "bytes_at root (p_vaddr m ph) (unat (p_memsz m ph)) (\<lambda>k. m (HDR_OFF hdr (p_offset m ph) + of_nat k)) u"
  proof (rule bytes_at_evolves [OF _ ev cr])
    show "bytes_at root (p_vaddr m ph) (unat (p_memsz m ph)) (\<lambda>k. m (HDR_OFF hdr (p_offset m ph) + of_nat k)) t"
      using l load by (simp add: loaded_def)
    fix k assume k: "k < unat (p_memsz m ph)"
    then have "vpage (p_vaddr m ph + of_nat k) = vpage (vpage_at (p_vaddr m ph) (page_index (p_vaddr m ph) k))"
      using range [OF load] by (intro range_vpage(1)) simp
    with page_index_less [OF k] load have "vpage (p_vaddr m ph + of_nat k) \<in> load_pages m ph"
      by (auto simp: load_pages_def)
    then show "paging_get u root (p_vaddr m ph + of_nat k) = paging_get t root (p_vaddr m ph + of_nat k)"
      by (rule get)
  qed
qed

lemma image_disjoint:
  assumes "image_ok root s task hdr phdrs A" "k < unat (e_phnum (kmem s) hdr)" "j < k"
  shows "load_pages (kmem s) (phdr_at phdrs k) \<inter> load_pages (kmem s) (phdr_at phdrs j) = {}"
  using assms by (simp add: image_ok_def)

lemma loading_other:
  assumes "loading root s hdr phdrs k t" and "image_ok root s task hdr phdrs A"
    and "k < unat (e_phnum (kmem s) hdr)" and "vpage w \<in> load_pages (kmem s) (phdr_at phdrs k)"
  shows "paging_get t root w = paging_get s root w"
  using assms image_disjoint [OF assms(2,3)] unfolding loading_def by blast

lemma loading_segment:
  assumes im: "image_ok root s task hdr phdrs A" and P: "loading root s hdr phdrs k t"
    and k: "k < unat (e_phnum (kmem s) hdr)"
  obtains u where "load_segment task hdr (phdr_at phdrs k) t = Some u" "evolves root t u"
    "frames_avail t \<le> frames_avail u + load_cost (kmem s) (phdr_at phdrs k)"
    "loaded root (kmem s) hdr (phdr_at phdrs k) u"
    "\<And>w. vpage w \<notin> load_pages (kmem s) (phdr_at phdrs k) \<Longrightarrow> paging_get u root w = paging_get t root w"
proof -
  let ?ph = "phdr_at phdrs k" and ?m = "kmem s"
  have ev: "evolves root s t" and A: "stable root s A" and seg: "segment_ok root s hdr A ?ph"
    using P im k by (auto simp: loading_def image_ok_def)
  have At: "stable root t A" and kept: "\<And>a. a \<in> A \<Longrightarrow> kmem t a = ?m a"
    by (rule stable_evolves [OF ev A]; assumption)+
  have okt: "paging_ok t root" and crt: "addr_ensure_higher (cr3 t) = root"
    using ev im by (simp_all add: evolves_def image_ok_def)
  have ph: "p_type (kmem t) ?ph = p_type ?m ?ph" "p_offset (kmem t) ?ph = p_offset ?m ?ph"
    "p_vaddr (kmem t) ?ph = p_vaddr ?m ?ph" "p_filesz (kmem t) ?ph = p_filesz ?m ?ph"
    "p_memsz (kmem t) ?ph = p_memsz ?m ?ph"
    by (rule phdr_kept [OF _ kept]; use seg in \<open>simp add: segment_ok_def\<close>)+
  show ?thesis
  proof (cases "p_type ?m ?ph = PT_LOAD")
    case False
    then have "load_segment task hdr ?ph t = Some t" by (simp add: load_segment_def ph)
    with okt False show ?thesis
      by (intro that [of t]) (simp_all add: evolves_def same_on_def path_kept_def load_cost_def loaded_def)
  next
    case True
    define v where "v = p_vaddr ?m ?ph"
    have vm: "task_vmap (kmem t) task = root"
      using im load64_cong [of "kmem t" "task + 152" ?m] kept by (simp add: image_ok_def task_vmap_def)
    have pages: "segment_pages (kmem t) ?ph = segment_pages ?m ?ph" by (rule segment_pages_cong) (fact ph)+
    have "load_cost ?m ?ph + (\<Sum>j<k. load_cost ?m (phdr_at phdrs j)) \<le> frames_avail s"
      using im sum_mono2 [of "{..<unat (e_phnum ?m hdr)}" "{..<Suc k}" "\<lambda>j. load_cost ?m (phdr_at phdrs j)"] k
      by (auto simp: image_ok_def)
    then have av: "4 * segment_pages (kmem t) ?ph \<le> frames_avail t"
      using P True by (simp add: loading_def load_cost_def pages)
    have in_pages: "vpage (vpage_at v i) \<in> load_pages ?m ?ph" if "i < segment_pages ?m ?ph" for i
      using that True by (auto simp: load_pages_def v_def)
    have src: "HDR_OFF hdr (p_offset ?m ?ph) + of_nat i \<in> A" if "i < unat (p_memsz ?m ?ph)" for i
      using seg True that by (simp add: segment_ok_def)
    have path: "path_ok (vaddr_to_index (vpage_at v i)) (kmem t) 3 root"
      and absent: "\<not> present (paging_get t root (vpage_at v i))" if "i < segment_pages ?m ?ph" for i
      using seg True ev loading_other [OF P im k in_pages [OF that]] that
      by (simp_all add: segment_ok_def evolves_def path_kept_def v_def)
    obtain u where u: "load_segment task hdr ?ph t = Some u" "evolves root t u"
      "frames_avail t \<le> frames_avail u + 4 * segment_pages ?m ?ph"
      "bytes_at root v (unat (p_memsz ?m ?ph)) (\<lambda>i. kmem t (HDR_OFF hdr (p_offset ?m ?ph) + of_nat i)) u"
      "\<And>w. (\<And>i. i < segment_pages ?m ?ph \<Longrightarrow> vpage w \<noteq> vpage (vpage_at v i)) \<Longrightarrow>
         paging_get u root w = paging_get t root w"
      by (rule load_segment_spec [of t root task ?ph A hdr])
        (use okt crt vm True seg av path absent At src in \<open>simp_all add: ph pages segment_ok_def v_def\<close>)
    show ?thesis
    proof (rule that [OF u(1,2)])
      show "frames_avail t \<le> frames_avail u + load_cost ?m ?ph" using u(3) True by (simp add: load_cost_def)
      show "loaded root ?m hdr ?ph u"
        using u(4) kept [OF src] unfolding loaded_def v_def bytes_at_def by simp
      show "paging_get u root w = paging_get t root w" if "vpage w \<notin> load_pages ?m ?ph" for w
        using in_pages that by (intro u(5)) metis
    qed
  qed
qed

lemma loading_step:
  assumes im: "image_ok root s task hdr phdrs A" and P: "loading root s hdr phdrs k t"
    and k: "k < unat (e_phnum (kmem s) hdr)"
  obtains u where "load_segment task hdr (phdr_at phdrs k) t = Some u" "loading root s hdr phdrs (Suc k) u"
proof -
  let ?m = "kmem s"
  obtain u where u: "load_segment task hdr (phdr_at phdrs k) t = Some u" "evolves root t u"
    "frames_avail t \<le> frames_avail u + load_cost ?m (phdr_at phdrs k)"
    "loaded root ?m hdr (phdr_at phdrs k) u"
    "\<And>w. vpage w \<notin> load_pages ?m (phdr_at phdrs k) \<Longrightarrow> paging_get u root w = paging_get t root w"
    by (rule loading_segment [OF im P k]) blast
  have ev: "evolves root s t" using P by (simp add: loading_def)
  then have crt: "addr_ensure_higher (cr3 t) = root" using im by (simp add: evolves_def image_ok_def)
  have "loaded root ?m hdr (phdr_at phdrs j) u" if "j < k" for j
  proof (rule loaded_evolves [OF _ u(2) crt])
    show "loaded root ?m hdr (phdr_at phdrs j) t" using P that by (simp add: loading_def)
    show "unat (p_vaddr ?m (phdr_at phdrs j)) + unat (p_memsz ?m (phdr_at phdrs j)) \<le> 140737488355328"
      if "p_type ?m (phdr_at phdrs j) = PT_LOAD"
      using im k \<open>j < k\<close> that by (simp add: image_ok_def segment_ok_def)
    show "paging_get u root w = paging_get t root w" if "vpage w \<in> load_pages ?m (phdr_at phdrs j)" for w
      using image_disjoint [OF im k \<open>j < k\<close>] that by (intro u(5)) blast
  qed
  then have "loading root s hdr phdrs (Suc k) u"
    using P evolves_trans [OF ev u(2)] u(3-5) by (auto simp: loading_def less_Suc_eq)
  with u(1) show ?thesis by (rule that)
qed

lemma loading_phnum:
  assumes "image_ok root s task hdr phdrs A" and "loading root s hdr phdrs k t"
  shows "e_phnum (kmem t) hdr = e_phnum (kmem s) hdr"
proof -
  have "kmem t (hdr + 56) = kmem s (hdr + 56)" "kmem t (hdr + 57) = kmem s (hdr + 57)"
    using stable_evolves(2) [of root s t A] assms by (auto simp: loading_def image_ok_def)
  then show ?thesis by (simp add: e_phnum_def load16_def add.commute)
qed

lemma phnum_less:
  assumes "k \<le> unat (x :: u16)"
  shows "(of_nat k :: u64) < ucast x \<longleftrightarrow> k < unat x"
proof -
  have "unat x < 65536" using unsigned_less [of x, where 'a = nat] by simp
  moreover have "unat (ucast x :: u64) = unat x" 
    by (rule unsigned_ucast_eq [THEN trans]) (use \<open>unat x < 65536\<close> in \<open>simp add: take_bit_nat_eq_self\<close>)
  ultimately show ?thesis using assms by (simp add: word_less_nat_alt unat_of_nat)
qed

lemma load_segments_loading:
  assumes im: "image_ok root s task hdr phdrs A" and P: "loading root s hdr phdrs k t"
    and k: "k \<le> unat (e_phnum (kmem s) hdr)"
  shows "\<exists>u. load_segments task hdr phdrs (of_nat k) t = Some u \<and>
    loading root s hdr phdrs (unat (e_phnum (kmem s) hdr)) u"
  using P k
proof (induction "unat (e_phnum (kmem s) hdr) - k" arbitrary: k t)
  case (0 k t)
  then have k: "k = unat (e_phnum (kmem s) hdr)" by simp
  then have "load_segments task hdr phdrs (of_nat k) t = Some t"
    using phnum_less [of k "e_phnum (kmem s) hdr"] loading_phnum [OF im 0(2)]
    by (subst load_segments.simps) simp
  with 0(2) k show ?case by auto
next
  case (Suc x k t)
  then have k: "k < unat (e_phnum (kmem s) hdr)" "k \<le> unat (e_phnum (kmem s) hdr)" by simp_all
  obtain u where u: "load_segment task hdr (phdr_at phdrs k) t = Some u" "loading root s hdr phdrs (Suc k) u"
    by (rule loading_step [OF im Suc(3) k(1)])
  have "\<exists>z. load_segments task hdr phdrs (of_nat (Suc k)) u = Some z \<and>
      loading root s hdr phdrs (unat (e_phnum (kmem s) hdr)) z"
    by (rule Suc(1)) (use Suc(2) u(2) k in auto)
  then show ?case
    using phnum_less [OF k(2)] k(1) loading_phnum [OF im Suc(3)] u(1)
    by (subst load_segments.simps) (simp add: phdr_at_def add.commute)
qed

text \<open>C8: Loading an ELF image gives every byte of every loadable segment a place of its own frame of
  the task, which the task can read and write, with the byte of the image at the offset of the
  segment; the pages of no segment keep their translation, and the image, its headers and the
  task stay as they are. It takes at most four frames for each page. The bytes of a segment behind
  its size in the file are those that follow in the image and not zeros, since the two sizes are
  swapped in the clearing and the copying.\<close>

theorem load_segments_correct:
  fixes s :: "'z vm_scheme"
  assumes "image_ok root s task hdr phdrs A"
  shows "\<exists>t. load_segments task hdr phdrs 0 s = Some t \<and> paging_ok t root \<and>
    (\<forall>j<unat (e_phnum (kmem s) hdr).
       let ph = phdr_at phdrs j; m = kmem s in
       p_type m ph = PT_LOAD \<longrightarrow> (\<forall>k<unat (p_memsz m ph). \<exists>q a.
         frame_owned t q \<and> q \<notin> tabs 3 (kmem t) root \<and> a \<in> frame q \<and>
         user_addr t (p_vaddr m ph + of_nat k) = Some a \<and>
         kmem t a = m (HDR_OFF hdr (p_offset m ph) + of_nat k) \<and>
         paging_get t root (p_vaddr m ph + of_nat k) AND 7 = 7)) \<and>
    (\<forall>w. (\<forall>j<unat (e_phnum (kmem s) hdr). vpage w \<notin> load_pages (kmem s) (phdr_at phdrs j)) \<longrightarrow>
       paging_get t root w = paging_get s root w) \<and>
    (\<forall>a\<in>A. kmem t a = kmem s a) \<and>
    frames_avail s \<le> frames_avail t + (\<Sum>j<unat (e_phnum (kmem s) hdr). load_cost (kmem s) (phdr_at phdrs j))"
proof -
  have "loading root s hdr phdrs 0 s"
    using assms by (simp add: loading_def image_ok_def evolves_def same_on_def path_kept_def)
  from load_segments_loading [OF assms this] obtain t where t: "load_segments task hdr phdrs 0 s = Some t"
    "loading root s hdr phdrs (unat (e_phnum (kmem s) hdr)) t" by auto
  note l = t(2) [unfolded loading_def loaded_def bytes_at_def data_place_def]
  have ev: "evolves root s t" and A: "stable root s A" using l assms by (simp_all add: image_ok_def)
  then have "paging_ok t root" "\<forall>a\<in>A. kmem t a = kmem s a"
    using stable_evolves(2) [OF ev A] by (simp_all add: evolves_def)
  moreover have "\<forall>j<unat (e_phnum (kmem s) hdr). let ph = phdr_at phdrs j; m = kmem s in
       p_type m ph = PT_LOAD \<longrightarrow> (\<forall>k<unat (p_memsz m ph). \<exists>q a.
         frame_owned t q \<and> q \<notin> tabs 3 (kmem t) root \<and> a \<in> frame q \<and>
         user_addr t (p_vaddr m ph + of_nat k) = Some a \<and>
         kmem t a = m (HDR_OFF hdr (p_offset m ph) + of_nat k) \<and>
         paging_get t root (p_vaddr m ph + of_nat k) AND 7 = 7)"
    using l unfolding Let_def by blast
  ultimately show ?thesis using t(1) l by blast
qed

subsection \<open>An image of two program headers\<close>

text \<open>
  The second header loads 16 bytes, of which 4 are in the file, across the boundary of two pages.
  The task and the image are on the heap.
\<close>

definition elf_hdr :: ptr where "elf_hdr = 0xffff810000001000"

definition elf_mem :: mem where
  "elf_mem = (store64 (kmem vm_example) (cow_task + 152) 0xffff800000001000)
     (elf_hdr + 56 := 2, elf_hdr + 120 := 1, elf_hdr + 129 := 1, elf_hdr + 136 := 0xf8, elf_hdr + 137 := 0x0f,
      elf_hdr + 138 := 0x40, elf_hdr + 152 := 4, elf_hdr + 160 := 16, elf_hdr + 256 := 0x7f, elf_hdr + 271 := 0x42)"

definition elf_example :: vm where "elf_example = vm_example\<lparr>kmem := elf_mem\<rparr>"

abbreviation elf_area :: "ptr set" where "elf_area \<equiv> heap_at ` {..<8192}"

lemma elf_area_word: "x < 8192 \<Longrightarrow> 0xffff810000000000 + x \<in> elf_area"
  by (rule image_eqI [of _ _ "unat x"])
    (simp_all add: heap_at_def alloc_start_def KERNEL_HEAP_VIRTUAL_START_def word_less_nat_alt)

lemma elf_mem_window: "a \<in> window vm_example \<Longrightarrow> elf_mem a = kmem vm_example a"
proof -
  assume a: "a \<in> window vm_example"
  have ne: "a \<noteq> 0xffff810000000000 + x" if "x < 8192" for x
    using window_not_heap [OF a, of "{..<8192}"] elf_area_word [OF that] by (auto simp: vm_example_def)
  have "\<not> a - (cow_task + 152) < 8"
  proof
    define d where "d = a - (cow_task + 152)"
    assume "a - (cow_task + 152) < 8"
    then have "176 + d < 8192" by (simp add: d_def [symmetric] word_less_nat_alt unat_word_ariths)
    from ne [OF this] show False by (simp add: d_def cow_task_def)
  qed
  then show "elf_mem a = kmem vm_example a"
    using ne [of "0x1038"] ne [of "0x1078"] ne [of "0x1081"] ne [of "0x1088"] ne [of "0x1089"]
      ne [of "0x108a"] ne [of "0x1098"] ne [of "0x10a0"] ne [of "0x1100"] ne [of "0x110f"]
    by (simp add: elf_mem_def elf_hdr_def store64_other)
qed

lemma elf_mem_fields:
  "task_vmap elf_mem cow_task = 0xffff800000001000" "e_phnum elf_mem elf_hdr = 2"
  "p_type elf_mem (elf_hdr + 64) = 0" "p_type elf_mem (elf_hdr + 120) = PT_LOAD"
  "p_offset elf_mem (elf_hdr + 120) = 256" "p_vaddr elf_mem (elf_hdr + 120) = 0x400ff8"
  "p_filesz elf_mem (elf_hdr + 120) = 4" "p_memsz elf_mem (elf_hdr + 120) = 16"
  "elf_mem (elf_hdr + 256) = 0x7f" "elf_mem (elf_hdr + 271) = 0x42"
  by (simp_all add: task_vmap_def e_phnum_def p_type_def PT_LOAD_def p_offset_def p_vaddr_def p_filesz_def p_memsz_def
      elf_mem_def elf_hdr_def cow_task_def load64_def load32_def load16_def store64_def vm_example_def)

lemma elf_example_ok:
  "paging_ok elf_example 0xffff800000001000" "frames_avail elf_example = 19"
  "path_ok (vaddr_to_index v) (kmem elf_example) 3 0xffff800000001000"
  "paging_get elf_example 0xffff800000001000 v = 0" "window elf_example = window vm_example"
proof -
  note o = tables_ok_outside [OF vm_example_ok elf_mem_window, folded elf_example_def]
  have e: "kmem elf_example = elf_mem" by (simp add: elf_example_def)
  show "paging_ok elf_example 0xffff800000001000" "frames_avail elf_example = 19"
    using o(1,2) by (simp_all add: vm_example_avail)
  show "path_ok (vaddr_to_index v) (kmem elf_example) 3 0xffff800000001000"
    using o(4) vm_example_path by (simp add: path_kept_def e)
  show "paging_get elf_example 0xffff800000001000 v = 0"
    using o(3) [OF _ _ indices_ok_vaddr] zero_table(3) [OF vm_example_root(1) vm_example_zero indices_ok_vaddr, of 3]
    by (simp add: paging_get_def e)
  show "window elf_example = window vm_example" by (simp add: elf_example_def window_def)
qed

lemma elf_image_ok:
  "image_ok 0xffff800000001000 elf_example cow_task elf_hdr (elf_hdr + 64) elf_area"
proof -
  have e: "kmem elf_example = elf_mem" "cr3 elf_example = 0x1000" by (simp_all add: elf_example_def vm_example_def)
  have ph: "phdr_at (elf_hdr + 64) 0 = elf_hdr + 64" "phdr_at (elf_hdr + 64) (Suc 0) = elf_hdr + 120"
    by (simp_all add: phdr_at_def sizeof_phdr_def)
  have two: "(\<forall>j<2. P j) \<longleftrightarrow> P 0 \<and> P (Suc 0)" for P :: "nat \<Rightarrow> bool"
    by (auto simp: less_2_cases_iff)
  have pages: "segment_pages elf_mem (elf_hdr + 120) = 2" by (simp add: segment_pages_def elf_mem_fields)
  have area: "c + k \<in> elf_area" if "c = 0xffff810000000000 + d" "d < 8000" "k < 64" for c d k
  proof -
    have "d + k < 8192" using that by (simp add: word_less_nat_alt unat_word_ariths)
    from elf_area_word [OF this] show ?thesis by (simp add: that(1) add.assoc)
  qed
  have "stable 0xffff800000001000 elf_example elf_area"
    using heap_not_window [of vm_example] by (auto simp: stable_def elf_example_ok vm_example_def)
  moreover have "cow_task + 152 + k \<in> elf_area" if "k < 8" for k
    by (rule area [of _ "176"]) (use that in \<open>simp_all add: cow_task_def word_less_nat_alt\<close>)
  moreover have "elf_hdr + 56 \<in> elf_area" "elf_hdr + 57 \<in> elf_area"
    using elf_area_word [of "4152"] elf_area_word [of "4153"] by (simp_all add: elf_hdr_def)
  moreover have "elf_hdr + 64 + k \<in> elf_area" "elf_hdr + 120 + k \<in> elf_area" if "k < 56" for k
    by (rule area [of _ "4160"] area [of _ "4216"]; use that in \<open>simp_all add: elf_hdr_def word_less_nat_alt\<close>)+
  moreover have "HDR_OFF elf_hdr 256 + of_nat k \<in> elf_area" if "k < 16" for k
    by (rule area [of _ "4352"]) (use that in \<open>simp_all add: HDR_OFF_def elf_hdr_def word_less_nat_alt unat_of_nat\<close>)
  moreover have "addr_ensure_higher 0x1000 = 0xffff800000001000" by (simp add: addr_ensure_higher_def VADDR_HIGHER_def)
  moreover have num: "unat (e_phnum elf_mem elf_hdr) = 2" by (simp add: elf_mem_fields)
  moreover have "(\<Sum>j<2. f j) = f 0 + f (Suc 0)" for f :: "nat \<Rightarrow> nat" by (simp add: numeral_2_eq_2)
  moreover have "(0 :: u32) \<noteq> PT_LOAD" by (simp add: PT_LOAD_def)
  ultimately show ?thesis
    unfolding image_ok_def e num two
    using elf_example_ok(3) [unfolded e]
    by (simp add: e elf_example_ok(1,2,4) elf_mem_fields ph segment_ok_def pages load_pages_def load_cost_def present_def)
qed

theorem load_segments_correct_witness:
  "\<exists>t a b. load_segments cow_task elf_hdr (elf_hdr + 64) 0 elf_example = Some t \<and>
     user_addr t 0x400ff8 = Some a \<and> kmem t a = 0x7f \<and> user_addr t 0x401007 = Some b \<and> kmem t b = 0x42"
proof -
  have e: "kmem elf_example = elf_mem" by (simp add: elf_example_def)
  have ph: "phdr_at (elf_hdr + 64) (Suc 0) = elf_hdr + 120" by (simp add: phdr_at_def sizeof_phdr_def)
  from load_segments_correct [OF elf_image_ok] obtain t where
    t: "load_segments cow_task elf_hdr (elf_hdr + 64) 0 elf_example = Some t" and
    all: "\<forall>j<unat (e_phnum elf_mem elf_hdr). let ph = phdr_at (elf_hdr + 64) j; m = elf_mem in
       p_type m ph = PT_LOAD \<longrightarrow> (\<forall>k<unat (p_memsz m ph). \<exists>q a.
         frame_owned t q \<and> q \<notin> tabs 3 (kmem t) 0xffff800000001000 \<and> a \<in> frame q \<and>
         user_addr t (p_vaddr m ph + of_nat k) = Some a \<and>
         kmem t a = m (HDR_OFF elf_hdr (p_offset m ph) + of_nat k) \<and>
         paging_get t 0xffff800000001000 (p_vaddr m ph + of_nat k) AND 7 = 7)"
    unfolding e by blast
  have one: "Suc 0 < unat (e_phnum elf_mem elf_hdr)" by (simp add: elf_mem_fields)
  have *: "\<exists>a. user_addr t (0x400ff8 + of_nat k) = Some a \<and>
      kmem t a = elf_mem (elf_hdr + 256 + of_nat k)" if "k < 16" for k
    using all [rule_format, OF one, unfolded Let_def ph] that by (auto simp: elf_mem_fields HDR_OFF_def)
  from * [of 0] * [of 15] t show ?thesis by (auto simp: elf_mem_fields add.commute)
qed

end
