(* ===== verification/Nvme_Init.thy ===== *)
theory Nvme_Init
  imports Nvme
begin

text \<open>
  Setting up an NVMe controller and its drives (the rest of \<^verbatim>\<open>pci/nvme.c\<close>): the admin queue, the
  I/O queue of a drive, the identification of the controller and its namespaces, and the MSI-X
  capability, which nothing calls. A failed assertion and a wait without an end stop the kernel
  (\<open>None\<close>). The operands of a message are read in the order they are written.
\<close>

section \<open>Waiting for the controller\<close>

partial_function (option) wait_ready :: "nvme_env \<Rightarrow> bool \<Rightarrow> 'z hw_scheme \<Rightarrow> 'z hw_scheme option" where
  "wait_ready h want s =
     (let (v, s) = reg32 h REG_CSTS s in
      if (v AND 1 \<noteq> 0) = want then Some s else wait_ready h want s)"

section \<open>The queues\<close>

definition doorbell_stride :: "u64 \<Rightarrow> u32" where
  "doorbell_stride cap = push_bit (2 + unat (drop_bit 32 cap AND 0xf)) 1"

definition set_doorbells :: "ptr \<Rightarrow> ptr \<Rightarrow> u32 \<Rightarrow> u32 \<Rightarrow> mem \<Rightarrow> mem" where
  "set_doorbells queue regs n stride m =
     set_cq_head_dbl queue (regs + 0x1000 + ucast ((2 * n + 1) * stride))
       (set_sq_tail_dbl queue (regs + 0x1000 + ucast ((2 * n + 0) * stride)) m)"

definition create_admin_queue :: "nvme_env \<Rightarrow> 'z hw_scheme \<Rightarrow> 'z hw_scheme option" where
  "create_admin_queue h s =
     (let ctrl = controller h; q = admin_queue ctrl;
          asq_page_count = sizeof_sq_entry * 256 div 0x1000;
          acq_page_count = sizeof_cq_entry * 256 div 0x1000
      in do { (asq, s) \<leftarrow> pmm_request_pages s asq_page_count;
              let s = put_reg64 h REG_ASQ asq s;
              (acq, s) \<leftarrow> pmm_request_pages s acq_page_count;
              let s = put_reg64 h REG_ACQ acq s;
              let s = put_reg32 h REG_AQA (255 OR push_bit 16 255) s;
              let (v, s) = reg64 h REG_ASQ s;
              let s = on_mem (set_queue_sq q (addr_ensure_higher v)) s;
              let (v, s) = reg64 h REG_ACQ s;
              let s = on_mem (set_queue_cq q (addr_ensure_higher v)) s;
              let s = on_mem (set_sq_tail q 0) s;
              let s = on_mem (set_cq_head q 0) s;
              let (cap, s) = reg64 h REG_CAP s;
              let stride = doorbell_stride cap;
              let s = on_mem (\<lambda>m. set_doorbells q (ctrl_regs m ctrl) 0 stride m) s;
              let (a, s) = reg64 h REG_ASQ s;
              let (b, s) = reg64 h REG_ACQ s;
              let (c, s) = reg32 h REG_AQA s;
              Some (kprintf KMSG_LOGLEVEL_INFO ''ASQ/ACQ at %x/%x, AQA=%x, doorbell stride=%x\<newline>''
                [a, b, ucast c, ucast stride] s) })"

text \<open>The I/O queues have number 1; the addresses are given to the controller in two halves.\<close>

definition queue_command :: "u32 \<Rightarrow> ptr \<Rightarrow> u32 \<Rightarrow> sq_entry" where
  "queue_command opcode p flags =
     sq_zero\<lparr>cdw0 := opcode, prp1 := drop_bit 0 (addr_ensure_lower p), prp2 := drop_bit 32 (addr_ensure_lower p),
       cdw10 := 1 OR push_bit 16 255, cdw11 := flags\<rparr>"

definition create_io_queue :: "nvme_env \<Rightarrow> ptr \<Rightarrow> 'z hw_scheme \<Rightarrow> 'z hw_scheme option" where
  "create_io_queue h ndrive s =
     (let ctrl = controller h; q = io_queue ndrive;
          sq_page_count = sizeof_sq_entry * 256 div 0x1000;
          cq_page_count = sizeof_cq_entry * 256 div 0x1000
      in do { (sq, s) \<leftarrow> palloc s sq_page_count;
              let s = on_mem (set_queue_sq q sq) s;
              (cq, s) \<leftarrow> palloc s cq_page_count;
              let s = on_mem (set_queue_cq q cq) s;
              let s = on_mem (set_sq_tail q 0) s;
              let s = on_mem (set_cq_head q 0) s;
              let (cap, s) = reg64 h REG_CAP s;
              let s = on_mem (\<lambda>m. set_doorbells q (ctrl_regs m ctrl) 1 (doorbell_stride cap) m) s;
              let command = queue_command 0x5 (queue_cq (kmem s) q) 1;
              let s = kprintf KMSG_LOGLEVEL_INFO ''Creating I/O completion queue...\<newline>'' [] s;
              s \<leftarrow> send_cmd_sync h (admin_queue ctrl) command 0 s;
              let command = queue_command 0x1 (queue_sq (kmem s) q) (1 OR push_bit 16 1);
              let s = kprintf KMSG_LOGLEVEL_INFO ''Creating I/O submission queue...\<newline>'' [] s;
              s \<leftarrow> send_cmd_sync h (admin_queue ctrl) command 0 s;
              Some (kprintf KMSG_LOGLEVEL_INFO ''Created I/O queue with sq/cq at %a/%a\<newline>''
                [queue_sq (kmem s) q, queue_cq (kmem s) q] s) })"

section \<open>Identification\<close>

definition identify_command :: "u32 \<Rightarrow> ptr \<Rightarrow> u32 \<Rightarrow> sq_entry" where
  "identify_command ns p cns = sq_zero\<lparr>cdw0 := 0x06, nsid := ns, prp1 := addr_ensure_lower p, cdw10 := cns\<rparr>"

definition id_sn :: "ptr \<Rightarrow> ptr" where "id_sn p = p + 4"
definition id_mn :: "ptr \<Rightarrow> ptr" where "id_mn p = p + 24"
definition id_fr :: "ptr \<Rightarrow> ptr" where "id_fr p = p + 64"
definition id_mdts :: "mem \<Rightarrow> ptr \<Rightarrow> u8" where "id_mdts m p = m (p + 77)"
definition id_oacs :: "mem \<Rightarrow> ptr \<Rightarrow> u16" where "id_oacs m p = load16 m (p + 256)"
definition id_tnvmcap :: "mem \<Rightarrow> ptr \<Rightarrow> u64 \<Rightarrow> u64" where "id_tnvmcap m p i = load64 m (p + 280 + 8 * i)"
definition id_unvmcap :: "mem \<Rightarrow> ptr \<Rightarrow> u64 \<Rightarrow> u64" where "id_unvmcap m p i = load64 m (p + 296 + 8 * i)"

text \<open>A shift by the width or more is undefined in C; the processor takes its amount modulo the width.
  The message has five conversions for four operands.\<close>

definition ctrl_identify :: "nvme_env \<Rightarrow> 'z hw_scheme \<Rightarrow> 'z hw_scheme option" where
  "ctrl_identify h s =
     (let ctrl = controller h
      in do { (p, s) \<leftarrow> palloc s 1;
              let s = on_mem (set_ctrl_id ctrl p) s;
              s \<leftarrow> send_cmd_sync h (admin_queue ctrl) (identify_command 0 (ctrl_id (kmem s) ctrl) 1) 0 s;
              let s = on_mem (\<lambda>m. snd (trim_and_terminate m (id_sn (ctrl_id m ctrl)) 20)) s;
              let s = on_mem (\<lambda>m. snd (trim_and_terminate m (id_mn (ctrl_id m ctrl)) 40)) s;
              let s = on_mem (\<lambda>m. snd (trim_and_terminate m (id_fr (ctrl_id m ctrl)) 8)) s;
              let i = ctrl_id (kmem s) ctrl;
              let s = kprintf KMSG_LOGLEVEL_INFO ''Model/Serial: %s/%s, firmware revision: %s, mpsmin %x, mdts: %d\<newline>''
                [id_sn i, id_mn i, id_fr i, push_bit (unat (id_mdts (kmem s) i) mod 64) 1] s;
              Some (if id_oacs (kmem s) i AND 0x8 \<noteq> 0
                    then kprintf KMSG_LOGLEVEL_INFO ''Total/Unused NVM capacity: approx. %d/%dMB\<newline>''
                      [drop_bit 20 (id_tnvmcap (kmem s) i 1), drop_bit 20 (id_unvmcap (kmem s) i 1)] s
                    else s) })"

definition ns_nsze :: "mem \<Rightarrow> ptr \<Rightarrow> u64" where "ns_nsze m p = load64 m p"
definition ns_ncap :: "mem \<Rightarrow> ptr \<Rightarrow> u64" where "ns_ncap m p = load64 m (p + 8)"
definition ns_nuse :: "mem \<Rightarrow> ptr \<Rightarrow> u64" where "ns_nuse m p = load64 m (p + 16)"
definition ns_flbas :: "mem \<Rightarrow> ptr \<Rightarrow> u8" where "ns_flbas m p = m (p + 26)"
definition ns_lba_format :: "ptr \<Rightarrow> u64 \<Rightarrow> ptr" where "ns_lba_format p i = p + 128 + 4 * i"
definition fmt_ms :: "mem \<Rightarrow> ptr \<Rightarrow> u16" where "fmt_ms m f = load16 m f"
definition fmt_lbads :: "mem \<Rightarrow> ptr \<Rightarrow> u8" where "fmt_lbads m f = m (f + 2)"
definition fmt_rp :: "mem \<Rightarrow> ptr \<Rightarrow> u8" where "fmt_rp m f = m (f + 3)"

definition lba_size :: "u8 \<Rightarrow> u64" where
  "lba_size lbads = scast (push_bit (unat lbads mod 32) 1 :: u32)"

text \<open>One round of the loop over the namespaces; a full table of devices ends in the panic.\<close>

definition load_namespace ::
  "(string \<Rightarrow> ptr) \<Rightarrow> nvme_env \<Rightarrow> u32 \<Rightarrow> 'z device_state_scheme \<Rightarrow> 'z device_state_scheme option" where
  "load_namespace lit h ns s =
     (let ctrl = controller h;
          s = kprintf KMSG_LOGLEVEL_INFO ''Processing namespace with id %d...\<newline>'' [ucast ns] s
      in do { (device, s) \<leftarrow> zmalloc s sizeof_device;
              (if device = 0 then None else Some ());
              let s = on_mem (set_device_class device DCLASS_DRIVE) s;
              s \<leftarrow> (case device_register lit device s of Resumes s \<Rightarrow> Some s | Halts s \<Rightarrow> None);
              let s = kprintf KMSG_LOGLEVEL_INFO ''Device id for new drive: %d\<newline>''
                [ucast (device_id (kmem s) device)] s;
              (drive, s) \<leftarrow> zmalloc s sizeof_drive;
              (if drive = 0 then None else Some ());
              let s = on_mem (set_drive_read_blocks drive (read_blocks_fn h)) s;
              let s = on_mem (set_device_data device drive) s;
              (ndrive, s) \<leftarrow> zmalloc s sizeof_nvme_drive;
              (if ndrive = 0 then None else Some ());
              let s = on_mem (set_drive_data drive ndrive) s;
              let s = on_mem (set_ndrive_nsid ndrive ns) s;
              s \<leftarrow> create_io_queue h ndrive s;
              (p, s) \<leftarrow> palloc s 1;
              let s = on_mem (set_ndrive_id ndrive p) s;
              s \<leftarrow> send_cmd_sync h (admin_queue ctrl) (identify_command ns (ndrive_id (kmem s) ndrive) 0) 0 s;
              let i = ndrive_id (kmem s) ndrive;
              let f = ns_lba_format i (ucast (ns_flbas (kmem s) i AND 0x3));
              let s = on_mem (set_drive_block_size drive (lba_size (fmt_lbads (kmem s) f))) s;
              let m = kmem s;
              let s = kprintf KMSG_LOGLEVEL_INFO
                ''Namespace size/capacity/utilization: %d/%d/%d blocks, LBA data/metadata size=%d/%d bytes, relative perf=%d\<newline>''
                [ns_nsze m i, ns_ncap m i, ns_nuse m i, lba_size (fmt_lbads m f), ucast (fmt_ms m f), ucast (fmt_rp m f)] s;
              device_finalize lit (nvme_call h) device s })"

partial_function (option) load_namespaces ::
  "(string \<Rightarrow> ptr) \<Rightarrow> nvme_env \<Rightarrow> ptr \<Rightarrow> u64 \<Rightarrow> 'z device_state_scheme \<Rightarrow> 'z device_state_scheme option" where
  "load_namespaces lit h nsids i s =
     (let ns = load32 (kmem s) (nsids + 4 * i) in
      if ns = 0 then Some s
      else Option.bind (load_namespace lit h ns s) (load_namespaces lit h nsids (i + 1)))"

definition namespaces_identify ::
  "(string \<Rightarrow> ptr) \<Rightarrow> nvme_env \<Rightarrow> 'z device_state_scheme \<Rightarrow> 'z device_state_scheme option" where
  "namespaces_identify lit h s =
     do { (nsids, s) \<leftarrow> palloc s 1;
          s \<leftarrow> send_cmd_sync h (admin_queue (controller h)) (identify_command 0 nsids 2) 0 s;
          s \<leftarrow> load_namespaces lit h nsids 0 s;
          pfree s nsids 1 }"

section \<open>MSI-X\<close>

definition BIR :: "device \<Rightarrow> ptr \<Rightarrow> u32 \<Rightarrow> 'z hw_scheme \<Rightarrow> (u64 \<times> 'z hw_scheme) option" where
  "BIR dev ep tab s =
     (let n = tab AND 0x7 in
      if n = 0 then Some (let (v, s) = cfg_get dev ep cfg_bar0 s in (ucast v, s))
      else if n = 4 then Some (let (v, s) = cfg_get dev ep cfg_bar4 s in (ucast v, s))
      else if n = 5 then Some (let (v, s) = cfg_get dev ep cfg_bar5 s in (ucast v, s))
      else None)"

definition cap_mxc :: "device \<Rightarrow> ptr \<Rightarrow> 'z hw_scheme \<Rightarrow> u16 \<times> 'z hw_scheme" where
  "cap_mxc dev c s = (let (v, s) = io_read dev (Read16 (c + 2)) s in (ucast v, s))"

definition configure_msix :: "device \<Rightarrow> ptr \<Rightarrow> 'z hw_scheme \<Rightarrow> 'z hw_scheme option" where
  "configure_msix dev ep s =
     (let (cap_ptr, s) = cfg_get dev ep cfg_capabilities_ptr s
      in do { (r, s) \<leftarrow> pci_get_cap dev (ucast cap_ptr) ep 0x11 s;
              c \<leftarrow> r;
              let (mxc, s) = cap_mxc dev c s;
              let (mpba, s) = cfg_get dev c 8 s;
              let (mtab, s) = cfg_get dev c 4 s;
              let s = kprintf KMSG_LOGLEVEL_INFO ''MSI-X: mxc=%x, mpba=%x, mtab=%x\<newline>''
                [ucast mxc, ucast mpba, ucast mtab] s;
              let (mxc, s) = cap_mxc dev c s;
              let table_size = ucast (mxc AND 0x7ff) + 1;
              let (mtab, s) = cfg_get dev c 4 s;
              (table_addr, s) \<leftarrow> BIR dev ep mtab s;
              let (mtab, s) = cfg_get dev c 4 s;
              let table = addr_ensure_higher (table_addr + ucast (mtab AND NOT 0x7));
              let (mpba, s) = cfg_get dev c 8 s;
              (pba_addr, s) \<leftarrow> BIR dev ep mpba s;
              let (mpba, s) = cfg_get dev c 8 s;
              let pba_addr = addr_ensure_higher (pba_addr + ucast (mpba AND NOT 0x7));
              let s = kprintf KMSG_LOGLEVEL_INFO ''MSI-X: Table at %a (size=%d), PBA at %a\<newline>''
                [table, table_size, pba_addr] s;
              let s = io_write (Write32 (table + 12) 0) s;
              let s = io_write (Write32 table (push_bit 20 0xfee)) s;
              let s = io_write (Write32 (table + 8) 0x6) s;
              let (mxc, s) = cap_mxc dev c s;
              Some (io_write (Write16 (c + 2) (mxc OR push_bit 15 1)) s) })"

section \<open>Initialisation of a device\<close>

definition command_or :: "device \<Rightarrow> ptr \<Rightarrow> u32 \<Rightarrow> 'z hw_scheme \<Rightarrow> 'z hw_scheme" where
  "command_or dev ep flag s =
     (let (v, s) = cfg_get dev ep cfg_command s in cfg_put ep cfg_command (v OR flag) s)"

definition map_bar :: "nvme_env \<Rightarrow> ptr \<Rightarrow> 'z hw_scheme \<Rightarrow> 'z hw_scheme" where
  "map_bar h ep s =
     (let dev = answers h;
          (prev_bar, s) = cfg_get dev ep cfg_bar0 s;
          s = cfg_put ep cfg_bar0 0xffffffff s;
          (v, s) = cfg_get dev ep cfg_bar0 s;
          cur_bar = v AND 0xfffff000;
          s = cfg_put ep cfg_bar0 prev_bar s;
          bar_size = NOT cur_bar + 1;
          (b0, s) = cfg_get dev ep cfg_bar0 s;
          (b1, s) = cfg_get dev ep cfg_bar1 s;
          bar0_addr = ucast (b0 AND 0xfffffff0) + push_bit 32 (ucast (b1 AND 0xffffffff));
          s = on_mem (set_ctrl_regs (controller h) (addr_ensure_higher bar0_addr)) s
      in kprintf KMSG_LOGLEVEL_INFO ''BAR=%a, size=%x bytes\<newline>''
           [ctrl_regs (kmem s) (controller h), ucast bar_size] s)"

definition page_size :: "nat \<Rightarrow> u64 \<Rightarrow> u32" where
  "page_size pos cap = ucast (push_bit (12 + unat (drop_bit pos cap AND 0xf)) (1 :: u64))"

definition check_caps :: "nvme_env \<Rightarrow> 'z hw_scheme \<Rightarrow> 'z hw_scheme option" where
  "check_caps h s =
     (let (cap, s) = reg64 h REG_CAP s in
      if drop_bit 37 cap AND 0x1 = 0 then None
      else
        let (cap, s) = reg64 h REG_CAP s; page_size_min = page_size 48 cap;
            (cap, s) = reg64 h REG_CAP s; page_size_max = page_size 52 cap;
            s = kprintf KMSG_LOGLEVEL_INFO ''Minimum/maximum page size: %d/%d\<newline>''
              [ucast page_size_min, ucast page_size_max] s
        in if page_size_max \<ge> 0x1000 \<and> page_size_min \<le> 0x1000 then
             let (v1, s) = reg32 h REG_VS s; (v2, s) = reg32 h REG_VS s; (v3, s) = reg32 h REG_VS s
             in Some (kprintf KMSG_LOGLEVEL_INFO ''NVMe version %d.%d.%d\<newline>''
                  [ucast (drop_bit 16 v3 AND 0xffff), ucast (drop_bit 8 v2 AND 0xff), ucast (drop_bit 0 v1 AND 0xff)] s)
           else None)"

definition nvme_initialize_device ::
  "(string \<Rightarrow> ptr) \<Rightarrow> nvme_env \<Rightarrow> ptr \<Rightarrow> pci_addr \<Rightarrow> 'z device_state_scheme \<Rightarrow> 'z device_state_scheme option" where
  "nvme_initialize_device lit h ep pa s =
     (let dev = answers h;
          s = kprintf KMSG_LOGLEVEL_INFO ''Initializing NVME device (%x/%x/%x)...\<newline>''
            [ucast (bus pa), ucast (slot pa), ucast (func pa)] s;
          s = command_or dev ep PHC_BUS_MASTER s;
          s = command_or dev ep PHC_MEM_SPACE s;
          s = command_or dev ep PHC_IO_SPACE s;
          s = command_or dev ep PHC_INTERRUPT_DISABLE s;
          (bar, s) = cfg_get dev ep cfg_bar0 s
      in if bar AND 0x4 = 0 then None
      else do { s \<leftarrow> check_caps h (map_bar h ep s);
                let (cc, s) = reg32 h REG_CC s;
                let s = put_reg32 h REG_CC (cc AND NOT 1) s;
                s \<leftarrow> wait_ready h False s;
                s \<leftarrow> create_admin_queue h s;
                let s = put_reg32 h REG_CC (1 OR push_bit 16 6 OR push_bit 20 4) s;
                s \<leftarrow> wait_ready h True s;
                s \<leftarrow> ctrl_identify h s;
                let s = kprintf KMSG_LOGLEVEL_INFO ''Controller configured and reenabled.\<newline>'' [] s;
                namespaces_identify lit h s })"

end
