(* ===== verification/Pci.thy ===== *)
theory Pci
  imports Nvme_Init
begin

text \<open>
  The enumeration of PCI devices (\<^verbatim>\<open>pci/pci.c\<close>): every function of every device on the buses of
  the first allocation structure is probed, and an NVMe controller is handed to its driver. \<open>h\<close>
  stands for the hardware as in the driver.
\<close>

definition NVME_CLASS :: u8 where "NVME_CLASS = 0x1"
definition NVME_SUBCLASS :: u8 where "NVME_SUBCLASS = 0x8"

text \<open>\<^verbatim>\<open>struct mcfg\<close> and the first of its \<^verbatim>\<open>struct mcfg_csbaas\<close>.\<close>

definition sizeof_mcfg :: u64 where "sizeof_mcfg = 44"
definition sizeof_mcfg_csbaas :: u64 where "sizeof_mcfg_csbaas = 16"
definition csbaas_base_address :: "mem \<Rightarrow> ptr \<Rightarrow> u64" where "csbaas_base_address m p = load64 m p"
definition csbaas_seg_group_number :: "mem \<Rightarrow> ptr \<Rightarrow> u16" where "csbaas_seg_group_number m p = load16 m (p + 8)"
definition csbaas_start_bus_number :: "mem \<Rightarrow> ptr \<Rightarrow> u8" where "csbaas_start_bus_number m p = m (p + 10)"
definition csbaas_end_bus_number :: "mem \<Rightarrow> ptr \<Rightarrow> u8" where "csbaas_end_bus_number m p = m (p + 11)"

definition conf_addr :: "u64 \<Rightarrow> pci_addr \<Rightarrow> ptr" where
  "conf_addr base pa =
     addr_ensure_higher (base + scast ((push_bit 20 (ucast (bus pa)) OR push_bit 15 (ucast (slot pa)) OR
                                        push_bit 12 (ucast (func pa))) :: u32))"

text \<open>What is logged of an endpoint. \<^verbatim>\<open>sub_id\<close> is a byte of a value whose low half is masked out.\<close>

definition show_endpoint :: "device \<Rightarrow> ptr \<Rightarrow> 'z hw_scheme \<Rightarrow> 'z hw_scheme" where
  "show_endpoint dev ep s =
     (let (v, s) = cfg_get dev ep cfg_subsystem_vendor_id s;
          sub_vend_id = ucast (drop_bit 0 v AND 0xffff) :: u8;
          (v, s) = cfg_get dev ep cfg_subsystem_vendor_id s;
          sub_id = ucast (drop_bit 0x10 v AND 0xffff0000) :: u8;
          (v, s) = cfg_get dev ep cfg_int_line s;
          int_line = ucast (drop_bit 0 v AND 0xff) :: u8;
          (v, s) = cfg_get dev ep cfg_int_line s;
          int_pin = ucast (drop_bit 8 v AND 0xff) :: u8
      in kprintf KMSG_LOGLEVEL_INFO ''endpoint: subsystem vid/id=%x/%x, int_line=%d, int_pin=%d\<newline>''
           [ucast sub_vend_id, ucast sub_id, ucast int_line, ucast int_pin] s)"

definition enumerate_fn ::
  "(string \<Rightarrow> ptr) \<Rightarrow> nvme_env \<Rightarrow> u64 \<Rightarrow> pci_addr \<Rightarrow> 'z device_state_scheme \<Rightarrow> 'z device_state_scheme option" where
  "enumerate_fn lit h base pa s =
     (let dev = answers h; hdr = conf_addr base pa;
          (v, s) = cfg_get dev hdr cfg_vendor_id s;
          device_id = ucast (drop_bit 0x10 v AND 0xffff) :: u16;
          (v, s) = cfg_get dev hdr cfg_vendor_id s;
          vendor_id = ucast (drop_bit 0 v AND 0xffff) :: u16
      in if vendor_id = 0xffff \<or> device_id = 0xffff then Some s
      else
        let (v, s) = cfg_get dev hdr cfg_revision_id s; rev_id = ucast (drop_bit 0 v AND 0xff) :: u8;
            (v, s) = cfg_get dev hdr cfg_revision_id s; subclass = ucast (drop_bit 0x10 v AND 0xff) :: u8;
            (v, s) = cfg_get dev hdr cfg_revision_id s; cls = ucast (drop_bit 0x18 v AND 0xff) :: u8;
            s = kprintf KMSG_LOGLEVEL_INFO ''(%x:%x) %d/%d/%d: vendor:device.rev=%x:%x.%x\<newline>''
              [ucast cls, ucast subclass, ucast (bus pa), ucast (slot pa), ucast (func pa),
               ucast vendor_id, ucast device_id, ucast rev_id] s;
            (v, s) = cfg_get dev hdr cfg_cl_size s; header_type = ucast (drop_bit 0x10 v AND 0xff) :: u8
        in if header_type = HEADER_ENDPOINT then
             let s = show_endpoint dev hdr s in
             if cls = NVME_CLASS \<and> subclass = NVME_SUBCLASS then nvme_initialize_device lit h hdr pa s
             else Some s
           else Some s)"

text \<open>The two inner loops, flattened: devices and functions of a bus.\<close>

definition bus_functions :: "u8 \<Rightarrow> pci_addr list" where
  "bus_functions b =
     concat (map (\<lambda>d. map (\<lambda>f. \<lparr>bus = b, slot = of_nat d, func = of_nat f\<rparr>) [0..<8]) [0..<32])"

partial_function (option) scan_buses ::
  "(string \<Rightarrow> ptr) \<Rightarrow> nvme_env \<Rightarrow> ptr \<Rightarrow> u8 \<Rightarrow> 'z device_state_scheme \<Rightarrow> 'z device_state_scheme option" where
  "scan_buses lit h csbaas b s =
     (if b < csbaas_end_bus_number (kmem s) csbaas
      then Option.bind
             (for_each (\<lambda>pa s. enumerate_fn lit h (csbaas_base_address (kmem s) csbaas) pa s) (bus_functions b) s)
             (scan_buses lit h csbaas (b + 1))
      else Some s)"

definition pci_init ::
  "(string \<Rightarrow> ptr) \<Rightarrow> nvme_env \<Rightarrow> 'z device_state_scheme \<Rightarrow> 'z device_state_scheme option" where
  "pci_init lit h s =
     (let s = kprintf KMSG_LOGLEVEL_INFO ''Reached target pci.\<newline>'' [] s;
          csbaas_count = (ucast (hdr_length (kmem s) (mcfg s)) - sizeof_mcfg) div sizeof_mcfg_csbaas;
          s = kprintf KMSG_LOGLEVEL_INFO
            ''%d configuration space base address allocation struct(s) found, enumerating devices...\<newline>''
            [csbaas_count] s;
          c = mcfg s + sizeof_mcfg; m = kmem s;
          s = kprintf KMSG_LOGLEVEL_INFO ''base address=%a, segment group number=%d, start/end bus number=%d/%d\<newline>''
            [csbaas_base_address m c, ucast (csbaas_seg_group_number m c), ucast (csbaas_start_bus_number m c),
             ucast (csbaas_end_bus_number m c)] s
      in do { s \<leftarrow> scan_buses lit h c (csbaas_start_bus_number (kmem s) c) s;
              Some (kprintf KMSG_LOGLEVEL_OKAY ''Finished target pci.\<newline>'' [] s) })"

end
