(* ===== verification/Pci_Scan.thy ===== *)
theory Pci_Scan
  imports Pci Registry
begin

text \<open>
  What the search of a device's capabilities returns, and which functions the enumeration of the PCI
  devices looks at.
\<close>

section \<open>The list of capabilities\<close>

lemma u8_lt: "unat (x :: u8) < 256"
  using unsigned_less [of x] by simp

text \<open>
  The configuration space of a device that answers each read from a byte map \<open>cfg\<close>, whatever was
  accessed before, and the capabilities found by following the links.
\<close>

definition static_config :: "device \<Rightarrow> (ptr \<Rightarrow> u8) \<Rightarrow> bool" where
  "static_config dev cfg \<longleftrightarrow> (\<forall>p t. ucast (dev (Read8 p # t)) = cfg p)"

primrec cap_at :: "(ptr \<Rightarrow> u8) \<Rightarrow> ptr \<Rightarrow> ptr \<Rightarrow> nat \<Rightarrow> ptr" where
  "cap_at cfg conf_base hdr 0 = hdr"
| "cap_at cfg conf_base hdr (Suc k) = cap_at cfg conf_base (ucast (cfg (hdr + 1)) + conf_base) k"

lemma cap_reads:
  assumes "static_config dev cfg"
  obtains s1 s2 where "cap_id dev hdr s = (cfg hdr, s1)" "cap_next dev hdr s1 = (cfg (hdr + 1), s2)"
  using assms by (simp add: cap_id_def cap_next_def io_read_def static_config_def)

lemma cap_at_nonzero:
  assumes "\<And>n :: u8. ucast n + conf_base \<noteq> 0"
  shows "hdr \<noteq> 0 \<Longrightarrow> cap_at cfg conf_base hdr k \<noteq> 0"
  by (induction k arbitrary: hdr) (simp_all add: assms)

lemma pci_get_cap_from_found:
  fixes s :: "'z hw_scheme"
  assumes cfg: "static_config dev cfg" and high: "\<And>n :: u8. ucast n + conf_base \<noteq> 0" and "hdr \<noteq> 0"
    and "\<And>j. j < k \<Longrightarrow> ucast (cfg (cap_at cfg conf_base hdr j)) \<noteq> want"
    and "ucast (cfg (cap_at cfg conf_base hdr k)) = want"
  shows "\<exists>t. pci_get_cap_from dev hdr conf_base want s = Some (Some (cap_at cfg conf_base hdr k), t)"
  using assms(3-)
proof (induction k arbitrary: hdr s)
  case 0
  obtain s1 where "cap_id dev hdr s = (cfg hdr, s1)" by (rule cap_reads [OF cfg])
  with 0 show ?case by (subst pci_get_cap_from.simps) simp
next
  case (Suc k)
  let ?hdr = "ucast (cfg (hdr + 1)) + conf_base"
  have "ucast (cfg (cap_at cfg conf_base ?hdr j)) \<noteq> want" if "j < k" for j
    using Suc.prems(2) [of "Suc j"] that by simp
  then have "\<exists>t. pci_get_cap_from dev ?hdr conf_base want s2 = Some (Some (cap_at cfg conf_base ?hdr k), t)"
    for s2 :: "'z hw_scheme"
    using Suc.prems(3) high by (intro Suc.IH) simp_all
  moreover obtain s1 s2 where "cap_id dev hdr s = (cfg hdr, s1)" "cap_next dev hdr s1 = (cfg (hdr + 1), s2)"
    by (rule cap_reads [OF cfg])
  ultimately show ?case using Suc.prems(1) Suc.prems(2) [of 0] by (subst pci_get_cap_from.simps) simp
qed

lemma pci_get_cap_from_SomeD:
  fixes s :: "'z hw_scheme"
  assumes run: "pci_get_cap_from dev hdr conf_base want s = Some r"
  shows "static_config dev cfg \<Longrightarrow> (\<And>n :: u8. ucast n + conf_base \<noteq> 0) \<Longrightarrow> hdr \<noteq> 0 \<Longrightarrow>
    \<exists>k. ucast (cfg (cap_at cfg conf_base hdr k)) = want"
proof -
  have "static_config dev cfg \<longrightarrow> (\<forall>n :: u8. ucast n + conf_base \<noteq> 0) \<longrightarrow> hdr \<noteq> 0 \<longrightarrow>
      (\<exists>k. ucast (cfg (cap_at cfg conf_base hdr k)) = want)"
  proof (rule pci_get_cap_from.raw_induct [where P = "\<lambda>dev hdr conf_base want s r. static_config dev cfg \<longrightarrow>
      (\<forall>n :: u8. ucast n + conf_base \<noteq> 0) \<longrightarrow> hdr \<noteq> 0 \<longrightarrow>
      (\<exists>k. ucast (cfg (cap_at cfg conf_base hdr k)) = want)", OF _ run], intro impI)
    fix search dev hdr conf_base and want :: u16 and s :: "'z hw_scheme" and y :: "ptr option \<times> 'z hw_scheme"
    assume IH: "\<And>dev hdr conf_base (want :: u16) (s :: 'z hw_scheme) y. search dev hdr conf_base want s = Some y \<Longrightarrow>
        static_config dev cfg \<longrightarrow> (\<forall>n :: u8. ucast n + conf_base \<noteq> 0) \<longrightarrow> hdr \<noteq> 0 \<longrightarrow>
          (\<exists>k. ucast (cfg (cap_at cfg conf_base hdr k)) = want)"
      and step: "(if hdr = 0 then Some (None, s)
         else let (c, s) = cap_id dev hdr s
           in if ucast c = want then Some (Some hdr, s)
              else let (n, s) = cap_next dev hdr s in search dev (ucast n + conf_base) conf_base want s) = Some y"
      and cfg: "static_config dev cfg" and high: "\<forall>n :: u8. ucast n + conf_base \<noteq> 0" and hdr: "hdr \<noteq> 0"
    show "\<exists>k. ucast (cfg (cap_at cfg conf_base hdr k)) = want"
    proof (cases "ucast (cfg hdr) = want")
      case True
      then have "ucast (cfg (cap_at cfg conf_base hdr 0)) = want" by simp
      then show ?thesis ..
    next
      case False
      obtain s1 s2 where "cap_id dev hdr s = (cfg hdr, s1)" "cap_next dev hdr s1 = (cfg (hdr + 1), s2)"
        by (rule cap_reads [OF cfg])
      with step hdr False have "search dev (ucast (cfg (hdr + 1)) + conf_base) conf_base want s2 = Some y" by simp
      from IH [OF this] cfg high obtain k where
        "ucast (cfg (cap_at cfg conf_base hdr (Suc k))) = want" by auto
      then show ?thesis ..
    qed
  qed
  then show "static_config dev cfg \<Longrightarrow> (\<And>n :: u8. ucast n + conf_base \<noteq> 0) \<Longrightarrow> hdr \<noteq> 0 \<Longrightarrow>
    \<exists>k. ucast (cfg (cap_at cfg conf_base hdr k)) = want" by blast
qed

text \<open>C32: The search of a device's capabilities, for a configuration space that does not change while
  it runs and lies so that no byte offset reaches address 0: it returns exactly when following the links
  meets a capability with the wanted number, and then it gives the first such one. It never
  returns false: on a list that ends without the capability it goes on with whatever the link 0 leads to.\<close>

theorem pci_get_cap_correct:
  assumes "static_config dev cfg" and "\<And>n :: u8. ucast n + conf_base \<noteq> 0" and "cap_ptr + conf_base \<noteq> 0"
  shows "map_option fst (pci_get_cap dev cap_ptr conf_base want s) =
    (if \<exists>k. ucast (cfg (cap_at cfg conf_base (cap_ptr + conf_base) k)) = want
     then Some (Some (cap_at cfg conf_base (cap_ptr + conf_base)
       (LEAST k. ucast (cfg (cap_at cfg conf_base (cap_ptr + conf_base) k)) = want)))
     else None)"
proof (cases "\<exists>k. ucast (cfg (cap_at cfg conf_base (cap_ptr + conf_base) k)) = want")
  case True
  let ?P = "\<lambda>k. ucast (cfg (cap_at cfg conf_base (cap_ptr + conf_base) k)) = want"
  from True have "?P (LEAST k. ?P k)" by (rule LeastI_ex)
  moreover have "\<not> ?P j" if "j < (LEAST k. ?P k)" for j using that by (rule not_less_Least)
  ultimately show ?thesis
    using pci_get_cap_from_found [OF assms, of "LEAST k. ?P k" want s] True by (auto simp: pci_get_cap_def)
next
  case False
  with pci_get_cap_from_SomeD [of dev "cap_ptr + conf_base" conf_base want s _ cfg] assms show ?thesis
    by (cases "pci_get_cap dev cap_ptr conf_base want s") (auto simp: pci_get_cap_def)
qed

text \<open>An example space: capability 1 at offset 0x40 and capability 0x11 at offset 0x50.\<close>

definition ex_config :: "ptr \<Rightarrow> u8" where
  "ex_config = (\<lambda>_. 0)(0xffff8000e0000040 := 1, 0xffff8000e0000041 := 0x50, 0xffff8000e0000050 := 0x11)"

definition ex_config_device :: device where
  "ex_config_device t = (case t of Read8 p # _ \<Rightarrow> ucast (ex_config p) | _ \<Rightarrow> 0)"

theorem pci_get_cap_correct_witness:
  "map_option fst (pci_get_cap ex_config_device 0x40 0xffff8000e0000000 0x11 device_example) =
    Some (Some 0xffff8000e0000050)"
proof -
  have st: "static_config ex_config_device ex_config"
  proof -
    have "ucast (ucast b :: u64) = b" for b :: u8 by (rule bit_word_eqI) (simp add: bit_simps)
    then show ?thesis by (simp add: static_config_def ex_config_device_def)
  qed
  have high: "ucast n + 0xffff8000e0000000 \<noteq> (0 :: ptr)" for n :: u8
  proof -
    have "unat (ucast n + 0xffff8000e0000000 :: ptr) = unat n + 0xffff8000e0000000"
      using u8_lt [of n] by (simp add: unat_word_ariths unsigned_ucast_eq take_bit_eq_mod)
    then show ?thesis by (metis add_is_0 unat_0 zero_neq_numeral)
  qed
  let ?P = "\<lambda>k. ucast (ex_config (cap_at ex_config 0xffff8000e0000000 0xffff8000e0000040 k)) = (0x11 :: u16)"
  have P: "\<not> ?P 0" "?P (Suc 0)" by (simp_all add: ex_config_def)
  then have "(LEAST k. ?P k) = Suc 0" by (intro Least_equality) (auto simp: Suc_le_eq intro!: gr0I)
  moreover have "\<exists>k. ?P k" using P(2) by blast
  moreover have "cap_at ex_config 0xffff8000e0000000 0xffff8000e0000040 (Suc 0) = 0xffff8000e0000050"
    by (simp add: ex_config_def)
  ultimately show ?thesis
    using pci_get_cap_correct [OF st high, of "0x40" "0x11" device_example] by simp
qed

section \<open>The enumeration\<close>

lemma for_each_cong_inv:
  assumes eq: "\<And>x s. I s \<Longrightarrow> f x s = g x s" and keep: "\<And>x s t. I s \<Longrightarrow> g x s = Some t \<Longrightarrow> I t" and "I s"
  shows "for_each f xs s = for_each g xs s \<and> (\<forall>t. for_each g xs s = Some t \<longrightarrow> I t)"
  using assms(3)
proof (induction xs arbitrary: s)
  case (Cons x xs)
  show ?case
  proof (cases "g x s")
    case (Some u)
    from Cons.IH [OF keep [OF Cons.prems Some]] eq [OF Cons.prems, of x] Some show ?thesis by simp
  qed (simp add: eq [OF Cons.prems])
qed simp

definition functions_between :: "u8 \<Rightarrow> u8 \<Rightarrow> pci_addr list" where
  "functions_between b e = concat (map bus_functions (map of_nat [unat b..<unat e]))"

lemma bus_functions_iff: "pa \<in> set (bus_functions b) \<longleftrightarrow> bus pa = b \<and> slot pa < 32 \<and> func pa < 8"
proof -
  have n: "(\<exists>n<k. x = of_nat n) \<longleftrightarrow> unat x < k" if "k < 256" for x :: u8 and k
  proof
    assume "\<exists>n<k. x = of_nat n"
    then show "unat x < k" using that by (auto simp: unat_of_nat)
  qed (auto intro!: exI [of _ "unat x"])
  have "pa \<in> set (bus_functions b) \<longleftrightarrow>
      bus pa = b \<and> (\<exists>d<32. slot pa = of_nat d) \<and> (\<exists>f<8. func pa = of_nat f)"
  proof -
    have "set (bus_functions b) =
        (\<Union>d\<in>{0..<32}. \<Union>f\<in>{0..<8}. {\<lparr>bus = b, slot = of_nat d, func = of_nat f\<rparr>})"
      by (auto simp: bus_functions_def)
    then show ?thesis by (cases pa) auto
  qed
  then show ?thesis by (simp add: n word_less_nat_alt)
qed

lemma distinct_concat_key:
  assumes "distinct (map f xs)" and "\<And>x. x \<in> set xs \<Longrightarrow> distinct (g x) \<and> (\<forall>y\<in>set (g x). k y = f x)"
  shows "distinct (concat (map g xs))"
  using assms
proof (induction xs)
  case (Cons x xs)
  have "k y \<in> f ` set xs" if "y \<in> set (concat (map g xs))" for y
    using that Cons.prems(2) by auto
  moreover have "k y \<notin> f ` set xs" if "y \<in> set (g x)" for y
    using that Cons.prems(1) Cons.prems(2) [of x] by auto
  ultimately show ?case using Cons by auto
qed simp

lemma distinct_of_nat_u8: "n \<le> 256 \<Longrightarrow> distinct (map (of_nat :: nat \<Rightarrow> u8) [m..<n])"
  by (auto simp: distinct_map inj_on_def word_unat_eq_iff unat_of_nat)

lemma functions_between_distinct: "distinct (functions_between b e)"
proof -
  have slots: "distinct (bus_functions b')" for b'
    unfolding bus_functions_def
    by (rule distinct_concat_key [where f = of_nat and k = slot])
      (use distinct_of_nat_u8 [of 32 0] distinct_of_nat_u8 [of 8 0] in \<open>auto simp: distinct_map inj_on_def\<close>)
  have "unat e \<le> 256" using u8_lt [of e] by simp
  then show ?thesis
    unfolding functions_between_def
    by (intro distinct_concat_key [where f = id and k = bus])
      (use slots distinct_of_nat_u8 in \<open>auto simp: bus_functions_iff\<close>)
qed

lemma functions_between_iff:
  "pa \<in> set (functions_between b e) \<longleftrightarrow> b \<le> bus pa \<and> bus pa < e \<and> slot pa < 32 \<and> func pa < 8"
proof -
  have "(\<exists>n. unat b \<le> n \<and> n < unat e \<and> bus pa = of_nat n) \<longleftrightarrow> b \<le> bus pa \<and> bus pa < e"
    using u8_lt [of e] by (auto simp: word_le_nat_alt word_less_nat_alt unat_of_nat intro!: exI [of _ "unat (bus pa)"])
  then show ?thesis by (auto simp: functions_between_def bus_functions_iff)
qed

lemma scan_buses_functions:
  assumes keep: "\<And>pa s t. I s \<Longrightarrow> enumerate_fn lit h base pa s = Some t \<Longrightarrow> I t"
    and table: "\<And>s. I s \<Longrightarrow> csbaas_base_address (kmem s) c = base \<and> csbaas_end_bus_number (kmem s) c = e"
    and "I s"
  shows "scan_buses lit h c b s = for_each (enumerate_fn lit h base) (functions_between b e) s"
  using assms(3)
proof (induction "unat e - unat b" arbitrary: b s)
  case 0
  then show ?case
    using table [OF 0(2)] by (subst scan_buses.simps) (simp add: functions_between_def word_less_nat_alt)
next
  case (Suc n)
  have lt: "b < e" using Suc(2) by (simp add: word_less_nat_alt)
  have b1: "unat (b + 1) = Suc (unat b)" using lt u8_lt [of e] by (simp add: unat_word_ariths word_less_nat_alt)
  have split: "functions_between b e = bus_functions b @ functions_between (b + 1) e"
    using lt by (simp add: functions_between_def b1 upt_rec [of "unat b"] word_less_nat_alt)
  have "for_each (\<lambda>pa s. enumerate_fn lit h (csbaas_base_address (kmem s) c) pa s) (bus_functions b) s =
      for_each (enumerate_fn lit h base) (bus_functions b) s \<and>
      (\<forall>t. for_each (enumerate_fn lit h base) (bus_functions b) s = Some t \<longrightarrow> I t)"
    by (rule for_each_cong_inv [where I = I]) (use keep table Suc(3) in simp_all)
  then show ?case
    using lt table [OF Suc(3)] Suc(1) [of "b + 1"] Suc(2)
    by (subst scan_buses.simps) (auto simp: split for_each_append b1 split: Option.bind_split)
qed

text \<open>C31: The enumeration of the PCI devices probes, one after the other, exactly the 8 functions of the 32
  devices of each bus from the start bus up to but without the end bus of the allocation structure, each
  once: the end bus, which the specification of the structure includes, is left out. This holds
  as long as probing a function does not change the allocation structure.\<close>

theorem scan_buses_covers:
  assumes "\<And>pa s t. I s \<Longrightarrow> enumerate_fn lit h base pa s = Some t \<Longrightarrow> I t"
    and "\<And>s. I s \<Longrightarrow> csbaas_base_address (kmem s) c = base \<and> csbaas_end_bus_number (kmem s) c = e"
    and "I s"
  shows "\<exists>pas. scan_buses lit h c b s = for_each (enumerate_fn lit h base) pas s \<and> distinct pas \<and>
    set pas = {pa. b \<le> bus pa \<and> bus pa < e \<and> slot pa < 32 \<and> func pa < 8}"
proof (intro exI conjI)
  show "scan_buses lit h c b s = for_each (enumerate_fn lit h base) (functions_between b e) s"
    by (rule scan_buses_functions [where I = I]) (fact assms)+
  show "set (functions_between b e) = {pa. b \<le> bus pa \<and> bus pa < e \<and> slot pa < 32 \<and> func pa < 8}"
    by (auto simp: functions_between_iff)
qed (rule functions_between_distinct)

text \<open>A machine without devices: every read gives ones.\<close>

definition pci_absent :: nvme_env where
  "pci_absent = \<lparr>answers = (\<lambda>_. 0xffffffff), dma = (\<lambda>_ m. m), controller = 0, read_blocks_fn = 0\<rparr>"

definition csbaas_mem :: mem where
  "csbaas_mem = (\<lambda>_. 0)(0xffff80000000002f := 0xe0, 0xffff800000000036 := 1, 0xffff800000000037 := 3)"

lemma enumerate_absent:
  fixes s :: "'z device_state_scheme"
  obtains t where "enumerate_fn lit pci_absent base pa s = Some t" "kmem t = kmem s"
  by (intro that [of "snd (cfg_get (answers pci_absent) (conf_addr base pa) cfg_vendor_id
      (snd (cfg_get (answers pci_absent) (conf_addr base pa) cfg_vendor_id s)))"])
    (simp_all add: enumerate_fn_def Let_def cfg_get_def io_read_def pci_absent_def)

theorem scan_buses_covers_witness:
  "\<exists>pas. scan_buses lit_example pci_absent 0xffff80000000002c 1 (device_example\<lparr>kmem := csbaas_mem\<rparr>) =
      for_each (enumerate_fn lit_example pci_absent 0xe0000000) pas (device_example\<lparr>kmem := csbaas_mem\<rparr>) \<and>
    distinct pas \<and> set pas = {pa. 1 \<le> bus pa \<and> bus pa < 3 \<and> slot pa < 32 \<and> func pa < 8}"
proof (rule scan_buses_covers [where I = "\<lambda>s. kmem s = csbaas_mem"])
  show "kmem t = csbaas_mem" if "kmem s = csbaas_mem" "enumerate_fn lit_example pci_absent 0xe0000000 pa s = Some t"
    for pa and s t :: device_state
    using that enumerate_absent [of lit_example "0xe0000000" pa s] by fastforce
qed (simp_all add: csbaas_base_address_def csbaas_end_bus_number_def load64_def csbaas_mem_def)

end
