(* ===== verification/Partition_Load.thy ===== *)
theory Partition_Load
  imports Partition
begin

text \<open>
  What loading the entries of a partition table leaves in memory: the entries in use, in order and
  without gaps.
\<close>

definition used_entries :: "mem \<Rightarrow> ptr \<Rightarrow> nat \<Rightarrow> nat \<Rightarrow> nat list" where
  "used_entries m lba2 sz n = filter (\<lambda>i. entry_first_lba m (lba2 + of_nat (i * sz)) \<noteq> 0) [0..<n]"

lemma memcpy_regions:
  assumes "region dst l \<inter> region src l = {}" "0 < l" "l < 18446744073709551616"
  shows "memcpy m dst src (of_nat l) a = (if a \<in> region dst l then m (src + (a - dst)) else m a)"
proof -
  have l: "unat (of_nat l :: u64) = l" using assms(3) by (simp add: unat_of_nat_u64)
  have "dst \<in> region dst l" using assms(2) by (simp add: region_def)
  then have "dst \<notin> region src l" using assms(1) by blast
  then have "of_nat l \<le> dst - src" by (simp add: region_def word_le_nat_alt l)
  then show ?thesis by (simp add: memcpy_disjoint region_def word_less_nat_alt l)
qed

text \<open>
  The state of the loop after \<open>i\<close> entries of the table at \<open>lba2\<close>: the first places of the array
  at \<open>dst\<close> hold the used ones, the table itself and the other fields of the structure are untouched.
\<close>

definition loaded :: "ptr \<Rightarrow> ptr \<Rightarrow> ptr \<Rightarrow> nat \<Rightarrow> nat \<Rightarrow> mem \<Rightarrow> nat \<Rightarrow> mem \<Rightarrow> bool" where
  "loaded gpt lba2 dst sz n m i m' \<longleftrightarrow>
     (let u = used_entries m lba2 sz i in
      gpt_entries_count m' gpt = of_nat (length u) \<and>
      (\<forall>a \<in> region gpt 520 \<union> region (gpt + 528) 16 \<union> region lba2 (n * sz). m' a = m a) \<and>
      (\<forall>j<length u. \<forall>k<128. m' (dst + of_nat (128 * j + k)) = m (lba2 + of_nat (u ! j * sz + k))))"

definition load_layout :: "ptr \<Rightarrow> ptr \<Rightarrow> ptr \<Rightarrow> nat \<Rightarrow> nat \<Rightarrow> mem \<Rightarrow> bool" where
  "load_layout gpt lba2 dst sz n m \<longleftrightarrow> 128 \<le> sz \<and> sz < 4294967296 \<and> n < 4294967296 \<and>
     gpt_pentry_count m gpt = of_nat n \<and> gpt_pentry_size m gpt = of_nat sz \<and> gpt_entries m gpt = dst \<and>
     region lba2 (n * sz) \<inter> region gpt 544 = {} \<and>
     region dst (n * 128) \<inter> (region gpt 544 \<union> region lba2 (n * sz)) = {}"

lemma region_apart:
  fixes p :: ptr
  assumes "k + l \<le> k'" "k' + l' \<le> 18446744073709551616"
  shows "region (p + of_nat k) l \<inter> region (p + of_nat k') l' = {}"
proof -
  have False if a: "a \<in> region (p + of_nat k) l" "a \<in> region (p + of_nat k') l'" for a
  proof -
    obtain i where i: "i < l" "a = p + of_nat k + of_nat i" using region_offset [OF a(1)] by blast
    obtain i' where i': "i' < l'" "a = p + of_nat k' + of_nat i'" using region_offset [OF a(2)] by blast
    have "(of_nat (k + i) :: u64) = of_nat (k' + i')" using i(2) i'(2) by (simp add: add.assoc)
    then have "unat (of_nat (k + i) :: u64) = unat (of_nat (k' + i') :: u64)" by simp
    then show False using i(1) i'(1) assms by (simp only: unat_of_nat_u64)
  qed
  then show ?thesis by blast
qed

lemma load_entry_mem:
  fixes s :: "'z partition_state_scheme"
  shows "kmem (load_entry gpt e s) =
    (let m = kmem s; n = gpt_entries_count m gpt; m1 = set_gpt_entries_count gpt (n + 1) m
     in if entry_first_lba m e = 0 then m else memcpy m1 (gpt_entries m1 gpt + sizeof_gpt_entry * n) e sizeof_gpt_entry)"
  by (simp add: load_entry_def Let_def on_mem_def)

lemma load_layoutD:
  assumes "load_layout gpt lba2 dst sz n m"
  shows "128 \<le> sz" "n * sz \<le> 18446744073709551616" "n * 128 \<le> 18446744073709551616" "gpt_entries m gpt = dst"
    "a \<in> region dst (n * 128) \<Longrightarrow> a \<notin> region gpt 544 \<and> a \<notin> region lba2 (n * sz)"
    "a \<in> region lba2 (n * sz) \<Longrightarrow> a \<notin> region gpt 544"
  using assms mult_mono [of n 4294967296 sz 4294967296] by (auto simp: load_layout_def)

lemma gpt_regions:
  "region gpt 520 \<subseteq> region gpt 544" "region (gpt + of_nat 520) 8 \<subseteq> region gpt 544"
  "region (gpt + of_nat 528) 16 \<subseteq> region gpt 544"
  "region gpt 520 \<inter> region (gpt + of_nat 520) 8 = {}"
  "region (gpt + of_nat 520) 8 \<inter> region (gpt + of_nat 528) 16 = {}"
  using region_sub [of 520 8 544 gpt] region_sub [of 528 16 544 gpt] region_apart [of 0 520 520 8 gpt]
    region_apart [of 520 8 528 16 gpt] by (auto simp: region_def)

text \<open>The round for an entry in use: the counter is raised, the entry is copied behind the others.\<close>

lemma load_entry_used:
  fixes s :: "'z partition_state_scheme"
  assumes lay: "load_layout gpt lba2 dst sz n m" and ld: "loaded gpt lba2 dst sz n m i (kmem s)" and i: "i < n"
    and used: "entry_first_lba (kmem s) (lba2 + of_nat (i * sz)) \<noteq> 0"
  defines "e \<equiv> lba2 + of_nat (i * sz)" and "c \<equiv> length (used_entries m lba2 sz i)"
  defines "D \<equiv> dst + of_nat (128 * c)" and "m2 \<equiv> kmem (load_entry gpt (lba2 + of_nat (i * sz)) s)"
  shows "c \<le> i" and "region D 128 \<subseteq> region dst (n * 128)"
    and "gpt_entries_count m2 gpt = of_nat (Suc c)"
    and "\<And>k. k < 128 \<Longrightarrow> m2 (D + of_nat k) = kmem s (e + of_nat k)"
    and "\<And>a. a \<notin> region D 128 \<Longrightarrow> a \<notin> region (gpt + of_nat 520) 8 \<Longrightarrow> m2 a = kmem s a"
proof -
  let ?m1 = "set_gpt_entries_count gpt (of_nat c + 1) (kmem s)"
  note lay' = load_layoutD [OF lay] and g = gpt_regions [of gpt]
  show cn: "c \<le> i" using length_filter_le [of _ "[0..<i]"] by (simp add: c_def used_entries_def)
  show Dsub: "region D 128 \<subseteq> region dst (n * 128)" unfolding D_def using cn i lay'(3) by (intro region_sub) simp_all
  have "i * sz + sz \<le> n * sz" using i by (metis Suc_leI add.commute mult_Suc mult_le_mono1)
  then have Esub: "region e 128 \<subseteq> region lba2 (n * sz)" unfolding e_def using lay'(1,2) by (intro region_sub) simp_all
  have m1: "?m1 a = kmem s a" if "a \<notin> region (gpt + of_nat 520) 8" for a
    using store64_region [OF that, of 0] by (simp add: set_gpt_entries_count_def)
  have "?m1 a = m a" if "a \<in> region (gpt + of_nat 528) 16" for a
  proof -
    have "a \<notin> region (gpt + of_nat 520) 8" using that g(5) by blast
    then show ?thesis using that ld by (simp add: m1 loaded_def Let_def)
  qed
  then have "load64 ?m1 (gpt + of_nat 528 + of_nat 0) = load64 m (gpt + of_nat 528 + of_nat 0)"
    by (intro load64_region [where n = 16]) simp_all
  then have "gpt_entries ?m1 gpt = dst" using lay'(4) by (simp add: gpt_entries_def)
  moreover have "gpt_entries_count (kmem s) gpt = of_nat c" using ld by (simp add: loaded_def Let_def c_def)
  ultimately have "m2 = memcpy ?m1 D e (of_nat 128)"
    using used unfolding m2_def load_entry_mem Let_def by (simp add: sizeof_gpt_entry_def D_def e_def)
  moreover have "region D 128 \<inter> region e 128 = {}" using Dsub Esub lay'(5) by blast
  ultimately have m2: "m2 a = (if a \<in> region D 128 then ?m1 (e + (a - D)) else ?m1 a)" for a
    by (simp only: memcpy_regions)
  show "m2 a = kmem s a" if "a \<notin> region D 128" "a \<notin> region (gpt + of_nat 520) 8" for a
    using that by (simp only: m2 m1 if_False not_False_eq_True)
  have "m2 a = ?m1 a" if "a \<in> region (gpt + of_nat 520) 8" for a
    using that g(2) Dsub lay'(5) unfolding m2 by (subst if_not_P) blast+
  then have "load64 m2 (gpt + of_nat 520 + of_nat 0) = load64 ?m1 (gpt + of_nat 520 + of_nat 0)"
    by (intro load64_region [where n = 8]) simp_all
  then show "gpt_entries_count m2 gpt = of_nat (Suc c)"
    by (simp add: gpt_entries_count_def set_gpt_entries_count_def)
  fix k :: nat assume k: "k < 128"
  then have "D + of_nat k \<in> region D 128" "e + of_nat k \<in> region e 128" by (auto intro: in_region)
  then have "m2 (D + of_nat k) = ?m1 (e + (D + of_nat k - D))" "e + of_nat k \<notin> region (gpt + of_nat 520) 8"
    using g(2) lay'(6) Esub unfolding m2 by (simp, blast)
  then show "m2 (D + of_nat k) = kmem s (e + of_nat k)" by (simp add: m1)
qed

lemma loaded_step:
  fixes s :: "'z partition_state_scheme"
  assumes lay: "load_layout gpt lba2 dst sz n m" and ld: "loaded gpt lba2 dst sz n m i (kmem s)" and i: "i < n"
  shows "loaded gpt lba2 dst sz n m (Suc i) (kmem (load_entry gpt (lba2 + of_nat (i * sz)) s))"
proof -
  let ?e = "lba2 + of_nat (i * sz)" and ?u = "used_entries m lba2 sz i"
  let ?c = "length ?u" and ?m2 = "kmem (load_entry gpt (lba2 + of_nat (i * sz)) s)"
  let ?D = "dst + of_nat (128 * ?c)"
  note lay' = load_layoutD [OF lay] and g = gpt_regions [of gpt]
  have isz: "i * sz + sz \<le> n * sz" using i by (metis Suc_leI add.commute mult_Suc mult_le_mono1)
  have keep: "kmem s a = m a" if "a \<in> region gpt 520 \<or> a \<in> region (gpt + 528) 16 \<or> a \<in> region lba2 (n * sz)" for a
    using ld that by (auto simp: loaded_def Let_def)
  have "load64 (kmem s) (lba2 + of_nat (i * sz + 32)) = load64 m (lba2 + of_nat (i * sz + 32))"
    using keep isz lay'(1,2) by (intro load64_region [where n = "n * sz"]) simp_all
  then have fl: "entry_first_lba (kmem s) ?e = entry_first_lba m ?e" by (simp add: entry_first_lba_def add.assoc)
  show ?thesis
  proof (cases "entry_first_lba m ?e = 0")
    case True
    then have "?m2 = kmem s" "used_entries m lba2 sz (Suc i) = ?u"
      unfolding load_entry_mem Let_def fl by (simp_all add: used_entries_def)
    then show ?thesis using ld by (simp only: loaded_def)
  next
    case False
    note r = load_entry_used [OF lay ld i False [folded fl]]
    have u: "used_entries m lba2 sz (Suc i) = ?u @ [i]" using False by (simp add: used_entries_def)
    have kept: "?m2 a = m a" if "a \<in> region gpt 520 \<union> region (gpt + 528) 16 \<union> region lba2 (n * sz)" for a
    proof -
      have in544: "a \<in> region gpt 544 \<or> a \<in> region lba2 (n * sz)" using that g(1,3) by auto
      have "a \<notin> region ?D 128"
      proof
        assume "a \<in> region ?D 128"
        then have "a \<in> region dst (n * 128)" using r(2) by blast
        from lay'(5) [OF this] in544 show False by blast
      qed
      moreover have "a \<notin> region (gpt + of_nat 520) 8" using that g lay'(6) by auto
      ultimately have "?m2 a = kmem s a" by (rule r(5))
      then show ?thesis using that keep by auto
    qed
    have data: "?m2 (dst + of_nat (128 * j + k)) = m (lba2 + of_nat ((?u @ [i]) ! j * sz + k))"
      if "j < length (?u @ [i])" "k < 128" for j k
    proof (cases "j = ?c")
      case True
      have "kmem s (?e + of_nat k) = m (?e + of_nat k)"
        using keep in_region [of "i * sz + k" "n * sz" lba2] that(2) isz lay'(1,2) by (simp add: add.assoc)
      then show ?thesis using r(4) [OF that(2)] True by (simp add: add.assoc)
    next
      case False
      then have j: "j < ?c" using that(1) by simp
      have "dst + of_nat (128 * j + k) \<in> region (dst + of_nat (128 * j)) 128"
        using in_region [of k 128 "dst + of_nat (128 * j)"] that(2) by (simp add: add.assoc)
      moreover have "region (dst + of_nat (128 * j)) 128 \<inter> region ?D 128 = {}"
        using j r(1) i lay'(3) by (intro region_apart) simp_all
      ultimately have "dst + of_nat (128 * j + k) \<notin> region ?D 128" by blast
      moreover have "dst + of_nat (128 * j + k) \<in> region dst (n * 128)"
        using j r(1) i that(2) lay'(3) by (intro in_region) simp_all
      then have "dst + of_nat (128 * j + k) \<notin> region (gpt + of_nat 520) 8" using g(2) lay'(5) by blast
      ultimately have "?m2 (dst + of_nat (128 * j + k)) = kmem s (dst + of_nat (128 * j + k))" by (rule r(5))
      then show ?thesis using ld j that(2) by (simp add: loaded_def Let_def nth_append)
    qed
    show ?thesis unfolding loaded_def Let_def u using r(3) kept data by simp
  qed
qed

lemma load_entries_loop:
  fixes s :: "'z partition_state_scheme"
  assumes "load_layout gpt lba2 dst sz n m" and "loaded gpt lba2 dst sz n m i (kmem s)" and "i \<le> n"
  shows "\<exists>t. load_entries gpt lba2 (of_nat i) s = Some t \<and> loaded gpt lba2 dst sz n m n (kmem t)"
proof -
  have n: "n < 4294967296" "sz < 4294967296" using assms(1) by (simp_all add: load_layout_def)
  have idx: "ucast (gpt_pentry_count (kmem s) gpt) = (of_nat n :: u64)"
    "ucast (gpt_pentry_size (kmem s) gpt) = (of_nat sz :: u64)"
    if "loaded gpt lba2 dst sz n m i (kmem s)" for i and s :: "'z partition_state_scheme"
  proof -
    have keep: "kmem s a = m a" if "a \<in> region gpt 520" for a
      using that \<open>loaded gpt lba2 dst sz n m i (kmem s)\<close> by (simp add: loaded_def Let_def)
    have "load32 (kmem s) (gpt + of_nat 80) = load32 m (gpt + of_nat 80)"
      "load32 (kmem s) (gpt + of_nat 84) = load32 m (gpt + of_nat 84)"
      using load32_region [where p = gpt and n = 520 and m = "kmem s" and m' = m and k = 80]
        load32_region [where p = gpt and n = 520 and m = "kmem s" and m' = m and k = 84] keep by simp_all
    then have "gpt_pentry_count (kmem s) gpt = of_nat n" "gpt_pentry_size (kmem s) gpt = of_nat sz"
      using assms(1) by (simp_all add: load_layout_def gpt_pentry_count_def gpt_pentry_size_def)
    then show "ucast (gpt_pentry_count (kmem s) gpt) = (of_nat n :: u64)"
      "ucast (gpt_pentry_size (kmem s) gpt) = (of_nat sz :: u64)"
      using n by (simp_all add: u64_eq_iff_unat unat_of_nat_u64 unsigned_ucast_eq take_bit_eq_mod unat_of_nat)
  qed
  show ?thesis using assms(2,3)
proof (induction "n - i" arbitrary: i s)
  case (0 i s)
  then have "i = n" by simp
  with 0 idx [OF 0(2)] show ?case by (subst load_entries.simps) (auto simp: n)
next
  case (Suc k i s)
  have i: "i < n" using Suc(2) by simp
  have ld: "loaded gpt lba2 dst sz n m (Suc i) (kmem (load_entry gpt (lba2 + of_nat (i * sz)) s))"
    by (rule loaded_step [OF assms(1) Suc(3) i])
  have "\<exists>t. load_entries gpt lba2 (of_nat (Suc i)) (load_entry gpt (lba2 + of_nat (i * sz)) s) = Some t \<and>
      loaded gpt lba2 dst sz n m n (kmem t)"
    using Suc(2) i by (intro Suc(1) ld) simp_all
  then show ?case using idx [OF Suc(3)] i n by (subst load_entries.simps) (simp add: word_less_nat_alt unat_of_nat_u64 add.commute)
qed
qed

text \<open>C21: Loading the entries of a partition table returns, and the array then holds exactly the entries
  of the table whose first block is not 0, in the order of the table and without gaps, their number is
  the count, and the table read from the drive is as it was. The table's entries have at least the
  size of the structure, and the structure, the table and the array lie apart.\<close>

theorem load_entries_correct:
  assumes "load_layout gpt lba2 dst sz n (kmem s)" and "gpt_entries_count (kmem s) gpt = 0"
  shows "\<exists>t. load_entries gpt lba2 0 s = Some t \<and>
    gpt_entries_count (kmem t) gpt = of_nat (length (used_entries (kmem s) lba2 sz n)) \<and>
    (\<forall>a \<in> region lba2 (n * sz). kmem t a = kmem s a) \<and>
    (\<forall>j<length (used_entries (kmem s) lba2 sz n). \<forall>k<128. kmem t (dst + of_nat (128 * j + k)) =
       kmem s (lba2 + of_nat (used_entries (kmem s) lba2 sz n ! j * sz + k)))"
proof -
  have "loaded gpt lba2 dst sz n (kmem s) 0 (kmem s)" using assms(2) by (simp add: loaded_def used_entries_def)
  from load_entries_loop [OF assms(1) this] show ?thesis by (auto simp: loaded_def Let_def)
qed

text \<open>A table of two entries of 128 bytes, the second in use.\<close>

definition partition_mem :: mem where
  "partition_mem = store64 ((\<lambda>_. 0)(0xffff810000001050 := 2, 0xffff810000001054 := 0x80,
     0xffff8100000020a0 := 34, 0xffff8100000020b8 := 0x41)) 0xffff810000001210 0xffff810000003000"

definition partition_example :: partition_state where
  "partition_example = kernel.extend (sched_example\<lparr>kmem := partition_mem\<rparr>) (partition_state.fields (\<lambda>_. 0))"

theorem load_entries_correct_witness:
  "\<exists>t. load_entries 0xffff810000001000 0xffff810000002000 0 partition_example = Some t \<and>
    gpt_entries_count (kmem t) 0xffff810000001000 = 1 \<and> kmem t 0xffff810000003038 = 0x41"
proof -
  have m: "kmem partition_example = partition_mem" by (simp add: partition_example_def kernel.defs)
  have "region 0xffff810000002000 256 \<inter> region (0xffff810000001000 :: ptr) 544 = {}"
    "region 0xffff810000003000 256 \<inter> region (0xffff810000001000 :: ptr) 544 = {}"
    "region 0xffff810000003000 256 \<inter> region (0xffff810000002000 :: ptr) 256 = {}"
    using region_apart [of 0 544 4096 256 "0xffff810000001000"] region_apart [of 0 544 8192 256 "0xffff810000001000"]
      region_apart [of 4096 256 8192 256 "0xffff810000001000"] by (simp_all add: Int_commute)
  then have lay: "load_layout 0xffff810000001000 0xffff810000002000 0xffff810000003000 128 2 (kmem partition_example)"
    unfolding m load_layout_def Int_Un_distrib
    by (simp add: gpt_pentry_count_def gpt_pentry_size_def gpt_entries_def partition_mem_def load32_def store64_def load64_def)
  have count: "gpt_entries_count (kmem partition_example) 0xffff810000001000 = 0"
    by (simp add: m gpt_entries_count_def partition_mem_def load64_def store64_def)
  have used: "used_entries partition_mem 0xffff810000002000 128 2 = [1]"
    by (simp add: used_entries_def upt_rec entry_first_lba_def partition_mem_def load64_def store64_def)
  from load_entries_correct [OF lay count] obtain t where t:
    "load_entries 0xffff810000001000 0xffff810000002000 0 partition_example = Some t"
    "gpt_entries_count (kmem t) 0xffff810000001000 = 1"
    "\<forall>j<1. \<forall>k<128. kmem t (0xffff810000003000 + of_nat (128 * j + k)) =
       partition_mem (0xffff810000002000 + of_nat ([1] ! j * 128 + k))"
    unfolding m used by auto
  from t(3) [rule_format, of 0 56] have "kmem t 0xffff810000003038 = 0x41" by (simp add: partition_mem_def store64_def)
  with t show ?thesis by blast
qed

end
