(* ===== verification/Cpuinfo.thy ===== *)
theory Cpuinfo
  imports Hw
begin

text \<open>
  The description of the processor (\<^verbatim>\<open>cpu/cpuinfo.c\<close>). The instruction \<^verbatim>\<open>cpuid\<close> is a
  parameter that gives the four registers for a leaf, and \<open>id_flag\<close> says whether the flag that
  announces the instruction can be changed. Strings are lists of bytes of the size of their arrays.
\<close>

record cpuinfo =
  supported :: bool
  brand_string :: "u8 list"
  vendor_string :: "u8 list"
  stepping :: u16
  model :: u16
  family :: u16
  processor_type :: u16
  featureset :: u64
  base_frequency :: u16
  max_frequency :: u16
  bus_frequency :: u16
  tsc_ratio_denom :: u32
  tsc_ratio_numer :: u32
  core_crystal_freq :: u32

type_synonym cpuid = "u32 \<Rightarrow> u32 \<times> u32 \<times> u32 \<times> u32"

section \<open>The code\<close>

text \<open>\<^verbatim>\<open>*(uint32_t*)(bs + k) = v\<close> in an array of bytes.\<close>

definition put32 :: "nat \<Rightarrow> u32 \<Rightarrow> u8 list \<Rightarrow> u8 list" where
  "put32 k v bs = bs[k := ucast v, k + 1 := ucast (drop_bit 8 v),
     k + 2 := ucast (drop_bit 16 v), k + 3 := ucast (drop_bit 24 v)]"

definition put_brand :: "cpuid \<Rightarrow> nat \<Rightarrow> u8 list \<Rightarrow> u8 list" where
  "put_brand cpuid i bs =
     (case cpuid (0x80000002 + of_nat i) of (a, b, c, d) \<Rightarrow>
        put32 (12 + i * 16) d (put32 (8 + i * 16) c (put32 (4 + i * 16) b (put32 (0 + i * 16) a bs))))"

definition cut_spaces :: "nat \<Rightarrow> u8 list \<Rightarrow> u8 list" where
  "cut_spaces i bs = (if bs ! i = 0x20 \<and> bs ! (i + 1) = 0x20 then bs[i := 0] else bs)"

definition cpuinfo_version :: "u32 \<Rightarrow> cpuinfo \<Rightarrow> cpuinfo" where
  "cpuinfo_version a r =
     (let r = r\<lparr>stepping := ucast (drop_bit 0 a AND 0xf), model := ucast (drop_bit 4 a AND 0xf),
                family := ucast (drop_bit 8 a AND 0xf), processor_type := ucast (drop_bit 12 a AND 0x3)\<rparr>;
          emodel_id = ucast (drop_bit 16 a AND 0xf) :: u16;
          efamily_id = ucast (drop_bit 20 a AND 0xff) :: u16;
          r = (if family r = 6 \<or> family r = 15 then r\<lparr>model := model r + push_bit 4 emodel_id\<rparr> else r)
      in if family r = 15 then r\<lparr>family := family r + efamily_id\<rparr> else r)"

definition cpuinfo_initialize :: "bool \<Rightarrow> cpuid \<Rightarrow> cpuinfo \<Rightarrow> cpuinfo" where
  "cpuinfo_initialize id_flag cpuid r =
     (if \<not> id_flag then r\<lparr>supported := False\<rparr>
      else
        let r = r\<lparr>brand_string := fold (put_brand cpuid) [0..<3] (brand_string r)\<rparr>;
            r = r\<lparr>brand_string := fold cut_spaces [0..<47] (brand_string r)\<rparr>;
            r = r\<lparr>vendor_string := (vendor_string r)[12 := 0]\<rparr>;
            (a, b, c, d) = cpuid 0x0;
            r = r\<lparr>vendor_string := put32 8 c (put32 4 d (put32 0 b (vendor_string r)))\<rparr>;
            (a, b, c, d) = cpuid 0x1;
            r = cpuinfo_version a r;
            r = r\<lparr>featureset := ucast d OR push_bit 32 (ucast c)\<rparr>;
            (a, b, c, d) = cpuid 0x16;
            r = r\<lparr>base_frequency := ucast (a AND 0xffff), max_frequency := ucast (b AND 0xffff),
                  bus_frequency := ucast (c AND 0xffff)\<rparr>;
            (a, b, c, d) = cpuid 0x15
        in r\<lparr>tsc_ratio_denom := a, tsc_ratio_numer := b, core_crystal_freq := c\<rparr>)"

definition cpu_featureset :: "string list" where
  "cpu_featureset =
     [''fpu'', ''vme'', ''de'', ''pse'',
      ''tsc'', ''msr'', ''pae'', ''mce'',
      ''cx8'', ''apic'', ''RESERVED'', ''sep'',
      ''mtrr'', ''pge'', ''mca'', ''cmov'',
      ''pat'', ''pse-36'', ''psn'', ''clfsh'',
      ''RESERVED'', ''ds'', ''acpi'', ''mmx'',
      ''fxsr'', ''sse'', ''sse2'', ''ss'',
      ''htt'', ''tm'', ''ia64'', ''pbe'',
      ''sse3'', ''pclmulqdq'', ''dtes64'', ''monitor'',
      ''ds-cpl'', ''vmx'', ''smx'', ''est'',
      ''tm2'', ''ssse3'', ''cnxt-id'', ''sdbg'',
      ''fma'', ''xc16'', ''xtpr'', ''pdcm'',
      ''RESERVED'', ''pcid'', ''dca'', ''sse4.1'',
      ''sse4.2'', ''x2apic'', ''movbe'', ''popcnt'',
      ''tsc-deadline'', ''aes'', ''xsave'', ''osxsave'',
      ''avx'', ''f16c'', ''rdrnd'', ''hypervisor'']"

text \<open>The static variable before the call.\<close>

definition cpuinfo_zero :: cpuinfo where
  "cpuinfo_zero =
     \<lparr>supported = False, brand_string = replicate 48 0, vendor_string = replicate 13 0, stepping = 0,
      model = 0, family = 0, processor_type = 0, featureset = 0, base_frequency = 0, max_frequency = 0,
      bus_frequency = 0, tsc_ratio_denom = 0, tsc_ratio_numer = 0, core_crystal_freq = 0\<rparr>"

end
