(* ===== verification/Boot.thy ===== *)
theory Boot
  imports Pci Descriptors Terminal Cpuinfo
begin

text \<open>
  The start of the kernel (\<^verbatim>\<open>start.c\<close>, \<^verbatim>\<open>libk/libk.c\<close>): the tags of the bootloader, the
  messages about the machine, and the order in which the components are initialised. The state gathers
  those of the components: memory and drivers, processor description, segment and interrupt
  descriptors, console. The tags are read from memory at the offsets of \<^verbatim>\<open>stivale2.h\<close>.
\<close>

record boot = device_state +
  cpu_info :: cpuinfo
  elf_test_1 :: ptr
  elf_test_2 :: ptr
  segments :: cpu_segments
  interrupts :: cpu_idt
  screen :: console

section \<open>The tags of the bootloader\<close>

definition tag_identifier :: "mem \<Rightarrow> ptr \<Rightarrow> u64" where "tag_identifier m p = load64 m p"
definition tag_next :: "mem \<Rightarrow> ptr \<Rightarrow> ptr" where "tag_next m p = load64 m (p + 8)"
definition stivale2_tags :: "mem \<Rightarrow> ptr \<Rightarrow> ptr" where "stivale2_tags m p = load64 m (p + 128)"

partial_function (option) find_tag :: "mem \<Rightarrow> ptr \<Rightarrow> u64 \<Rightarrow> ptr option" where
  "find_tag m current_tag tid =
     (if current_tag = 0 then Some 0
      else if tag_identifier m current_tag = tid then Some current_tag
      else find_tag m (tag_next m current_tag) tid)"

definition stivale2_get_tag :: "mem \<Rightarrow> ptr \<Rightarrow> u64 \<Rightarrow> ptr option" where
  "stivale2_get_tag m stivale2_struct tid = find_tag m (stivale2_tags m stivale2_struct) tid"

definition STIVALE2_STRUCT_TAG_CMDLINE_ID :: u64 where "STIVALE2_STRUCT_TAG_CMDLINE_ID = 0xe5e76a1b4597a781"
definition STIVALE2_STRUCT_TAG_MEMMAP_ID :: u64 where "STIVALE2_STRUCT_TAG_MEMMAP_ID = 0x2187f79e8612de07"
definition STIVALE2_STRUCT_TAG_FRAMEBUFFER_ID :: u64 where "STIVALE2_STRUCT_TAG_FRAMEBUFFER_ID = 0x506461d2950408fa"
definition STIVALE2_STRUCT_TAG_MODULES_ID :: u64 where "STIVALE2_STRUCT_TAG_MODULES_ID = 0x4b6fe466aade04ce"
definition STIVALE2_STRUCT_TAG_RSDP_ID :: u64 where "STIVALE2_STRUCT_TAG_RSDP_ID = 0x9e1786930a375e78"
definition STIVALE2_STRUCT_TAG_EPOCH_ID :: u64 where "STIVALE2_STRUCT_TAG_EPOCH_ID = 0x566a7bed888e1407"
definition STIVALE2_STRUCT_TAG_FIRMWARE_ID :: u64 where "STIVALE2_STRUCT_TAG_FIRMWARE_ID = 0x359d837855e3858c"
definition STIVALE2_STRUCT_TAG_EFI_SYSTEM_TABLE_ID :: u64 where "STIVALE2_STRUCT_TAG_EFI_SYSTEM_TABLE_ID = 0x4bc5ec15845b558e"
definition STIVALE2_STRUCT_TAG_KERNEL_FILE_ID :: u64 where "STIVALE2_STRUCT_TAG_KERNEL_FILE_ID = 0xe599d90c2975584a"
definition STIVALE2_STRUCT_TAG_KERNEL_SLIDE_ID :: u64 where "STIVALE2_STRUCT_TAG_KERNEL_SLIDE_ID = 0xee80847d01506c57"
definition STIVALE2_STRUCT_TAG_MMIO32_UART :: u64 where "STIVALE2_STRUCT_TAG_MMIO32_UART = 0xb813f9b8dbc78797"

text \<open>The word behind the tag's header is the payload of most tags.\<close>

definition tag_word :: "mem \<Rightarrow> ptr \<Rightarrow> u64" where "tag_word m p = load64 m (p + 16)"

definition load_mmap_entry :: "mem \<Rightarrow> ptr \<Rightarrow> stivale2_mmap_entry" where
  "load_mmap_entry m p =
     \<lparr>entry_base = load64 m p, entry_length = load64 m (p + 8), entry_type = load32 m (p + 16)\<rparr>"

definition load_memmap :: "mem \<Rightarrow> ptr \<Rightarrow> stivale2_mmap_entry list" where
  "load_memmap m p = map (\<lambda>i. load_mmap_entry m (p + 24 + 24 * of_nat i)) [0..<unat (load64 m (p + 16))]"

definition load_framebuffer_tag :: "mem \<Rightarrow> ptr \<Rightarrow> stivale2_struct_tag_framebuffer" where
  "load_framebuffer_tag m p =
     \<lparr>framebuffer_addr = load64 m (p + 16), framebuffer_width = load16 m (p + 24),
      framebuffer_height = load16 m (p + 26), framebuffer_pitch = load16 m (p + 28),
      framebuffer_bpp = load16 m (p + 30), memory_model = m (p + 32), red_mask_size = m (p + 33),
      red_mask_shift = m (p + 34), green_mask_size = m (p + 35), green_mask_shift = m (p + 36),
      blue_mask_size = m (p + 37), blue_mask_shift = m (p + 38), unused = m (p + 39)\<rparr>"

definition module_count :: "mem \<Rightarrow> ptr \<Rightarrow> u64" where "module_count m p = load64 m (p + 16)"
definition module_at :: "ptr \<Rightarrow> nat \<Rightarrow> ptr" where "module_at p i = p + 24 + 144 * of_nat i"
definition module_begin :: "mem \<Rightarrow> ptr \<Rightarrow> u64" where "module_begin m p = load64 m p"
definition module_end :: "mem \<Rightarrow> ptr \<Rightarrow> u64" where "module_end m p = load64 m (p + 8)"
definition module_string :: "ptr \<Rightarrow> ptr" where "module_string p = p + 16"

section \<open>Messages about the machine\<close>

definition welcome_message :: "'z hw_scheme \<Rightarrow> 'z hw_scheme" where
  "welcome_message s = kprintf KMSG_LOGLEVEL_NONE
     (''\<newline>     _              _  ___  ____\<newline>'' @
      '' ___| |__   ___  __| |/ _ '' @ [CHR 92] @ ''/ ___|\<newline>'' @
      ''/ __| '_ '' @ [CHR 92] @ '' / _ '' @ [CHR 92] @ ''/ _` | | | '' @ [CHR 92] @ ''___ '' @ [CHR 92] @ ''\<newline>'' @
      [CHR 92] @ ''__ '' @ [CHR 92] @ '' | | |  __/ (_| | |_| |___) |\<newline>'' @
      ''|___/_| |_|'' @ [CHR 92] @ ''___|'' @ [CHR 92] @ ''__,_|'' @ [CHR 92] @ ''___/|____/\<newline>\<newline>'') [] s"

text \<open>One tag of the list: absent, it is passed over.\<close>

definition with_tag ::
  "ptr \<Rightarrow> u64 \<Rightarrow> (ptr \<Rightarrow> 'z hw_scheme \<Rightarrow> 'z hw_scheme option) \<Rightarrow> 'z hw_scheme \<Rightarrow> 'z hw_scheme option" where
  "with_tag st tid f s = do { p \<leftarrow> stivale2_get_tag (kmem s) st tid; if p = 0 then Some s else f p s }"

definition show_word :: "string \<Rightarrow> ptr \<Rightarrow> 'z hw_scheme \<Rightarrow> 'z hw_scheme option" where
  "show_word fmt p s = Some (kprintf KMSG_LOGLEVEL_INFO fmt [tag_word (kmem s) p] s)"

definition show_firmware :: "(string \<Rightarrow> ptr) \<Rightarrow> ptr \<Rightarrow> ptr \<Rightarrow> 'z hw_scheme \<Rightarrow> 'z hw_scheme option" where
  "show_firmware lit st p s =
     (let efi = tag_word (kmem s) p AND 0x1 \<noteq> 0;
          s = kprintf KMSG_LOGLEVEL_INFO ''Firmware: %s\<newline>'' [lit (if efi then ''UEFI'' else ''BIOS'')] s
      in if efi then with_tag st STIVALE2_STRUCT_TAG_EFI_SYSTEM_TABLE_ID (show_word ''EFI system table at %a\<newline>'') s
         else Some s)"

definition load_module :: "(string \<Rightarrow> ptr) \<Rightarrow> ptr \<Rightarrow> 'z boot_scheme \<Rightarrow> 'z boot_scheme option" where
  "load_module lit md s =
     (let s = kprintf KMSG_LOGLEVEL_NONE ''|-> begin=%a, end=%a, desc=%s\<newline>''
            [module_begin (kmem s) md, module_end (kmem s) md, module_string md] s
      in do { r1 \<leftarrow> strcmp (kmem s) (module_string md) (lit ''testelf1'');
              let s = (if r1 = 0 then s\<lparr>elf_test_1 := module_begin (kmem s) md\<rparr> else s);
              r2 \<leftarrow> strcmp (kmem s) (module_string md) (lit ''testelf2'');
              Some (if r2 = 0 then s\<lparr>elf_test_2 := module_begin (kmem s) md\<rparr> else s) })"

definition load_modules :: "(string \<Rightarrow> ptr) \<Rightarrow> ptr \<Rightarrow> 'z boot_scheme \<Rightarrow> 'z boot_scheme option" where
  "load_modules lit p s =
     (let n = module_count (kmem s) p;
          s = kprintf KMSG_LOGLEVEL_INFO ''%d modules loaded\<newline>'' [n] s
      in for_each (\<lambda>i. load_module lit (module_at p i)) [0..<unat n] s)"

definition dump_stivale_info :: "(string \<Rightarrow> ptr) \<Rightarrow> ptr \<Rightarrow> 'z boot_scheme \<Rightarrow> 'z boot_scheme option" where
  "dump_stivale_info lit st s =
     do { s \<leftarrow> with_tag st STIVALE2_STRUCT_TAG_EPOCH_ID (show_word ''UNIX epoch at boot: %d\<newline>'') s;
          s \<leftarrow> with_tag st STIVALE2_STRUCT_TAG_FIRMWARE_ID (show_firmware lit st) s;
          s \<leftarrow> with_tag st STIVALE2_STRUCT_TAG_CMDLINE_ID (show_word ''Kernel cmdline: %s\<newline>'') s;
          s \<leftarrow> with_tag st STIVALE2_STRUCT_TAG_MODULES_ID (load_modules lit) s;
          s \<leftarrow> with_tag st STIVALE2_STRUCT_TAG_KERNEL_FILE_ID (show_word ''Kernel file at %a\<newline>'') s;
          s \<leftarrow> with_tag st STIVALE2_STRUCT_TAG_KERNEL_SLIDE_ID (show_word ''Kernel slide of %x\<newline>'') s;
          with_tag st STIVALE2_STRUCT_TAG_MMIO32_UART (show_word ''MMIO UART at %a\<newline>'') s }"

text \<open>\<open>vendor\<close> and \<open>brand\<close> are the addresses of the two strings.\<close>

definition dump_cpu :: "(string \<Rightarrow> ptr) \<Rightarrow> ptr \<Rightarrow> ptr \<Rightarrow> cpuinfo \<Rightarrow> 'z hw_scheme \<Rightarrow> 'z hw_scheme" where
  "dump_cpu lit vendor brand c s =
     (let s = kprintf KMSG_LOGLEVEL_NONE
            ''CPU: %s (%s)\<newline>|-> stepping=%d, model=%d, family=%d, processor_type=%d\<newline>|-> base freq=%d, max freq=%d, bus freq=%d\<newline>|-> tsc=%d/%d, core crystal freq=%d\<newline>''
            [vendor, brand, scast (stepping c), scast (model c), scast (family c), scast (processor_type c),
             scast (base_frequency c), scast (max_frequency c), scast (bus_frequency c),
             scast (tsc_ratio_numer c), scast (tsc_ratio_denom c), scast (core_crystal_freq c)] s;
          s = kprintf KMSG_LOGLEVEL_NONE ''|-> features: '' [] s;
          s = fold (\<lambda>i s. if i = 10 \<or> i = 20 \<or> i = 47 then s
                          else if drop_bit i (featureset c) AND 0x1 \<noteq> 0
                          then kprintf KMSG_LOGLEVEL_NONE ''%s '' [lit (cpu_featureset ! i)] s else s)
                [0..<64] s
      in kprintf KMSG_LOGLEVEL_NONE ''\<newline>'' [] s)"

definition mmap_type_name :: "u32 \<Rightarrow> string" where
  "mmap_type_name t =
     (if t = 0x1 then ''USABLE'' else if t = 0x2 then ''RESERVED'' else if t = 0x3 then ''ACPI_RECLAIMABLE''
      else if t = 0x4 then ''ACPI_NVS'' else if t = 0x5 then ''BAD_MEMORY''
      else if t = 0x1000 then ''BOOTLOADER_RECLAIMABLE''
      else if t = 0x1001 then ''KERNEL_AND_MODULES'' else ''UNKNOWN'')"

definition dump_memory :: "(string \<Rightarrow> ptr) \<Rightarrow> stivale2_mmap_entry list \<Rightarrow> 'z hw_scheme \<Rightarrow> 'z hw_scheme" where
  "dump_memory lit mmap s =
     fold (\<lambda>e. kprintf KMSG_LOGLEVEL_NONE ''|-> %a - %a, type=%s\<newline>''
             [entry_base e, entry_base e + entry_length e, lit (mmap_type_name (entry_type e))])
       mmap (kprintf KMSG_LOGLEVEL_INFO ''Memory map:\<newline>'' [] s)"

section \<open>Start\<close>

definition libk_init :: "'z vm_scheme \<Rightarrow> 'z vm_scheme option" where
  "libk_init s = malloc_init s"

text \<open>What the linker, the hardware and the loader fix.\<close>

record boot_env =
  lit :: "string \<Rightarrow> ptr"
  hw_answers :: device
  rsi_leftover :: "io list \<Rightarrow> u64"
  junk :: "nat \<Rightarrow> u8 \<times> u32"
  id_flag :: bool
  cpuid_leaf :: cpuid
  vendor_addr :: ptr
  brand_addr :: ptr
  tss_addr :: u64
  gdt_addr :: u64
  idt_addr :: u64
  exception_stubs :: "u64 list"
  isr34_addr :: u64
  isr128_addr :: u64
  stack_interrupts :: ptr
  pixels :: "int \<Rightarrow> u32"

definition start_console :: "boot_env \<Rightarrow> stivale2_struct_tag_framebuffer \<Rightarrow> 'z boot_scheme \<Rightarrow> 'z boot_scheme option" where
  "start_console e fb s =
     (let term_width = (uint (framebuffer_width fb) - 16) sdiv 8;
          term_height = (uint (framebuffer_height fb) - 16) sdiv 16
      in do { (_, s) \<leftarrow> malloc s (scast (ucast (framebuffer_height fb) * ucast (framebuffer_pitch fb) :: u32)) 0;
              c \<leftarrow> framebuffer_initialize fb (fb_buffer (screen s)) (pixels e) (screen s);
              c \<leftarrow> terminal_initialize term_width term_height c;
              let s = s\<lparr>screen := c\<rparr>;
              let s = kprintf KMSG_LOGLEVEL_INFO ''Term dimensions: %dx%d\<newline>'' [of_int term_width, of_int term_height] s;
              Some (kprintf KMSG_LOGLEVEL_OKAY ''Finished target terminal.\<newline>'' [] s) })"

definition show_resources :: "stivale2_struct_tag_framebuffer \<Rightarrow> 'z boot_scheme \<Rightarrow> 'z boot_scheme" where
  "show_resources fb s =
     (let s = kprintf KMSG_LOGLEVEL_INFO
            ''Total memory: %dKiB (%d pages).\<newline>Total usable amount of memory: %dKiB (%d pages).\<newline>''
            [total_memory s div 0x400, total_memory s div 0x1000, free_memory s div 0x400, free_memory s div 0x1000] s
      in kprintf KMSG_LOGLEVEL_OKAY
           ''Framebuffer initialized with dimension of %dx%d, base address of %a, red mask/size %x/%x, green mask/size %x/%x, blue mask/size %x/%x and %dbpp.\<newline>''
           [ucast (framebuffer_width fb), ucast (framebuffer_height fb), framebuffer_addr fb,
            ucast (red_mask_shift fb), ucast (red_mask_size fb), ucast (green_mask_shift fb),
            ucast (green_mask_size fb), ucast (blue_mask_shift fb), ucast (blue_mask_size fb),
            ucast (framebuffer_bpp fb)] s)"

text \<open>The kernel leaves through the first task: the result is the frame it starts in.\<close>

definition start :: "boot_env \<Rightarrow> ptr \<Rightarrow> 'z boot_scheme \<Rightarrow> (interrupt_frame \<times> 'z boot_scheme) option" where
  "start e st s =
     do { mm \<leftarrow> stivale2_get_tag (kmem s) st STIVALE2_STRUCT_TAG_MEMMAP_ID;
          let mmap = load_memmap (kmem s) mm;
          s \<leftarrow> pmm_initialize s mmap;
          s \<leftarrow> paging_initialize s mmap;
          s \<leftarrow> libk_init s;
          p \<leftarrow> stivale2_get_tag (kmem s) st STIVALE2_STRUCT_TAG_FRAMEBUFFER_ID;
          let fb = load_framebuffer_tag (kmem s) p;
          s \<leftarrow> start_console e fb s;
          let s = welcome_message s;
          s \<leftarrow> dump_stivale_info (lit e) st s;
          let s = show_resources fb s;
          let s = s\<lparr>cpu_info := cpuinfo_initialize (id_flag e) (cpuid_leaf e) (cpu_info s)\<rparr>;
          let s = dump_cpu (lit e) (vendor_addr e) (brand_addr e) (cpu_info s) s;
          let s = dump_memory (lit e) mmap s;
          let s = s\<lparr>segments := gdt_initialize (tss_addr e) (gdt_addr e) (stack_interrupts e) (segments s)\<rparr>;
          r \<leftarrow> stivale2_get_tag (kmem s) st STIVALE2_STRUCT_TAG_RSDP_ID;
          s \<leftarrow> sdt_initialize (lit e) (tag_word (kmem s) r) s;
          let s = s\<lparr>interrupts := idt_initialize (exception_stubs e) (isr34_addr e) (isr128_addr e) (idt_addr e) (interrupts s)\<rparr>;
          s \<leftarrow> apic_initialize (hw_answers e) (rsi_leftover e) (junk e) (madt s) s;
          s \<leftarrow> timer_initialize (hw_answers e) s;
          (_, s) \<leftarrow> vfs_file_open (lit e ''A:/home/bastian/asdf.xyz'') s;
          (task_1, s) \<leftarrow> task_create (kernel_table s) (elf_test_1 s) s;
          let (tid, s) = task_new_tid s;
          let s = on_mem (set_task_id task_1 tid) s;
          let s = on_mem (set_task_next task_1 task_1) s;
          Some (sched_run task_1 s) }"

end
