(* ===== verification/Boot_Run.thy ===== *)
theory Boot_Run
  imports Boot
begin

text \<open>
  What the start of the kernel reads about the machine: the tag that the search of the bootloader's
  list gives, and the description of the processor.
\<close>

section \<open>The list of tags\<close>

definition tag_at :: "mem \<Rightarrow> ptr \<Rightarrow> nat \<Rightarrow> ptr" where
  "tag_at m p k = (tag_next m ^^ k) p"

lemma tag_at_simps [simp]:
  "tag_at m p 0 = p" "tag_at m p (Suc k) = tag_at m (tag_next m p) k"
  by (simp_all add: tag_at_def funpow_swap1)

definition tag_ends :: "mem \<Rightarrow> u64 \<Rightarrow> ptr \<Rightarrow> bool" where
  "tag_ends m tid p \<longleftrightarrow> p = 0 \<or> tag_identifier m p = tid"

lemma find_tag_Some:
  assumes "\<And>j. j < k \<Longrightarrow> \<not> tag_ends m tid (tag_at m p j)" "tag_ends m tid (tag_at m p k)"
  shows "find_tag m p tid = Some (tag_at m p k)"
  using assms
proof (induction k arbitrary: p)
  case 0
  then show ?case by (subst find_tag.simps) (auto simp: tag_ends_def)
next
  case (Suc k)
  have "find_tag m (tag_next m p) tid = Some (tag_at m (tag_next m p) k)"
    using Suc.prems(1) [of "Suc j" for j] Suc.prems(2) by (intro Suc.IH) simp_all
  with Suc.prems(1) [of 0] show ?case by (subst find_tag.simps) (simp add: tag_ends_def)
qed

lemma find_tag_SomeD:
  assumes "find_tag m p tid = Some r"
  shows "\<exists>k. tag_ends m tid (tag_at m p k)"
proof (rule find_tag.raw_induct [where P = "\<lambda>m p tid r. \<exists>k. tag_ends m tid (tag_at m p k)", OF _ assms])
  fix search m p tid and y :: ptr
  assume IH: "\<And>m p tid y. search m p tid = Some y \<Longrightarrow> \<exists>k. tag_ends m tid (tag_at m p k)"
    and step: "(if p = 0 then Some 0 else if tag_identifier m p = tid then Some p
      else search m (tag_next m p) tid) = Some y"
  show "\<exists>k. tag_ends m tid (tag_at m p k)"
  proof (cases "tag_ends m tid p")
    case True
    then have "tag_ends m tid (tag_at m p 0)" by simp
    then show ?thesis ..
  next
    case False
    then have "search m (tag_next m p) tid = Some y" using step by (simp add: tag_ends_def)
    from IH [OF this] obtain k where "tag_ends m tid (tag_at m p (Suc k))" by auto
    then show ?thesis ..
  qed
qed

text \<open>C34: Looking for a tag of the bootloader returns exactly when the list, followed from its head, ends
  or holds a tag with the wanted number; then the result is the first such tag, and NULL when the list
  ends before. On a list that runs in a circle without the number the kernel hangs.\<close>

theorem stivale2_get_tag_correct:
  "stivale2_get_tag m st tid =
    (if \<exists>k. tag_ends m tid (tag_at m (stivale2_tags m st) k)
     then Some (tag_at m (stivale2_tags m st) (LEAST k. tag_ends m tid (tag_at m (stivale2_tags m st) k)))
     else None)"
proof (cases "\<exists>k. tag_ends m tid (tag_at m (stivale2_tags m st) k)")
  case True
  let ?P = "\<lambda>k. tag_ends m tid (tag_at m (stivale2_tags m st) k)"
  from True have "?P (LEAST k. ?P k)" by (rule LeastI_ex)
  moreover have "\<not> ?P j" if "j < (LEAST k. ?P k)" for j using that by (rule not_less_Least)
  ultimately show ?thesis
    using find_tag_Some [of "LEAST k. ?P k" m tid "stivale2_tags m st"] True by (simp add: stivale2_get_tag_def)
next
  case False
  with find_tag_SomeD [of m "stivale2_tags m st" tid] show ?thesis
    by (cases "stivale2_get_tag m st tid") (auto simp: stivale2_get_tag_def)
qed

section \<open>The description of the processor\<close>

definition le32 :: "u32 \<Rightarrow> u8 list" where
  "le32 v = [ucast v, ucast (drop_bit 8 v), ucast (drop_bit 16 v), ucast (drop_bit 24 v)]"

definition brand_bytes :: "cpuid \<Rightarrow> nat \<Rightarrow> u8 list" where
  "brand_bytes cpuid i = (case cpuid (0x80000002 + of_nat i) of (a, b, c, d) \<Rightarrow> le32 a @ le32 b @ le32 c @ le32 d)"

text \<open>The name of the processor up to the first two spaces in a row.\<close>

fun before_gap :: "u8 list \<Rightarrow> u8 list" where
  "before_gap (a # b # bs) = (if a = 0x20 \<and> b = 0x20 then [] else a # before_gap (b # bs))"
| "before_gap bs = bs"

fun cut_gaps :: "u8 list \<Rightarrow> u8 list" where
  "cut_gaps (a # b # bs) = (if a = 0x20 \<and> b = 0x20 then 0 else a) # cut_gaps (b # bs)"
| "cut_gaps bs = bs"

lemma list_cases4:
  obtains "length xs < 4" | w x y z ys where "xs = w # x # y # z # ys"
  by (cases xs rule: remdups_adj.cases; cases "tl (tl xs)" rule: remdups_adj.cases) auto

lemma put32_bytes:
  assumes "k + 4 \<le> length bs"
  shows "put32 k v bs = take k bs @ le32 v @ drop (k + 4) bs"
proof -
  obtain w x y z ys where "drop k bs = w # x # y # z # ys"
  proof -
    have "Suc (Suc (Suc (Suc 0))) \<le> length (drop k bs)" using assms by simp
    then show thesis using that by (cases "drop k bs" rule: list_cases4) auto
  qed
  moreover have "bs = take k bs @ drop k bs" by simp
  ultimately obtain xs where bs: "bs = xs @ w # x # y # z # ys" "length xs = k"
    using assms by (metis length_take min.absorb2 add_leE)
  show ?thesis by (simp add: put32_def bs le32_def list_update_append flip: bs(2))
qed

lemma put_brand_bytes:
  assumes "16 * i + 16 \<le> length bs"
  shows "put_brand cpuid i bs = take (16 * i) bs @ brand_bytes cpuid i @ drop (16 * i + 16) bs"
proof -
  have "drop (i * 16 + 16) bs = drop (16 + i * 16) bs" by (simp add: add.commute)
  then show ?thesis
    using assms by (simp add: put_brand_def brand_bytes_def put32_bytes le32_def mult.commute split: prod.split)
qed

lemma length_brand_bytes [simp]: "length (brand_bytes cpuid i) = 16"
  by (simp add: brand_bytes_def le32_def split: prod.split)

lemma brand_fold:
  assumes "length bs = 48"
  shows "fold (put_brand cpuid) [0..<3] bs = brand_bytes cpuid 0 @ brand_bytes cpuid 1 @ brand_bytes cpuid 2"
  using assms by (simp add: upt_rec put_brand_bytes numeral_3_eq_3 numeral_2_eq_2)

lemma cut_gaps_nth:
  "length (cut_gaps bs) = length bs"
  "i < length bs \<Longrightarrow> cut_gaps bs ! i = (if Suc i < length bs \<and> bs ! i = 0x20 \<and> bs ! Suc i = 0x20 then 0 else bs ! i)"
  by (induction bs arbitrary: i rule: cut_gaps.induct) (auto simp: nth_Cons split: nat.split)

lemma cut_spaces_fold:
  assumes "n < length bs"
  shows "length (fold cut_spaces [0..<n] bs) = length bs \<and> (\<forall>i<length bs. fold cut_spaces [0..<n] bs ! i =
    (if i < n \<and> bs ! i = 0x20 \<and> bs ! Suc i = 0x20 then 0 else bs ! i))"
  using assms
  by (induction n) (auto simp: cut_spaces_def nth_list_update less_Suc_eq)

lemma cut_spaces_gaps:
  assumes "length bs = Suc n"
  shows "fold cut_spaces [0..<n] bs = cut_gaps bs"
  using cut_spaces_fold [where n = n and bs = bs] cut_gaps_nth [where bs = bs] assms by (auto intro!: nth_equalityI)

definition processor_name :: "cpuid \<Rightarrow> u8 list" where
  "processor_name cpuid = brand_bytes cpuid 0 @ brand_bytes cpuid 1 @ brand_bytes cpuid 2"

lemma cut_gaps_before: "takeWhile (\<lambda>b. b \<noteq> 0) (cut_gaps bs) = takeWhile (\<lambda>b. b \<noteq> 0) (before_gap bs)"
  by (induction bs rule: cut_gaps.induct) auto

lemma uint_field:
  fixes a :: u32
  assumes "n \<le> 16"
  shows "uint (ucast (drop_bit k a AND mask n) :: u16) = uint a div 2 ^ k mod 2 ^ n"
proof -
  have "uint a mod 4294967296 = uint a" using uint_bounded [of a] by simp
  then show ?thesis
    using assms
    by (simp add: take_bit_eq_mask [symmetric] unsigned_ucast_eq unsigned_take_bit_eq unsigned_drop_bit_eq min_absorb2)
      (simp add: take_bit_eq_mod drop_bit_eq_div)
qed

lemma cpuinfo_version_fields:
  "uint (family (cpuinfo_version a r)) =
     (let f = uint a div 2 ^ 8 mod 16 in if f = 15 then f + uint a div 2 ^ 20 mod 256 else f)"
  "uint (model (cpuinfo_version a r)) =
     (let f = uint a div 2 ^ 8 mod 16; n = uint a div 2 ^ 4 mod 16
      in if f = 6 \<or> f = 15 then n + 16 * (uint a div 2 ^ 16 mod 16) else n)"
  "brand_string (cpuinfo_version a r) = brand_string r" "vendor_string (cpuinfo_version a r) = vendor_string r"
  "supported (cpuinfo_version a r) = supported r"
proof -
  have masks: "(0xf :: u32) = mask 4" "(0xff :: u32) = mask 8" "(0x3 :: u32) = mask 2"
    by (simp_all add: mask_eq_exp_minus_1)
  define f m em ef where "f = (ucast (drop_bit 8 a AND 0xf) :: u16)" and "m = (ucast (drop_bit 4 a AND 0xf) :: u16)"
    and "em = (ucast (drop_bit 16 a AND 0xf) :: u16)" and "ef = (ucast (drop_bit 20 a AND 0xff) :: u16)"
  have u: "uint f = uint a div 2 ^ 8 mod 16" "uint m = uint a div 2 ^ 4 mod 16"
    "uint em = uint a div 2 ^ 16 mod 16" "uint ef = uint a div 2 ^ 20 mod 256"
    unfolding f_def m_def em_def ef_def masks
    by (rule trans [OF uint_field], simp, simp)+
  have eq: "f = 15 \<longleftrightarrow> uint f = 15" "f = 6 \<longleftrightarrow> uint f = 6" by (simp_all add: word_uint_eq_iff)
  have "uint f < 16" "uint m < 16" "uint em < 16" "uint ef < 256" by (simp_all add: u)
  then have small: "uint f + uint ef < 65536" "16 * uint em < 65536" "uint m + 16 * uint em < 65536" by linarith+
  have pm: "uint (push_bit 4 em) = 16 * uint em"
    using small(2) by (simp add: push_bit_eq_mult uint_word_ariths mult.commute)
  have sums: "uint (f + ef) = uint f + uint ef" "uint (m + push_bit 4 em) = uint m + 16 * uint em"
    using small unfolding uint_word_ariths pm by simp_all
  have v: "family (cpuinfo_version a r) = (if f = 15 then f + ef else f)"
    "model (cpuinfo_version a r) = (if f = 6 \<or> f = 15 then m + push_bit 4 em else m)"
    by (simp_all add: cpuinfo_version_def Let_def f_def m_def em_def ef_def)
  show "uint (family (cpuinfo_version a r)) =
     (let f = uint a div 2 ^ 8 mod 16 in if f = 15 then f + uint a div 2 ^ 20 mod 256 else f)"
    "uint (model (cpuinfo_version a r)) =
     (let f = uint a div 2 ^ 8 mod 16; n = uint a div 2 ^ 4 mod 16
      in if f = 6 \<or> f = 15 then n + 16 * (uint a div 2 ^ 16 mod 16) else n)"
    unfolding v Let_def u [symmetric] by (simp_all add: sums eq)
  show "brand_string (cpuinfo_version a r) = brand_string r" "vendor_string (cpuinfo_version a r) = vendor_string r"
    "supported (cpuinfo_version a r) = supported r"
    by (simp_all add: cpuinfo_version_def Let_def)
qed

text \<open>C35: The description of the processor after \<^verbatim>\<open>cpuinfo_initialize\<close>. As a C string the brand is the
  48 bytes of the three brand leaves up to the first NUL or the first two spaces in a row, the
  vendor is the bytes of ebx, edx and ecx of leaf 0 and a NUL, the features are edx and ecx of leaf 1,
  the model and family include the extended fields for the families that have them. The flag
  \<^verbatim>\<open>supported\<close> stays as it was: nothing ever sets it.\<close>

theorem cpuinfo_initialize_correct:
  assumes "length (brand_string r) = 48" and "length (vendor_string r) = 13"
    and "cpuid 0 = (a0, b0, c0, d0)" and "cpuid 1 = (a1, b1, c1, d1)"
  shows "takeWhile (\<lambda>b. b \<noteq> 0) (brand_string (cpuinfo_initialize True cpuid r)) =
      takeWhile (\<lambda>b. b \<noteq> 0) (before_gap (processor_name cpuid)) \<and>
    vendor_string (cpuinfo_initialize True cpuid r) = le32 b0 @ le32 d0 @ le32 c0 @ [0] \<and>
    featureset (cpuinfo_initialize True cpuid r) = ucast d1 OR push_bit 32 (ucast c1) \<and>
    uint (family (cpuinfo_initialize True cpuid r)) =
      (let f = uint a1 div 2 ^ 8 mod 16 in if f = 15 then f + uint a1 div 2 ^ 20 mod 256 else f) \<and>
    uint (model (cpuinfo_initialize True cpuid r)) =
      (let f = uint a1 div 2 ^ 8 mod 16; n = uint a1 div 2 ^ 4 mod 16
       in if f = 6 \<or> f = 15 then n + 16 * (uint a1 div 2 ^ 16 mod 16) else n) \<and>
    supported (cpuinfo_initialize True cpuid r) = supported r"
proof -
  let ?c = "cpuinfo_initialize True cpuid r"
  let ?b = "fold cut_spaces [0..<47] (fold (put_brand cpuid) [0..<3] (brand_string r))"
  let ?v = "put32 8 c0 (put32 4 d0 (put32 0 b0 ((vendor_string r)[12 := 0])))"
  define B where "B = ?b"
  define V where "V = ?v"
  let ?r = "cpuinfo_version a1 (r\<lparr>brand_string := B, vendor_string := V\<rparr>)"
  obtain a2 b2 c2 d2 a3 b3 c3 d3 where leaf: "cpuid 0x16 = (a2, b2, c2, d2)" "cpuid 0x15 = (a3, b3, c3, d3)"
    by (metis prod_cases4)
  have c: "?c = ?r\<lparr>featureset := ucast d1 OR push_bit 32 (ucast c1), base_frequency := ucast (a2 AND 0xffff),
      max_frequency := ucast (b2 AND 0xffff), bus_frequency := ucast (c2 AND 0xffff),
      tsc_ratio_denom := a3, tsc_ratio_numer := b3, core_crystal_freq := c3\<rparr>"
    unfolding cpuinfo_initialize_def Let_def assms(3,4) leaf prod.case B_def V_def by simp
  have b: "B = cut_gaps (processor_name cpuid)"
    unfolding B_def brand_fold [OF assms(1)] processor_name_def [symmetric]
    by (rule cut_spaces_gaps) (simp add: processor_name_def)
  have d12: "(drop 12 (vendor_string r))[0 := 0] = [0 :: u8]"
  proof -
    have "length (drop 12 (vendor_string r)) = Suc 0" using assms(2) by simp
    then obtain x where "drop 12 (vendor_string r) = [x]" unfolding length_Suc_conv by auto
    then show ?thesis by simp
  qed
  have v: "V = le32 b0 @ le32 d0 @ le32 c0 @ [0]"
    unfolding V_def using assms(2) by (simp add: put32_bytes le32_def drop_update_swap d12)
  have "takeWhile (\<lambda>b. b \<noteq> 0) B = takeWhile (\<lambda>b. b \<noteq> 0) (before_gap (processor_name cpuid))"
    by (simp only: b cut_gaps_before)
  then show ?thesis
    unfolding c using cpuinfo_version_fields [of a1 "r\<lparr>brand_string := B, vendor_string := V\<rparr>"] v by simp
qed

text \<open>A processor named QEMU, of family 6 and model 0x3a.\<close>

definition cpuid_example :: cpuid where
  "cpuid_example n =
     (if n = 0x80000002 then (0x554d4551, 0x58582020, 0, 0)
      else if n = 0 then (0xd, 0x756e6547, 0x6c65746e, 0x49656e69)
      else if n = 1 then (0x306a9, 0, 0x1, 0x80000000) else (0, 0, 0, 0))"

theorem cpuinfo_initialize_correct_witness:
  "takeWhile (\<lambda>b. b \<noteq> 0) (brand_string (cpuinfo_initialize True cpuid_example cpuinfo_zero)) = [0x51, 0x45, 0x4d, 0x55] \<and>
    uint (model (cpuinfo_initialize True cpuid_example cpuinfo_zero)) = 0x3a"
proof -
  have "before_gap (processor_name cpuid_example) = [0x51, 0x45, 0x4d, 0x55]"
    by (simp add: processor_name_def brand_bytes_def le32_def cpuid_example_def)
  moreover have "length (brand_string cpuinfo_zero) = 48" "length (vendor_string cpuinfo_zero) = 13"
    "cpuid_example 0 = (0xd, 0x756e6547, 0x6c65746e, 0x49656e69)" "cpuid_example 1 = (0x306a9, 0, 0x1, 0x80000000)"
    by (simp_all add: cpuinfo_zero_def cpuid_example_def)
  note cpuinfo_initialize_correct [OF this]
  ultimately show ?thesis by simp
qed

end
