(* ===== verification/Spec2Isabelle.thy ===== *)
theory Spec2Isabelle
  imports Prelude Addrutil Memutil Bitmap Pmm Palloc Paging Paging_Tree Paging_Protect Vmm Kalloc Strutil Font Terminal Printf Hw Pic Descriptors Cow Memutil_Sse Nvme_Run Registry Elf_Load Pci_Scan Partition_Load Boot_Run
begin

text \<open>
  A verification development for the shedOS kernel (the C and assembler files under
  \<^verbatim>\<open>src/kernel/src\<close>).

  \<^bold>\<open>The program.\<close> The bootloader enters \<^verbatim>\<open>_start\<close> (\<^verbatim>\<open>start.c\<close>), which takes the memory
  map and the framebuffer from the tags of the loader and initialises, in this order, physical memory,
  page tables, the heap, the terminal, the descriptor tables, the ACPI tables, the interrupt controllers and
  the timer, creates a task from an ELF image and switches to it. From then on the kernel runs in the
  handlers of interrupts, exceptions and system calls. The PCI, NVMe, partition and device code is
  part of the kernel but is not called from \<^verbatim>\<open>_start\<close>.

  \<^bold>\<open>The state.\<close> Memory is a function from 64-bit addresses to bytes, structures are read and written
  at their C offsets by accessors named after their fields. Static variables are fields of records
  that extend each other in the order in which the components build on each other: \<open>pmm\<close>, \<open>vm\<close>
  (page tables and the processor's cr3), \<open>hw\<close> (trace of device accesses, log of messages), \<open>sdt\<close>,
  \<open>apic\<close>, \<open>hpet_state\<close>, \<open>kernel\<close> (tasks, timer), \<open>partition_state\<close>, \<open>device_state\<close>,
  \<open>boot\<close>. An operation that cannot return (a failed assertion, a fault, a loop that does not end, an
  access the C code has no right to) is the value \<open>None\<close>; an unsigned integer has its width and wraps
  around, the signed arithmetic of the terminal is \<open>None\<close> when a value leaves 32 bits (\<open>int32\<close>).
  What a device register reads as is a parameter, a function of all accesses before.

  \<^bold>\<open>The theories.\<close>
  \<^item> \<open>Prelude\<close>: words, bytes of memory, loads and stores, loops over lists that may fail.
  \<^item> \<open>Addrutil\<close>, \<open>Memutil\<close>, \<open>Memutil_Sse\<close>, \<open>Bitmap\<close>, \<open>Strutil\<close>: \<^verbatim>\<open>memory/addrutil.c\<close>,
    \<^verbatim>\<open>libk/memutil.c\<close> and \<^verbatim>\<open>.S\<close>, \<^verbatim>\<open>memory/bitmap.c\<close>, \<^verbatim>\<open>libk/strutil.c\<close>: round trips
    of addresses and numbers, closed forms of copies and comparisons, the assembler copy against the
    loop in C.
  \<^item> \<open>Pmm\<close>, \<open>Palloc\<close>: \<^verbatim>\<open>memory/pmm.c\<close> and the page functions of \<^verbatim>\<open>libk/alloc.c\<close>: the bitmap
    and the counters agree (\<open>pmm_inv\<close>), a request grants the first run of free pages, a release
    frees exactly its pages, the initialisation establishes the invariant.
  \<^item> \<open>Paging\<close>, \<open>Paging_Tree\<close>, \<open>Paging_Copy\<close>, \<open>Paging_Protect\<close>, \<open>Vmm\<close>:
    \<^verbatim>\<open>memory/paging.c\<close>, \<^verbatim>\<open>memory/vmm.c\<close>: the four levels of tables form a tree of
    frames of their own (\<open>tables_ok\<close>); mapping changes one translation and no other, and unmapping undoes it; a copy of an address space translates as its
    parent where the parent has tables, and write protection clears one flag of each translation.
  \<^item> \<open>Kalloc\<close>: the heap of \<^verbatim>\<open>libk/alloc.c\<close> as a list of chunks laid out in memory (\<open>heap_ok\<close>):
    first fit, growth by pages, allocation and release.
  \<^item> \<open>Font\<close>, \<open>Terminal\<close>, \<open>Printf\<close>: \<^verbatim>\<open>terminal/*.c\<close>, \<^verbatim>\<open>libk/printf.c\<close>, \<^verbatim>\<open>timer_format\<close>:
    the pixels refine a grid of characters in modes of less than \<open>2 ^ 31\<close> bytes; a message is the
    time stamp, the level in its colour and the rendering of the format, for all conversions but
    \<^verbatim>\<open>%b\<close> of a negative number, which overflows the buffer, and unknown ones, which print what the
    buffer held before.
  \<^item> \<open>Hw\<close>, \<open>Pic\<close>, \<open>Descriptors\<close>, \<open>Sdt\<close>, \<open>Apic\<close>, \<open>Hpet\<close>: \<^verbatim>\<open>cpu/cpu.S\<close>,
    \<^verbatim>\<open>interrupts/*.c\<close>, \<^verbatim>\<open>gdt/*\<close>, \<^verbatim>\<open>sdt/sdt.c\<close>: the tables found and checked, the values
    written to the controllers and the timer.
  \<^item> \<open>Task\<close>, \<open>Sched\<close>, \<open>Syscall\<close>, \<open>Cow\<close>, \<open>Elf_Load\<close>: \<^verbatim>\<open>task/*\<close>, \<^verbatim>\<open>syscall/*\<close>,
    \<^verbatim>\<open>memory/cow.c\<close>, the stubs of \<^verbatim>\<open>interrupts.S\<close>: the round robin of tasks refines a rotation
    of a list, contexts are saved and restored, no task waits for ever, a page shared for reading is
    copied before it is written, the segments of an ELF image get pages of their own with the bytes of
    the image.
  \<^item> \<open>Drive\<close>, \<open>Partition\<close>, \<open>Partition_Load\<close>, \<open>Device\<close>, \<open>Registry\<close>: \<^verbatim>\<open>device/*\<close>,
    \<^verbatim>\<open>vfs/*\<close>, \<^verbatim>\<open>userspace/*\<close>, \<^verbatim>\<open>debug.c\<close>: reading bytes of a drive that is read by
    blocks, the table of partitions, the tables of devices and functions.
  \<^item> \<open>Pci_Config\<close>, \<open>Nvme\<close>, \<open>Nvme_Init\<close>, \<open>Nvme_Read\<close>, \<open>Nvme_Run\<close>, \<open>Pci\<close>, \<open>Pci_Scan\<close>:
    \<^verbatim>\<open>pci/*.c\<close>: enumeration, capabilities, the queues of the controller. The configuration space
    is read at the offsets of the packed structures of \<^verbatim>\<open>pci.h\<close>, also where they differ from the
    hardware's (\<^verbatim>\<open>int_line\<close>).
  \<^item> \<open>Cpuinfo\<close>, \<open>Boot\<close>, \<open>Boot_Run\<close>: \<^verbatim>\<open>cpu/cpuinfo.c\<close>, \<^verbatim>\<open>start.c\<close>.

  \<^bold>\<open>Interfaces.\<close> What \<^verbatim>\<open>drive_read\<close> asks of the function that reads blocks is the locale
  \<open>block_device\<close> of \<open>Drive\<close>; \<open>Nvme_Read\<close> interprets it on the NVMe driver, for every controller
  that follows the protocol of the queues (\<open>nvme_conforms\<close>, the documented behaviour of code that is not
  here; \<open>Nvme_Run\<close> gives a controller that does). The other locales stand beside the components
  that rely on them and are interpreted on the operations of the code.

  \<^bold>\<open>Bounds and loops.\<close> There is no fuel: loops over a range are folds, loops that depend on
  memory or on a device are partial functions whose result \<open>None\<close> means that they do not return, and
  the theorems about them say when they do. Page tables and heap are treated for up to
  \<open>2 ^ 28\<close> pages of memory where the heap is involved, as the heap's addresses follow the window of physical memory.

  \<^bold>\<open>Not modelled.\<close> The processor is modelled by its effects on the state: the translation of the
  kernel's own pointers is the identity on the window of physical memory, caches and the translation
  buffer are a list of invalidations. Output to the screen of other components is a log of messages; only
  \<open>Printf\<close> and \<open>Terminal\<close> render them. Timing and simultaneous interrupts are left out, the kernel's
  handlers run with interrupts off. The tags of \<^verbatim>\<open>stivale2.h\<close> and the parts of \<^verbatim>\<open>elf.h\<close>
  and \<^verbatim>\<open>sdt_structs.h\<close> that no code reads are declarations without behaviour. The test programs
  and the build files are not part of the kernel.

  \<^bold>\<open>Still to be proved\<close>: that the image is intact when \<^verbatim>\<open>task_create\<close> has allocated the
  task and copied the kernel's tables (the loading of its segments starts from that), that a forked task
  resumes as a copy of its parent (it needs free frames without present entries, see
  \<open>Paging_Copy\<close>), the initialisation of the NVMe queues, and the order of the
  initialisations in \<^verbatim>\<open>_start\<close> as the preconditions of the components' theorems.
\<close>

end
